(* ===== verification/MS_Prelude.thy ===== *)
theory MS_Prelude
  imports Main "HOL-Library.Word"
begin

text \<open>
  Vocabulary shared by every component: the machine types of the crate's default build
  (\<open>NumericType = u64\<close>, \<open>usize\<close> of a 64-bit target), the shape of results, the atomic
  read-modify-write primitives of \<open>core::sync::atomic\<close>, and the small facts on lists and
  words that the component theories use.  Every atomic access is one indivisible step of a
  sequentially consistent memory; the orderings are added in \<open>Memory_Orders\<close>.
\<close>

unbundle bit_operations_syntax

named_theorems ms_defs \<open>one-step unfoldings of the modelled operations\<close>
named_theorems gen_simps \<open>reading generation words as positions\<close>
named_theorems frame_simps \<open>fields an operation leaves alone\<close>

section \<open>Machine types\<close>

type_synonym gen = "64 word"
type_synonym usize = "64 word"

abbreviation USIZE_MAX :: usize where
  "USIZE_MAX \<equiv> - 1"

section \<open>Outcomes\<close>

text \<open>A call that returns, or panics (a failed \<open>assert!\<close>, a \<open>panic!\<close>).\<close>

datatype 'r outcome = Returns 'r | Panics

text \<open>
  One turn of a loop body: leave the loop with a value, or go round again.  \<open>run_loop\<close> runs
  a body alone, with nobody else acting between its turns; \<open>None\<close> is a loop that is never
  left.
\<close>

datatype 'r flow = Return 'r | Continue

partial_function (option) run_loop :: "('s \<Rightarrow> 'r flow \<times> 's) \<Rightarrow> 's \<Rightarrow> ('r \<times> 's) option" where
  "run_loop body s =
     (case body s of (Return r, s') \<Rightarrow> Some (r, s') | (Continue, s') \<Rightarrow> run_loop body s')"

declare run_loop.simps [code]

lemma run_loop_Return: "body s = (Return r, s') \<Longrightarrow> run_loop body s = Some (r, s')"
  by (subst run_loop.simps) simp

lemma run_loop_Continue: "body s = (Continue, s') \<Longrightarrow> run_loop body s = run_loop body s'"
  by (subst run_loop.simps) simp

text \<open>A body that goes round without changing anything is never left.\<close>

lemma run_loop_stuck: 
  assumes "body s = (Continue, s)"
  shows "run_loop body s = None"
proof (cases "run_loop body s")
  case (Some rs)
  have "P" if "run_loop body s = Some rs" for P
  proof -
    have "body s' = (Continue, s') \<longrightarrow> False" if "run_loop body s' = Some (r, t)" for s' r t
      by (rule run_loop.raw_induct [where P = "\<lambda>body s' r. body s' = (Continue, s') \<longrightarrow> False", OF _ that])
        (auto split: flow.splits prod.splits)
    with assms that show P by (metis surj_pair)
  qed
  with Some show ?thesis by blast
qed simp

section \<open>Atomic cells\<close>

text \<open>
  \<open>compare_exchange\<close>: \<open>Ok\<close> of the old value and the new one stored, or \<open>Err\<close> of the
  value found and the cell unchanged.
\<close>

definition compare_exchange :: "'w \<Rightarrow> 'w \<Rightarrow> 'w \<Rightarrow> ('w + 'w) \<times> 'w" where
  "compare_exchange cell expected new =
     (if cell = expected then (Inr cell, new) else (Inl cell, cell))"

lemma compare_exchange_hit [simp]: "compare_exchange c c n = (Inr c, n)"
  by (simp add: compare_exchange_def)

lemma compare_exchange_miss [simp]: "c \<noteq> e \<Longrightarrow> compare_exchange c e n = (Inl c, c)"
  by (simp add: compare_exchange_def)

section \<open>Lists updated in place\<close>

lemma nth_list_update_if:
  "i < length xs \<Longrightarrow> xs[i := x] ! j = (if j = i then x else xs ! j)"
  by simp

lemma list_all_update:
  "list_all P xs \<Longrightarrow> P x \<Longrightarrow> list_all P (xs[i := x])"
  by (auto simp: list_all_iff dest!: set_update_subset_insert [THEN subsetD])

lemma all_set_update:
  "(\<And>y. y \<in> set xs \<Longrightarrow> P y) \<Longrightarrow> P x \<Longrightarrow> y \<in> set (xs[i := x]) \<Longrightarrow> P y"
  by (auto dest!: set_update_subset_insert [THEN subsetD])

section \<open>Residues\<close>

text \<open>Two numbers closer than \<open>c\<close> that agree modulo \<open>c\<close> are equal.\<close>

lemma mod_eq_close:
  fixes a b c :: nat
  assumes "a mod c = b mod c" and "a \<le> b" and "b < a + c"
  shows "a = b"
proof -
  from assms(1,2) have "c dvd b - a"
    by (metis mod_eq_dvd_iff_nat)
  moreover have "b - a < c" using assms(2,3) by linarith
  ultimately have "b - a = 0" by (meson dvd_imp_le not_le zero_less_iff_neq_zero)
  with assms(2) show ?thesis by simp
qed

lemma mod_neq_close:
  fixes a b c :: nat
  shows "a \<noteq> b \<Longrightarrow> a < b + c \<Longrightarrow> b < a + c \<Longrightarrow> a mod c \<noteq> b mod c"
  by (metis mod_eq_close nat_le_linear)

section \<open>Words\<close>

lemma unat_min_word: "unat (min a b) = min (unat a) (unat b)" for a b :: "'a::len word"
  by (simp add: min_def word_le_nat_alt)

lemma word_of_nat_le64: "unat x \<le> n \<Longrightarrow> n < 2 ^ 64 \<Longrightarrow> unat (of_nat n :: 64 word) = n"
  by (simp add: unat_of_nat take_bit_nat_eq_self)

lemma unat_of_nat64: "n < 2 ^ 64 \<Longrightarrow> unat (of_nat n :: 64 word) = n"
  by (simp add: unat_of_nat take_bit_nat_eq_self)

lemma unat_mono_mod: "unat (a mod b) = unat a mod unat b" for a b :: "'a::len word"
  by (simp add: unat_mod_distrib)

end
