(* ===== verification/Storage.thy ===== *)
theory Storage
  imports MS_Prelude
begin

text \<open>
  \<open>src/storage.rs\<close>: the storages an area is made of, over a heap of blocks.  A pointer is the
  number of a block; an operation is \<open>None\<close> where the source has undefined behaviour (a block
  that was freed, or that has another length than the one it is freed with).  The trait
  \<open>FixedStorage\<close> and its extension \<open>FixedStorageMultiple\<close> are locales, the four
  implementations interpret them.
\<close>

section \<open>The heap\<close>

text \<open>Blocks in the order of their allocation; \<open>None\<close> is a block that was freed.\<close>

type_synonym 'v heap = "'v list option list"

definition block :: "nat \<Rightarrow> 'v heap \<Rightarrow> 'v list option" where
  "block p h = (if p < length h then h ! p else None)"

text \<open>\<open>Box::new\<close> and \<open>Vec::into_boxed_slice\<close> with \<open>Box::into_raw\<close>.\<close>

definition allocate :: "'v list \<Rightarrow> 'v heap \<Rightarrow> nat \<times> 'v heap" where
  "allocate vs h = (length h, h @ [Some vs])"

text \<open>\<open>NonNull::as_ref\<close>.\<close>

definition ptr_as_ref :: "nat \<Rightarrow> 'v heap \<Rightarrow> 'v option" where
  "ptr_as_ref p h = (case block p h of Some (v # _) \<Rightarrow> Some v | _ \<Rightarrow> None)"

definition from_raw_parts :: "nat \<Rightarrow> usize \<Rightarrow> 'v heap \<Rightarrow> 'v list option" where
  "from_raw_parts p n h =
     (case block p h of
        None \<Rightarrow> None
      | Some vs \<Rightarrow> if unat n \<le> length vs then Some (take (unat n) vs) else None)"

text \<open>
  \<open>Box::from_raw\<close> and the drop of the box, whose layout has \<open>n\<close> values: the values are
  dropped first, by \<open>drop_value\<close>, then the block is freed.
\<close>

fun drop_values :: "('v \<Rightarrow> 'v heap \<Rightarrow> 'v heap option) \<Rightarrow> 'v list \<Rightarrow> 'v heap \<Rightarrow> 'v heap option" where
  "drop_values drop_value [] h = Some h"
| "drop_values drop_value (v # vs) h =
     (case drop_value v h of None \<Rightarrow> None | Some h' \<Rightarrow> drop_values drop_value vs h')"

definition drop_box :: "('v \<Rightarrow> 'v heap \<Rightarrow> 'v heap option) \<Rightarrow> nat \<Rightarrow> nat \<Rightarrow> 'v heap \<Rightarrow> 'v heap option" where
  "drop_box drop_value p n h =
     (case block p h of
        None \<Rightarrow> None
      | Some vs \<Rightarrow>
          if length vs = n
          then (case drop_values drop_value vs h of
                  None \<Rightarrow> None
                | Some h' \<Rightarrow> if block p h' = None then None else Some (h'[p := None]))
          else None)"

section \<open>The implementations\<close>

text \<open>\<open>BoxedStorage\<close>.\<close>

record boxed_storage =
  boxed_ptr :: nat

definition boxed_from_boxed :: "nat \<Rightarrow> boxed_storage" where
  "boxed_from_boxed p = \<lparr>boxed_ptr = p\<rparr>"

definition boxed_new :: "'v \<Rightarrow> 'v heap \<Rightarrow> boxed_storage \<times> 'v heap" where
  "boxed_new v h = (let (p, h') = allocate [v] h in (boxed_from_boxed p, h'))"

definition boxed_deallocate :: "('v \<Rightarrow> 'v heap \<Rightarrow> 'v heap option) \<Rightarrow> boxed_storage \<Rightarrow> 'v heap \<Rightarrow> 'v heap option" where
  "boxed_deallocate drop_value st h = drop_box drop_value (boxed_ptr st) 1 h"

text \<open>\<open>BoxedSliceStorage\<close>.\<close>

record boxed_slice_storage =
  slice_ptr :: nat
  slice_capacity :: usize

definition from_boxed_slice :: "nat \<Rightarrow> nat \<Rightarrow> boxed_slice_storage" where
  "from_boxed_slice p len = \<lparr>slice_ptr = p, slice_capacity = of_nat len\<rparr>"

text \<open>The loop that fills the vector; the closure has a state of its own.\<close>

fun push_all :: "nat \<Rightarrow> ('st \<Rightarrow> 'v \<times> 'st) \<Rightarrow> 'st \<Rightarrow> 'v list \<Rightarrow> 'v list \<times> 'st" where
  "push_all 0 init st v = (v, st)"
| "push_all (Suc n) init st v = (let (x, st') = init st in push_all n init st' (v @ [x]))"

definition slice_with_capacity_and_init ::
  "usize \<Rightarrow> ('st \<Rightarrow> 'v \<times> 'st) \<Rightarrow> 'st \<Rightarrow> 'v heap \<Rightarrow> boxed_slice_storage \<times> 'st \<times> 'v heap" where
  "slice_with_capacity_and_init capacity init st h =
     (let (v, st') = push_all (unat capacity) init st []; (p, h') = allocate v h in
      (from_boxed_slice p (length v), st', h'))"

definition boxed_slice_deallocate ::
  "('v \<Rightarrow> 'v heap \<Rightarrow> 'v heap option) \<Rightarrow> boxed_slice_storage \<Rightarrow> 'v heap \<Rightarrow> 'v heap option" where
  "boxed_slice_deallocate drop_value st h = drop_box drop_value (slice_ptr st) (unat (slice_capacity st)) h"

text \<open>\<open>StaticStorage\<close> and \<open>StaticSliceStorage\<close>: memory of somebody else.\<close>

record static_storage =
  static_ptr :: nat

definition static_from_raw :: "nat \<Rightarrow> static_storage" where
  "static_from_raw p = \<lparr>static_ptr = p\<rparr>"

definition static_deallocate :: "static_storage \<Rightarrow> 'v heap \<Rightarrow> 'v heap option" where
  "static_deallocate st h = Some h"

record static_slice_storage =
  static_slice_ptr :: nat
  static_slice_capacity :: usize

text \<open>\<open>from_static\<close> takes the block as it is, \<open>from_raw\<close> a capacity the caller vouches for.\<close>

definition from_static :: "nat \<Rightarrow> 'v heap \<Rightarrow> static_slice_storage" where
  "from_static p h =
     \<lparr>static_slice_ptr = p,
      static_slice_capacity = (case block p h of Some vs \<Rightarrow> of_nat (length vs) | None \<Rightarrow> 0)\<rparr>"

definition static_slice_from_raw :: "nat \<Rightarrow> usize \<Rightarrow> static_slice_storage" where
  "static_slice_from_raw p capacity = \<lparr>static_slice_ptr = p, static_slice_capacity = capacity\<rparr>"

definition static_slice_deallocate :: "static_slice_storage \<Rightarrow> 'v heap \<Rightarrow> 'v heap option" where
  "static_slice_deallocate st h = Some h"

section \<open>The traits\<close>

definition same_outside :: "nat set \<Rightarrow> 'v heap \<Rightarrow> 'v heap \<Rightarrow> bool" where
  "same_outside A h h' \<longleftrightarrow> length h' = length h \<and> (\<forall>p. p \<notin> A \<longrightarrow> block p h' = block p h)"

lemma same_outside_refl [simp]: "same_outside A h h"
  by (simp add: same_outside_def)

lemma same_outside_trans: "same_outside A h h' \<Longrightarrow> same_outside B h' h'' \<Longrightarrow> same_outside (A \<union> B) h h''"
  by (simp add: same_outside_def)

lemma same_outside_mono: "same_outside A h h' \<Longrightarrow> A \<subseteq> B \<Longrightarrow> same_outside B h h'"
  by (auto simp: same_outside_def)

lemma block_update: "block q (h[p := x]) = (if q = p \<and> p < length h then x else block q h)"
  by (auto simp: block_def)

lemma same_outside_free: "same_outside {p} h (h[p := None])"
  by (auto simp: same_outside_def block_update)

text \<open>
  What the areas rely on: deallocating a valid storage of values that need no drop is defined
  and touches no other block, and a storage stays valid when other blocks are touched.
\<close>

locale fixed_storage =
  fixes as_ptr :: "'s \<Rightarrow> nat"
    and deallocate :: "'s \<Rightarrow> 'v heap \<Rightarrow> 'v heap option"
    and valid :: "'s \<Rightarrow> 'v heap \<Rightarrow> bool"
  assumes deallocate_valid: "valid st h \<Longrightarrow> \<exists>h'. deallocate st h = Some h' \<and> same_outside {as_ptr st} h h'"
    and valid_frame: "valid st h \<Longrightarrow> same_outside A h h' \<Longrightarrow> as_ptr st \<notin> A \<Longrightarrow> valid st h'"
begin

lemma deallocate_two:
  assumes "valid st h" and "valid su h" and "as_ptr st \<noteq> as_ptr su"
  shows "\<exists>h' h''. deallocate st h = Some h' \<and> deallocate su h' = Some h'' \<and>
    same_outside {as_ptr st, as_ptr su} h h''"
proof -
  obtain h' where h': "deallocate st h = Some h'" "same_outside {as_ptr st} h h'"
    using deallocate_valid [OF assms(1)] by blast
  have "valid su h'" using valid_frame [OF assms(2) h'(2)] assms(3) by simp
  then obtain h'' where "deallocate su h' = Some h''" "same_outside {as_ptr su} h' h''"
    using deallocate_valid by blast
  with h' same_outside_trans [OF h'(2)] show ?thesis by (auto simp: insert_commute)
qed

end

text \<open>\<open>slice\<close> is a default method of the extended trait.\<close>

locale fixed_storage_multiple = fixed_storage as_ptr deallocate valid
  for as_ptr :: "'s \<Rightarrow> nat" and deallocate :: "'s \<Rightarrow> 'v heap \<Rightarrow> 'v heap option" and valid +
  fixes capacity :: "'s \<Rightarrow> usize"
  assumes slice_valid: "valid st h \<Longrightarrow> \<exists>vs. from_raw_parts (as_ptr st) (capacity st) h = Some vs"
begin

lemma slice_length: "valid st h \<Longrightarrow> from_raw_parts (as_ptr st) (capacity st) h = Some vs \<Longrightarrow> length vs = unat (capacity st)"
  by (auto simp: from_raw_parts_def split: option.splits if_splits)

lemma slice_stays:
  assumes "from_raw_parts (as_ptr st) (capacity st) h = Some vs" and "same_outside A h h'" and "as_ptr st \<notin> A"
  shows "from_raw_parts (as_ptr st) (capacity st) h' = Some vs"
  using assms by (simp add: from_raw_parts_def same_outside_def)

end

text \<open>Values that need no drop: atomics, slots of the table, cells of the ring.\<close>

definition no_drop :: "'v \<Rightarrow> 'v heap \<Rightarrow> 'v heap option" where
  "no_drop v h = Some h"

lemma drop_values_no_drop [simp]: "drop_values no_drop vs h = Some h"
  by (induction vs arbitrary: h) (simp_all add: no_drop_def)

lemma drop_box_no_drop: "block p h = Some vs \<Longrightarrow> drop_box no_drop p (length vs) h = Some (h[p := None])"
  by (simp add: drop_box_def)

definition boxed_valid :: "boxed_storage \<Rightarrow> 'v heap \<Rightarrow> bool" where
  "boxed_valid st h \<longleftrightarrow> (\<exists>v. block (boxed_ptr st) h = Some [v])"

definition boxed_slice_valid :: "boxed_slice_storage \<Rightarrow> 'v heap \<Rightarrow> bool" where
  "boxed_slice_valid st h \<longleftrightarrow> (\<exists>vs. block (slice_ptr st) h = Some vs \<and> length vs = unat (slice_capacity st))"

definition static_valid :: "static_storage \<Rightarrow> 'v heap \<Rightarrow> bool" where
  "static_valid st h \<longleftrightarrow> ptr_as_ref (static_ptr st) h \<noteq> None"

definition static_slice_valid :: "static_slice_storage \<Rightarrow> 'v heap \<Rightarrow> bool" where
  "static_slice_valid st h \<longleftrightarrow> from_raw_parts (static_slice_ptr st) (static_slice_capacity st) h \<noteq> None"

lemma boxed_frees: "boxed_valid st h \<Longrightarrow> boxed_deallocate no_drop st h = Some (h[boxed_ptr st := None])"
  using drop_box_no_drop [of "boxed_ptr st" h] by (fastforce simp: boxed_valid_def boxed_deallocate_def)

lemma boxed_slice_frees:
  "boxed_slice_valid st h \<Longrightarrow> boxed_slice_deallocate no_drop st h = Some (h[slice_ptr st := None])"
  using drop_box_no_drop [of "slice_ptr st" h] by (fastforce simp: boxed_slice_valid_def boxed_slice_deallocate_def)

interpretation boxed: fixed_storage boxed_ptr "boxed_deallocate no_drop" boxed_valid
  by unfold_locales (auto simp: boxed_frees same_outside_free, auto simp: boxed_valid_def same_outside_def)

interpretation boxed_slice: fixed_storage_multiple slice_ptr "boxed_slice_deallocate no_drop" boxed_slice_valid slice_capacity
  by unfold_locales (auto simp: boxed_slice_frees same_outside_free,
      auto simp: boxed_slice_valid_def same_outside_def from_raw_parts_def)

interpretation static: fixed_storage static_ptr static_deallocate static_valid
  by unfold_locales (auto simp: static_deallocate_def static_valid_def ptr_as_ref_def same_outside_def)

interpretation static_slice: fixed_storage_multiple static_slice_ptr static_slice_deallocate static_slice_valid static_slice_capacity
  by unfold_locales (auto simp: static_slice_deallocate_def static_slice_valid_def from_raw_parts_def same_outside_def)

end
