(* ===== verification/Arithmetics.thy ===== *)
theory Arithmetics
  imports MS_Prelude
begin

text \<open>
  \<open>src/arithmetics.rs\<close>, and the two helpers on the suspended bit of \<open>src/area.rs\<close>.
  A generation is a word whose top bit is not part of the number: the definitions are
  polymorphic in the width, as the source is in its \<open>small-gen\<close> feature (\<open>u32\<close>) and its
  default (\<open>u64\<close>).  The lemmas read the masked operations as arithmetic on the positions of
  generations counted from a base, which is how every other theory uses them.
\<close>

section \<open>Definitions\<close>

definition MSB :: "'a::len word" where
  "MSB = (- 1) - drop_bit 1 (- 1)"

definition gen_dist_msb_masked :: "'a::len word \<Rightarrow> 'a word \<Rightarrow> 'a word" where
  "gen_dist_msb_masked a b = (a - b) AND NOT MSB"

definition gen_gte_msb_masked :: "'a::len word \<Rightarrow> 'a word \<Rightarrow> bool" where
  "gen_gte_msb_masked a b \<longleftrightarrow> (a - b) AND NOT MSB \<le> (- 1) div 4"

definition gen_add_msb_masked :: "'a::len word \<Rightarrow> 'a word \<Rightarrow> 'a word" where
  "gen_add_msb_masked a b = (a + b) AND NOT MSB"

definition gen_lte_msb_masked :: "'a::len word \<Rightarrow> 'a word \<Rightarrow> bool" where
  "gen_lte_msb_masked a b \<longleftrightarrow> gen_gte_msb_masked b a"

definition gen_gt_msb_masked :: "'a::len word \<Rightarrow> 'a word \<Rightarrow> bool" where
  "gen_gt_msb_masked a b \<longleftrightarrow> a \<noteq> b \<and> gen_gte_msb_masked a b"

definition gen_lt_msb_masked :: "'a::len word \<Rightarrow> 'a word \<Rightarrow> bool" where
  "gen_lt_msb_masked a b \<longleftrightarrow> gen_gt_msb_masked b a"

definition SUSPENDED_BIT :: "'a::len word" where
  "SUSPENDED_BIT = MSB"

definition gen_without_suspended_bit :: "'a::len word \<Rightarrow> 'a word" where
  "gen_without_suspended_bit generation = generation AND NOT SUSPENDED_BIT"

definition is_suspended :: "'a::len word \<Rightarrow> bool" where
  "is_suspended generation \<longleftrightarrow> generation AND SUSPENDED_BIT \<noteq> 0"

section \<open>The mask\<close>

lemma max_shifted: "(drop_bit 1 (- 1) :: 'a::len word) = mask (LENGTH('a) - 1)"
  by (rule bit_word_eqI) (auto simp: bit_simps)

lemma MSB_complement: "(MSB :: 'a::len word) = NOT (mask (LENGTH('a) - 1))"
  unfolding MSB_def max_shifted by (simp add: not_eq_complement)

lemma NOT_MSB: "(NOT MSB :: 'a::len word) = mask (LENGTH('a) - 1)"
  by (simp only: MSB_complement bit.double_compl)

lemma MSB_eq: "(MSB :: 'a::len word) = 2 ^ (LENGTH('a) - 1)"
  unfolding MSB_complement by (rule bit_word_eqI) (auto simp: bit_simps)

lemma masked_take_bit: "x AND NOT MSB = take_bit (LENGTH('a) - 1) x" for x :: "'a::len word"
  by (simp only: NOT_MSB take_bit_eq_mask)

lemma unat_masked: "unat (x AND NOT MSB) = unat x mod 2 ^ (LENGTH('a) - 1)" for x :: "'a::len word"
  by (simp only: masked_take_bit unsigned_take_bit_eq) (simp only: take_bit_eq_mod)

lemma uint_masked: "uint (x AND NOT MSB) = uint x mod 2 ^ (LENGTH('a) - 1)" for x :: "'a::len word"
  by (simp only: masked_take_bit unsigned_take_bit_eq) (simp only: take_bit_eq_mod)

lemma unat_quarter: "3 \<le> LENGTH('a) \<Longrightarrow> unat ((- 1) div 4 :: 'a::len word) = 2 ^ (LENGTH('a) - 2) - 1"
proof -
  assume L: "3 \<le> LENGTH('a)"
  then obtain n where n: "LENGTH('a) = n + 3" by (metis add.commute le_Suc_ex)
  have "(2::nat) ^ 2 < 2 ^ LENGTH('a)" using L by (intro power_strict_increasing) auto
  then have four_sq: "(4::nat) < 2 ^ LENGTH('a)" by simp
  have four: "unat (4 :: 'a word) = 4"
    using unat_of_nat [of 4, where 'a = 'a] mod_less [OF four_sq] by (simp only: of_nat_numeral)
  have m1: "unat (- 1 :: 'a word) = 2 ^ LENGTH('a) - 1"
    by (simp add: unsigned_minus_1_eq_mask mask_eq_exp_minus_1)
  have "unat ((- 1) div 4 :: 'a word) = (2 ^ LENGTH('a) - 1) div 4"
    by (simp only: unat_div_distrib four m1)
  also have "\<dots> = 2 ^ (LENGTH('a) - 2) - 1"
    using n by (simp add: power_add)
  finally show ?thesis .
qed

section \<open>Positions\<close>

text \<open>
  The position of a generation is its distance from a base, a natural number below
  \<open>2 ^ (width - 1)\<close>; the suspended bit does not count.
\<close>

definition pos :: "'a::len word \<Rightarrow> 'a word \<Rightarrow> nat" where
  "pos b v = unat (gen_dist_msb_masked v b)"

lemma uint_dist: "uint (gen_dist_msb_masked x y) = (uint x - uint y) mod 2 ^ (LENGTH('a) - 1)"
  for x y :: "'a::len word"
proof -
  have "(2::int) ^ (LENGTH('a) - 1) dvd 2 ^ LENGTH('a)" by (simp add: le_imp_power_dvd)
  then show ?thesis
    by (simp only: gen_dist_msb_masked_def uint_masked uint_word_ariths mod_mod_cancel)
qed

lemma int_pos: "int (pos b v) = (uint v - uint b) mod 2 ^ (LENGTH('a) - 1)"
  for b v :: "'a::len word"
  by (simp only: pos_def of_nat_unat uint_dist)

lemma pos_less: "pos b v < 2 ^ (LENGTH('a) - 1)" for b v :: "'a::len word"
proof -
  have "int (pos b v) < int (2 ^ (LENGTH('a) - 1))" by (simp add: int_pos)
  then show ?thesis by linarith
qed

lemma int_pos_less: "int (pos b v) < 2 ^ (LENGTH('a) - 1)" for b v :: "'a::len word"
  by (simp add: int_pos)

lemma pos_self [simp]: "pos b b = 0"
  by (simp add: pos_def gen_dist_msb_masked_def)

lemma uint_dist_pos:
  "uint (gen_dist_msb_masked x y) = (int (pos b x) - int (pos b y)) mod 2 ^ (LENGTH('a) - 1)"
  for x y b :: "'a::len word"
  by (simp only: uint_dist int_pos mod_simps) (simp add: algebra_simps)

lemma unat_dist_ge:
  fixes x y b :: "'a::len word"
  assumes "pos b y \<le> pos b x"
  shows "unat (gen_dist_msb_masked x y) = pos b x - pos b y"
proof -
  have "uint (gen_dist_msb_masked x y) = int (pos b x) - int (pos b y)"
    unfolding uint_dist_pos [where b = b] 
    using assms int_pos_less [of b x] by (intro mod_pos_pos_trivial) linarith+
  then show ?thesis using assms by (simp add: nat_diff_distrib unat_eq_nat_uint)
qed

lemma unat_dist_lt:
  fixes x y b :: "'a::len word"
  assumes "pos b x < pos b y"
  shows "unat (gen_dist_msb_masked x y) = 2 ^ (LENGTH('a) - 1) + pos b x - pos b y"
proof -
  let ?M = "2 ^ (LENGTH('a) - 1) :: nat"
  have "uint (gen_dist_msb_masked x y) = (int (pos b x) - int (pos b y) + int ?M) mod int ?M"
    unfolding uint_dist_pos [where b = b] by simp
  also have "\<dots> = int (pos b x) - int (pos b y) + int ?M"
    using assms pos_less [of b y] by (intro mod_pos_pos_trivial) linarith+
  finally show ?thesis using assms pos_less [of b y] unfolding unat_eq_nat_uint by linarith
qed

lemma gte_pos:
  fixes x y b :: "'a::len word"
  assumes L: "3 \<le> LENGTH('a)" and x: "pos b x < 2 ^ (LENGTH('a) - 2)" and y: "pos b y < 2 ^ (LENGTH('a) - 2)"
  shows "gen_gte_msb_masked x y \<longleftrightarrow> pos b y \<le> pos b x"
proof -
  have M: "2 ^ (LENGTH('a) - 1) = 2 * (2 ^ (LENGTH('a) - 2) :: nat)"
    using L by (metis One_nat_def Suc_1 Suc_diff_Suc Suc_le_lessD less_trans_Suc nat_less_le numeral_3_eq_3 power_Suc)
  have "gen_gte_msb_masked x y \<longleftrightarrow> unat (gen_dist_msb_masked x y) \<le> 2 ^ (LENGTH('a) - 2) - 1"
    by (simp only: gen_gte_msb_masked_def gen_dist_msb_masked_def word_le_nat_alt unat_quarter [OF L])
  also have "\<dots> \<longleftrightarrow> pos b y \<le> pos b x"
  proof (cases "pos b y \<le> pos b x")
    case True
    with x show ?thesis by (simp add: unat_dist_ge)
  next
    case False
    then have "unat (gen_dist_msb_masked x y) = 2 ^ (LENGTH('a) - 1) + pos b x - pos b y"
      by (intro unat_dist_lt) simp
    with y have "\<not> unat (gen_dist_msb_masked x y) \<le> 2 ^ (LENGTH('a) - 2) - 1"
      unfolding M by linarith
    with False show ?thesis by simp
  qed
  finally show ?thesis .
qed

lemma pos_congI:
  fixes b v :: "'a::len word"
  assumes "(uint v - uint b) mod 2 ^ (LENGTH('a) - 1) = int n mod 2 ^ (LENGTH('a) - 1)" and "n < 2 ^ (LENGTH('a) - 1)"
  shows "pos b v = n"
proof -
  have "int n < int (2 ^ (LENGTH('a) - 1))" using assms(2) by (simp only: of_nat_less_iff)
  then have "int (pos b v) = int n" unfolding int_pos assms(1)
    by (intro mod_pos_pos_trivial) simp_all
  then show ?thesis by simp
qed

lemma uint_add_masked: "uint (gen_add_msb_masked v n) = (uint v + uint n) mod 2 ^ (LENGTH('a) - 1)" for v n :: "'a::len word"
proof -
  have "(2::int) ^ (LENGTH('a) - 1) dvd 2 ^ LENGTH('a)" by (simp add: le_imp_power_dvd)
  then show ?thesis
    by (simp only: gen_add_msb_masked_def uint_masked uint_word_ariths mod_mod_cancel)
qed

lemma pos_add: 
  fixes b v n :: "'a::len word"
  assumes "pos b v + unat n < 2 ^ (LENGTH('a) - 1)"
  shows "pos b (gen_add_msb_masked v n) = pos b v + unat n"
proof (rule pos_congI)
  show "(uint (gen_add_msb_masked v n) - uint b) mod 2 ^ (LENGTH('a) - 1)
    = int (pos b v + unat n) mod 2 ^ (LENGTH('a) - 1)"
    by (simp only: uint_add_masked of_nat_add int_pos of_nat_unat mod_simps) (simp add: algebra_simps)
qed (rule assms)

lemma pos_strip [simp]: "pos b (v AND NOT MSB) = pos b v" for b v :: "'a::len word"
proof (rule pos_congI)
  show "(uint (v AND NOT MSB) - uint b) mod 2 ^ (LENGTH('a) - 1)
    = int (pos b v) mod 2 ^ (LENGTH('a) - 1)"
    by (simp only: uint_masked int_pos mod_simps mod_mod_trivial)
qed (rule pos_less)

lemma strip_or_MSB [simp]: "(v OR MSB) AND NOT MSB = v AND NOT MSB" for v :: "'a::len word"
  by (rule bit_word_eqI) (auto simp: bit_simps)

lemma pos_or_MSB [simp]: "pos b (v OR MSB) = pos b v" for b v :: "'a::len word"
  by (metis pos_strip strip_or_MSB)

lemma strip_id: "v AND MSB = 0 \<Longrightarrow> v AND NOT MSB = v" for v :: "'a::len word"
  by (metis bit.conj_disj_distrib bit.disj_cancel_right bit.conj_one_right or.left_neutral)

lemma pos_inj:
  fixes x y b :: "'a::len word"
  assumes "x AND MSB = 0" and "y AND MSB = 0" and "pos b x = pos b y"
  shows "x = y"
proof -
  have "unat (gen_dist_msb_masked x y) = 0" using unat_dist_ge [of b y x] assms(3) by simp
  then have "uint x mod 2 ^ (LENGTH('a) - 1) = uint y mod 2 ^ (LENGTH('a) - 1)"
    by (metis int_ops(1) mod_eq_dvd_iff mod_0_imp_dvd of_nat_unat uint_dist)
  then have "x AND NOT MSB = y AND NOT MSB"
    by (metis uint_masked word_uint_eqI)
  then show ?thesis by (simp add: strip_id assms)
qed

lemma gen_add_masked [simp]: "gen_add_msb_masked a b AND MSB = 0"
  by (simp add: gen_add_msb_masked_def and.assoc)

lemma gen_dist_masked [simp]: "gen_dist_msb_masked a b AND MSB = 0"
  by (simp add: gen_dist_msb_masked_def and.assoc)

lemma strip_masked [simp]: "(v AND NOT MSB) AND MSB = 0" for v :: "'a::len word"
  by (simp add: and.assoc)

lemma pos_eq_iff:
  "x AND MSB = 0 \<Longrightarrow> y AND MSB = 0 \<Longrightarrow> pos b x = pos b y \<longleftrightarrow> x = y"
  by (auto intro: pos_inj)

section \<open>The 64-bit instance\<close>

lemmas pos_less64 [simp] = pos_less [where 'a = 64, simplified]
lemmas gte_pos64 = gte_pos [where 'a = 64, simplified]
lemmas pos_add64 = pos_add [where 'a = 64, simplified]

lemma gt_pos64:
  fixes x y b :: gen
  assumes "pos b x < 2 ^ 62" and "pos b y < 2 ^ 62" and "x AND MSB = 0" and "y AND MSB = 0"
  shows "gen_gt_msb_masked x y \<longleftrightarrow> pos b y < pos b x"
  using assms by (auto simp: gen_gt_msb_masked_def gte_pos64 order_less_le pos_eq_iff)

lemma MSB64: "(MSB :: gen) = 2 ^ 63"
  by (simp add: MSB_eq)

lemma gen_zero_masked [simp]: "(0 :: gen) AND MSB = 0"
  by simp

end
