(* ===== verification/SlotMap.thy ===== *)
theory SlotMap
  imports Arithmetics
begin

text \<open>
  \<open>src/map.rs\<close>: \<open>SimpleLPHashMap\<close>, the fixed-capacity table with linear probing that
  holds the private generation number of every reader.  A slot is a key word (0 is empty,
  the top bit is \<open>IN_PROGRESS\<close>) and a value cell; the type variable \<open>'c\<close> stands for the
  contents of the cell, so \<open>'v maybe_uninit lpmap\<close> is a map whose values start
  uninitialised and \<open>gen lpmap\<close> the map of an area, whose cells are initialised from the
  start.  A value pointer is the index of its slot, the null pointer is \<open>None\<close>.

  The body of the probing loop is a definition of its own (\<open>goi_turn\<close>) that takes the key it
  loaded as an argument apart from the map on which its CAS runs: with the key just loaded
  it is the sequential turn, with an older one the turn of a thread that was overtaken
  between its load and its CAS.
\<close>

section \<open>Keys\<close>

definition EMPTY :: gen where
  "EMPTY = 0"

definition IN_PROGRESS :: gen where
  "IN_PROGRESS = MSB"

definition ZERO_OFFSET :: usize where
  "ZERO_OFFSET = 0"

definition IMMEDIATE :: usize where
  "IMMEDIATE = 1"

definition MAX_n :: usize where
  "MAX_n = USIZE_MAX"

definition key_bits :: "gen \<Rightarrow> gen" where
  "key_bits k = k AND NOT IN_PROGRESS"

definition is_in_progress :: "gen \<Rightarrow> bool" where
  "is_in_progress k \<longleftrightarrow> k AND IN_PROGRESS \<noteq> 0 \<and> k \<noteq> EMPTY"

section \<open>The table\<close>

datatype 'v maybe_uninit = Uninit | Init 'v

record 'c slot =
  key :: gen
  cell :: 'c

record 'c lpmap =
  mask_of :: usize
  slots :: "'c slot list"

definition slot_new :: "'v maybe_uninit slot" where
  "slot_new = \<lparr>key = EMPTY, cell = Uninit\<rparr>"

text \<open>\<open>usize::is_power_of_two\<close> of the standard library: \<open>n = 2 ^ p\<close> for some \<open>p\<close>.\<close>

definition is_power_of_two :: "usize \<Rightarrow> bool" where
  "is_power_of_two n \<longleftrightarrow> list_ex (\<lambda>p. n = 2 ^ p) [0..<64]"

definition from_storage :: "'c slot list \<Rightarrow> 'c lpmap outcome" where
  "from_storage storage =
     (let capacity = of_nat (length storage) in
      if is_power_of_two capacity \<and> capacity > 0
      then Returns \<lparr>mask_of = capacity - 1, slots = storage\<rparr>
      else Panics)"

definition with_capacity :: "usize \<Rightarrow> 'v maybe_uninit lpmap outcome" where
  "with_capacity capacity =
     (if is_power_of_two capacity \<and> capacity > 0
      then Returns \<lparr>mask_of = capacity - 1, slots = map (\<lambda>_. slot_new) [0..<unat capacity]\<rparr>
      else Panics)"

text \<open>\<open>init_value i\<close> is what the closure returns when it is called for slot \<open>i\<close>.\<close>

definition with_capacity_and_init :: "usize \<Rightarrow> (nat \<Rightarrow> 'c) \<Rightarrow> 'c lpmap" where
  "with_capacity_and_init capacity init_value =
     \<lparr>mask_of = capacity - 1,
      slots = map (\<lambda>i. \<lparr>key = EMPTY, cell = init_value i\<rparr>) [0..<unat capacity]\<rparr>"

definition capacity :: "'c lpmap \<Rightarrow> usize" where
  "capacity m = mask_of m + 1"

definition raw_slots :: "'c lpmap \<Rightarrow> 'c slot list" where
  "raw_slots m = slots m"

definition slot_at :: "usize \<Rightarrow> 'c lpmap \<Rightarrow> 'c slot" where
  "slot_at index m = slots m ! unat index"

definition load_key :: "usize \<Rightarrow> 'c lpmap \<Rightarrow> gen" where
  "load_key index m = key (slot_at index m)"

definition store_key :: "usize \<Rightarrow> gen \<Rightarrow> 'c lpmap \<Rightarrow> 'c lpmap" where
  "store_key index k m = m\<lparr>slots := (slots m)[unat index := (slot_at index m)\<lparr>key := k\<rparr>]\<rparr>"

text \<open>The visits of \<open>scan_slots\<close>, in order: index, key, value pointer.\<close>

definition scan_slots :: "'c lpmap \<Rightarrow> (nat \<times> gen \<times> nat) list" where
  "scan_slots m =
     map (\<lambda>(index, s). (index, key s, index))
       (filter (\<lambda>(index, s). key s \<noteq> EMPTY) (enumerate 0 (slots m)))"

definition index_for :: "gen \<Rightarrow> usize \<Rightarrow> 'c lpmap \<Rightarrow> usize" where
  "index_for k placement_offset m = (k + placement_offset) AND mask_of m"

definition value_ptr :: "usize \<Rightarrow> usize option" where
  "value_ptr index = Some index"

section \<open>Get or insert\<close>

text \<open>\<open>(ptr, is_new, placement_offset_delta, k, index)\<close>.\<close>

type_synonym goi_result = "usize option \<times> bool \<times> usize \<times> gen \<times> usize"

definition fold_key :: "gen \<Rightarrow> usize \<Rightarrow> usize \<Rightarrow> usize \<Rightarrow> gen" where
  "fold_key k placement_offset i msk =
     (let logical_key = k + placement_offset + i;
          logical_key = (if logical_key = 0 \<or> logical_key = IN_PROGRESS
                         then logical_key + (msk + 1) else logical_key)
      in logical_key OR IN_PROGRESS)"

definition goi_turn ::
  "gen \<Rightarrow> usize \<Rightarrow> bool \<Rightarrow> bool \<Rightarrow> usize \<Rightarrow> usize \<Rightarrow> gen \<Rightarrow> 'c lpmap \<Rightarrow> goi_result flow \<times> 'c lpmap" where
  "goi_turn ky placement_offset ins fld i idx k m =
     (let found = (if \<not> fld \<and> key_bits k = ky
                   then Return (value_ptr idx, False, i, k, idx) else Continue) in
      if ins \<and> k = EMPTY then
        (let new_key = (if \<not> fld then ky OR IN_PROGRESS
                        else fold_key ky placement_offset i (mask_of m)) in
         case compare_exchange (load_key idx m) k new_key of
           (Inr _, k') \<Rightarrow> (Return (value_ptr idx, True, i, new_key, idx), store_key idx k' m)
         | (Inl actual, _) \<Rightarrow>
             (if \<not> fld \<and> actual \<noteq> EMPTY \<and> key_bits actual = ky
              then Return (value_ptr idx, False, i, actual, idx) else found, m))
      else (found, m))"

definition goi_not_found :: goi_result where
  "goi_not_found = (None, False, USIZE_MAX, EMPTY, USIZE_MAX)"

definition next_index :: "usize \<Rightarrow> 'c lpmap \<Rightarrow> usize" where
  "next_index idx m = (idx + 1) AND mask_of m"

fun goi_loop ::
  "gen \<Rightarrow> usize \<Rightarrow> bool \<Rightarrow> bool \<Rightarrow> nat \<Rightarrow> usize \<Rightarrow> usize \<Rightarrow> 'c lpmap \<Rightarrow> goi_result \<times> 'c lpmap" where
  "goi_loop ky po ins fld 0 i idx m = (goi_not_found, m)"
| "goi_loop ky po ins fld (Suc left) i idx m =
     (case goi_turn ky po ins fld i idx (load_key idx m) m of
        (Return r, m') \<Rightarrow> (r, m')
      | (Continue, m') \<Rightarrow> goi_loop ky po ins fld left (i + 1) (next_index idx m') m')"

definition turns :: "usize \<Rightarrow> 'c lpmap \<Rightarrow> usize" where
  "turns n m = (if n = MAX_n then mask_of m + 1 else n)"

definition get_or_insert_concurrent ::
  "gen \<Rightarrow> usize \<Rightarrow> usize \<Rightarrow> bool \<Rightarrow> bool \<Rightarrow> 'c lpmap \<Rightarrow> goi_result \<times> 'c lpmap" where
  "get_or_insert_concurrent ky placement_offset n ins fld m =
     goi_loop ky placement_offset ins fld (unat (turns n m)) 0 (index_for ky placement_offset m) m"

section \<open>Finishing and removing\<close>

definition finish_init_at :: "usize \<Rightarrow> 'c lpmap \<Rightarrow> 'c lpmap" where
  "finish_init_at index m =
     (if is_in_progress (load_key index m)
      then store_key index (load_key index m AND NOT IN_PROGRESS) m else m)"

text \<open>As \<open>goi_turn\<close>: the key loaded and the map the CAS runs on are apart.\<close>

definition remove_turn :: "gen \<Rightarrow> usize \<Rightarrow> gen \<Rightarrow> 'c lpmap \<Rightarrow> bool flow \<times> 'c lpmap" where
  "remove_turn ky idx k m =
     (if key_bits k = ky then
        (case compare_exchange (load_key idx m) k EMPTY of
           (Inr _, k') \<Rightarrow> (Return True, store_key idx k' m)
         | (Inl _, _) \<Rightarrow> (Return False, m))
      else (Continue, m))"

fun remove_loop :: "gen \<Rightarrow> nat \<Rightarrow> usize \<Rightarrow> 'c lpmap \<Rightarrow> bool \<times> 'c lpmap" where
  "remove_loop ky 0 idx m = (False, m)"
| "remove_loop ky (Suc left) idx m =
     (case remove_turn ky idx (load_key idx m) m of
        (Return r, m') \<Rightarrow> (r, m')
      | (Continue, m') \<Rightarrow> remove_loop ky left (next_index idx m') m')"

definition remove_concurrent :: "gen \<Rightarrow> usize \<Rightarrow> usize \<Rightarrow> 'c lpmap \<Rightarrow> bool \<times> 'c lpmap" where
  "remove_concurrent ky placement_offset n m =
     remove_loop ky (unat (turns n m)) (index_for ky placement_offset m) m"

section \<open>Well-formed tables\<close>

text \<open>
  The shape the constructors establish: the capacity is a power of two (an allocation of
  16-byte slots bounds it by \<open>2 ^ 59\<close>; \<open>2 ^ 62\<close> is enough here) and the mask is one less.
\<close>

definition map_wf :: "'c lpmap \<Rightarrow> bool" where
  "map_wf m \<longleftrightarrow> is_power_of_two (mask_of m + 1) \<and> unat (mask_of m) < 2 ^ 62 \<and>
     length (slots m) = unat (mask_of m) + 1"

lemma unat_mask64: "p < 64 \<Longrightarrow> unat (mask p :: gen) = 2 ^ p - 1"
  using uint_mask_eq [of p, where 'a = 64] by (simp add: unat_eq_nat_uint mask_eq_exp_minus_1 nat_diff_distrib nat_power_eq min_def)

lemma map_wfE:
  assumes "map_wf m"
  obtains p where "p \<le> 62" and "mask_of m = mask p" and "length (slots m) = 2 ^ p"
proof -
  from assms obtain p where p: "p < 64" "mask_of m + 1 = 2 ^ p"
    by (auto simp: map_wf_def is_power_of_two_def list_ex_iff)
  then have m: "mask_of m = mask p" by (simp add: mask_eq_exp_minus_1 eq_diff_eq)
  with p(1) have u: "unat (mask_of m) = 2 ^ p - 1"
    by (simp only: m unat_mask64)
  have "p \<le> 62"
  proof (rule ccontr)
    assume "\<not> p \<le> 62"
    with p(1) have "p = 63" by simp
    with u assms show False by (simp add: map_wf_def)
  qed
  moreover have "length (slots m) = 2 ^ p" using assms u by (simp add: map_wf_def)
  ultimately show thesis using m that by blast
qed

lemma unat_and_mask: "unat (x AND mask p) = unat x mod 2 ^ p" for x :: gen
  by (simp only: unsigned_take_bit_eq flip: take_bit_eq_mask) (simp only: take_bit_eq_mod)

lemma unat_add_mask: "q \<le> 62 \<Longrightarrow> unat ((s + of_nat j) AND mask q) = (unat s + j) mod 2 ^ q" for s :: gen
proof -
  assume "q \<le> 62"
  then have d: "(2::nat) ^ q dvd 2 ^ LENGTH(64)" by (intro le_imp_power_dvd) simp
  show ?thesis
    by (simp only: unat_and_mask unat_word_ariths unat_of_nat mod_add_right_eq mod_mod_cancel [OF d])
qed

lemma unat_index: "map_wf m \<Longrightarrow> unat (x AND mask_of m) = unat x mod length (slots m)"
  by (erule map_wfE) (simp add: unat_and_mask)

lemma length_slots: "map_wf m \<Longrightarrow> length (slots m) = unat (capacity m)"
  by (auto simp: capacity_def map_wf_def unat_word_ariths)

lemma key_simps [simp]: "EMPTY = 0" "IN_PROGRESS = MSB" "ZERO_OFFSET = 0" "IMMEDIATE = 1"
  by (simp_all add: EMPTY_def IN_PROGRESS_def ZERO_OFFSET_def IMMEDIATE_def)

lemma unat_key_bits: "unat (key_bits k) = unat k mod 2 ^ 63"
  using unat_masked [of k] by (simp add: key_bits_def)

lemma key_bits_masked [simp]: "key_bits k AND MSB = 0"
  by (simp add: key_bits_def)

lemma key_bits_or [simp]: "key_bits (k OR MSB) = key_bits k"
  by (simp add: key_bits_def)

lemma unat_masked_less: "k AND MSB = 0 \<Longrightarrow> unat k < 2 ^ 63" for k :: gen
  using unat_masked [of k] by (simp add: strip_id)

lemma unat_2p64: "unat (2 ^ 63 :: gen) = 2 ^ 63" by simp

lemma unat_fold:
  assumes "ky \<noteq> 0" and "ky AND MSB = 0" and "map_wf m" and "unat d < length (slots m)"
  shows "key_bits (fold_key ky 0 d (mask_of m)) \<noteq> 0"
    and "key_bits (fold_key ky 0 d (mask_of m)) AND mask_of m = (ky + d) AND mask_of m"
proof -
  from assms(3) obtain p where p: "p \<le> 62" "mask_of m = mask p" "length (slots m) = 2 ^ p"
    by (rule map_wfE)
  let ?cap = "mask_of m + 1"
  have cap: "unat ?cap = 2 ^ p" using length_slots [OF assms(3)] p(3) by (simp add: capacity_def)
  have p62: "(2::nat) ^ p \<le> 2 ^ 62" using p(1) by (intro power_increasing) auto
  have dvd: "(2::nat) ^ p dvd 2 ^ 63" using p(1) by (intro le_imp_power_dvd) simp
  have k63: "unat ky < 2 ^ 63" using assms(2) by (rule unat_masked_less)
  have d62: "unat d < 2 ^ 62" using assms(4) p(3) p62 by linarith
  have L: "unat (ky + d) = unat ky + unat d"
    using k63 d62 by (simp add: unat_word_ariths)
  have Lpos: "unat (ky + d) \<noteq> 0" using assms(1) L by (simp add: unat_eq_zero)
  have "key_bits (fold_key ky 0 d (mask_of m)) \<noteq> 0 \<and>
    key_bits (fold_key ky 0 d (mask_of m)) AND mask_of m = (ky + d) AND mask_of m"
  proof (cases "ky + d = MSB")
    case True
    then have u: "unat (ky + d) = 2 ^ 63" by (simp add: MSB64)
    have f: "key_bits (fold_key ky 0 d (mask_of m)) = key_bits (ky + d + ?cap)"
      using True by (simp add: fold_key_def Let_def)
    have "unat (ky + d + ?cap) = 2 ^ 63 + 2 ^ p"
      using u cap p62 by (simp add: unat_word_ariths)
    then have k: "unat (key_bits (ky + d + ?cap)) = 2 ^ p"
      using p62 by (simp add: unat_key_bits)
    have "unat (key_bits (ky + d + ?cap) AND mask_of m) = unat ((ky + d) AND mask_of m)"
      unfolding p(2) unat_and_mask using k u dvd by (simp add: p(2))
    then have "key_bits (ky + d + ?cap) AND mask_of m = (ky + d) AND mask_of m"
      by (simp only: word_unat_eq_iff)
    then show ?thesis using k by (auto simp: f)
  next
    case False
    have nz: "ky + d \<noteq> 0" using Lpos by auto
    have f: "key_bits (fold_key ky 0 d (mask_of m)) = key_bits (ky + d)"
      using False nz by (simp add: fold_key_def Let_def)
    have "unat (ky + d) \<noteq> 2 ^ 63" using False by (metis MSB64 unat_2p64 word_unat_eq_iff)
    then have "unat (key_bits (ky + d)) \<noteq> 0"
      unfolding unat_key_bits using Lpos L k63 d62 by (auto simp: mod_eq_0_iff_dvd elim!: dvdE)
    moreover have "unat (key_bits (ky + d) AND mask_of m) = unat ((ky + d) AND mask_of m)"
      unfolding p(2) unat_and_mask unat_key_bits using dvd by (simp add: mod_mod_cancel)
    ultimately show ?thesis unfolding f by (metis unat_0 word_unat_eq_iff)
  qed
  then show "key_bits (fold_key ky 0 d (mask_of m)) \<noteq> 0"
    and "key_bits (fold_key ky 0 d (mask_of m)) AND mask_of m = (ky + d) AND mask_of m" by auto
qed



text \<open>Every key in the table points, by its low bits, to the slot it is in.\<close>

definition keys_placed :: "'c lpmap \<Rightarrow> bool" where
  "keys_placed m \<longleftrightarrow> (\<forall>i < length (slots m). key (slots m ! i) \<noteq> EMPTY \<longrightarrow>
     key_bits (key (slots m ! i)) \<noteq> 0 \<and> unat (key_bits (key (slots m ! i)) AND mask_of m) = i)"

definition map_inv :: "'c lpmap \<Rightarrow> bool" where
  "map_inv m \<longleftrightarrow> map_wf m \<and> keys_placed m"

definition holds_id :: "gen \<Rightarrow> nat \<Rightarrow> 'c lpmap \<Rightarrow> bool" where
  "holds_id r i m \<longleftrightarrow> i < length (slots m) \<and> key (slots m ! i) \<noteq> EMPTY \<and> key_bits (key (slots m ! i)) = r"

lemma index_less: "map_wf m \<Longrightarrow> unat (x AND mask_of m) < length (slots m)"
  by (simp add: unat_index) (auto elim!: map_wfE)

lemma store_key_frame [simp]:
  "mask_of (store_key i k m) = mask_of m"
  "length (slots (store_key i k m)) = length (slots m)"
  "map_wf (store_key i k m) = map_wf m"
  by (simp_all add: store_key_def map_wf_def)

lemma slot_store_key:
  "unat i < length (slots m) \<Longrightarrow> slots (store_key i k m) ! j =
     (if j = unat i then (slots m ! j)\<lparr>key := k\<rparr> else slots m ! j)"
  by (simp add: store_key_def slot_at_def)

lemma load_store_key:
  "unat i < length (slots m) \<Longrightarrow> load_key j (store_key i k m) = (if j = i then k else load_key j m)"
  by (simp add: load_key_def slot_at_def slot_store_key flip: word_unat_eq_iff)

lemma slot_key_same: "key s = k \<Longrightarrow> s\<lparr>key := k\<rparr> = s"
  by (cases s) simp

lemma cell_store_key [simp]:
  "map cell (slots (store_key i k m)) = map cell (slots m)"
  by (cases "unat i < length (slots m)")
    (simp_all add: store_key_def slot_at_def map_update list_update_same_conv list_update_beyond)

lemma next_index_eq: "map_wf m \<Longrightarrow> next_index ((x + i) AND mask_of m) m = (x + (i + 1)) AND mask_of m"
proof -
  assume "map_wf m"
  then obtain p where p: "mask_of m = mask p" by (rule map_wfE)
  show ?thesis unfolding next_index_def p by (simp add: mask_eqs add.assoc)
qed

section \<open>The operations in closed form\<close>

lemma one_turn [simp]: "turns 1 m = 1"
  by (simp add: turns_def MAX_n_def)

lemma lookup_eq:
  "get_or_insert_concurrent r 0 1 False False m =
     (let idx = index_for r 0 m; k = load_key idx m in
      if key_bits k = r then (Some idx, False, 0, k, idx) else goi_not_found, m)"
  by (simp add: get_or_insert_concurrent_def goi_turn_def value_ptr_def Let_def)

lemma remove_eq:
  "remove_concurrent r 0 1 m =
     (let idx = index_for r 0 m in
      if key_bits (load_key idx m) = r then (True, store_key idx EMPTY m) else (False, m))"
  by (simp add: remove_concurrent_def remove_turn_def Let_def)

lemma map_wf_capacity: "map_wf m \<Longrightarrow> turns (capacity m) m = capacity m \<and> capacity m \<noteq> 0"
proof -
  assume wf: "map_wf m"
  have "mask_of m + 1 \<noteq> - 1"
  proof
    assume "mask_of m + 1 = - 1"
    then have "mask_of m = - 1 - 1" by (simp only: eq_diff_eq)
    then show False using wf by (simp add: map_wf_def)
  qed
  moreover have "capacity m \<noteq> 0" using index_less [OF wf, of 0] length_slots [OF wf] by auto
  ultimately show ?thesis by (simp add: turns_def MAX_n_def capacity_def)
qed

text \<open>A folding search claims the first empty slot from its start, or finds none.\<close>

lemma goi_loop_fold:
  assumes "map_wf m"
  shows "case goi_loop ky 0 True True left i ((ky + i) AND mask_of m) m of
    ((p, isnew, d, k, ix), m') \<Rightarrow>
      (p = None \<and> m' = m \<and> (p, isnew, d, k, ix) = goi_not_found \<and>
         (\<forall>j < left. load_key ((ky + i + of_nat j) AND mask_of m) m \<noteq> EMPTY)) \<or>
      (\<exists>j < left. d = i + of_nat j \<and> ix = (ky + d) AND mask_of m \<and> load_key ix m = EMPTY \<and>
         p = Some ix \<and> isnew \<and> k = fold_key ky 0 d (mask_of m) \<and> m' = store_key ix k m)"
proof (induction left arbitrary: i)
  case 0
  show ?case by (simp add: goi_not_found_def)
next
  case (Suc left)
  let ?ix = "(ky + i) AND mask_of m"
  show ?case
  proof (cases "load_key ?ix m = EMPTY")
    case True
    then show ?thesis by (auto simp: goi_turn_def value_ptr_def Let_def intro!: exI [of _ 0])
  next
    case False
    have step: "goi_loop ky 0 True True (Suc left) i ?ix m
      = goi_loop ky 0 True True left (i + 1) ((ky + (i + 1)) AND mask_of m) m"
      using False by (simp add: goi_turn_def Let_def next_index_eq [OF assms])
    obtain p isnew d k ix m' where r:
      "goi_loop ky 0 True True left (i + 1) ((ky + (i + 1)) AND mask_of m) m = ((p, isnew, d, k, ix), m')"
      by (metis prod_cases5 surj_pair)
    from Suc.IH [of "i + 1"] consider
        "p = None" "m' = m" "(p, isnew, d, k, ix) = goi_not_found"
        "\<And>j. j < left \<Longrightarrow> load_key ((ky + (i + 1) + of_nat j) AND mask_of m) m \<noteq> EMPTY"
      | j where "j < left" "d = i + 1 + of_nat j" "ix = (ky + d) AND mask_of m" "load_key ix m = EMPTY"
         "p = Some ix" "isnew" "k = fold_key ky 0 d (mask_of m)" "m' = store_key ix k m"
      unfolding r prod.case by blast
    then show ?thesis
    proof cases
      case 1
      have "load_key ((ky + i + of_nat j) AND mask_of m) m \<noteq> EMPTY" if "j < Suc left" for j
        using that 1(4) [of "j - 1"] False by (cases j) (auto simp: algebra_simps)
      then show ?thesis unfolding step r prod.case using 1(1-3) by blast
    next
      case 2
      then show ?thesis unfolding step r prod.case
        by (intro disjI2 exI [of _ "Suc j"]) (simp add: algebra_simps)
    qed
  qed
qed

lemma keys_placedD:
  "keys_placed m \<Longrightarrow> i < length (slots m) \<Longrightarrow> key (slots m ! i) \<noteq> EMPTY \<Longrightarrow>
   key_bits (key (slots m ! i)) \<noteq> 0 \<and> unat (key_bits (key (slots m ! i)) AND mask_of m) = i"
  by (simp add: keys_placed_def)

text \<open>An id names at most one slot, and it is the slot its own low bits point to.\<close>

lemma holds_id_index:
  "keys_placed m \<Longrightarrow> holds_id r i m \<Longrightarrow> i = unat (r AND mask_of m)"
  unfolding holds_id_def keys_placed_def by metis

lemma holds_id_unique: "keys_placed m \<Longrightarrow> holds_id r i m \<Longrightarrow> holds_id r j m \<Longrightarrow> i = j"
  by (metis holds_id_index)

lemma keys_placed_store:
  assumes "keys_placed m" and "unat i < length (slots m)"
    and "k = EMPTY \<or> (key_bits k \<noteq> 0 \<and> key_bits k AND mask_of m = i)"
  shows "keys_placed (store_key i k m)"
  using assms by (auto simp: keys_placed_def slot_store_key)

lemma holds_id_store:
  assumes "unat i < length (slots m)"
  shows "holds_id r j (store_key i k m) \<longleftrightarrow>
    (if j = unat i then k \<noteq> EMPTY \<and> key_bits k = r else holds_id r j m)"
  using assms by (auto simp: holds_id_def slot_store_key)

lemma key_bits_EMPTY [simp]: "key_bits 0 = 0"
  by (simp add: key_bits_def)

lemma or_MSB_nonzero [simp]: "k OR MSB \<noteq> 0" for k :: gen
proof
  assume "k OR MSB = 0"
  moreover have "(k OR MSB) AND MSB = MSB" by (rule bit_word_eqI) (auto simp: bit_simps)
  ultimately show False by (simp add: MSB64)
qed

lemma fold_key_nonempty [simp]: "fold_key ky po d msk \<noteq> 0"
  unfolding fold_key_def Let_def by (simp del: or_eq_0_iff)

lemma fold_key_in_progress [simp]: "is_in_progress (fold_key ky po d msk)"
proof -
  have "(k OR MSB) AND MSB \<noteq> 0" for k :: gen
  proof -
    have "(k OR MSB) AND MSB = MSB" by (rule bit_word_eqI) (auto simp: bit_simps)
    then show ?thesis by (simp add: MSB64)
  qed
  then show ?thesis by (simp add: is_in_progress_def) (simp add: fold_key_def Let_def)
qed

text \<open>Probing \<open>capacity\<close> times visits every slot.\<close>

lemma probe_covers:
  assumes "map_wf m" and i: "i < length (slots m)"
  shows "\<exists>j < length (slots m). unat ((x + of_nat j) AND mask_of m) = i"
proof -
  from assms(1) obtain q where q: "q \<le> 62" "mask_of m = mask q" "length (slots m) = 2 ^ q" by (rule map_wfE)
  let ?j = "(i + 2 ^ q - unat x mod 2 ^ q) mod 2 ^ q"
  have "(unat x + ?j) mod 2 ^ q = (i + (2 ^ q - unat x mod 2 ^ q) + unat x mod 2 ^ q) mod 2 ^ q"
    by (simp add: mod_simps algebra_simps)
  also have "i + (2 ^ q - unat x mod 2 ^ q) + unat x mod 2 ^ q = i + 2 ^ q"
  proof -
    have "unat x mod 2 ^ q < 2 ^ q" by simp
    then show ?thesis by linarith
  qed
  also have "(i + 2 ^ q) mod 2 ^ q = i" using i q(3) by simp
  finally have "unat ((x + of_nat ?j) AND mask_of m) = i"
    using q(1) by (simp add: q(2) unat_add_mask mod_simps)
  moreover have "?j < length (slots m)" using q(3) by simp
  ultimately show ?thesis by blast
qed

lemma fold_search:
  assumes inv: "map_inv m" and seed: "seed \<noteq> 0" "seed AND MSB = 0"
  obtains (full) "get_or_insert_concurrent seed ZERO_OFFSET (capacity m) True True m = (goi_not_found, m)"
      and "\<And>i. i < length (slots m) \<Longrightarrow> key (slots m ! i) \<noteq> EMPTY"
  | (new) d ix k where
      "get_or_insert_concurrent seed ZERO_OFFSET (capacity m) True True m = ((Some ix, True, d, k, ix), store_key ix k m)"
      and "unat ix < length (slots m)" and "load_key ix m = EMPTY" and "is_in_progress k"
      and "key_bits k \<noteq> 0" and "key_bits k AND mask_of m = ix"
proof -
  from inv have wf: "map_wf m" by (simp add: map_inv_def)
  let ?n = "unat (capacity m)"
  have n: "?n = length (slots m)" using length_slots [OF wf] by simp
  have g: "get_or_insert_concurrent seed ZERO_OFFSET (capacity m) True True m
    = goi_loop seed 0 True True ?n 0 ((seed + 0) AND mask_of m) m"
    using map_wf_capacity [OF wf] by (simp add: get_or_insert_concurrent_def index_for_def)
  obtain p isnew d k ix m' where r:
    "goi_loop seed 0 True True ?n 0 ((seed + 0) AND mask_of m) m = ((p, isnew, d, k, ix), m')"
    by (metis prod_cases5 surj_pair)
  from goi_loop_fold [OF wf, where ky = seed and left = ?n and i = 0] consider
      "p = None" "m' = m" "(p, isnew, d, k, ix) = goi_not_found"
      "\<And>j. j < ?n \<Longrightarrow> load_key ((seed + of_nat j) AND mask_of m) m \<noteq> EMPTY"
    | j where "j < ?n" "d = of_nat j" "ix = (seed + d) AND mask_of m" "load_key ix m = EMPTY"
       "p = Some ix" "isnew" "k = fold_key seed 0 d (mask_of m)" "m' = store_key ix k m"
    unfolding r prod.case by (auto simp del: key_simps)
  then show thesis
  proof cases
    case 1
    have "key (slots m ! i) \<noteq> EMPTY" if i: "i < length (slots m)" for i
    proof -
      obtain j where "j < ?n" "unat ((seed + of_nat j) AND mask_of m) = i"
        using probe_covers [OF wf i] n by metis
      then show ?thesis using 1(4) [of j] by (simp add: load_key_def slot_at_def)
    qed
    then show thesis using full g r 1(2,3) by simp
  next
    case 2
    have "unat d < length (slots m)" using 2(1,2) n wf by (auto simp: map_wf_def unat_of_nat64)
    from unat_fold [OF seed wf this] fold_key_in_progress 2 g r index_less [OF wf] show thesis
      by (intro new [of ix d k]) auto
  qed
qed

section \<open>Claiming, finding and releasing an id\<close>

text \<open>
  The three uses \<open>src/area.rs\<close> makes of the table: a folding insertion followed by
  \<open>finish_init_at\<close> (\<open>register_reader_with_seed\<close>), an \<open>IMMEDIATE\<close> lookup
  (\<open>get_reader_ptr_boilerplate\<close>) and an \<open>IMMEDIATE\<close> removal (\<open>unregister_reader\<close>).
\<close>

definition find_id :: "gen \<Rightarrow> 'c lpmap \<Rightarrow> usize option" where
  "find_id r m = fst (fst (get_or_insert_concurrent r ZERO_OFFSET IMMEDIATE False False m))"

definition claim_id :: "gen \<Rightarrow> 'c lpmap \<Rightarrow> (gen \<times> usize \<times> 'c lpmap) option" where
  "claim_id seed m =
     (case get_or_insert_concurrent seed ZERO_OFFSET (capacity m) True True m of
        ((None, _), _) \<Rightarrow> None
      | ((Some p, _, _, k, idx), m') \<Rightarrow> Some (key_bits k, idx, finish_init_at idx m'))"

definition release_id :: "gen \<Rightarrow> 'c lpmap \<Rightarrow> 'c lpmap" where
  "release_id r m = snd (remove_concurrent r ZERO_OFFSET IMMEDIATE m)"

definition id_ok :: "gen \<Rightarrow> bool" where
  "id_ok r \<longleftrightarrow> r \<noteq> 0 \<and> r AND MSB = 0"

lemma id_okD: "id_ok r \<Longrightarrow> r \<noteq> 0" "id_ok r \<Longrightarrow> r AND MSB = 0"
  by (auto simp: id_ok_def)

lemma find_id_eq:
  "find_id r m = (let idx = r AND mask_of m in if key_bits (load_key idx m) = r then Some idx else None)"
  by (simp add: find_id_def lookup_eq index_for_def goi_not_found_def Let_def)

lemma find_id_Some:
  "find_id r m = Some i \<longleftrightarrow> i = r AND mask_of m \<and> key_bits (load_key i m) = r"
  by (auto simp: find_id_eq Let_def)

lemma find_id_None:
  "find_id r m = None \<longleftrightarrow> key_bits (load_key (r AND mask_of m) m) \<noteq> r"
  by (auto simp: find_id_eq Let_def)

lemma release_id_eq:
  "release_id r m = (if find_id r m = None then m else store_key (r AND mask_of m) EMPTY m)"
  by (simp add: release_id_def remove_eq index_for_def find_id_eq Let_def)

lemma finish_init_at_eq:
  "finish_init_at i m = (if is_in_progress (load_key i m) then store_key i (key_bits (load_key i m)) m else m)"
  by (simp add: finish_init_at_def key_bits_def)

lemma store_store_key [simp]:
  "unat i < length (slots m) \<Longrightarrow> store_key i k' (store_key i k m) = store_key i k' m"
  by (simp add: store_key_def slot_at_def)

lemma claim_id_cases:
  assumes inv: "map_inv m" and seed: "id_ok seed"
  obtains (full) "claim_id seed m = None" and "\<And>i. i < length (slots m) \<Longrightarrow> key (slots m ! i) \<noteq> EMPTY"
  | (new) r ix where "claim_id seed m = Some (r, ix, store_key ix r m)"
      and "unat ix < length (slots m)" and "load_key ix m = EMPTY"
      and "id_ok r" and "r AND mask_of m = ix"
proof -
  from seed have s: "seed \<noteq> 0" "seed AND MSB = 0" by (auto simp: id_ok_def)
  from inv s show thesis
  proof (cases rule: fold_search)
    case full
    then show thesis using that(1) by (simp add: claim_id_def goi_not_found_def)
  next
    case (new d ix k)
    show thesis
    proof (rule that(2) [of "key_bits k" ix])
      show "claim_id seed m = Some (key_bits k, ix, store_key ix (key_bits k) m)"
        using new by (simp add: claim_id_def finish_init_at_eq load_store_key)
    qed (use new in \<open>auto simp: id_ok_def\<close>)
  qed
qed

lemma find_store:
  assumes "map_inv m" and "unat i < length (slots m)" and "id_ok q"
  shows "find_id q (store_key i k m) =
    (if q AND mask_of m = i then (if key_bits k = q then Some i else None) else find_id q m)"
  using assms by (simp add: find_id_eq load_store_key Let_def)

lemma find_id_less: "map_inv m \<Longrightarrow> find_id q m = Some i \<Longrightarrow> unat i < length (slots m)"
  by (simp add: find_id_Some map_inv_def index_less)

lemma map_inv_store:
  "map_inv m \<Longrightarrow> unat i < length (slots m) \<Longrightarrow> k = 0 \<or> key_bits k \<noteq> 0 \<and> key_bits k AND mask_of m = i \<Longrightarrow>
   map_inv (store_key i k m)"
  by (simp add: map_inv_def keys_placed_store)

lemma id_ok_key_bits [simp]: "id_ok r \<Longrightarrow> key_bits r = r"
  by (simp add: id_ok_def key_bits_def strip_id)

lemma id_ok_nonzero [simp]: "id_ok r \<Longrightarrow> r \<noteq> 0"
  by (simp add: id_ok_def)

section \<open>The registry interface\<close>

text \<open>A series of registrations, each on the table the one before left.\<close>

fun claim_all ::
  "('k \<Rightarrow> 'm \<Rightarrow> ('k \<times> 'i \<times> 'm) option) \<Rightarrow> 'k list \<Rightarrow> 'm \<Rightarrow> (('k \<times> 'i) list \<times> 'm) option" where
  "claim_all claim [] m = Some ([], m)"
| "claim_all claim (s # ss) m =
     (case claim s m of None \<Rightarrow> None
      | Some (r, i, m') \<Rightarrow>
          (case claim_all claim ss m' of None \<Rightarrow> None
           | Some (rs, m'') \<Rightarrow> Some ((r, i) # rs, m'')))"


text \<open>
  What the area relies on when it names its readers by keys: a claim returns a key nobody
  holds together with a slot nobody holds, lookups of other keys do not notice claims and
  releases, and a held key leads to its own slot.
\<close>

locale id_registry =
  fixes claim :: "'k \<Rightarrow> 'm \<Rightarrow> ('k \<times> 'i \<times> 'm) option"
    and find :: "'k \<Rightarrow> 'm \<Rightarrow> 'i option"
    and release :: "'k \<Rightarrow> 'm \<Rightarrow> 'm"
    and ok :: "'k \<Rightarrow> bool"
    and inv :: "'m \<Rightarrow> bool"
  assumes claim_ok: "inv m \<Longrightarrow> ok s \<Longrightarrow> claim s m = Some (r, i, m') \<Longrightarrow> inv m' \<and> ok r"
    and claim_find: "inv m \<Longrightarrow> ok s \<Longrightarrow> claim s m = Some (r, i, m') \<Longrightarrow> find r m' = Some i"
    and claim_fresh: "inv m \<Longrightarrow> ok s \<Longrightarrow> claim s m = Some (r, i, m') \<Longrightarrow> ok q \<Longrightarrow> find q m \<noteq> Some i"
    and claim_other: "inv m \<Longrightarrow> ok s \<Longrightarrow> claim s m = Some (r, i, m') \<Longrightarrow> ok q \<Longrightarrow> q \<noteq> r \<Longrightarrow>
      find q m' = find q m"
    and claim_new: "inv m \<Longrightarrow> ok s \<Longrightarrow> claim s m = Some (r, i, m') \<Longrightarrow> find r m = None"
    and release_inv: "inv m \<Longrightarrow> ok r \<Longrightarrow> inv (release r m)"
    and release_find: "inv m \<Longrightarrow> ok r \<Longrightarrow> find r (release r m) = None"
    and release_other: "inv m \<Longrightarrow> ok r \<Longrightarrow> ok q \<Longrightarrow> q \<noteq> r \<Longrightarrow> find q (release r m) = find q m"
    and find_inj: "inv m \<Longrightarrow> ok q \<Longrightarrow> ok r \<Longrightarrow> find q m = Some i \<Longrightarrow> find r m = Some i \<Longrightarrow> q = r"
begin

lemma claim_all_keeps:
  "inv m \<Longrightarrow> list_all ok ss \<Longrightarrow> claim_all claim ss m = Some (rs, m') \<Longrightarrow> ok q \<Longrightarrow> find q m = Some i \<Longrightarrow>
   inv m' \<and> find q m' = Some i \<and> q \<notin> fst ` set rs \<and> i \<notin> snd ` set rs"
proof (induction ss arbitrary: m rs)
  case Nil
  then show ?case by simp
next
  case (Cons s ss)
  from Cons.prems(3) obtain r j m1 rs1 where c: "claim s m = Some (r, j, m1)"
    and rest: "claim_all claim ss m1 = Some (rs1, m')" and rs: "rs = (r, j) # rs1"
    by (auto split: option.splits)
  from Cons.prems(2) have s: "ok s" and ss: "list_all ok ss" by auto
  have "q \<noteq> r" using claim_new [OF Cons.prems(1) s c] Cons.prems(5) by auto
  moreover have "i \<noteq> j" using claim_fresh [OF Cons.prems(1) s c Cons.prems(4)] Cons.prems(5) by auto
  moreover have "find q m1 = Some i"
    using claim_other [OF Cons.prems(1) s c Cons.prems(4) \<open>q \<noteq> r\<close>] Cons.prems(5) by simp
  ultimately show ?case
    using Cons.IH [OF _ ss rest Cons.prems(4)] claim_ok [OF Cons.prems(1) s c] rs by simp
qed

lemma claim_all_distinct:
  "inv m \<Longrightarrow> list_all ok ss \<Longrightarrow> claim_all claim ss m = Some (rs, m') \<Longrightarrow>
   distinct (map fst rs) \<and> distinct (map snd rs) \<and> (\<forall>(r, i) \<in> set rs. find r m' = Some i)"
proof (induction ss arbitrary: m rs)
  case Nil
  then show ?case by simp
next
  case (Cons s ss)
  from Cons.prems(3) obtain r j m1 rs1 where c: "claim s m = Some (r, j, m1)"
    and rest: "claim_all claim ss m1 = Some (rs1, m')" and rs: "rs = (r, j) # rs1"
    by (auto split: option.splits)
  from Cons.prems(2) have s: "ok s" and ss: "list_all ok ss" by auto
  note ok1 = claim_ok [OF Cons.prems(1) s c]
  from claim_all_keeps [OF _ ss rest _ claim_find [OF Cons.prems(1) s c]] ok1
  have "find r m' = Some j" "r \<notin> fst ` set rs1" "j \<notin> snd ` set rs1" by auto
  then show ?case using Cons.IH [OF _ ss rest] ok1 rs by auto
qed

end

section \<open>The table implements the registry\<close>

lemma claim_idE:
  assumes "map_inv m" and "id_ok s" and "claim_id s m = Some (r, i, m')"
  shows "m' = store_key i r m" and "unat i < length (slots m)" and "load_key i m = EMPTY"
    and "id_ok r" and "r AND mask_of m = i"
  using assms(3) claim_id_cases [OF assms(1,2)] by (auto simp: assms(3))

interpretation slot_map: id_registry claim_id find_id release_id id_ok map_inv
proof unfold_locales
  fix m m' :: "'c lpmap" and s r i q
  assume inv: "map_inv m"
  {
    assume s: "id_ok s" and c: "claim_id s m = Some (r, i, m')"
    note E = claim_idE [OF inv s c]
    show "map_inv m' \<and> id_ok r" using E inv by (auto intro!: map_inv_store)
    show "find_id r m' = Some i" using E inv by (simp add: find_store)
    show "find_id r m = None" using E by (simp add: find_id_None)
    assume q: "id_ok q"
    show "find_id q m \<noteq> Some i" using E q by (auto simp: find_id_Some)
    assume "q \<noteq> r"
    moreover have "find_id q m = None" if "q AND mask_of m = i"
      using that E(3) q by (simp add: find_id_None)
    ultimately show "find_id q m' = find_id q m" using E(1,2,4) q inv
      by (simp add: find_store)
  }
  {
    assume r: "id_ok r"
    show "map_inv (release_id r m)" using inv by (auto simp: release_id_eq map_inv_def intro!: map_inv_store index_less keys_placed_store)
    show "find_id r (release_id r m) = None" using inv r
      by (auto simp: release_id_eq find_store map_inv_def index_less)
    assume q: "id_ok q"
    { assume "q \<noteq> r"
      moreover have "find_id q m = None" if "find_id r m \<noteq> None" "q AND mask_of m = r AND mask_of m"
        using that \<open>q \<noteq> r\<close> by (auto simp: find_id_Some find_id_None)
      ultimately show "find_id q (release_id r m) = find_id q m" using inv q
        by (auto simp: release_id_eq find_store map_inv_def index_less) }
    assume "find_id q m = Some i" "find_id r m = Some i" then show "q = r" using r q
      by (auto simp: find_id_Some)
  }
qed

lemma map_inv_init:
  assumes "is_power_of_two rc" and "unat rc \<le> 2 ^ 62"
  shows "map_inv (with_capacity_and_init rc f)"
proof -
  from assms(1) have nz: "rc \<noteq> 0" by (auto simp: is_power_of_two_def list_ex_iff)
  then have "unat (rc - 1) = unat rc - 1" and "unat rc \<noteq> 0" by (simp_all add: unat_minus_one unat_eq_zero)
  then show ?thesis using assms
    by (auto simp: with_capacity_and_init_def map_inv_def map_wf_def keys_placed_def)
qed

section \<open>Properties\<close>

text \<open>A table of two slots for the examples.\<close>

definition demo_map :: "gen lpmap" where
  "demo_map = with_capacity_and_init 2 (\<lambda>_. 0)"

lemma demo_map_inv: "map_inv demo_map"
proof -
  have "is_power_of_two 2" by code_simp
  then show ?thesis unfolding demo_map_def by (intro map_inv_init) simp_all
qed

lemma demo_id_ok: "id_ok 1"
proof -
  have "(1 :: gen) AND MSB = 0" by code_simp
  then show ?thesis by (simp only: id_ok_def one_neq_zero simp_thms not_False_eq_True)
qed

lemma demo_claim:
  "claim_id 1 demo_map = Some (1, 1, store_key 1 1 demo_map)"
  by code_simp

lemma finish_claim:
  "map_inv m \<Longrightarrow> id_ok seed \<Longrightarrow>
   get_or_insert_concurrent seed ZERO_OFFSET (capacity m) True True m = ((Some p, new, d, k, idx), m') \<Longrightarrow>
   claim_id seed m = Some (key_bits k, idx, finish_init_at idx m')"
  by (simp add: claim_id_def)

text \<open>
  C20: a folding insertion that succeeds hands out a fresh, non-zero id without the top
  bit, whose \<open>IMMEDIATE\<close> lookup after \<open>finish_init_at\<close> finds exactly the slot that was
  claimed, with the \<open>IN_PROGRESS\<close> bit gone; no other id is found anywhere else than before,
  and no value cell is touched.
\<close>
theorem fold_insert_then_lookup:
  assumes "map_inv m" and "id_ok seed"
    and "get_or_insert_concurrent seed ZERO_OFFSET (capacity m) True True m = ((Some p, new, d, k, idx), m')"
  shows "p = idx \<and> new \<and> is_in_progress k \<and> id_ok (key_bits k) \<and> find_id (key_bits k) m = None
    \<and> get_or_insert_concurrent (key_bits k) ZERO_OFFSET IMMEDIATE False False (finish_init_at idx m')
        = ((Some idx, False, 0, key_bits k, idx), finish_init_at idx m')
    \<and> map_inv (finish_init_at idx m')
    \<and> (\<forall>q. id_ok q \<and> q \<noteq> key_bits k \<longrightarrow> find_id q (finish_init_at idx m') = find_id q m)
    \<and> map cell (slots (finish_init_at idx m')) = map cell (slots m)"
proof -
  note c = finish_claim [OF assms]
  note E = claim_idE [OF assms(1,2) c]
  from assms(1,2) have s: "seed \<noteq> 0" "seed AND MSB = 0" by (auto dest: id_okD)
  from assms(1) s have "p = idx \<and> new \<and> is_in_progress k"
    by (cases rule: fold_search) (use assms(3) in \<open>auto simp: goi_not_found_def\<close>)
  moreover have "get_or_insert_concurrent (key_bits k) ZERO_OFFSET IMMEDIATE False False (finish_init_at idx m')
        = ((Some idx, False, 0, key_bits k, idx), finish_init_at idx m')"
    using E by (simp add: lookup_eq index_for_def load_store_key)
  ultimately show ?thesis
    using slot_map.claim_ok [OF assms(1,2) c] slot_map.claim_new [OF assms(1,2) c]
      slot_map.claim_other [OF assms(1,2) c] E(1) by simp
qed

lemma fold_insert_then_lookup_witness:
  "\<exists>m'. get_or_insert_concurrent 1 ZERO_OFFSET (capacity demo_map) True True demo_map
      = ((Some 1, True, 0, 1 OR MSB, 1), m')
    \<and> get_or_insert_concurrent (key_bits (1 OR MSB)) ZERO_OFFSET IMMEDIATE False False (finish_init_at 1 m')
      = ((Some 1, False, 0, key_bits (1 OR MSB), 1), finish_init_at 1 m')"
proof -
  have "get_or_insert_concurrent 1 ZERO_OFFSET (capacity demo_map) True True demo_map
      = ((Some 1, True, 0, 1 OR MSB, 1), store_key 1 (1 OR MSB) demo_map)" by code_simp
  with fold_insert_then_lookup [OF demo_map_inv demo_id_ok this] show ?thesis by blast
qed

text \<open>
  The folding insertion over the whole table fails exactly when every slot holds a key,
  and then it leaves the table alone.
\<close>
theorem fold_insert_full:
  assumes "map_inv m" and "id_ok seed"
  shows "(fst (fst (get_or_insert_concurrent seed ZERO_OFFSET (capacity m) True True m)) = None)
    = (\<forall>i < length (slots m). key (slots m ! i) \<noteq> EMPTY)
    \<and> (claim_id seed m = None \<longrightarrow>
        snd (get_or_insert_concurrent seed ZERO_OFFSET (capacity m) True True m) = m)"
proof -
  from assms(2) have s: "seed \<noteq> 0" "seed AND MSB = 0" by (auto dest: id_okD)
  from assms(1) s show ?thesis
  proof (cases rule: fold_search)
    case full
    then show ?thesis by (simp add: goi_not_found_def)
  next
    case (new d ix k)
    then show ?thesis by (auto simp: claim_id_def load_key_def slot_at_def)
  qed
qed

lemma fold_insert_full_witness:
  "(fst (fst (get_or_insert_concurrent 1 ZERO_OFFSET (capacity demo_map) True True demo_map)) = None)
    = (\<forall>i < length (slots demo_map). key (slots demo_map ! i) \<noteq> EMPTY)"
  using fold_insert_full [OF demo_map_inv demo_id_ok] by blast

text \<open>
  Any number of registrations, whatever their seeds (equal ones included), yield
  pairwise different ids in pairwise different slots, and afterwards every one of the ids
  still leads to its own slot.
\<close>
theorem registrations_distinct:
  assumes "map_inv m" and "list_all id_ok seeds"
    and "claim_all claim_id seeds m = Some (rs, m')"
  shows "distinct (map fst rs) \<and> distinct (map snd rs) \<and> (\<forall>(r, i) \<in> set rs. find_id r m' = Some i)"
  using assms by (rule slot_map.claim_all_distinct)

lemma registrations_distinct_witness:
  "\<exists>m'. claim_all claim_id [1, 1] demo_map = Some ([(1, 1), (2, 0)], m')
    \<and> distinct (map fst [(1 :: gen, 1 :: usize), (2, 0)]) \<and> find_id 2 m' = Some 0"
proof -
  have "case claim_all claim_id [1, 1] demo_map of Some (rs, m') \<Rightarrow> rs = [(1, 1), (2, 0)] | None \<Rightarrow> False"
    by code_simp
  then obtain m' where c: "claim_all claim_id [1, 1] demo_map = Some ([(1, 1), (2, 0)], m')"
    by (auto split: option.splits)
  have "list_all id_ok [1, 1]" by (simp add: demo_id_ok)
  from registrations_distinct [OF demo_map_inv this c] c show ?thesis by auto
qed

text \<open>
  Releasing the id just claimed gives back the table as it was, and releasing an id
  makes its lookup fail without disturbing the lookup of any other.
\<close>
theorem remove_undoes_insert:
  assumes "map_inv m" and "id_ok seed" and "claim_id seed m = Some (r, i, m')"
  shows "remove_concurrent r ZERO_OFFSET IMMEDIATE m' = (True, m)
    \<and> find_id r (release_id r m') = None
    \<and> (\<forall>q. id_ok q \<and> q \<noteq> r \<longrightarrow> find_id q (release_id r m') = find_id q m)"
proof -
  note E = claim_idE [OF assms]
  have "store_key i 0 m = m" using E(2,3)
    by (simp add: store_key_def load_key_def slot_at_def slot_key_same)
  then have "remove_concurrent r ZERO_OFFSET IMMEDIATE m' = (True, m)"
    using E by (simp add: remove_eq index_for_def load_store_key)
  moreover have m': "map_inv m'" "id_ok r" using slot_map.claim_ok [OF assms] by auto
  ultimately show ?thesis
    using slot_map.release_find [OF m'] slot_map.release_other [OF m'] slot_map.claim_other [OF assms]
    by simp
qed

lemma remove_undoes_insert_witness:
  "remove_concurrent 1 ZERO_OFFSET IMMEDIATE (store_key 1 1 demo_map) = (True, demo_map)"
  using remove_undoes_insert [OF demo_map_inv demo_id_ok demo_claim] by blast

text \<open>
  A turn of the probing loop whose thread was overtaken between its load and its CAS
  (so that \<open>k\<close> is any earlier key) never replaces a key that is in the table: it writes
  only where the slot is empty at the moment of the CAS, and only that slot.
\<close>
theorem overtaken_insert_keeps_keys:
  assumes "unat idx < length (slots m)" and "key (slots m ! j) \<noteq> EMPTY"
  shows "slots (snd (goi_turn ky po ins fld i idx k m)) ! j = slots m ! j"
  using assms
  by (cases "load_key idx m = k")
    (auto simp: goi_turn_def Let_def slot_store_key load_key_def slot_at_def split: if_splits)

lemma overtaken_insert_keeps_keys_witness:
  "slots (snd (goi_turn 1 0 True True 0 1 0 (store_key 1 3 demo_map))) ! 1 = slots (store_key 1 3 demo_map) ! 1"
proof (rule overtaken_insert_keeps_keys)
  show "unat (1 :: usize) < length (slots (store_key 1 3 demo_map))" by code_simp
  have "key (slots (store_key 1 3 demo_map) ! 1) = 3" by code_simp
  then show "key (slots (store_key 1 3 demo_map) ! 1) \<noteq> EMPTY" by simp
qed

text \<open>
  \<open>scan_slots\<close> calls its visitor once for each slot that holds a key, with the slot's
  index, key and value pointer, in increasing order of the index.
\<close>
theorem scan_slots_visits:
  "(\<forall>i k v. (i, k, v) \<in> set (scan_slots m) \<longleftrightarrow>
     i < length (slots m) \<and> k = key (slots m ! i) \<and> k \<noteq> EMPTY \<and> v = i)
   \<and> sorted_wrt (<) (map fst (scan_slots m))"
proof -
  let ?P = "\<lambda>(index, s). key s \<noteq> EMPTY"
  have "map fst (scan_slots m) = map fst (filter ?P (enumerate 0 (slots m)))"
    by (simp add: scan_slots_def case_prod_unfold comp_def)
  moreover have "sorted_wrt (<) (map fst (filter ?P (enumerate 0 (slots m))))"
    unfolding sorted_wrt_map
    by (rule sorted_wrt_filter) (simp flip: sorted_wrt_map add: sorted_wrt_upt)
  moreover have "(i, k, v) \<in> set (scan_slots m) \<longleftrightarrow>
     i < length (slots m) \<and> k = key (slots m ! i) \<and> k \<noteq> EMPTY \<and> v = i" for i k v
    by (force simp: scan_slots_def in_set_enumerate_eq image_iff)
  ultimately show ?thesis by simp
qed

text \<open>
  The constructors panic exactly on a capacity that is not a power of two, and
  otherwise make a table that satisfies the invariant.
\<close>
theorem from_storage_establishes:
  assumes "length storage \<le> 2 ^ 62" and "\<forall>s \<in> set storage. key s = EMPTY"
  shows "(case from_storage storage of
       Returns m \<Rightarrow> map_inv m \<and> capacity m = of_nat (length storage) \<and> slots m = storage
     | Panics \<Rightarrow> \<not> is_power_of_two (of_nat (length storage)))"
proof (cases "is_power_of_two (of_nat (length storage))")
  case True
  have u: "unat (of_nat (length storage) :: usize) = length storage"
    using assms(1) by (intro unat_of_nat64) simp
  have nz: "length storage \<noteq> 0" using True by (auto simp: is_power_of_two_def list_ex_iff)
  then have "unat (of_nat (length storage) - 1 :: usize) = length storage - 1"
    using u by (subst unat_minus_one) (auto simp: unat_eq_zero)
  then have "map_inv \<lparr>mask_of = of_nat (length storage) - 1, slots = storage\<rparr>"
    using assms True nz by (auto simp: map_inv_def map_wf_def keys_placed_def)
  then show ?thesis using True nz u
    by (auto simp: from_storage_def Let_def capacity_def word_gt_0 unat_eq_zero)
qed (simp add: from_storage_def Let_def)

lemma from_storage_establishes_witness:
  "case from_storage (slots demo_map) of
     Returns m \<Rightarrow> map_inv m \<and> capacity m = of_nat (length (slots demo_map)) \<and> slots m = slots demo_map
   | Panics \<Rightarrow> \<not> is_power_of_two (of_nat (length (slots demo_map)))"
proof (rule from_storage_establishes)
  have "length (slots demo_map) = 2" by code_simp
  then show "length (slots demo_map) \<le> 2 ^ 62" by simp
  show "\<forall>s \<in> set (slots demo_map). key s = EMPTY" by code_simp
qed

end
