(* ===== verification/Area_Inner.thy ===== *)
theory Area_Inner
  imports SlotMap
begin

text \<open>
  \<open>src/area.rs\<close>, the shared state \<open>AreaInner\<close>: its error types, its fields, its
  constructors, and the writer side (reserving and publishing generations).  An operation
  is a function of the area that returns its result and the area it leaves.  Where the
  source loads counters and then acts on what it loaded, the part after the loads is a
  definition of its own that takes the loaded values as arguments, so that it also
  describes a thread that others have overtaken since its loads.
\<close>

section \<open>Errors and results\<close>

datatype reserve_error = NoSpace | FailedGrab

datatype publish_error = CasFailed | OutOfOrderPublishAttempt

datatype set_gen_error = SetReaderNotFound | ReaderSuspended | InvalidGeneration

datatype suspend_error = SuspendReaderNotFound | AlreadySuspended

datatype resume_error = ResumeReaderNotFound | GenerationTooOld

datatype register_error = ReaderCapacityReached

datatype read_error = ReadError

datatype unregister_error = UnregisterReaderNotFound

datatype cleanup_error = NothingToClean

record cleanup_result =
  old_last_valid :: gen
  new_last_valid :: gen
  slots_cleaned :: gen

text \<open>
  The type argument \<open>E\<close> of the writer and cleanup operations, read by \<open>size_of::<E>()\<close>:
  \<open>Cas\<close> is \<open>E = ()\<close>.
\<close>

datatype emode = Cas | Exclusive

section \<open>The shared state\<close>

text \<open>
  The fields of \<open>AreaInner\<close>; the three counters at the end are the separately allocated
  atomics of the destruction protocol.  \<open>dropped\<close> is not a field of the source: it records
  the contents on which \<open>drop_in_place\<close> was called, in order, the observable effect of
  dropping messages.
\<close>

record 'a area =
  write_gen :: gen
  read_gen :: gen
  last_valid_gen :: gen
  free_gen :: gen
  writers_count :: usize
  reader_gens :: "gen lpmap"
  buffer_capacity :: usize
  buffer :: "'a maybe_uninit list"
  destroy_stages :: usize
  reader_keep_alloc_tickets :: usize
  reader_stage_tickets :: usize
  dropped :: "'a maybe_uninit list"

definition area_new :: "usize \<Rightarrow> usize \<Rightarrow> 'a area outcome" where
  "area_new buffer_cap reader_cap =
     (if \<not> buffer_cap > 0 then Panics
      else if \<not> is_power_of_two reader_cap then Panics
      else if \<not> reader_cap > 0 then Panics
      else Returns
        \<lparr>write_gen = 0, read_gen = 0, last_valid_gen = 0, free_gen = 0, writers_count = 0,
         reader_gens = with_capacity_and_init reader_cap (\<lambda>_. SUSPENDED_BIT),
         buffer_capacity = buffer_cap,
         buffer = replicate (unat buffer_cap) Uninit,
         destroy_stages = 2, reader_keep_alloc_tickets = 0, reader_stage_tickets = 0,
         dropped = []\<rparr>)"

text \<open>
  \<open>init\<close> fills in the fields from storage the caller provides; the counters keep the values
  the caller gave them.
\<close>

definition area_init ::
  "gen lpmap \<Rightarrow> 'a maybe_uninit list \<Rightarrow> usize \<Rightarrow> usize \<Rightarrow> usize \<Rightarrow> 'a area" where
  "area_init rgens buf stages keep_tickets stage_tickets =
     \<lparr>write_gen = 0, read_gen = 0, last_valid_gen = 0, free_gen = 0, writers_count = 0,
      reader_gens = rgens,
      buffer_capacity = of_nat (length buf),
      buffer = buf,
      destroy_stages = stages, reader_keep_alloc_tickets = keep_tickets,
      reader_stage_tickets = stage_tickets, dropped = []\<rparr>"

section \<open>Slots of the ring\<close>

text \<open>The index of a generation in the ring: \<open>(generation as usize) % buffer_capacity\<close>.\<close>

definition slot_index :: "gen \<Rightarrow> 'a area \<Rightarrow> usize" where
  "slot_index generation s = generation mod buffer_capacity s"

definition get_slot :: "gen \<Rightarrow> 'a area \<Rightarrow> 'a maybe_uninit" where
  "get_slot generation s = buffer s ! unat (slot_index generation s)"

text \<open>\<open>ptr.write(val)\<close> through \<open>get_slot_ptr_mut\<close>: the old contents are not dropped.\<close>

definition write_slot :: "gen \<Rightarrow> 'a \<Rightarrow> 'a area \<Rightarrow> 'a area" where
  "write_slot generation val s =
     s\<lparr>buffer := (buffer s)[unat (slot_index generation s) := Init val]\<rparr>"

text \<open>
  \<open>ptr::drop_in_place\<close> through \<open>get_slot_ptr_mut\<close>, for messages whose own \<open>drop\<close> does not
  panic.
\<close>

definition drop_slot :: "gen \<Rightarrow> 'a area \<Rightarrow> 'a area" where
  "drop_slot generation s =
     s\<lparr>buffer := (buffer s)[unat (slot_index generation s) := Uninit],
       dropped := dropped s @ [get_slot generation s]\<rparr>"

section \<open>Reserving\<close>

definition available_slots :: "usize \<Rightarrow> gen \<Rightarrow> gen \<Rightarrow> gen" where
  "available_slots cap current_free current_write =
     cap - min cap (gen_dist_msb_masked current_write current_free)"

text \<open>The step on \<open>write_gen\<close>: a CAS, or a plain store for the exclusive writer.\<close>

definition grab :: "emode \<Rightarrow> gen \<Rightarrow> gen \<Rightarrow> 'a area \<Rightarrow> (reserve_error + gen \<times> gen) \<times> 'a area" where
  "grab E current_write n s =
     (let new_write = gen_add_msb_masked current_write n in
      case E of
        Cas \<Rightarrow>
          (case compare_exchange (write_gen s) current_write new_write of
             (Inr _, w) \<Rightarrow> (Inr (current_write, new_write), s\<lparr>write_gen := w\<rparr>)
           | (Inl _, _) \<Rightarrow> (Inl FailedGrab, s))
      | Exclusive \<Rightarrow> (Inr (current_write, new_write), s\<lparr>write_gen := new_write\<rparr>))"

definition reserve_from ::
  "emode \<Rightarrow> usize \<Rightarrow> gen \<Rightarrow> gen \<Rightarrow> 'a area \<Rightarrow> (reserve_error + gen \<times> gen) \<times> 'a area" where
  "reserve_from E n current_free current_write s =
     (if n > available_slots (buffer_capacity s) current_free current_write
      then (Inl NoSpace, s)
      else grab E current_write n s)"

definition try_reserve_slots :: "emode \<Rightarrow> usize \<Rightarrow> 'a area \<Rightarrow> (reserve_error + gen \<times> gen) \<times> 'a area" where
  "try_reserve_slots E n s = reserve_from E n (free_gen s) (write_gen s) s"

definition best_effort_from ::
  "emode \<Rightarrow> usize \<Rightarrow> gen \<Rightarrow> gen \<Rightarrow> 'a area \<Rightarrow> (reserve_error + gen \<times> gen \<times> usize) \<times> 'a area" where
  "best_effort_from E n current_free current_write s =
     (let actual_n = min n (available_slots (buffer_capacity s) current_free current_write) in
      if actual_n = 0 then (Inr (0, 0, 0), s)
      else (case grab E current_write actual_n s of
              (Inr (st, en), s') \<Rightarrow> (Inr (st, en, actual_n), s')
            | (Inl e, s') \<Rightarrow> (Inl e, s')))"

definition try_reserve_slots_best_effort ::
  "emode \<Rightarrow> usize \<Rightarrow> 'a area \<Rightarrow> (reserve_error + gen \<times> gen \<times> usize) \<times> 'a area" where
  "try_reserve_slots_best_effort E n s =
     (if n = 0 then (Inr (0, 0, 0), s)
      else best_effort_from E n (free_gen s) (write_gen s) s)"

section \<open>Publishing\<close>

definition publish_slots :: "emode \<Rightarrow> gen \<Rightarrow> gen \<Rightarrow> 'a area \<Rightarrow> (publish_error + unit) \<times> 'a area" where
  "publish_slots E start_generation end_generation s =
     (if gen_gte_msb_masked start_generation end_generation then (Inr (), s)
      else
        (case E of
           Cas \<Rightarrow>
             (case compare_exchange (read_gen s) start_generation end_generation of
                (Inr _, r) \<Rightarrow> (Inr (), s\<lparr>read_gen := r\<rparr>)
              | (Inl _, _) \<Rightarrow> (Inl CasFailed, s))
         | Exclusive \<Rightarrow>
             (if read_gen s \<noteq> start_generation then (Inl OutOfOrderPublishAttempt, s)
              else (Inr (), s\<lparr>read_gen := end_generation\<rparr>))))"

end
