(* ===== verification/Area_Readers.thy ===== *)
theory Area_Readers
  imports Area_Inner
begin

text \<open>
  The reader side of \<open>AreaInner\<close> in \<open>src/area.rs\<close>: registering, looking up, advancing,
  suspending, resuming and unregistering readers.  A reader's private generation is the
  value cell of its slot in \<open>reader_gens\<close>; a pointer to it is the index of the slot.  The
  bodies of the retry loops take the value their CAS expects as an argument; run alone, the
  loops are \<open>run_loop\<close>, whose \<open>None\<close> is a loop that is never left.
\<close>

section \<open>Value cells\<close>

definition load_gen :: "usize \<Rightarrow> 'a area \<Rightarrow> gen" where
  "load_gen p s = cell (slot_at p (reader_gens s))"

definition store_cell :: "usize \<Rightarrow> 'c \<Rightarrow> 'c lpmap \<Rightarrow> 'c lpmap" where
  "store_cell p v m = m\<lparr>slots := (slots m)[unat p := (slot_at p m)\<lparr>cell := v\<rparr>]\<rparr>"

definition store_gen :: "usize \<Rightarrow> gen \<Rightarrow> 'a area \<Rightarrow> 'a area" where
  "store_gen p v s = s\<lparr>reader_gens := store_cell p v (reader_gens s)\<rparr>"

definition cas_gen :: "usize \<Rightarrow> gen \<Rightarrow> gen \<Rightarrow> 'a area \<Rightarrow> (gen + gen) \<times> 'a area" where
  "cas_gen p expected desired s =
     (case compare_exchange (load_gen p s) expected desired of
        (r, v) \<Rightarrow> (r, store_gen p v s))"

section \<open>Registering\<close>

text \<open>
  One turn of the loop that enters the active state: the value loaded, then the CAS that
  clears the suspended bit.
\<close>

definition enter_turn :: "usize \<Rightarrow> gen \<Rightarrow> 'a area \<Rightarrow> unit flow \<times> 'a area" where
  "enter_turn p current s =
     (case cas_gen p current (gen_without_suspended_bit current) s of
        (Inr _, s') \<Rightarrow> (Return (), s')
      | (Inl _, s') \<Rightarrow> (Continue, s'))"

definition seed_of :: "gen \<Rightarrow> gen" where
  "seed_of seed = (let seed = seed AND NOT MSB in if seed = 0 then 1 else seed)"

definition register_reader_with_seed :: "gen \<Rightarrow> 'a area \<Rightarrow> ((register_error + gen) \<times> 'a area) option" where
  "register_reader_with_seed seed s =
     (case get_or_insert_concurrent (seed_of seed) ZERO_OFFSET (capacity (reader_gens s)) True True
             (reader_gens s) of
        ((None, _), m) \<Rightarrow> Some (Inl ReaderCapacityReached, s\<lparr>reader_gens := m\<rparr>)
      | ((Some p, is_new, _, reader_id_raw, index), m) \<Rightarrow>
          (let reader_id = key_bits reader_id_raw;
               s' = s\<lparr>reader_gens := finish_init_at index m\<rparr> in
           map_option (\<lambda>(_, s''). (Inr reader_id, s''))
             (run_loop (\<lambda>t. enter_turn p (load_gen p t) t) s')))"

text \<open>\<open>register_reader\<close>: the seed is the next number of the thread's random generator.\<close>

definition register_reader :: "gen \<Rightarrow> 'a area \<Rightarrow> ((register_error + gen) \<times> 'a area) option" where
  "register_reader random s = register_reader_with_seed random s"

section \<open>Looking up\<close>

definition get_reader_ptr :: "gen \<Rightarrow> 'a area \<Rightarrow> usize option" where
  "get_reader_ptr reader_id s =
     (case get_or_insert_concurrent reader_id ZERO_OFFSET IMMEDIATE False False (reader_gens s) of
        ((ptr, _), _) \<Rightarrow> ptr)"

definition get_reader_gen :: "gen \<Rightarrow> 'a area \<Rightarrow> gen option" where
  "get_reader_gen reader_id s =
     (case get_reader_ptr reader_id s of
        None \<Rightarrow> None
      | Some ptr \<Rightarrow> Some (load_gen ptr s))"

section \<open>Advancing, suspending, resuming\<close>

text \<open>Given the value loaded: the store, or the error.\<close>

definition set_gen_from :: "usize \<Rightarrow> gen \<Rightarrow> gen \<Rightarrow> 'a area \<Rightarrow> (set_gen_error + unit) \<times> 'a area" where
  "set_gen_from ptr current new_generation s =
     (if is_suspended current then (Inl ReaderSuspended, s)
      else if gen_lte_msb_masked new_generation current then (Inl InvalidGeneration, s)
      else (Inr (), store_gen ptr new_generation s))"

definition set_reader_gen :: "gen \<Rightarrow> gen \<Rightarrow> 'a area \<Rightarrow> (set_gen_error + unit) \<times> 'a area" where
  "set_reader_gen reader_id new_generation s =
     (case get_reader_ptr reader_id s of
        None \<Rightarrow> (Inl SetReaderNotFound, s)
      | Some ptr \<Rightarrow> set_gen_from ptr (load_gen ptr s) new_generation s)"

definition suspend_from :: "usize \<Rightarrow> gen \<Rightarrow> 'a area \<Rightarrow> (suspend_error + unit) \<times> 'a area" where
  "suspend_from ptr current s =
     (if is_suspended current then (Inl AlreadySuspended, s)
      else (Inr (), store_gen ptr (current OR SUSPENDED_BIT) s))"

definition suspend_reader :: "gen \<Rightarrow> 'a area \<Rightarrow> (suspend_error + unit) \<times> 'a area" where
  "suspend_reader reader_id s =
     (case get_reader_ptr reader_id s of
        None \<Rightarrow> (Inl SuspendReaderNotFound, s)
      | Some ptr \<Rightarrow> suspend_from ptr (load_gen ptr s) s)"

definition resume_turn :: "usize \<Rightarrow> gen \<Rightarrow> 'a area \<Rightarrow> bool flow \<times> 'a area" where
  "resume_turn ptr current s =
     (if \<not> is_suspended current then (Return False, s)
      else
        (case cas_gen ptr current (current AND NOT SUSPENDED_BIT) s of
           (Inr _, s') \<Rightarrow> (Return True, s')
         | (Inl _, s') \<Rightarrow> (Continue, s')))"

definition resume_reader :: "gen \<Rightarrow> 'a area \<Rightarrow> ((resume_error + bool) \<times> 'a area) option" where
  "resume_reader reader_id s =
     (case get_reader_ptr reader_id s of
        None \<Rightarrow> Some (Inl ResumeReaderNotFound, s)
      | Some ptr \<Rightarrow>
          map_option (\<lambda>(b, s'). (Inr b, s'))
            (run_loop (\<lambda>t. resume_turn ptr (load_gen ptr t) t) s))"

definition resume_at_turn ::
  "usize \<Rightarrow> gen \<Rightarrow> gen \<Rightarrow> 'a area \<Rightarrow> (resume_error + bool) flow \<times> 'a area" where
  "resume_at_turn ptr entry_generation current s =
     (if \<not> is_suspended current then (Return (Inr False), s)
      else if gen_lt_msb_masked entry_generation (gen_without_suspended_bit current)
      then (Return (Inl GenerationTooOld), s)
      else
        (case cas_gen ptr current (entry_generation AND NOT SUSPENDED_BIT) s of
           (Inr _, s') \<Rightarrow> (Return (Inr True), s')
         | (Inl _, s') \<Rightarrow> (Continue, s')))"

definition resume_reader_at :: "gen \<Rightarrow> gen \<Rightarrow> 'a area \<Rightarrow> ((resume_error + bool) \<times> 'a area) option" where
  "resume_reader_at reader_id entry_generation s =
     (case get_reader_ptr reader_id s of
        None \<Rightarrow> Some (Inl ResumeReaderNotFound, s)
      | Some ptr \<Rightarrow> run_loop (\<lambda>t. resume_at_turn ptr entry_generation (load_gen ptr t) t) s)"

section \<open>Unregistering\<close>

definition unregister_reader :: "gen \<Rightarrow> 'a area \<Rightarrow> (unregister_error + unit) \<times> 'a area" where
  "unregister_reader reader_id s =
     (case suspend_reader reader_id s of
        (Inl SuspendReaderNotFound, s') \<Rightarrow> (Inl UnregisterReaderNotFound, s')
      | (_, s') \<Rightarrow>
          (Inr (), s'\<lparr>reader_gens :=
             snd (remove_concurrent reader_id ZERO_OFFSET IMMEDIATE (reader_gens s'))\<rparr>))"

definition has_readers :: "'a area \<Rightarrow> bool" where
  "has_readers s = list_ex (\<lambda>sl. key sl \<noteq> EMPTY) (raw_slots (reader_gens s))"

section \<open>Frames\<close>

lemma store_gen_frame [simp]:
  "write_gen (store_gen p v s) = write_gen s" "read_gen (store_gen p v s) = read_gen s"
  "last_valid_gen (store_gen p v s) = last_valid_gen s" "free_gen (store_gen p v s) = free_gen s"
  "writers_count (store_gen p v s) = writers_count s"
  "buffer_capacity (store_gen p v s) = buffer_capacity s" "buffer (store_gen p v s) = buffer s"
  "dropped (store_gen p v s) = dropped s" "destroy_stages (store_gen p v s) = destroy_stages s"
  "reader_keep_alloc_tickets (store_gen p v s) = reader_keep_alloc_tickets s"
  "reader_stage_tickets (store_gen p v s) = reader_stage_tickets s"
  "reader_gens (store_gen p v s) = store_cell p v (reader_gens s)"
  by (simp_all add: store_gen_def)

lemma store_cell_frame [simp]:
  "mask_of (store_cell p v m) = mask_of m" "length (slots (store_cell p v m)) = length (slots m)"
  "capacity (store_cell p v m) = capacity m"
  by (simp_all add: store_cell_def capacity_def)

lemma slot_store_cell:
  "unat p < length (slots m) \<Longrightarrow> slots (store_cell p v m) ! j =
     (if j = unat p then (slots m ! j)\<lparr>cell := v\<rparr> else slots m ! j)"
  by (simp add: store_cell_def slot_at_def)

lemma key_store_cell [simp]: "key (slots (store_cell p v m) ! j) = key (slots m ! j)"
  by (cases "unat p < length (slots m)"; cases "j = unat p")
    (simp_all add: store_cell_def slot_at_def list_update_beyond)

lemma load_key_store_cell [simp]: "load_key q (store_cell p v m) = load_key q m"
  by (simp add: load_key_def slot_at_def)

lemma map_inv_store_cell [simp]: "map_inv (store_cell p v m) = map_inv m"
  by (simp add: map_inv_def map_wf_def keys_placed_def)

lemma load_store_gen:
  "unat p < length (slots (reader_gens s)) \<Longrightarrow>
   load_gen q (store_gen p v s) = (if q = p then v else load_gen q s)"
  by (simp add: load_gen_def slot_at_def slot_store_cell flip: word_unat_eq_iff)

lemma store_gen_same: "store_gen p (load_gen p s) s = s"
proof -
  have "(slots m)[i := (slots m ! i)\<lparr>cell := cell (slots m ! i)\<rparr>] = slots m" for m :: "gen lpmap" and i
    by (cases "slots m ! i") (metis list_update_id slot.update_convs(2) slot.select_convs(2))
  then show ?thesis by (simp add: store_gen_def store_cell_def load_gen_def slot_at_def)
qed

lemma load_gen_store_key [simp]:
  "unat i < length (slots (reader_gens s)) \<Longrightarrow>
   load_gen q (s\<lparr>reader_gens := store_key i k (reader_gens s)\<rparr>) = load_gen q s"
  by (simp add: load_gen_def slot_at_def slot_store_key)

lemma load_gen_cong: "reader_gens s = reader_gens s' \<Longrightarrow> load_gen p s = load_gen p s'"
  by (simp add: load_gen_def)

section \<open>Compare-and-swap on a private generation\<close>

lemma cas_gen_hit: "load_gen p s = e \<Longrightarrow> cas_gen p e d s = (Inr e, store_gen p d s)"
  by (simp add: cas_gen_def)

lemma cas_gen_miss: "load_gen p s \<noteq> e \<Longrightarrow> cas_gen p e d s = (Inl (load_gen p s), s)"
  by (simp add: cas_gen_def store_gen_same)

lemma cas_gen_split:
  "P (cas_gen p e d s) \<longleftrightarrow>
    (load_gen p s = e \<longrightarrow> P (Inr e, store_gen p d s)) \<and>
    (load_gen p s \<noteq> e \<longrightarrow> P (Inl (load_gen p s), s))"
  by (cases "load_gen p s = e") (simp_all add: cas_gen_hit cas_gen_miss)

section \<open>The suspended bit\<close>

lemma SUSPENDED_BIT_eq: "SUSPENDED_BIT = MSB"
  by (simp add: SUSPENDED_BIT_def)

lemma is_suspended_or [simp]: "is_suspended (v OR MSB)" for v :: gen
proof -
  have "(v OR MSB) AND MSB = MSB" by (rule bit_word_eqI) (auto simp: bit_simps)
  then show ?thesis by (simp add: is_suspended_def SUSPENDED_BIT_eq MSB64)
qed

lemma not_suspended_strip [simp]: "\<not> is_suspended (v AND NOT MSB)" for v :: gen
  by (simp add: is_suspended_def SUSPENDED_BIT_eq)

lemma not_suspended_masked: "\<not> is_suspended v \<longleftrightarrow> v AND MSB = 0"
  by (simp add: is_suspended_def SUSPENDED_BIT_eq)

lemma strip_eq: "gen_without_suspended_bit v = v AND NOT MSB"
  by (simp add: gen_without_suspended_bit_def SUSPENDED_BIT_eq)

lemma strip_active: "\<not> is_suspended v \<Longrightarrow> gen_without_suspended_bit v = v" for v :: gen
  by (simp add: strip_eq not_suspended_masked strip_id)

section \<open>Lookups\<close>

lemma get_reader_ptr_find: "get_reader_ptr r s = find_id r (reader_gens s)"
  by (simp add: get_reader_ptr_def find_id_def case_prod_unfold)

end
