(* ===== verification/Area_Cleanup.thy ===== *)
theory Area_Cleanup
  imports Area_Readers
begin

text \<open>
  \<open>AreaInner::try_cleanup_old_slots\<close> of \<open>src/area.rs\<close>: scan the private generations of all
  slots of the table (empty ones included), drag the suspended ones forward, move
  \<open>last_valid_gen\<close> to the least generation still held, drop the messages below it and hand
  their slots to the writers through \<open>free_gen\<close>.  Each loop body of the source is a
  definition of its own whose local variables are arguments, so that the same bodies
  describe a cleanup that other threads interleave with.
\<close>

section \<open>The scan\<close>

text \<open>
  One turn of the inner loop on the slot \<open>p\<close>: \<open>reader_gen\<close> is the local variable, the value
  last seen in the cell.  The turn ends the work on the slot with the new \<open>min_held_gen\<close>, or
  goes round with the value the failed CAS found.
\<close>

definition scan_turn :: "usize \<Rightarrow> gen \<Rightarrow> gen \<times> 'a area \<Rightarrow> gen flow \<times> (gen \<times> 'a area)" where
  "scan_turn p min_held_gen = (\<lambda>(reader_gen, s).
     if is_suspended reader_gen then
       (if gen_gt_msb_masked min_held_gen (gen_without_suspended_bit reader_gen) then
          (case cas_gen p reader_gen (min_held_gen OR SUSPENDED_BIT) s of
             (Inr _, s') \<Rightarrow> (Return min_held_gen, (reader_gen, s'))
           | (Inl actual, s') \<Rightarrow> (Continue, (actual, s')))
        else (Return min_held_gen, (reader_gen, s)))
     else
       (Return (if gen_gte_msb_masked min_held_gen reader_gen then reader_gen else min_held_gen),
        (reader_gen, s)))"

definition scan_slot :: "usize \<Rightarrow> gen \<Rightarrow> 'a area \<Rightarrow> (gen \<times> 'a area) option" where
  "scan_slot p min_held_gen s =
     map_option (\<lambda>(m, (_, s')). (m, s')) (run_loop (scan_turn p min_held_gen) (load_gen p s, s))"

fun scan_all :: "nat list \<Rightarrow> gen \<Rightarrow> 'a area \<Rightarrow> (gen \<times> 'a area) option" where
  "scan_all [] min_held_gen s = Some (min_held_gen, s)"
| "scan_all (p # ps) min_held_gen s =
     (case scan_slot (of_nat p) min_held_gen s of
        None \<Rightarrow> None
      | Some (m, s') \<Rightarrow> scan_all ps m s')"

section \<open>Claiming the range\<close>

datatype claim_range = NothingLeft | Claimed gen | AssertFailed

text \<open>
  One turn of the loop that moves \<open>last_valid_gen\<close>; the local variable is \<open>last_valid\<close>.
\<close>

definition claim_turn :: "emode \<Rightarrow> gen \<Rightarrow> gen \<times> 'a area \<Rightarrow> claim_range flow \<times> (gen \<times> 'a area)" where
  "claim_turn E new_lv = (\<lambda>(last_valid, s).
     if gen_lte_msb_masked new_lv last_valid then (Return NothingLeft, (last_valid, s))
     else
       (case E of
          Cas \<Rightarrow>
            (case compare_exchange (last_valid_gen s) last_valid new_lv of
               (Inr _, v) \<Rightarrow> (Return (Claimed last_valid), (last_valid, s\<lparr>last_valid_gen := v\<rparr>))
             | (Inl actual, _) \<Rightarrow> (Continue, (actual, s)))
        | Exclusive \<Rightarrow>
            (if last_valid_gen s \<noteq> last_valid then (Return AssertFailed, (last_valid, s))
             else (Return (Claimed last_valid), (last_valid, s\<lparr>last_valid_gen := new_lv\<rparr>)))))"

section \<open>Dropping and freeing\<close>

text \<open>\<open>for generation_offset in 0..slots_cleaned\<close>.\<close>

fun drop_range :: "nat \<Rightarrow> gen \<Rightarrow> gen \<Rightarrow> 'a area \<Rightarrow> 'a area" where
  "drop_range 0 generation_offset last_valid s = s"
| "drop_range (Suc left) generation_offset last_valid s =
     drop_range left (generation_offset + 1) last_valid
       (drop_slot (gen_add_msb_masked last_valid generation_offset) s)"

text \<open>One turn of the loop that moves \<open>free_gen\<close>.\<close>

definition free_turn :: "emode \<Rightarrow> gen \<Rightarrow> gen \<Rightarrow> 'a area \<Rightarrow> unit outcome flow \<times> 'a area" where
  "free_turn E last_valid new_lv s =
     (case E of
        Cas \<Rightarrow>
          (case compare_exchange (free_gen s) last_valid new_lv of
             (Inr _, f) \<Rightarrow> (Return (Returns ()), s\<lparr>free_gen := f\<rparr>)
           | (Inl _, _) \<Rightarrow> (Continue, s))
      | Exclusive \<Rightarrow>
          (if free_gen s \<noteq> last_valid then (Return Panics, s)
           else (Return (Returns ()), s\<lparr>free_gen := new_lv\<rparr>)))"

section \<open>The whole operation, run alone\<close>

text \<open>\<open>nd\<close> is \<open>needs_drop::<T>()\<close>.\<close>

definition finish_cleanup ::
  "emode \<Rightarrow> bool \<Rightarrow> gen \<Rightarrow> gen \<Rightarrow> 'a area \<Rightarrow> ((cleanup_error + cleanup_result) outcome \<times> 'a area) option" where
  "finish_cleanup E nd last_valid new_lv s =
     (let cleaned = gen_dist_msb_masked new_lv last_valid;
          s' = (if nd then drop_range (unat cleaned) 0 last_valid s else s) in
      (case run_loop (free_turn E last_valid new_lv) s' of
         None \<Rightarrow> None
       | Some (Panics, s'') \<Rightarrow> Some (Panics, s'')
       | Some (Returns _, s'') \<Rightarrow>
           Some (Returns (Inr \<lparr>old_last_valid = last_valid, new_last_valid = new_lv,
                               slots_cleaned = cleaned\<rparr>), s'')))"

definition claim_and_clean ::
  "emode \<Rightarrow> bool \<Rightarrow> gen \<Rightarrow> gen \<Rightarrow> 'a area \<Rightarrow> ((cleanup_error + cleanup_result) outcome \<times> 'a area) option" where
  "claim_and_clean E nd new_lv last_valid s =
     (case run_loop (claim_turn E new_lv) (last_valid, s) of
        None \<Rightarrow> None
      | Some (NothingLeft, (_, s')) \<Rightarrow> Some (Returns (Inl NothingToClean), s')
      | Some (AssertFailed, (_, s')) \<Rightarrow> Some (Panics, s')
      | Some (Claimed lv, (_, s')) \<Rightarrow> finish_cleanup E nd lv new_lv s')"

definition try_cleanup_old_slots ::
  "emode \<Rightarrow> bool \<Rightarrow> 'a area \<Rightarrow> ((cleanup_error + cleanup_result) outcome \<times> 'a area) option" where
  "try_cleanup_old_slots E nd s =
     (let last_valid = last_valid_gen s; rd = read_gen s in
      if gen_gte_msb_masked last_valid rd then Some (Returns (Inl NothingToClean), s)
      else
        (case scan_all [0..<length (raw_slots (reader_gens s))] rd s of
           None \<Rightarrow> None
         | Some (min_held_gen, s') \<Rightarrow> claim_and_clean E nd min_held_gen last_valid s'))"

end
