(* ===== verification/Machine.thy ===== *)
theory Machine
  imports Area_Cleanup
begin

text \<open>
  The operations of \<open>src/area.rs\<close> as threads that interleave.  A thread is at a control
  point of one of the operations, with the local variables the source has there; one step
  of a thread performs one atomic access (or one access to a message slot) of the source and
  moves to the next control point, by the loop bodies and commit steps of the other
  theories.  Any number of threads run over one area; a schedule is a list of thread numbers
  and calls.

  A thread that owns a reader handle carries the reader's id: the operations on the private
  generation take \<open>&mut self\<close>, so at most one of them runs per reader at any time.  Writers
  fill their slots in order through \<open>ReservationSlot::write\<close> of \<open>src/iter.rs\<close> and publish
  when all are written.
\<close>

section \<open>Control points\<close>

datatype reader_op =
    GetGen                 \<comment> \<open>the start of \<open>read\<close>\<close>
  | SetGen gen             \<comment> \<open>\<open>set_reader_gen\<close>\<close>
  | DropSlice gen gen      \<comment> \<open>the check of \<open>ReadSlice::drop\<close>\<close>
  | Suspend | Resume | ResumeAt gen
  | Unregister

datatype 'a pc =
    Idle
  | ReserveLoad bool usize gen            \<comment> \<open>best effort?, \<open>n\<close>, \<open>current_free\<close>\<close>
  | ReserveGrab bool usize gen gen        \<comment> \<open>and \<open>current_write\<close>\<close>
  | Writing gen gen "'a list"             \<comment> \<open>a reservation and the messages written so far\<close>
  | CleanLoad gen                         \<comment> \<open>\<open>last_valid\<close>\<close>
  | CleanSlot gen gen nat                 \<comment> \<open>\<open>last_valid\<close>, \<open>min_held_gen\<close>, next slot\<close>
  | CleanTurn gen gen nat gen             \<comment> \<open>and \<open>reader_gen\<close>\<close>
  | CleanClaim gen gen                    \<comment> \<open>\<open>last_valid\<close>, \<open>new_last_valid\<close>\<close>
  | CleanDrop gen gen nat                 \<comment> \<open>and \<open>generation_offset\<close>\<close>
  | CleanFree gen gen
  | Probe gen usize usize                 \<comment> \<open>key, \<open>i\<close>, \<open>idx\<close>\<close>
  | ProbeCas gen usize usize gen          \<comment> \<open>and the key loaded\<close>
  | Finish gen usize                      \<comment> \<open>reader id, slot\<close>
  | EnterLoad gen usize
  | EnterCas gen usize gen                \<comment> \<open>and \<open>current\<close>\<close>
  | Reader gen                            \<comment> \<open>a reader handle at rest\<close>
  | OpLookup gen reader_op
  | OpLoad gen usize reader_op
  | OpAct gen usize gen reader_op         \<comment> \<open>and \<open>current\<close>\<close>
  | RemoveLoad gen
  | RemoveCas gen gen                     \<comment> \<open>and the key loaded\<close>
  | ReadEnd gen gen                       \<comment> \<open>reader id, \<open>start_generation\<close>\<close>
  | Slice gen gen gen                     \<comment> \<open>a \<open>ReadSlice\<close>\<close>
  | Panicked

section \<open>Steps inside an operation\<close>

text \<open>
  The access of an operation on a private generation, once the value \<open>current\<close> is loaded.
\<close>

fun op_act :: "gen \<Rightarrow> usize \<Rightarrow> gen \<Rightarrow> reader_op \<Rightarrow> 'a area \<Rightarrow> 'a pc \<times> 'a area" where
  "op_act r p current GetGen s = (ReadEnd r (gen_without_suspended_bit current), s)"
| "op_act r p current (SetGen g) s = (Reader r, snd (set_gen_from p current g s))"
| "op_act r p current (DropSlice st en) s =
     (if gen_without_suspended_bit current \<noteq> st then (Panicked, s)
      else (OpLookup r (SetGen en), s))"
| "op_act r p current Suspend s = (Reader r, snd (suspend_from p current s))"
| "op_act r p current Resume s =
     (case resume_turn p current s of
        (Return _, s') \<Rightarrow> (Reader r, s') | (Continue, s') \<Rightarrow> (OpLoad r p Resume, s'))"
| "op_act r p current (ResumeAt g) s =
     (case resume_at_turn p g current s of
        (Return _, s') \<Rightarrow> (Reader r, s') | (Continue, s') \<Rightarrow> (OpLoad r p (ResumeAt g), s'))"
| "op_act r p current Unregister s = (RemoveLoad r, snd (suspend_from p current s))"

text \<open>
  \<open>nd\<close> is \<open>needs_drop::<T>()\<close>.  Points at rest do not move by themselves.  \<open>Finish\<close> is the load
  and the \<open>fetch_and\<close> of \<open>finish_init_at\<close> in one step: the key is in progress for the thread
  that inserted it, and no other thread stores to a key that is neither empty nor its own, so
  that nothing can come between the two.
\<close>

fun pc_step :: "bool \<Rightarrow> 'a pc \<Rightarrow> 'a area \<Rightarrow> 'a pc \<times> 'a area" where
  "pc_step nd (ReserveLoad be n cf) s = (ReserveGrab be n cf (write_gen s), s)"
| "pc_step nd (ReserveGrab be n cf cw) s =
     (if be then
        (case best_effort_from Cas n cf cw s of
           (Inr (st, en, _), s') \<Rightarrow> (Writing st en [], s') | (Inl _, s') \<Rightarrow> (Idle, s'))
      else
        (case reserve_from Cas n cf cw s of
           (Inr (st, en), s') \<Rightarrow> (Writing st en [], s') | (Inl _, s') \<Rightarrow> (Idle, s')))"
| "pc_step nd (CleanLoad lv) s =
     (if gen_gte_msb_masked lv (read_gen s) then (Idle, s) else (CleanSlot lv (read_gen s) 0, s))"
| "pc_step nd (CleanSlot lv m i) s =
     (if i < length (raw_slots (reader_gens s))
      then (CleanTurn lv m i (load_gen (of_nat i) s), s) else (CleanClaim lv m, s))"
| "pc_step nd (CleanTurn lv m i rg) s =
     (case scan_turn (of_nat i) m (rg, s) of
        (Return m', (_, s')) \<Rightarrow> (CleanSlot lv m' (Suc i), s')
      | (Continue, (rg', s')) \<Rightarrow> (CleanTurn lv m i rg', s'))"
| "pc_step nd (CleanClaim lv new) s =
     (case claim_turn Cas new (lv, s) of
        (Return (Claimed l), (_, s')) \<Rightarrow> (CleanDrop l new 0, s')
      | (Return _, (_, s')) \<Rightarrow> (Idle, s')
      | (Continue, (lv', s')) \<Rightarrow> (CleanClaim lv' new, s'))"
| "pc_step nd (CleanDrop lv new k) s =
     (if nd \<and> k < unat (gen_dist_msb_masked new lv)
      then (CleanDrop lv new (Suc k), drop_slot (gen_add_msb_masked lv (of_nat k)) s)
      else (CleanFree lv new, s))"
| "pc_step nd (CleanFree lv new) s =
     (case free_turn Cas lv new s of
        (Return _, s') \<Rightarrow> (Idle, s') | (Continue, s') \<Rightarrow> (CleanFree lv new, s'))"
| "pc_step nd (Probe ky i idx) s =
     (if i < capacity (reader_gens s)
      then (ProbeCas ky i idx (load_key idx (reader_gens s)), s) else (Idle, s))"
| "pc_step nd (ProbeCas ky i idx k) s =
     (case goi_turn ky ZERO_OFFSET True True i idx k (reader_gens s) of
        (Return (_, _, _, k', p), m) \<Rightarrow> (Finish (key_bits k') p, s\<lparr>reader_gens := m\<rparr>)
      | (Continue, m) \<Rightarrow> (Probe ky (i + 1) (next_index idx m), s\<lparr>reader_gens := m\<rparr>))"
| "pc_step nd (Finish r p) s =
     (EnterLoad r p, s\<lparr>reader_gens := finish_init_at p (reader_gens s)\<rparr>)"
| "pc_step nd (EnterLoad r p) s = (EnterCas r p (load_gen p s), s)"
| "pc_step nd (EnterCas r p current) s =
     (case enter_turn p current s of
        (Return _, s') \<Rightarrow> (Reader r, s') | (Continue, s') \<Rightarrow> (EnterLoad r p, s'))"
| "pc_step nd (OpLookup r oper) s =
     (case get_reader_ptr r s of
        None \<Rightarrow> (case oper of GetGen \<Rightarrow> (Panicked, s) | DropSlice _ _ \<Rightarrow> (Panicked, s) | _ \<Rightarrow> (Reader r, s))
      | Some p \<Rightarrow> (OpLoad r p oper, s))"
| "pc_step nd (OpLoad r p oper) s = (OpAct r p (load_gen p s) oper, s)"
| "pc_step nd (OpAct r p current oper) s = op_act r p current oper s"
| "pc_step nd (RemoveLoad r) s =
     (RemoveCas r (load_key (index_for r ZERO_OFFSET (reader_gens s)) (reader_gens s)), s)"
| "pc_step nd (RemoveCas r k) s =
     (Idle, s\<lparr>reader_gens :=
        snd (remove_turn r (index_for r ZERO_OFFSET (reader_gens s)) k (reader_gens s))\<rparr>)"
| "pc_step nd (ReadEnd r st) s = (Slice r st (read_gen s), s)"
| "pc_step nd x s = (x, s)"

section \<open>Calls\<close>

datatype 'a call =
    Reserve bool usize | Write 'a | Publish
  | Cleanup
  | Register gen
  | Operate reader_op
  | EndSlice bool          \<comment> \<open>drop the slice, armed or not\<close>

text \<open>
  A call made at a point at rest; \<open>None\<close> where the source has no such call, or where it
  panics: publishing before all slots are written.  \<open>SetGen\<close> and the check on dropping a
  slice are not public, and begin only with \<open>EndSlice\<close>.
\<close>

definition call_step :: "'a call \<Rightarrow> 'a pc \<Rightarrow> 'a area \<Rightarrow> ('a pc \<times> 'a area) option" where
  "call_step c x s =
     (case c of
        Reserve be n \<Rightarrow>
          (case x of
             Idle \<Rightarrow>
               (if be \<and> n = 0 then Some (Writing 0 0 [], s) else Some (ReserveLoad be n (free_gen s), s))
           | _ \<Rightarrow> None)
      | Write v \<Rightarrow>
          (case x of
             Writing st en ms \<Rightarrow>
               (if length ms < unat (gen_dist_msb_masked en st)
                then Some (Writing st en (ms @ [v]),
                           write_slot (gen_add_msb_masked st (of_nat (length ms))) v s)
                else None)
           | _ \<Rightarrow> None)
      | Publish \<Rightarrow>
          (case x of
             Writing st en ms \<Rightarrow>
               (if length ms = unat (gen_dist_msb_masked en st)
                then (case publish_slots Cas st en s of
                        (Inr _, s') \<Rightarrow> Some (Idle, s')
                      | (Inl _, s') \<Rightarrow> Some (Writing st en ms, s'))
                else None)
           | _ \<Rightarrow> None)
      | Cleanup \<Rightarrow>
          (case x of Idle \<Rightarrow> Some (CleanLoad (last_valid_gen s), s) | _ \<Rightarrow> None)
      | Register seed \<Rightarrow>
          (case x of
             Idle \<Rightarrow>
               Some (Probe (seed_of seed) 0 (index_for (seed_of seed) ZERO_OFFSET (reader_gens s)), s)
           | _ \<Rightarrow> None)
      | Operate oper \<Rightarrow>
          (case x of
             Reader r \<Rightarrow>
               (case oper of
                  SetGen _ \<Rightarrow> None | DropSlice _ _ \<Rightarrow> None | _ \<Rightarrow> Some (OpLookup r oper, s))
           | _ \<Rightarrow> None)
      | EndSlice armed \<Rightarrow>
          (case x of
             Slice r st en \<Rightarrow>
               Some (if armed then OpLookup r (DropSlice st en) else Reader r, s)
           | _ \<Rightarrow> None))"

section \<open>The system\<close>

text \<open>
  \<open>base\<close>, \<open>reserved\<close> and \<open>log\<close> are bookkeeping for the statements: the generation all
  counters start from, the number of generations reserved so far, and the messages published
  so far, in order.
\<close>

record 'a sys =
  shared :: "'a area"
  threads :: "nat \<Rightarrow> 'a pc"
  base :: gen
  reserved :: nat
  log :: "'a list"

definition published_by :: "'a pc \<Rightarrow> 'a call option \<Rightarrow> 'a pc \<Rightarrow> 'a list" where
  "published_by x c x' =
     (case (x, c, x') of (Writing _ _ ms, Some Publish, Idle) \<Rightarrow> ms | _ \<Rightarrow> [])"

definition free_exec :: "bool \<Rightarrow> nat \<times> 'a call option \<Rightarrow> 'a sys \<Rightarrow> 'a sys option" where
  "free_exec nd = (\<lambda>(t, c) S.
     let x = threads S t;
         r = (case c of None \<Rightarrow> Some (pc_step nd x (shared S)) | Some c \<Rightarrow> call_step c x (shared S)) in
     map_option (\<lambda>(x', s').
       S\<lparr>shared := s', threads := (threads S)(t := x'),
         reserved := reserved S + unat (gen_dist_msb_masked (write_gen s') (write_gen (shared S))),
         log := log S @ published_by x c x'\<rparr>) r)"

fun free_run :: "bool \<Rightarrow> (nat \<times> 'a call option) list \<Rightarrow> 'a sys \<Rightarrow> 'a sys option" where
  "free_run nd [] S = Some S"
| "free_run nd (e # es) S =
     (case free_exec nd e S of None \<Rightarrow> None | Some S' \<Rightarrow> free_run nd es S')"

text \<open>
  The source takes any entry generation in \<open>resume_at\<close> that is not too old, also one that has
  not been published yet, and then a reader can be ahead of \<open>read_gen\<close>
  (\<open>resume_ahead_breaks_slices\<close> in \<open>Machine_Safety\<close>).  Most statements are about callers that
  do not do this: \<open>resume_at\<close> is called with a generation that has been published, or with one
  that is too old.  \<open>sys_exec\<close> is \<open>free_exec\<close> for such callers.
\<close>

definition call_allowed :: "'a call \<Rightarrow> 'a sys \<Rightarrow> bool" where
  "call_allowed c S =
     (case c of
        Operate (ResumeAt g) \<Rightarrow> pos (base S) g \<le> pos (base S) (read_gen (shared S))
      | _ \<Rightarrow> True)"

fun event_allowed :: "nat \<times> 'a call option \<Rightarrow> 'a sys \<Rightarrow> bool" where
  "event_allowed (t, None) S \<longleftrightarrow> True"
| "event_allowed (t, Some c) S \<longleftrightarrow> call_allowed c S"

fun resumes_published :: "bool \<Rightarrow> (nat \<times> 'a call option) list \<Rightarrow> 'a sys \<Rightarrow> bool" where
  "resumes_published nd [] S \<longleftrightarrow> True"
| "resumes_published nd (e # es) S \<longleftrightarrow> event_allowed e S \<and>
     (case free_exec nd e S of None \<Rightarrow> True | Some S' \<Rightarrow> resumes_published nd es S')"

definition sys_exec :: "bool \<Rightarrow> nat \<times> 'a call option \<Rightarrow> 'a sys \<Rightarrow> 'a sys option" where
  "sys_exec nd e S = (if event_allowed e S then free_exec nd e S else None)"

fun sys_run :: "bool \<Rightarrow> (nat \<times> 'a call option) list \<Rightarrow> 'a sys \<Rightarrow> 'a sys option" where
  "sys_run nd [] S = Some S"
| "sys_run nd (e # es) S =
     (case sys_exec nd e S of None \<Rightarrow> None | Some S' \<Rightarrow> sys_run nd es S')"

lemma sys_exec_free: "sys_exec nd e S = Some S' \<longleftrightarrow> event_allowed e S \<and> free_exec nd e S = Some S'"
  by (simp add: sys_exec_def)

lemma sys_exec_eq:
  "sys_exec nd = (\<lambda>(t, c) S.
     let x = threads S t;
         r = (case c of
                None \<Rightarrow> Some (pc_step nd x (shared S))
              | Some c \<Rightarrow> if call_allowed c S then call_step c x (shared S) else None) in
     map_option (\<lambda>(x', s').
       S\<lparr>shared := s', threads := (threads S)(t := x'),
         reserved := reserved S + unat (gen_dist_msb_masked (write_gen s') (write_gen (shared S))),
         log := log S @ published_by x c x'\<rparr>) r)"
  by (auto simp: fun_eq_iff sys_exec_def free_exec_def Let_def split: option.split)

lemma sys_run_free: "sys_run nd es S = Some S' \<longleftrightarrow> resumes_published nd es S \<and> free_run nd es S = Some S'"
  by (induction es arbitrary: S) (auto simp: sys_exec_def split: option.splits)

lemma free_run_append: "free_run nd (es @ es') S = (case free_run nd es S of None \<Rightarrow> None | Some S' \<Rightarrow> free_run nd es' S')"
  by (induction es arbitrary: S) (auto split: option.splits)

lemma resumes_published_append:
  "resumes_published nd (es @ es') S \<longleftrightarrow> resumes_published nd es S \<and>
     (case free_run nd es S of None \<Rightarrow> True | Some S' \<Rightarrow> resumes_published nd es' S')"
  by (induction es arbitrary: S) (auto split: option.splits)

text \<open>
  A start state: all four counters and the (suspended) cells of the table at one generation
  \<open>g\<close>, nothing in the ring, no reader registered.  \<open>g = 0\<close> is a new area; a later \<open>g\<close> is an
  area at rest after any number of messages, the wrap-around of the counters included.
\<close>

definition area_at :: "gen \<Rightarrow> usize \<Rightarrow> usize \<Rightarrow> 'a area" where
  "area_at g buffer_cap reader_cap =
     \<lparr>write_gen = g, read_gen = g, last_valid_gen = g, free_gen = g, writers_count = 1,
      reader_gens = with_capacity_and_init reader_cap (\<lambda>_. g OR SUSPENDED_BIT),
      buffer_capacity = buffer_cap,
      buffer = replicate (unat buffer_cap) Uninit,
      destroy_stages = 2, reader_keep_alloc_tickets = 0, reader_stage_tickets = 0,
      dropped = []\<rparr>"

definition start_at :: "gen \<Rightarrow> usize \<Rightarrow> usize \<Rightarrow> 'a sys" where
  "start_at g buffer_cap reader_cap =
     \<lparr>shared = area_at g buffer_cap reader_cap, threads = (\<lambda>_. Idle), base = g,
      reserved = 0, log = []\<rparr>"

inductive reachable :: "bool \<Rightarrow> 'a sys \<Rightarrow> 'a sys \<Rightarrow> bool" for nd S0 where
  start: "reachable nd S0 S0"
| step: "reachable nd S0 S \<Longrightarrow> sys_exec nd e S = Some S' \<Longrightarrow> reachable nd S0 S'"

lemma reachable_sys_run:
  "reachable nd S0 S \<Longrightarrow> sys_run nd es S = Some S' \<Longrightarrow> reachable nd S0 S'"
  by (induction es arbitrary: S) (auto split: option.splits intro: reachable.step)

end
