(* ===== verification/Machine_Ownership.thy ===== *)
theory Machine_Ownership
  imports Machine
begin

text \<open>
  Who owns which reader slot of the interleaved system of \<open>Machine\<close>.  A thread owns a reader
  id from the CAS that claimed the slot to the CAS that gives it back; the invariant says
  that an owned id is in the table, in the slot its low bits name, that no two threads own
  the same id, and that free slots are suspended.  Another thread can touch the private
  generation of an owned reader only while it is suspended, and leaves it suspended
  (\<open>undisturbed\<close>).
\<close>

section \<open>Ownership\<close>

fun owned :: "'a pc \<Rightarrow> gen option" where
  "owned (Finish r p) = Some r"
| "owned (EnterLoad r p) = Some r"
| "owned (EnterCas r p c) = Some r"
| "owned (Reader r) = Some r"
| "owned (OpLookup r x) = Some r"
| "owned (OpLoad r p x) = Some r"
| "owned (OpAct r p c x) = Some r"
| "owned (RemoveLoad r) = Some r"
| "owned (RemoveCas r k) = Some r"
| "owned (ReadEnd r st) = Some r"
| "owned (Slice r st en) = Some r"
| "owned x = None"

definition slot_of :: "gen \<Rightarrow> 'a area \<Rightarrow> usize" where
  "slot_of r s = r AND mask_of (reader_gens s)"

definition gen_of :: "gen \<Rightarrow> 'a area \<Rightarrow> gen" where
  "gen_of r s = load_gen (slot_of r s) s"

definition holds :: "gen \<Rightarrow> 'a area \<Rightarrow> bool" where
  "holds r s \<longleftrightarrow> id_ok r \<and> key_bits (load_key (slot_of r s) (reader_gens s)) = r"

fun local_own :: "'a pc \<Rightarrow> 'a area \<Rightarrow> bool" where
  "local_own (Finish r p) s \<longleftrightarrow> p = slot_of r s \<and> is_suspended (gen_of r s)"
| "local_own (EnterLoad r p) s \<longleftrightarrow> p = slot_of r s \<and> is_suspended (gen_of r s)"
| "local_own (EnterCas r p c) s \<longleftrightarrow> p = slot_of r s \<and> is_suspended (gen_of r s) \<and> is_suspended c"
| "local_own (OpLoad r p x) s \<longleftrightarrow> p = slot_of r s"
| "local_own (OpAct r p c x) s \<longleftrightarrow> p = slot_of r s \<and>
     (is_suspended c \<longleftrightarrow> is_suspended (gen_of r s)) \<and> (is_suspended c \<or> gen_of r s = c)"
| "local_own (RemoveLoad r) s \<longleftrightarrow> is_suspended (gen_of r s)"
| "local_own (RemoveCas r k) s \<longleftrightarrow> is_suspended (gen_of r s)"
| "local_own (ReadEnd r st) s \<longleftrightarrow> is_suspended (gen_of r s) \<or> gen_of r s = st"
| "local_own (Slice r st en) s \<longleftrightarrow> is_suspended (gen_of r s) \<or> gen_of r s = st"
| "local_own (CleanTurn lv m i rg) s \<longleftrightarrow> i < length (slots (reader_gens s))"
| "local_own (Probe ky i idx) s \<longleftrightarrow> id_ok ky \<and> idx = (ky + i) AND mask_of (reader_gens s)"
| "local_own (ProbeCas ky i idx k) s \<longleftrightarrow> id_ok ky \<and> idx = (ky + i) AND mask_of (reader_gens s) \<and>
     unat i < length (slots (reader_gens s))"
| "local_own x s \<longleftrightarrow> True"

definition free_suspended :: "'a area \<Rightarrow> bool" where
  "free_suspended s \<longleftrightarrow> (\<forall>i < length (slots (reader_gens s)).
     key (slots (reader_gens s) ! i) = EMPTY \<longrightarrow> is_suspended (cell (slots (reader_gens s) ! i)))"

definition reg_inv :: "'a area \<Rightarrow> bool" where
  "reg_inv s \<longleftrightarrow> map_inv (reader_gens s) \<and> free_suspended s"

definition own_inv :: "'a sys \<Rightarrow> bool" where
  "own_inv S \<longleftrightarrow> reg_inv (shared S) \<and>
     (\<forall>t r. owned (threads S t) = Some r \<longrightarrow> holds r (shared S)) \<and>
     (\<forall>t u r. owned (threads S t) = Some r \<longrightarrow> owned (threads S u) = Some r \<longrightarrow> t = u) \<and>
     (\<forall>t. local_own (threads S t) (shared S))"

text \<open>What a step of another thread may do to the slot of a reader.\<close>

definition undisturbed :: "gen \<Rightarrow> 'a area \<Rightarrow> 'a area \<Rightarrow> bool" where
  "undisturbed r s s' \<longleftrightarrow> slot_of r s' = slot_of r s \<and> (holds r s \<longrightarrow> holds r s') \<and>
     (is_suspended (gen_of r s') \<longleftrightarrow> is_suspended (gen_of r s)) \<and>
     (is_suspended (gen_of r s) \<or> gen_of r s' = gen_of r s)"

definition same_table :: "'a area \<Rightarrow> 'a area \<Rightarrow> bool" where
  "same_table s s' \<longleftrightarrow> mask_of (reader_gens s') = mask_of (reader_gens s) \<and>
     length (slots (reader_gens s')) = length (slots (reader_gens s))"

lemma local_own_stable:
  "local_own x s \<Longrightarrow> same_table s s' \<Longrightarrow> (\<And>r. owned x = Some r \<Longrightarrow> undisturbed r s s') \<Longrightarrow>
   local_own x s'"
  by (cases x) (auto simp: undisturbed_def same_table_def)

lemma slots_differ: "holds r s \<Longrightarrow> holds q s \<Longrightarrow> r \<noteq> q \<Longrightarrow> slot_of r s \<noteq> slot_of q s"
  by (auto simp: holds_def)

lemma slot_less: "map_inv (reader_gens s) \<Longrightarrow> unat (slot_of r s) < length (slots (reader_gens s))"
  by (simp add: slot_of_def map_inv_def index_less)

lemma undisturbed_same: "reader_gens s' = reader_gens s \<Longrightarrow> undisturbed q s s'"
  by (simp add: undisturbed_def holds_def slot_of_def gen_of_def load_gen_def)

lemma slot_of_store [simp]: "slot_of r (store_gen p v s) = slot_of r s"
  by (simp add: slot_of_def)

lemma holds_store [simp]: "holds r (store_gen p v s) = holds r s"
  by (simp add: holds_def)

lemma gen_of_store:
  "map_inv (reader_gens s) \<Longrightarrow> gen_of r (store_gen (slot_of q s) v s) =
    (if slot_of r s = slot_of q s then v else gen_of r s)"
  by (simp add: gen_of_def load_store_gen slot_less)

lemma reg_inv_cong: "reader_gens s' = reader_gens s \<Longrightarrow> reg_inv s' = reg_inv s"
  by (simp add: reg_inv_def free_suspended_def)

lemma holds_key: "map_inv (reader_gens s) \<Longrightarrow> holds r s \<Longrightarrow>
  key (slots (reader_gens s) ! unat (slot_of r s)) \<noteq> EMPTY"
  by (auto simp: holds_def load_key_def slot_at_def)

lemma store_own:
  assumes "reg_inv s" and "holds r s"
  shows "reg_inv (store_gen (slot_of r s) v s)"
    and "holds q s \<Longrightarrow> q \<noteq> r \<Longrightarrow> undisturbed q s (store_gen (slot_of r s) v s)"
proof -
  have m: "map_inv (reader_gens s)" using assms(1) by (simp add: reg_inv_def)
  note less = slot_less [OF m, of r]
  show "reg_inv (store_gen (slot_of r s) v s)"
    using assms(1) holds_key [OF m assms(2)] less
    by (auto simp: reg_inv_def free_suspended_def slot_store_cell)
  show "undisturbed q s (store_gen (slot_of r s) v s)" if "holds q s" "q \<noteq> r"
    using slots_differ [OF assms(2) that(1)] that(2) by (auto simp: undisturbed_def gen_of_store [OF m])
qed

lemma store_suspended:
  assumes inv: "reg_inv s" and less: "unat p < length (slots (reader_gens s))"
    and "is_suspended (load_gen p s)" and "is_suspended v"
  shows "reg_inv (store_gen p v s)" and "undisturbed q s (store_gen p v s)"
proof -
  show "reg_inv (store_gen p v s)"
    using assms by (auto simp: reg_inv_def free_suspended_def slot_store_cell)
  show "undisturbed q s (store_gen p v s)"
    using assms(3,4) by (auto simp: undisturbed_def gen_of_def load_store_gen [OF less])
qed

lemma length_bound: "map_inv (reader_gens s) \<Longrightarrow> length (slots (reader_gens s)) \<le> 2 ^ 62"
proof -
  assume "map_inv (reader_gens s)"
  then obtain p where "p \<le> 62" "length (slots (reader_gens s)) = 2 ^ p"
    by (auto simp: map_inv_def elim: map_wfE)
  then show ?thesis using power_increasing [of p 62 "2 :: nat"] by simp
qed

lemma unat_of_nat_slot:
  "map_inv (reader_gens s) \<Longrightarrow> i < length (slots (reader_gens s)) \<Longrightarrow> unat (of_nat i :: usize) = i"
  using length_bound [of s] by (intro unat_of_nat64) simp

lemma same_table_refl [simp]: "same_table s s" by (simp add: same_table_def)

lemma scan_turn_own:
  assumes "reg_inv s" and "i < length (slots (reader_gens s))"
    and "scan_turn (of_nat i) m (rg, s) = (f, (rg', s'))"
  shows "reg_inv s' \<and> undisturbed q s s' \<and> same_table s s'"
proof -
  have u: "unat (of_nat i :: usize) = i" using assms(1,2) unat_of_nat_slot by (auto simp: reg_inv_def)
  then have "unat (of_nat i :: usize) < length (slots (reader_gens s))" using assms(2) by simp
  with assms(1,3) show ?thesis
    by (cases "load_gen (of_nat i) s = rg")
      (auto simp: scan_turn_def SUSPENDED_BIT_eq undisturbed_same store_suspended cas_gen_hit cas_gen_miss
        same_table_def split: if_splits)
qed


text \<open>A step from \<open>x\<close> to \<open>x'\<close> that respects the ownership of ids.\<close>

definition own_step :: "'a pc \<Rightarrow> 'a area \<Rightarrow> 'a pc \<times> 'a area \<Rightarrow> bool" where
  "own_step x s = (\<lambda>(x', s'). reg_inv s' \<and> same_table s s' \<and> local_own x' s' \<and>
     (\<forall>r. owned x' = Some r \<longrightarrow> holds r s') \<and>
     (\<forall>q. holds q s \<longrightarrow> owned x \<noteq> Some q \<longrightarrow> undisturbed q s s' \<and> owned x' \<noteq> Some q))"

definition own_pre :: "'a pc \<Rightarrow> 'a area \<Rightarrow> bool" where
  "own_pre x s \<longleftrightarrow> reg_inv s \<and> local_own x s \<and> (\<forall>r. owned x = Some r \<longrightarrow> holds r s)"

lemma holds_cong: "reader_gens s' = reader_gens s \<Longrightarrow> holds r s' = holds r s"
  by (simp add: holds_def slot_of_def)

lemma own_step_keep:
  assumes "own_pre x s" and "reader_gens s' = reader_gens s" and "owned x' = owned x \<or> owned x' = None"
    and "local_own x' s'"
  shows "own_step x s (x', s')"
  using assms
  by (auto simp: own_step_def own_pre_def same_table_def undisturbed_same reg_inv_cong [OF assms(2)]
      holds_cong [OF assms(2)])

lemma same_table_store [simp]: "same_table s (store_gen p v s)"
  by (simp add: same_table_def)

lemma own_step_store:
  assumes "own_pre x s" and "owned x = Some r" and "owned x' = Some r"
    and "local_own x' (store_gen (slot_of r s) v s)"
  shows "own_step x s (x', store_gen (slot_of r s) v s)"
  using assms store_own [of s r] by (auto simp: own_step_def own_pre_def)

lemma cas_gen_cases:
  obtains (hit) "load_gen p s = e" "cas_gen p e d s = (Inr e, store_gen p d s)"
  | (miss) "load_gen p s \<noteq> e" "cas_gen p e d s = (Inl (load_gen p s), s)"
  using cas_gen_hit cas_gen_miss by metis

lemma pre_inv: "own_pre x s \<Longrightarrow> map_inv (reader_gens s)"
  by (simp add: own_pre_def reg_inv_def)

lemma own_op_act:
  assumes "own_pre (OpAct r p c oper) s"
  shows "own_step (OpAct r p c oper) s (op_act r p c oper s)"
proof -
  note inv = pre_inv [OF assms]
  have p: "p = slot_of r s" and c: "is_suspended c \<longleftrightarrow> is_suspended (gen_of r s)"
    "is_suspended c \<or> gen_of r s = c"
    using assms by (auto simp: own_pre_def)
  note keep = own_step_keep and store = own_step_store
  have g: "gen_of r s = load_gen p s" by (simp add: gen_of_def p)
  show ?thesis
  proof (cases oper)
    case GetGen
    then show ?thesis using assms c strip_active [of "gen_of r s"]
      by (cases "is_suspended (gen_of r s)") (auto intro!: keep)
  next
    case (SetGen g)
    then show ?thesis using assms by (auto intro!: keep store simp: set_gen_from_def p)
  next
    case (DropSlice st en)
    then show ?thesis using assms by (auto intro!: keep)
  next
    case Suspend
    then show ?thesis using assms by (auto intro!: keep store simp: suspend_from_def p)
  next
    case Resume
    then show ?thesis using assms
      by (cases rule: cas_gen_cases [of p s c "c AND NOT MSB"])
        (auto intro!: keep store simp: resume_turn_def p SUSPENDED_BIT_eq)
  next
    case (ResumeAt e)
    then show ?thesis using assms
      by (cases rule: cas_gen_cases [of p s c "e AND NOT MSB"])
        (auto intro!: keep store simp: resume_at_turn_def p SUSPENDED_BIT_eq)
  next
    case Unregister
    then show ?thesis using assms c
      by (auto intro!: keep store simp: suspend_from_def p SUSPENDED_BIT_eq gen_of_store [OF inv])
  qed
qed

lemma own_enter:
  assumes "own_pre (EnterCas r p c) s"
  shows "own_step (EnterCas r p c) s (pc_step nd (EnterCas r p c) s)"
proof -
  have p: "p = slot_of r s" and c: "is_suspended (gen_of r s)" using assms by (auto simp: own_pre_def)
  note keep = own_step_keep and store = own_step_store
  show ?thesis using c assms
    by (cases rule: cas_gen_cases [of p s c "gen_without_suspended_bit c"])
      (auto intro!: keep store simp: enter_turn_def p)
qed

text \<open>Claiming a free slot, clearing its progress bit, and giving a slot back.\<close>

lemma store_key_own:
  assumes inv: "reg_inv s" and p: "unat p < length (slots (reader_gens s))"
    and k: "k = 0 \<or> key_bits k \<noteq> 0 \<and> key_bits k AND mask_of (reader_gens s) = p"
    and sus: "k = 0 \<Longrightarrow> is_suspended (load_gen p s)"
    and s': "s' = s\<lparr>reader_gens := store_key p k (reader_gens s)\<rparr>"
  shows "reg_inv s'" and "same_table s s'"
    and "k \<noteq> 0 \<Longrightarrow> holds (key_bits k) s' \<and> slot_of (key_bits k) s' = p"
    and "gen_of q s' = gen_of q s"
    and "holds q s \<Longrightarrow> slot_of q s \<noteq> p \<or> key_bits k = q \<Longrightarrow> undisturbed q s s'"
proof -
  have m: "map_inv (reader_gens s)" using inv by (simp add: reg_inv_def)
  have m': "map_inv (store_key p k (reader_gens s))" using map_inv_store [OF m p k] .
  have "free_suspended s'" unfolding free_suspended_def
  proof (intro allI impI)
    fix i assume i: "i < length (slots (reader_gens s'))" "key (slots (reader_gens s') ! i) = EMPTY"
    show "is_suspended (cell (slots (reader_gens s') ! i))"
    proof (cases "i = unat p")
      case True
      with i sus p show ?thesis by (simp add: s' slot_store_key load_gen_def slot_at_def)
    next
      case False
      with i inv p show ?thesis by (simp add: s' slot_store_key reg_inv_def free_suspended_def)
    qed
  qed
  then show "reg_inv s'" using m' by (simp add: reg_inv_def s')
  show "same_table s s'" by (simp add: s' same_table_def)
  show "holds (key_bits k) s' \<and> slot_of (key_bits k) s' = p" if "k \<noteq> 0"
  proof -
    from that k have nz: "key_bits k \<noteq> 0" and at: "key_bits k AND mask_of (reader_gens s) = p" by auto
    have sl: "slot_of (key_bits k) s' = p" unfolding at [symmetric] by (simp add: s' slot_of_def)
    have "load_key p (reader_gens s') = k" using p by (simp add: s' load_store_key)
    then show ?thesis unfolding holds_def sl id_ok_def using nz by simp
  qed
  show g: "gen_of q s' = gen_of q s" for q
    using p by (simp add: s' gen_of_def slot_of_def)
  have sl: "slot_of q s' = slot_of q s" for q by (simp add: s' slot_of_def)
  show "undisturbed q s s'" if "holds q s" "slot_of q s \<noteq> p \<or> key_bits k = q"
  proof -
    have "load_key (slot_of q s) (reader_gens s') =
        (if slot_of q s = p then k else load_key (slot_of q s) (reader_gens s))"
      using p by (simp add: s' load_store_key)
    then have "holds q s'" using that by (auto simp: holds_def sl)
    then show ?thesis by (simp add: undisturbed_def g sl)
  qed
qed


lemma own_probe_cas:
  assumes "own_pre (ProbeCas ky i idx k) s"
  shows "own_step (ProbeCas ky i idx k) s (pc_step nd (ProbeCas ky i idx k) s)"
proof -
  let ?m = "reader_gens s"
  have inv: "reg_inv s" and ky: "id_ok ky" and idx: "idx = (ky + i) AND mask_of ?m"
    and i: "unat i < length (slots ?m)"
    using assms by (auto simp: own_pre_def)
  have wf: "map_wf ?m" using inv by (simp add: reg_inv_def map_inv_def)
  have less: "unat idx < length (slots ?m)" unfolding idx by (rule index_less [OF wf])
  show ?thesis
  proof (cases "k = EMPTY \<and> load_key idx ?m = EMPTY")
    case True
    let ?k = "fold_key ky 0 i (mask_of ?m)"
    let ?s = "s\<lparr>reader_gens := store_key idx ?k ?m\<rparr>"
    have placed: "?k = 0 \<or> key_bits ?k \<noteq> 0 \<and> key_bits ?k AND mask_of ?m = idx"
      using unat_fold [OF id_okD(1) [OF ky] id_okD(2) [OF ky] wf i] idx by simp
    note st = store_key_own [OF inv less placed _ refl]
    have sus: "is_suspended (load_gen idx s)"
      using inv less True by (auto simp: reg_inv_def free_suspended_def load_gen_def load_key_def slot_at_def)
    have "pc_step nd (ProbeCas ky i idx k) s = (Finish (key_bits ?k) idx, ?s)"
      using True by (simp add: goi_turn_def value_ptr_def Let_def)
    moreover have "slot_of q s \<noteq> idx" if "holds q s" for q
      using that True by (auto simp: holds_def)
    moreover have "key_bits ?k \<noteq> q" if "holds q s" for q
      using st(3) that calculation(2) [OF that] by (auto simp: slot_of_def)
    ultimately show ?thesis
      using st(1,2) st(3) st(4) [of "key_bits ?k"] st(5) sus
      by (auto simp: own_step_def gen_of_def slot_of_def)
  next
    case False
    then have "pc_step nd (ProbeCas ky i idx k) s = (Probe ky (i + 1) (next_index idx ?m), s)"
      by (auto simp: goi_turn_def Let_def compare_exchange_def)
    then show ?thesis
      using assms ky next_index_eq [OF wf, of ky i] idx by (auto intro!: own_step_keep)
  qed
qed

lemma own_finish:
  assumes "own_pre (Finish r p) s"
  shows "own_step (Finish r p) s (pc_step nd (Finish r p) s)"
proof -
  let ?m = "reader_gens s"
  have inv: "reg_inv s" and h: "holds r s" and p: "p = slot_of r s" and sus: "is_suspended (gen_of r s)"
    using assms by (auto simp: own_pre_def)
  have less: "unat p < length (slots ?m)" unfolding p using pre_inv [OF assms] by (rule slot_less)
  have kb: "key_bits (load_key p ?m) = r" and ok: "id_ok r" using h by (auto simp: holds_def p)
  show ?thesis
  proof (cases "is_in_progress (load_key p ?m)")
    case True
    let ?s = "s\<lparr>reader_gens := store_key p r ?m\<rparr>"
    have placed: "r = 0 \<or> key_bits r \<noteq> 0 \<and> key_bits r AND mask_of ?m = p"
      using ok p by (simp add: slot_of_def)
    note st = store_key_own [OF inv less placed _ refl]
    have nz: "r \<noteq> 0" using ok by simp
    have "pc_step nd (Finish r p) s = (EnterLoad r p, ?s)"
      using True kb by (simp add: finish_init_at_eq)
    moreover have "slot_of q s \<noteq> p" if "holds q s" "q \<noteq> r" for q
      using slots_differ [OF h that(1)] that(2) p by auto
    moreover have "holds r ?s" and "p = slot_of r ?s" and "is_suspended (gen_of r ?s)"
      using st(3) [OF _ nz] st(4) [of r] sus nz by (simp_all add: ok)
    ultimately show ?thesis
      using st(1,2) st(5) nz unfolding own_step_def prod.case by auto
  next
    case False
    then show ?thesis using assms sus p by (auto simp: finish_init_at_eq intro!: own_step_keep)
  qed
qed

lemma own_remove_cas:
  assumes "own_pre (RemoveCas r k) s"
  shows "own_step (RemoveCas r k) s (pc_step nd (RemoveCas r k) s)"
proof -
  let ?m = "reader_gens s" and ?p = "slot_of r s"
  have inv: "reg_inv s" and h: "holds r s" and sus: "is_suspended (gen_of r s)"
    using assms by (auto simp: own_pre_def)
  have less: "unat ?p < length (slots ?m)" using pre_inv [OF assms] by (rule slot_less)
  have idx: "index_for r 0 ?m = ?p" by (simp add: index_for_def slot_of_def)
  show ?thesis
  proof (cases "key_bits k = r \<and> load_key ?p ?m = k")
    case True
    have st: "reg_inv (s\<lparr>reader_gens := store_key ?p 0 ?m\<rparr>)"
        "same_table s (s\<lparr>reader_gens := store_key ?p 0 ?m\<rparr>)"
        "\<And>q. holds q s \<Longrightarrow> slot_of q s \<noteq> ?p \<Longrightarrow> undisturbed q s (s\<lparr>reader_gens := store_key ?p 0 ?m\<rparr>)"
      using store_key_own [OF inv less _ _ refl, where k = 0] sus by (simp_all add: gen_of_def)
    have "pc_step nd (RemoveCas r k) s = (Idle, s\<lparr>reader_gens := store_key ?p 0 ?m\<rparr>)"
      by (simp add: remove_turn_def idx True [THEN conjunct1] True [THEN conjunct2])
    moreover have "slot_of q s \<noteq> ?p" if "holds q s" "q \<noteq> r" for q
      using slots_differ [OF h that(1)] that(2) by auto
    ultimately show ?thesis using st unfolding own_step_def by force
  next
    case False
    have "pc_step nd (RemoveCas r k) s = (Idle, s)"
    proof (cases "key_bits k = r")
      case True
      then have "load_key ?p ?m \<noteq> k" using False by blast
      then show ?thesis by (simp add: remove_turn_def idx True)
    next
      case False
      then show ?thesis by (simp add: remove_turn_def)
    qed
    then show ?thesis using assms by (auto intro!: own_step_keep)
  qed
qed


lemma pc_step_own:
  assumes "own_pre x s"
  shows "own_step x s (pc_step nd x s)"
proof (cases x)
  case (CleanTurn lv m i rg)
  obtain f rg' s' where r: "scan_turn (of_nat i) m (rg, s) = (f, (rg', s'))" by (metis surj_pair)
  have "reg_inv s" "i < length (slots (reader_gens s))"
    using assms CleanTurn by (auto simp: own_pre_def)
  note own = scan_turn_own [OF this r]
  have "i < length (slots (reader_gens s'))" using own \<open>i < _\<close> by (simp add: same_table_def)
  then show ?thesis using own CleanTurn r by (cases f) (auto simp: own_step_def)
next
  case (OpLookup r oper)
  then show ?thesis using assms
    by (auto simp: get_reader_ptr_find find_id_Some slot_of_def split: option.splits reader_op.splits
        intro!: own_step_keep)
next
  case (OpLoad r p oper)
  then show ?thesis using assms by (auto simp: own_pre_def gen_of_def intro!: own_step_keep)
next
  case (OpAct r p c oper)
  with assms own_op_act show ?thesis by simp
next
  case (EnterCas r p c)
  with assms own_enter show ?thesis by blast
next
  case (ProbeCas ky i idx k)
  with assms own_probe_cas show ?thesis by blast
next
  case (Finish r p)
  with assms own_finish show ?thesis by blast
next
  case (RemoveCas r k)
  with assms own_remove_cas show ?thesis by blast
next
  case (Probe ky i idx)
  have "unat i < length (slots (reader_gens s))" if "i < capacity (reader_gens s)"
    using that length_slots [of "reader_gens s"] pre_inv [OF assms]
    by (simp add: map_inv_def word_less_nat_alt)
  with Probe assms show ?thesis by (auto simp: own_pre_def intro!: own_step_keep)
qed (use assms in \<open>auto intro!: own_step_keep simp: own_pre_def raw_slots_def claim_turn_def free_turn_def
    best_effort_from_def reserve_from_def grab_def compare_exchange_def drop_slot_def gen_of_def Let_def
    split: sum.splits if_splits\<close>)


lemma call_step_cases:
  assumes "call_step c x s = Some (x', s')"
  obtains (reserving) be n where "c = Reserve be n" "x = Idle" "x' = ReserveLoad be n (free_gen s)" "s' = s"
  | (reserve_none) "c = Reserve True 0" "x = Idle" "x' = Writing 0 0 []" "s' = s"
  | (written) v st en ms where "c = Write v" "x = Writing st en ms"
      "length ms < unat (gen_dist_msb_masked en st)" "x' = Writing st en (ms @ [v])"
      "s' = write_slot (gen_add_msb_masked st (of_nat (length ms))) v s"
  | (published) st en ms where "c = Publish" "x = Writing st en ms"
      "length ms = unat (gen_dist_msb_masked en st)" "publish_slots Cas st en s = (Inr (), s')" "x' = Idle"
  | (publish_fails) st en ms e where "c = Publish" "x = Writing st en ms"
      "length ms = unat (gen_dist_msb_masked en st)" "publish_slots Cas st en s = (Inl e, s')" "x' = x"
  | (cleaning) "c = Cleanup" "x = Idle" "x' = CleanLoad (last_valid_gen s)" "s' = s"
  | (registering) seed where "c = Register seed" "x = Idle" "s' = s"
      "x' = Probe (seed_of seed) 0 (index_for (seed_of seed) ZERO_OFFSET (reader_gens s))"
  | (operating) r oper where "c = Operate oper" "x = Reader r" "x' = OpLookup r oper" "s' = s"
      "\<forall>g. oper \<noteq> SetGen g" "\<forall>st en. oper \<noteq> DropSlice st en"
  | (end_slice) r st en where "c = EndSlice True" "x = Slice r st en" "x' = OpLookup r (DropSlice st en)" "s' = s"
  | (leak_slice) r st en where "c = EndSlice False" "x = Slice r st en" "x' = Reader r" "s' = s"
proof (cases c)
  case (Reserve be n)
  with assms have x: "x = Idle" by (cases x) (auto simp: call_step_def)
  show thesis
  proof (cases "be \<and> n = 0")
    case True
    show thesis by (rule reserve_none) (use assms Reserve x True in \<open>simp_all add: call_step_def\<close>)
  next
    case False
    show thesis by (rule reserving [OF Reserve x]) (use assms Reserve x False in \<open>auto simp: call_step_def\<close>)
  qed
next
  case (Write v)
  with assms obtain st en ms where x: "x = Writing st en ms" by (cases x) (auto simp: call_step_def)
  show thesis
    by (rule written [OF Write x]) (use assms Write x in \<open>auto simp: call_step_def split: if_splits\<close>)
next
  case Publish
  with assms obtain st en ms where x: "x = Writing st en ms" by (cases x) (auto simp: call_step_def)
  obtain r s1 where p: "publish_slots Cas st en s = (r, s1)" by (metis surj_pair)
  have len: "length ms = unat (gen_dist_msb_masked en st)"
    using assms Publish x by (auto simp: call_step_def split: if_splits)
  show thesis
  proof (cases r)
    case (Inl e)
    show thesis
      by (rule publish_fails [OF Publish x len]) (use assms Publish x len p Inl in \<open>auto simp: call_step_def\<close>)
  next
    case (Inr u)
    show thesis
      by (rule published [OF Publish x len]) (use assms Publish x len p Inr in \<open>auto simp: call_step_def\<close>)
  qed
next
  case Cleanup
  with assms have x: "x = Idle" by (cases x) (auto simp: call_step_def)
  show thesis by (rule cleaning [OF Cleanup x]) (use assms Cleanup x in \<open>auto simp: call_step_def\<close>)
next
  case (Register seed)
  with assms have x: "x = Idle" by (cases x) (auto simp: call_step_def)
  show thesis by (rule registering [OF Register x]) (use assms Register x in \<open>auto simp: call_step_def\<close>)
next
  case (Operate oper)
  with assms obtain r where x: "x = Reader r" by (cases x) (auto simp: call_step_def)
  show thesis
    by (rule operating [OF Operate x]) (use assms Operate x in \<open>auto simp: call_step_def split: reader_op.splits\<close>)
next
  case (EndSlice armed)
  with assms obtain r st en where x: "x = Slice r st en" by (cases x) (auto simp: call_step_def)
  show thesis
  proof (cases armed)
    case True
    show thesis
      by (rule end_slice [OF _ x]) (use assms EndSlice True x in \<open>auto simp: call_step_def\<close>)
  next
    case False
    show thesis
      by (rule leak_slice [OF _ x]) (use assms EndSlice False x in \<open>auto simp: call_step_def\<close>)
  qed
qed

lemma publish_cases:
  assumes "publish_slots Cas st en s = (r, s')"
  obtains (nothing) "gen_gte_msb_masked st en" "r = Inr ()" "s' = s"
  | (ok) "\<not> gen_gte_msb_masked st en" "read_gen s = st" "r = Inr ()" "s' = s\<lparr>read_gen := en\<rparr>"
  | (early) "\<not> gen_gte_msb_masked st en" "read_gen s \<noteq> st" "r = Inl CasFailed" "s' = s"
  using assms by (cases "read_gen s = st") (auto simp: publish_slots_def split: if_splits)

lemma publish_frame:
  "publish_slots E st en s = (r, s') \<Longrightarrow> reader_gens s' = reader_gens s \<and> buffer s' = buffer s \<and>
   write_gen s' = write_gen s \<and> last_valid_gen s' = last_valid_gen s \<and> free_gen s' = free_gen s \<and>
   buffer_capacity s' = buffer_capacity s \<and> dropped s' = dropped s"
  by (auto simp: publish_slots_def compare_exchange_def split: if_splits emode.splits)

lemma id_ok_seed_of: "id_ok (seed_of seed)"
proof (cases "seed AND NOT MSB = 0")
  case True
  then have "seed_of seed = 1" unfolding seed_of_def Let_def by (rule if_P)
  moreover have "(1 :: gen) AND MSB = 0"
    by (rule bit_word_eqI) (auto simp: bit_simps MSB_eq)
  ultimately show ?thesis by (simp only: id_ok_def one_neq_zero simp_thms not_False_eq_True)
next
  case False
  then have "seed_of seed = seed AND NOT MSB" unfolding seed_of_def Let_def by (rule if_not_P)
  with False show ?thesis by (simp only: id_ok_def strip_masked simp_thms not_False_eq_True)
qed

lemma own_step_call:
  assumes pre: "own_pre x s" and "call_step c x s = Some (x', s')"
  shows "own_step x s (x', s')"
proof -
  note seed = id_ok_seed_of
  have loc: "local_own x s" using pre by (simp add: own_pre_def)
  from assms(2)
  have "reader_gens s' = reader_gens s \<and> (owned x' = owned x \<or> owned x' = None) \<and> local_own x' s'"
  proof (cases rule: call_step_cases)
    case (published st en ms)
    then show ?thesis using publish_frame [OF published(4)] by simp
  next
    case (publish_fails st en ms e)
    then show ?thesis using publish_frame [OF publish_fails(4)] by simp
  next
    case (registering s0)
    then show ?thesis using seed by (simp add: index_for_def)
  qed (simp_all add: write_slot_def)
  then show ?thesis using own_step_keep [OF pre] by blast
qed

text \<open>One step of the whole system.\<close>

lemma sys_execE:
  assumes "sys_exec nd (t, c) S = Some S'"
  obtains x' s' where
    "c = None \<and> pc_step nd (threads S t) (shared S) = (x', s') \<or>
     (\<exists>d. c = Some d \<and> call_allowed d S \<and> call_step d (threads S t) (shared S) = Some (x', s'))"
    and "shared S' = s'" and "threads S' = (threads S)(t := x')" and "base S' = base S"
    and "reserved S' = reserved S + unat (gen_dist_msb_masked (write_gen s') (write_gen (shared S)))"
    and "log S' = log S @ published_by (threads S t) c x'"
proof -
  from assms obtain x' s' where S': "S' = S\<lparr>shared := s', threads := (threads S)(t := x'),
       reserved := reserved S + unat (gen_dist_msb_masked (write_gen s') (write_gen (shared S))),
       log := log S @ published_by (threads S t) c x'\<rparr>"
    and r: "(case c of None \<Rightarrow> Some (pc_step nd (threads S t) (shared S))
      | Some d \<Rightarrow> if call_allowed d S then call_step d (threads S t) (shared S) else None) = Some (x', s')"
    by (auto simp: sys_exec_eq Let_def)
  show thesis
    by (rule that [of x' s']) (use r in \<open>auto simp: S' split: option.splits if_splits\<close>)
qed

lemma own_inv_upd:
  assumes inv: "own_inv S" and step: "own_step (threads S t) (shared S) (x', s')"
    and S': "shared S' = s'" "threads S' = (threads S)(t := x')"
  shows "own_inv S'"
proof -
  have st: "reg_inv s'" "same_table (shared S) s'" "local_own x' s'"
      "\<And>r. owned x' = Some r \<Longrightarrow> holds r s'"
      "\<And>q. holds q (shared S) \<Longrightarrow> owned (threads S t) \<noteq> Some q \<Longrightarrow>
         undisturbed q (shared S) s' \<and> owned x' \<noteq> Some q"
    using step by (auto simp: own_step_def)
  have other: "undisturbed r (shared S) s' \<and> owned x' \<noteq> Some r"
    if "u \<noteq> t" "owned (threads S u) = Some r" for u r
    using that inv by (intro st(5)) (auto simp: own_inv_def)
  have loc: "local_own (threads S u) s'" if "u \<noteq> t" for u
    using inv other [OF that] by (intro local_own_stable [OF _ st(2)]) (auto simp: own_inv_def)
  have hld: "holds r s'" if "u \<noteq> t" "owned (threads S u) = Some r" for u r
    using other [OF that] that inv by (auto simp: undisturbed_def own_inv_def)
  have inj: "v = u" if "owned (threads S' v) = Some r" "owned (threads S' u) = Some r" for u v r
    using that other [of u r] other [of v r] inv S'(2)
    by (cases "v = t"; cases "u = t") (auto simp: own_inv_def)
  have "local_own (threads S' u) s'" for u
    using st(3) loc [of u] unfolding S'(2) fun_upd_apply by (cases "u = t") simp_all
  moreover have "holds r s'" if "owned (threads S' u) = Some r" for u r
    using that st(4) [of r] hld [of u r] unfolding S'(2) fun_upd_apply by (cases "u = t") simp_all
  ultimately show ?thesis unfolding own_inv_def S'(1) using st(1) inj by blast
qed

lemma own_inv_step:
  assumes "own_inv S" and "sys_exec nd (t, c) S = Some S'"
  shows "own_inv S'"
  using assms(2)
proof (cases rule: sys_execE)
  case (1 x' s')
  have pre: "own_pre (threads S t) (shared S)" using assms(1) by (auto simp: own_inv_def own_pre_def)
  have "own_step (threads S t) (shared S) (x', s')"
    using 1(1) pc_step_own [OF pre, of nd] own_step_call [OF pre] by auto
  from own_inv_upd [OF assms(1) this 1(2,3)] show ?thesis .
qed

section \<open>Reachable states\<close>

lemma own_inv_start:
  assumes "is_power_of_two rc" and "unat rc \<le> 2 ^ 62"
  shows "own_inv (start_at g bc rc)"
proof -
  have "free_suspended (area_at g bc rc)"
    by (simp add: free_suspended_def area_at_def with_capacity_and_init_def SUSPENDED_BIT_eq)
  moreover have "map_inv (reader_gens (area_at g bc rc))"
    using map_inv_init [OF assms] by (simp add: area_at_def)
  ultimately show ?thesis by (simp add: own_inv_def start_at_def reg_inv_def)
qed

lemma own_inv_reachable:
  assumes "is_power_of_two rc" and "unat rc \<le> 2 ^ 62" and "reachable nd (start_at g bc rc) S"
  shows "own_inv S"
  using assms(3)
proof (induction rule: reachable.induct)
  case start
  show ?case using assms(1,2) by (rule own_inv_start)
next
  case (step S e S')
  then show ?case by (cases e) (auto intro: own_inv_step)
qed

end
