(* ===== verification/Machine_Order.thy ===== *)
theory Machine_Order
  imports Machine_Ownership
begin

text \<open>
  The order of the shared counters under every interleaving.  Generations are read as
  positions counted from the generation the run started with, so the wrap-around of the
  masked arithmetic disappears as long as fewer than \<open>2 ^ 62\<close> generations are reserved in
  one run (the comparison of generations is exact up to a quarter of their range).
  \<open>local_ord\<close> says what a thread still knows about the counters it loaded some time ago;
  it is stable because the counters and the private generations only grow (\<open>grows\<close>).
\<close>

section \<open>Order of the counters\<close>

definition cell_at :: "nat \<Rightarrow> 'a area \<Rightarrow> gen" where
  "cell_at j s = cell (slots (reader_gens s) ! j)"

definition masked :: "gen \<Rightarrow> bool" where
  "masked v \<longleftrightarrow> v AND MSB = 0"

definition ord_inv :: "gen \<Rightarrow> 'a area \<Rightarrow> bool" where
  "ord_inv b s \<longleftrightarrow>
     masked (write_gen s) \<and> masked (read_gen s) \<and> masked (last_valid_gen s) \<and> masked (free_gen s) \<and>
     pos b (free_gen s) \<le> pos b (last_valid_gen s) \<and> pos b (last_valid_gen s) \<le> pos b (read_gen s) \<and>
     pos b (read_gen s) \<le> pos b (write_gen s) \<and>
     pos b (write_gen s) \<le> pos b (free_gen s) + unat (buffer_capacity s) \<and>
     (\<forall>j < length (slots (reader_gens s)).
        pos b (last_valid_gen s) \<le> pos b (cell_at j s) \<and> pos b (cell_at j s) \<le> pos b (read_gen s))"

text \<open>What the locals of a thread have to do with the shared counters.\<close>

fun op_bound :: "gen \<Rightarrow> reader_op \<Rightarrow> 'a area \<Rightarrow> bool" where
  "op_bound b (SetGen g) s \<longleftrightarrow> masked g \<and> pos b g \<le> pos b (read_gen s)"
| "op_bound b (DropSlice st g) s \<longleftrightarrow> masked g \<and> pos b g \<le> pos b (read_gen s)"
| "op_bound b (ResumeAt g) s \<longleftrightarrow> pos b g \<le> pos b (read_gen s)"
| "op_bound b oper s \<longleftrightarrow> True"

fun local_ord :: "gen \<Rightarrow> 'a pc \<Rightarrow> 'a area \<Rightarrow> bool" where
  "local_ord b (ReserveLoad be n cf) s \<longleftrightarrow> pos b cf \<le> pos b (free_gen s)"
| "local_ord b (ReserveGrab be n cf cw) s \<longleftrightarrow>
     pos b cf \<le> pos b (free_gen s) \<and> pos b cf \<le> pos b cw \<and> pos b cw \<le> pos b (write_gen s)"
| "local_ord b (Writing st en ms) s \<longleftrightarrow> length ms \<le> unat (gen_dist_msb_masked en st) \<and>
     (st = en \<or> masked st \<and> masked en \<and> pos b st < pos b en \<and> pos b en \<le> pos b (write_gen s))"
| "local_ord b (CleanLoad lv) s \<longleftrightarrow> masked lv \<and> pos b lv \<le> pos b (last_valid_gen s)"
| "local_ord b (CleanSlot lv m i) s \<longleftrightarrow> masked lv \<and> pos b lv \<le> pos b (last_valid_gen s) \<and>
     masked m \<and> pos b m \<le> pos b (read_gen s) \<and>
     i \<le> length (slots (reader_gens s)) \<and> (\<forall>j < i. pos b m \<le> pos b (cell_at j s))"
| "local_ord b (CleanTurn lv m i rg) s \<longleftrightarrow> masked lv \<and> pos b lv \<le> pos b (last_valid_gen s) \<and>
     masked m \<and> pos b m \<le> pos b (read_gen s) \<and>
     i < length (slots (reader_gens s)) \<and> (\<forall>j < i. pos b m \<le> pos b (cell_at j s)) \<and>
     pos b rg \<le> pos b (cell_at i s)"
| "local_ord b (CleanClaim lv m) s \<longleftrightarrow> masked lv \<and> pos b lv \<le> pos b (last_valid_gen s) \<and>
     masked m \<and> pos b m \<le> pos b (read_gen s) \<and>
     (\<forall>j < length (slots (reader_gens s)). pos b m \<le> pos b (cell_at j s))"
| "local_ord b (CleanDrop lv new k) s \<longleftrightarrow> masked lv \<and> masked new \<and> pos b lv < pos b new \<and>
     pos b new \<le> pos b (last_valid_gen s) \<and> k \<le> unat (gen_dist_msb_masked new lv)"
| "local_ord b (CleanFree lv new) s \<longleftrightarrow> masked lv \<and> masked new \<and> pos b lv < pos b new \<and>
     pos b new \<le> pos b (last_valid_gen s)"
| "local_ord b (OpLookup r oper) s \<longleftrightarrow> op_bound b oper s"
| "local_ord b (OpLoad r p oper) s \<longleftrightarrow> op_bound b oper s"
| "local_ord b (OpAct r p c oper) s \<longleftrightarrow> op_bound b oper s \<and> pos b c \<le> pos b (read_gen s)"
| "local_ord b (ReadEnd r st) s \<longleftrightarrow> masked st \<and> pos b st \<le> pos b (read_gen s)"
| "local_ord b (Slice r st en) s \<longleftrightarrow> masked st \<and> masked en \<and> pos b st \<le> pos b en \<and> pos b en \<le> pos b (read_gen s)"
| "local_ord b x s \<longleftrightarrow> True"

text \<open>The counters and the private generations only ever grow.\<close>

definition grows :: "gen \<Rightarrow> 'a area \<Rightarrow> 'a area \<Rightarrow> bool" where
  "grows b s s' \<longleftrightarrow>
     pos b (write_gen s) \<le> pos b (write_gen s') \<and> pos b (read_gen s) \<le> pos b (read_gen s') \<and>
     pos b (last_valid_gen s) \<le> pos b (last_valid_gen s') \<and> pos b (free_gen s) \<le> pos b (free_gen s') \<and>
     length (slots (reader_gens s')) = length (slots (reader_gens s)) \<and>
     buffer_capacity s' = buffer_capacity s \<and> length (buffer s') = length (buffer s) \<and>
     (\<forall>j < length (slots (reader_gens s)). pos b (cell_at j s) \<le> pos b (cell_at j s'))"

lemma grows_refl [simp]: "grows b s s"
  by (simp add: grows_def)

lemma grows_trans:
  assumes st: "grows b s t" and tu: "grows b t u"
  shows "grows b s u"
proof -
  have "pos b (cell_at j s) \<le> pos b (cell_at j u)" if "j < length (slots (reader_gens s))" for j
    using st tu that le_trans [of "pos b (cell_at j s)" "pos b (cell_at j t)"] by (simp add: grows_def)
  then show ?thesis using st tu by (simp add: grows_def)
qed

lemma op_bound_stable: "op_bound b oper s \<Longrightarrow> grows b s s' \<Longrightarrow> op_bound b oper s'"
  by (cases oper) (auto simp: grows_def elim: le_trans)

lemma local_ord_stable: "local_ord b x s \<Longrightarrow> grows b s s' \<Longrightarrow> local_ord b x s'"
proof (induction b x s rule: local_ord.induct)
  case (10 b r oper s) then show ?case by (auto intro: op_bound_stable)
next
  case (11 b r p oper s) then show ?case by (auto intro: op_bound_stable)
next
  case (12 b r p c oper s) then show ?case by (auto intro: op_bound_stable simp: grows_def)
next
  case (5 b lv m i s)
  then have "\<forall>j<i. pos b m \<le> pos b (cell_at j s')"
    by (auto simp: grows_def) (meson le_trans less_le_trans)
  with 5 show ?case by (auto simp: grows_def)
next
  case (6 b lv m i rg s)
  then have "\<forall>j<i. pos b m \<le> pos b (cell_at j s')"
    by (auto simp: grows_def) (meson le_trans less_trans)
  moreover have "pos b rg \<le> pos b (cell_at i s')" using 6 by (auto simp: grows_def elim: le_trans)
  ultimately show ?case using 6 by (auto simp: grows_def)
next
  case (7 b lv m s)
  then have "\<forall>j<length (slots (reader_gens s')). pos b m \<le> pos b (cell_at j s')"
    by (auto simp: grows_def) (meson le_trans)
  with 7 show ?case by (auto simp: grows_def)
qed (auto simp: grows_def)


section \<open>Steps\<close>

definition ord_pre :: "gen \<Rightarrow> 'a pc \<Rightarrow> 'a area \<Rightarrow> bool" where
  "ord_pre b x s \<longleftrightarrow> own_pre x s \<and> ord_inv b s \<and> local_ord b x s \<and>
     pos b (write_gen s) < 2 ^ 62 \<and> unat (buffer_capacity s) < 2 ^ 62"

definition ord_step :: "gen \<Rightarrow> 'a area \<Rightarrow> 'a pc \<times> 'a area \<Rightarrow> bool" where
  "ord_step b s = (\<lambda>(x', s'). ord_inv b s' \<and> local_ord b x' s' \<and> grows b s s')"

lemma ord_pre_bounds:
  assumes "ord_pre b x s"
  shows "pos b (free_gen s) < 2 ^ 62" and "pos b (last_valid_gen s) < 2 ^ 62"
    and "pos b (read_gen s) < 2 ^ 62" and "pos b (write_gen s) < 2 ^ 62"
    and "j < length (slots (reader_gens s)) \<Longrightarrow> pos b (cell_at j s) < 2 ^ 62"
  using assms by (auto simp: ord_pre_def ord_inv_def)

lemma ord_step_same: "ord_pre b x s \<Longrightarrow> local_ord b x' s \<Longrightarrow> ord_step b s (x', s)"
  by (simp add: ord_step_def ord_pre_def)

lemma cell_at_store:
  "unat p < length (slots (reader_gens s)) \<Longrightarrow>
   cell_at j (store_gen p v s) = (if j = unat p then v else cell_at j s)"
  by (auto simp: cell_at_def slot_store_cell)

lemma load_cell_at: "load_gen p s = cell_at (unat p) s"
  by (simp add: load_gen_def cell_at_def slot_at_def)

lemma ord_store:
  assumes "ord_inv b s" and p: "unat p < length (slots (reader_gens s))"
    and "pos b (load_gen p s) \<le> pos b v" and "pos b v \<le> pos b (read_gen s)"
  shows "ord_inv b (store_gen p v s)" and "grows b s (store_gen p v s)"
proof -
  have lo: "pos b (last_valid_gen s) \<le> pos b v"
    using assms by (auto simp: ord_inv_def load_cell_at)
  then show "ord_inv b (store_gen p v s)" using assms
    by (auto simp: ord_inv_def cell_at_store [OF p])
  show "grows b s (store_gen p v s)" using assms(3)
    by (auto simp: grows_def cell_at_store [OF p] load_cell_at)
qed

lemma pre_slot: "own_pre x s \<Longrightarrow> unat (slot_of r s) < length (slots (reader_gens s))"
  by (simp add: slot_less pre_inv)

lemma masked_strip [simp]: "masked (v AND NOT MSB)"
  by (simp add: masked_def)

lemma masked_active: "\<not> is_suspended v \<longleftrightarrow> masked v"
  by (simp add: masked_def not_suspended_masked)

lemma ord_step_store:
  assumes pre: "ord_pre b x s" and "owned x = Some r"
    and "pos b (load_gen (slot_of r s) s) \<le> pos b v" and "pos b v \<le> pos b (read_gen s)"
    and "local_ord b x' s"
  shows "ord_step b s (x', store_gen (slot_of r s) v s)"
  using pre ord_store [of b s "slot_of r s" v] pre_slot [of x s r] assms(3-)
    local_ord_stable [OF assms(5)]
  by (auto simp: ord_step_def ord_pre_def)

lemma lte_pos64: "pos b x < 2 ^ 62 \<Longrightarrow> pos b y < 2 ^ 62 \<Longrightarrow> gen_lte_msb_masked x y \<longleftrightarrow> pos b x \<le> pos b y"
  for b x y :: gen
  by (simp add: gen_lte_msb_masked_def gte_pos64)

lemma gt_masked: "masked x \<Longrightarrow> masked y \<Longrightarrow> pos b x < 2 ^ 62 \<Longrightarrow> pos b y < 2 ^ 62 \<Longrightarrow>
  gen_gt_msb_masked x y \<longleftrightarrow> pos b y < pos b x"
  by (simp add: gt_pos64 masked_def)

lemma ord_op_act:
  assumes pre: "ord_pre b (OpAct r p c oper) s"
  shows "ord_step b s (op_act r p c oper s)"
proof -
  have own: "own_pre (OpAct r p c oper) s" and ord: "ord_inv b s"
    and opb: "op_bound b oper s" and cr: "pos b c \<le> pos b (read_gen s)"
    using pre by (auto simp: ord_pre_def)
  have p: "p = slot_of r s" and c: "is_suspended c \<or> load_gen p s = c"
    using own by (auto simp: own_pre_def gen_of_def)
  note bounds = ord_pre_bounds [OF pre]
  have c62: "pos b c < 2 ^ 62" using cr bounds(3) by linarith
  have load_read: "pos b (load_gen p s) \<le> pos b (read_gen s)"
    using ord pre_slot [OF own, of r] by (simp add: ord_inv_def load_cell_at p)
  have same: "ord_step b s (x', s)" if "local_ord b x' s" for x'
    using pre that by (rule ord_step_same)
  have store: "ord_step b s (x', store_gen p v s)"
    if "pos b (load_gen p s) \<le> pos b v" "pos b v \<le> pos b (read_gen s)" "local_ord b x' s" for x' v
    unfolding p by (rule ord_step_store [OF pre]) (use that p in simp_all)
  show ?thesis
  proof (cases oper)
    case GetGen
    then show ?thesis using same cr by (simp add: strip_eq)
  next
    case (SetGen g)
    show ?thesis
    proof (cases "is_suspended c \<or> gen_lte_msb_masked g c")
      case True
      then show ?thesis using SetGen same by (auto simp: set_gen_from_def)
    next
      case False
      have g: "pos b g \<le> pos b (read_gen s)" using opb SetGen by simp
      then have "pos b g < 2 ^ 62" using bounds(3) by linarith
      with False c62 have "pos b c < pos b g" by (simp add: lte_pos64 [of b])
      then show ?thesis using False c g SetGen store [of g] by (simp add: set_gen_from_def)
    qed
  next
    case (DropSlice st en)
    then show ?thesis using same opb by simp
  next
    case Suspend
    then show ?thesis using same store [of "c OR MSB"] c cr
      by (auto simp: suspend_from_def SUSPENDED_BIT_eq)
  next
    case Unregister
    then show ?thesis using same store [of "c OR MSB"] c cr
      by (auto simp: suspend_from_def SUSPENDED_BIT_eq)
  next
    case Resume
    then show ?thesis using same store [of "c AND NOT MSB"] cr
      by (cases rule: cas_gen_cases [of p s c "c AND NOT MSB"])
        (auto simp: resume_turn_def SUSPENDED_BIT_eq)
  next
    case (ResumeAt g)
    show ?thesis
    proof (cases "\<not> is_suspended c \<or> gen_lt_msb_masked g (c AND NOT MSB)")
      case True
      then show ?thesis using ResumeAt same by (auto simp: resume_at_turn_def strip_eq)
    next
      case False
      have g: "pos b g \<le> pos b (read_gen s)" using opb ResumeAt by simp
      then have "pos b g < 2 ^ 62" using bounds(3) by linarith
      with False c62 have "pos b c \<le> pos b g"
        by (auto simp: gen_lt_msb_masked_def gen_gt_msb_masked_def gte_pos64 [of b])
      then show ?thesis using False g ResumeAt same store [of "g AND NOT MSB"]
        by (cases rule: cas_gen_cases [of p s c "g AND NOT MSB"])
          (auto simp: resume_at_turn_def strip_eq SUSPENDED_BIT_eq)
    qed
  qed
qed


lemma ord_step_table:
  assumes pre: "ord_pre b x s" and p: "unat p < length (slots (reader_gens s))"
    and "local_ord b x' s"
  shows "ord_step b s (x', s\<lparr>reader_gens := store_key p k (reader_gens s)\<rparr>)"
proof -
  let ?s = "s\<lparr>reader_gens := store_key p k (reader_gens s)\<rparr>"
  have cells: "cell_at j ?s = cell_at j s" for j
    using p by (simp add: cell_at_def slot_store_key)
  then have g: "grows b s ?s" by (simp add: grows_def)
  have "ord_inv b ?s" using pre by (simp add: ord_pre_def ord_inv_def cells)
  with g local_ord_stable [OF assms(3) g] show ?thesis by (simp add: ord_step_def)
qed

text \<open>The step on \<open>write_gen\<close>.\<close>

lemma available_le: "n \<le> available_slots cap cf cw \<Longrightarrow>
  unat n + min (unat cap) (unat (gen_dist_msb_masked cw cf)) \<le> unat cap"
proof -
  assume "n \<le> available_slots cap cf cw"
  moreover have "unat (available_slots cap cf cw) = unat cap - min (unat cap) (unat (gen_dist_msb_masked cw cf))"
    by (simp add: available_slots_def unat_sub unat_min_word)
  ultimately show ?thesis by (simp add: word_le_nat_alt)
qed

lemma grab_bound:
  assumes pre: "ord_pre b (ReserveGrab be n cf cw) s" and "k \<le> available_slots (buffer_capacity s) cf cw"
    and hit: "write_gen s = cw"
  shows "pos b (write_gen s) + unat k \<le> pos b (free_gen s) + unat (buffer_capacity s)"
    and "pos b (gen_add_msb_masked cw k) = pos b cw + unat k"
proof -
  have loc: "pos b cf \<le> pos b (free_gen s)" "pos b cf \<le> pos b cw" and ord: "ord_inv b s"
    and cap: "unat (buffer_capacity s) < 2 ^ 62"
    using pre by (auto simp: ord_pre_def)
  have d: "unat (gen_dist_msb_masked cw cf) = pos b cw - pos b cf" using loc(2) by (rule unat_dist_ge)
  have "pos b cw \<le> pos b (free_gen s) + unat (buffer_capacity s)" using ord hit by (simp add: ord_inv_def)
  with available_le [OF assms(2)] d loc hit
  show le: "pos b (write_gen s) + unat k \<le> pos b (free_gen s) + unat (buffer_capacity s)"
    by (auto simp: min_def split: if_splits)
  with ord_pre_bounds(1) [OF pre] cap hit show "pos b (gen_add_msb_masked cw k) = pos b cw + unat k"
    by (intro pos_add64) simp
qed

lemma grab_Cas: "grab Cas cw k s =
   (if write_gen s = cw
    then (Inr (cw, gen_add_msb_masked cw k), s\<lparr>write_gen := gen_add_msb_masked cw k\<rparr>)
    else (Inl FailedGrab, s))"
  by (simp add: grab_def Let_def)

lemma ord_grab:
  assumes pre: "ord_pre b (ReserveGrab be n cf cw) s" and "k \<le> available_slots (buffer_capacity s) cf cw"
    and "grab Cas cw k s = (Inr (st, en), s')"
  shows "ord_step b s (Writing st en [], s')" and "st = cw" and "write_gen s = cw"
    and "en = gen_add_msb_masked cw k" and "s' = s\<lparr>write_gen := en\<rparr>"
proof -
  have hit: "write_gen s = cw" and st: "st = cw" and en: "en = gen_add_msb_masked cw k"
    and s': "s' = s\<lparr>write_gen := en\<rparr>"
    using assms(3) by (auto simp: grab_Cas split: if_splits)
  note b = grab_bound [OF pre assms(2) hit]
  have ord: "ord_inv b s" using pre by (simp add: ord_pre_def)
  have "en = cw" if "unat k = 0"
  proof (rule pos_inj)
    show "pos b en = pos b cw" using b(2) that by (simp add: en)
  qed (use ord hit in \<open>simp_all add: en ord_inv_def masked_def\<close>)
  then have "local_ord b (Writing st en []) s'"
    using ord hit b(2) by (cases "unat k = 0") (auto simp: st en s' ord_inv_def masked_def)
  moreover have "ord_inv b s'" using ord b hit by (auto simp: s' en ord_inv_def masked_def cell_at_def)
  moreover have "grows b s s'" using b(2) hit by (simp add: s' en grows_def cell_at_def)
  ultimately show "ord_step b s (Writing st en [], s')" by (simp add: ord_step_def)
qed (use assms(3) in \<open>auto simp: grab_Cas split: if_splits\<close>)

lemma grab_fails: "grab Cas cw k s = (Inl e, s') \<Longrightarrow> s' = s \<and> e = FailedGrab \<and> write_gen s \<noteq> cw"
  by (auto simp: grab_Cas split: if_splits)

text \<open>The possible ends of a reservation.\<close>

lemma reserve_grab_cases:
  assumes "pc_step nd (ReserveGrab be n cf cw) s = (x', s')"
  obtains (fails) "x' = Idle" "s' = s"
  | (empty) "be" "x' = Writing 0 0 []" "s' = s"
  | (grabs) k en where "k \<le> available_slots (buffer_capacity s) cf cw" "k \<le> n" "be \<or> k = n"
      "grab Cas cw k s = (Inr (cw, en), s')" "x' = Writing cw en []"
proof (cases be)
  case True
  let ?k = "min n (available_slots (buffer_capacity s) cf cw)"
  show thesis
  proof (cases "?k = 0")
    case True
    then show thesis using assms \<open>be\<close> that(2) by (auto simp: best_effort_from_def Let_def)
  next
    case False
    show thesis
    proof (cases "write_gen s = cw")
      case True
      then have "grab Cas cw ?k s = (Inr (cw, gen_add_msb_masked cw ?k), s')"
          "x' = Writing cw (gen_add_msb_masked cw ?k) []"
        using assms \<open>be\<close> False by (auto simp: best_effort_from_def Let_def grab_Cas)
      then show thesis using that(3) [of ?k] \<open>be\<close> by simp
    next
      case False
      then show thesis using assms \<open>be\<close> \<open>?k \<noteq> 0\<close> that(1) by (auto simp: best_effort_from_def Let_def grab_Cas)
    qed
  qed
next
  case False
  show thesis
  proof (cases "n > available_slots (buffer_capacity s) cf cw \<or> write_gen s \<noteq> cw")
    case True
    then show thesis using assms False that(1)
      by (auto simp: reserve_from_def Let_def grab_Cas split: if_splits)
  next
    case hit: False
    then have "grab Cas cw n s = (Inr (cw, gen_add_msb_masked cw n), s')"
        "x' = Writing cw (gen_add_msb_masked cw n) []"
      using assms False by (auto simp: reserve_from_def Let_def grab_Cas)
    then show thesis using that(3) [of n] hit by (simp add: not_less)
  qed
qed

lemma ord_reserve:
  assumes pre: "ord_pre b (ReserveGrab be n cf cw) s"
  shows "ord_step b s (pc_step nd (ReserveGrab be n cf cw) s)"
proof -
  obtain x' s' where r: "pc_step nd (ReserveGrab be n cf cw) s = (x', s')" by (metis surj_pair)
  then show ?thesis
  proof (cases rule: reserve_grab_cases)
    case (grabs k en)
    from ord_grab(1) [OF pre grabs(1,4)] show ?thesis unfolding r grabs(5) .
  next
    case fails
    then show ?thesis unfolding r using ord_step_same [OF pre] by simp
  next
    case empty
    then show ?thesis unfolding r using ord_step_same [OF pre] by simp
  qed
qed


lemma unat_nat_slot:
  "own_pre x s \<Longrightarrow> i < length (slots (reader_gens s)) \<Longrightarrow> unat (of_nat i :: usize) = i"
  using unat_of_nat_slot pre_inv by blast

lemma gte_masked: "gen_gte_msb_masked x y \<longleftrightarrow> pos b y \<le> pos b x"
  if "pos b x < 2 ^ 62" "pos b y < 2 ^ 62" for b x y :: gen
  using that by (simp add: gte_pos64 [of b])

lemma ord_scan_turn:
  assumes pre: "ord_pre b (CleanTurn lv m i rg) s"
  shows "ord_step b s (pc_step nd (CleanTurn lv m i rg) s)"
proof -
  have own: "own_pre (CleanTurn lv m i rg) s" and ord: "ord_inv b s"
    and loc: "local_ord b (CleanTurn lv m i rg) s" using pre by (auto simp: ord_pre_def)
  then have i: "i < length (slots (reader_gens s))" and m: "masked m" "pos b m \<le> pos b (read_gen s)"
    and below: "\<And>j. j < i \<Longrightarrow> pos b m \<le> pos b (cell_at j s)" and rg: "pos b rg \<le> pos b (cell_at i s)"
    and lv: "masked lv" "pos b lv \<le> pos b (last_valid_gen s)" by auto
  note bounds = ord_pre_bounds [OF pre]
  have m62: "pos b m < 2 ^ 62" and rg62: "pos b rg < 2 ^ 62" using m(2) rg bounds(3) bounds(5) [OF i] by linarith+
  let ?p = "of_nat i :: usize"
  have u: "unat ?p = i" using own i by (rule unat_nat_slot)
  have same: "ord_step b s (x', s)" if "local_ord b x' s" for x' using pre that by (rule ord_step_same)
  have next_slot: "local_ord b (CleanSlot lv m' (Suc i)) s"
    if "masked m'" "pos b m' \<le> pos b m" "pos b m' \<le> pos b (cell_at i s)" for m'
    using that m lv i below by (auto simp: less_Suc_eq intro: le_trans)
  consider (drag) "is_suspended rg" "gen_gt_msb_masked m (gen_without_suspended_bit rg)"
    | (high) "is_suspended rg" "\<not> gen_gt_msb_masked m (gen_without_suspended_bit rg)"
    | (active) "\<not> is_suspended rg" by blast
  then show ?thesis
  proof cases
    case drag
    then have gt: "pos b rg < pos b m" using m m62 rg62 by (simp add: gt_masked [of _ _ b] strip_eq)
    show ?thesis
    proof (cases "load_gen ?p s = rg")
      case True
      let ?s = "store_gen ?p (m OR MSB) s"
      have "ord_inv b ?s" "grows b s ?s"
        by (rule ord_store [OF ord]; use gt True m i u in simp)+
      moreover have "local_ord b (CleanSlot lv m (Suc i)) ?s"
        using local_ord_stable [OF loc calculation(2)] u i
        by (auto simp: less_Suc_eq cell_at_store)
      ultimately show ?thesis using drag True
        by (simp add: scan_turn_def cas_gen_hit SUSPENDED_BIT_eq ord_step_def)
    next
      case False
      have "local_ord b (CleanTurn lv m i (load_gen ?p s)) s" using loc u by (simp add: load_cell_at)
      then show ?thesis using drag False same by (simp add: scan_turn_def cas_gen_miss)
    qed
  next
    case high
    have "pos b m \<le> pos b rg"
    proof (rule ccontr)
      assume "\<not> pos b m \<le> pos b rg"
      with high(2) m m62 rg62 show False by (simp add: gt_masked [of _ _ b] strip_eq)
    qed
    then show ?thesis using high same next_slot [of m] m rg by (simp add: scan_turn_def)
  next
    case active
    then have "masked rg" by (simp add: masked_active)
    with active show ?thesis using same next_slot [of m] next_slot [of rg] m rg
      by (simp add: scan_turn_def gte_masked [OF m62 rg62])
  qed
qed

lemma ord_claim:
  assumes pre: "ord_pre b (CleanClaim lv new) s"
  shows "ord_step b s (pc_step nd (CleanClaim lv new) s)"
proof -
  have own: "own_pre (CleanClaim lv new) s" and ord: "ord_inv b s"
    and loc: "local_ord b (CleanClaim lv new) s" using pre by (auto simp: ord_pre_def)
  note bounds = ord_pre_bounds [OF pre]
  have new62: "pos b new < 2 ^ 62" and lv62: "pos b lv < 2 ^ 62" using loc bounds by auto
  show ?thesis
  proof (cases "gen_lte_msb_masked new lv")
    case True
    then show ?thesis using ord_step_same [OF pre] by (simp add: claim_turn_def)
  next
    case le: False
    then have gt: "pos b lv < pos b new" using new62 lv62 by (simp add: lte_pos64 [of b])
    show ?thesis
    proof (cases "last_valid_gen s = lv")
      case True
      let ?s = "s\<lparr>last_valid_gen := new\<rparr>"
      have "ord_inv b ?s" using ord loc gt True by (auto simp: ord_inv_def cell_at_def)
      moreover have "grows b s ?s" using gt True by (simp add: grows_def cell_at_def)
      moreover have "local_ord b (CleanDrop lv new 0) ?s" using loc gt by simp
      ultimately show ?thesis using le True by (simp add: claim_turn_def ord_step_def)
    next
      case False
      then show ?thesis using le ord loc ord_step_same [OF pre, of "CleanClaim (last_valid_gen s) new"]
        by (simp add: claim_turn_def ord_inv_def)
    qed
  qed
qed

lemma ord_free:
  assumes pre: "ord_pre b (CleanFree lv new) s"
  shows "ord_step b s (pc_step nd (CleanFree lv new) s)"
proof (cases "free_gen s = lv")
  case True
  let ?s = "s\<lparr>free_gen := new\<rparr>"
  have ord: "ord_inv b s" and loc: "local_ord b (CleanFree lv new) s" using pre by (auto simp: ord_pre_def)
  have "ord_inv b ?s" using ord loc True by (auto simp: ord_inv_def cell_at_def)
  moreover have "grows b s ?s" using loc True by (simp add: grows_def cell_at_def)
  ultimately show ?thesis using True by (simp add: free_turn_def ord_step_def)
next
  case False
  then show ?thesis using pre ord_step_same [OF pre, of "CleanFree lv new"]
    by (simp add: free_turn_def ord_pre_def)
qed

lemma ord_drop:
  assumes pre: "ord_pre b (CleanDrop lv new k) s"
  shows "ord_step b s (pc_step nd (CleanDrop lv new k) s)"
proof -
  let ?s = "drop_slot (gen_add_msb_masked lv (of_nat k)) s"
  have "ord_inv b ?s" using pre by (simp add: ord_pre_def ord_inv_def drop_slot_def cell_at_def)
  moreover have "grows b s ?s" by (simp add: grows_def drop_slot_def cell_at_def)
  ultimately show ?thesis using pre ord_step_same [OF pre]
    by (auto simp: ord_step_def ord_pre_def drop_slot_def)
qed

lemma pc_step_ord:
  assumes pre: "ord_pre b x s"
  shows "ord_step b s (pc_step nd x s)"
proof (cases x)
  case (ReserveGrab be n cf cw)
  with pre ord_reserve show ?thesis by blast
next
  case (CleanTurn lv m i rg)
  with pre ord_scan_turn show ?thesis by blast
next
  case (CleanClaim lv m)
  with pre ord_claim show ?thesis by blast
next
  case (CleanDrop lv m k)
  with pre ord_drop show ?thesis by blast
next
  case (CleanFree lv m)
  with pre ord_free show ?thesis by blast
next
  case (OpAct r p c oper)
  with pre ord_op_act show ?thesis by simp
next
  case (EnterCas r p c)
  have "p = slot_of r s" using pre EnterCas by (auto simp: ord_pre_def own_pre_def)
  moreover have "pos b (load_gen p s) \<le> pos b (read_gen s)"
    using pre calculation pre_slot [of x s r] by (auto simp: ord_pre_def ord_inv_def load_cell_at)
  ultimately show ?thesis
    using pre EnterCas ord_step_same [OF pre] ord_step_store [OF pre, of r]
    by (cases rule: cas_gen_cases [of p s c "gen_without_suspended_bit c"])
      (auto simp: enter_turn_def strip_eq)
next
  case (ProbeCas ky i idx k)
  have "unat idx < length (slots (reader_gens s))"
    using pre ProbeCas by (auto simp: ord_pre_def own_pre_def reg_inv_def map_inv_def index_less)
  from ord_step_table [OF pre this] show ?thesis
    using ProbeCas ord_step_same [OF pre]
    by (cases "k = EMPTY \<and> load_key idx (reader_gens s) = EMPTY")
      (auto simp: goi_turn_def Let_def value_ptr_def compare_exchange_def)
next
  case (Finish r p)
  have "unat p < length (slots (reader_gens s))"
    using pre Finish pre_slot [of x s r] by (auto simp: ord_pre_def own_pre_def)
  from ord_step_table [OF pre this] show ?thesis
    using Finish ord_step_same [OF pre] by (auto simp: finish_init_at_eq)
next
  case (RemoveCas r k)
  let ?i = "index_for r ZERO_OFFSET (reader_gens s)"
  have "unat ?i < length (slots (reader_gens s))"
    using pre by (auto simp: ord_pre_def own_pre_def reg_inv_def map_inv_def index_less index_for_def)
  from ord_step_table [OF pre this] show ?thesis
    using RemoveCas ord_step_same [OF pre]
    by (cases "key_bits k = r \<and> load_key ?i (reader_gens s) = k")
      (auto simp: remove_turn_def compare_exchange_def)
next
  case (CleanLoad lv)
  then show ?thesis using pre ord_step_same [OF pre]
    by (auto simp: ord_pre_def ord_inv_def)
next
  case (CleanSlot lv m i)
  then show ?thesis using pre ord_step_same [OF pre]
    by (auto simp: ord_pre_def raw_slots_def load_cell_at unat_nat_slot)
next
  case (OpLookup r oper)
  then show ?thesis using pre ord_step_same [OF pre]
    by (auto simp: ord_pre_def split: option.splits reader_op.splits)
next
  case (OpLoad r p oper)
  have "pos b (load_gen p s) \<le> pos b (read_gen s)"
    using pre OpLoad pre_slot [of x s r] by (auto simp: ord_pre_def own_pre_def ord_inv_def load_cell_at)
  then show ?thesis using OpLoad pre ord_step_same [OF pre] by (auto simp: ord_pre_def)
next
  case (ReserveLoad be n cf)
  then show ?thesis using pre ord_step_same [OF pre] by (auto simp: ord_pre_def ord_inv_def)
next
  case (ReadEnd r st)
  then show ?thesis using pre ord_step_same [OF pre] by (auto simp: ord_pre_def ord_inv_def)
qed (use pre ord_step_same [OF pre] in \<open>auto simp: ord_pre_def\<close>)


section \<open>Calls\<close>

lemma ord_call:
  assumes pre: "ord_pre b x s" and call: "call_step c x s = Some (x', s')"
    and resume: "\<And>g. c = Operate (ResumeAt g) \<Longrightarrow> pos b g \<le> pos b (read_gen s)"
  shows "ord_step b s (x', s') \<and> pos b (read_gen s') = pos b (read_gen s) + length (published_by x (Some c) x')"
proof -
  have ord: "ord_inv b s" and loc: "local_ord b x s" using pre by (auto simp: ord_pre_def)
  note same = ord_step_same [OF pre]
  from call show ?thesis
  proof (cases rule: call_step_cases)
    case (written v st en ms)
    have "ord_inv b s'" using ord written(5) by (simp add: ord_inv_def write_slot_def cell_at_def)
    moreover have "grows b s s'" using written(5) by (simp add: grows_def write_slot_def cell_at_def)
    ultimately show ?thesis using loc written by (auto simp: ord_step_def published_by_def write_slot_def)
  next
    case (published st en ms)
    from loc published(2) consider (none) "st = en"
      | (some) "masked st" "masked en" "pos b st < pos b en" "pos b en \<le> pos b (write_gen s)" by auto
    then show ?thesis
    proof cases
      case none
      then have "ms = []" using published(3) by (simp add: gen_dist_msb_masked_def)
      moreover have "s' = s" using published(4) none
        by (cases rule: publish_cases) (auto simp: gen_gte_msb_masked_def)
      ultimately show ?thesis using published same by (simp add: published_by_def)
    next
      case some
      have "pos b st < 2 ^ 62" "pos b en < 2 ^ 62" using some ord_pre_bounds(4) [OF pre] by linarith+
      then have "\<not> gen_gte_msb_masked st en" using some by (simp add: gte_masked [of b])
      with published(4) have rd: "read_gen s = st" and s': "s' = s\<lparr>read_gen := en\<rparr>"
        by (auto elim: publish_cases)
      have "ord_inv b s'" using ord some rd by (auto simp: ord_inv_def s' cell_at_def intro: le_trans)
      moreover have "grows b s s'" using some rd by (simp add: grows_def s' cell_at_def)
      moreover have "length ms = pos b en - pos b st" using published(3) some(3) by (simp add: unat_dist_ge [of b])
      ultimately show ?thesis using published some rd by (simp add: ord_step_def published_by_def s')
    qed
  next
    case (publish_fails st en ms e)
    then have "s' = s" by (auto elim: publish_cases)
    then show ?thesis using publish_fails same loc by (simp add: published_by_def)
  next
    case (operating r oper)
    then have "op_bound b oper s" using resume by (cases oper) auto
    then show ?thesis using operating same by (simp add: published_by_def)
  next
    case (end_slice r st en)
    then show ?thesis using loc same by (simp add: published_by_def)
  next
    case cleaning
    then show ?thesis using ord same by (simp add: published_by_def ord_inv_def)
  qed (use same in \<open>simp_all add: published_by_def\<close>)
qed

lemma pc_step_read: "read_gen (snd (pc_step nd x s)) = read_gen s"
proof (cases x)
  case (ReserveGrab be n cf cw)
  obtain x' s' where r: "pc_step nd (ReserveGrab be n cf cw) s = (x', s')" by (metis surj_pair)
  then have "read_gen s' = read_gen s"
    by (cases rule: reserve_grab_cases) (auto simp: grab_Cas split: if_splits)
  with r ReserveGrab show ?thesis by simp
next
  case (OpAct r p c oper)
  then show ?thesis
    by (cases oper; cases rule: cas_gen_cases [of p s c "c AND NOT SUSPENDED_BIT"])
      (auto simp: set_gen_from_def suspend_from_def resume_turn_def resume_at_turn_def cas_gen_def
        split: sum.splits prod.splits)
qed (auto simp: scan_turn_def cas_gen_def compare_exchange_def claim_turn_def free_turn_def drop_slot_def
    enter_turn_def goi_turn_def Let_def split: option.splits reader_op.splits sum.splits if_splits)

lemma published_by_None [simp]: "published_by x None x' = []"
  by (cases x) (simp_all add: published_by_def)

section \<open>The invariant of the system\<close>

definition order_inv :: "'a sys \<Rightarrow> bool" where
  "order_inv S \<longleftrightarrow> own_inv S \<and> ord_inv (base S) (shared S) \<and>
     (\<forall>t. local_ord (base S) (threads S t) (shared S)) \<and>
     unat (buffer_capacity (shared S)) < 2 ^ 62 \<and>
     reserved S = pos (base S) (write_gen (shared S)) \<and>
     length (log S) = pos (base S) (read_gen (shared S))"

lemma order_inv_pre:
  "order_inv S \<Longrightarrow> reserved S < 2 ^ 62 \<Longrightarrow> ord_pre (base S) (threads S t) (shared S)"
  by (auto simp: order_inv_def ord_pre_def own_inv_def own_pre_def)

lemma order_step:
  assumes inv: "order_inv S" and "reserved S < 2 ^ 62" and exec: "sys_exec nd (t, c) S = Some S'"
  shows "order_inv S' \<and> grows (base S) (shared S) (shared S') \<and> base S' = base S"
  using exec
proof (cases rule: sys_execE)
  case (1 x' s')
  let ?b = "base S"
  note pre = order_inv_pre [OF inv assms(2), of t]
  have "ord_step ?b (shared S) (x', s') \<and> pos ?b (read_gen s') =
      pos ?b (read_gen (shared S)) + length (published_by (threads S t) c x')"
    using 1(1)
  proof
    assume a: "c = None \<and> pc_step nd (threads S t) (shared S) = (x', s')"
    then show ?thesis using pc_step_ord [OF pre, of nd] pc_step_read [of nd "threads S t" "shared S"]
      by simp
  next
    assume "\<exists>d. c = Some d \<and> call_allowed d S \<and> call_step d (threads S t) (shared S) = Some (x', s')"
    then obtain d where d: "c = Some d" "call_allowed d S" "call_step d (threads S t) (shared S) = Some (x', s')"
      by blast
    have "pos ?b g \<le> pos ?b (read_gen (shared S))" if "d = Operate (ResumeAt g)" for g
      using d(2) that by (simp add: call_allowed_def)
    from ord_call [OF pre d(3) this] show ?thesis by (simp add: d(1))
  qed
  then have st: "ord_inv ?b s'" "local_ord ?b x' s'" "grows ?b (shared S) s'"
    and len: "pos ?b (read_gen s') = pos ?b (read_gen (shared S)) + length (published_by (threads S t) c x')"
    by (simp_all add: ord_step_def)
  have b: "base S' = base S" by (rule 1(4))
  have g: "grows (base S) (shared S) (shared S')" using st(3) 1(2) by simp
  have "own_inv S'" using inv exec own_inv_step by (auto simp: order_inv_def)
  moreover have "local_ord ?b (threads S' u) s'" for u
    using st(2) local_ord_stable [OF _ st(3)] inv 1(3) by (cases "u = t") (auto simp: order_inv_def)
  moreover have "reserved S' = pos ?b (write_gen s')"
    using inv st(3) 1(5) unat_dist_ge [of ?b "write_gen (shared S)" "write_gen s'"]
    by (simp add: order_inv_def grows_def)
  ultimately have "order_inv S'" using st(1) 1(2,6) len inv st(3)
    by (simp add: order_inv_def b grows_def)
  with g b show ?thesis by simp
qed

definition start_ok :: "gen \<Rightarrow> usize \<Rightarrow> usize \<Rightarrow> bool" where
  "start_ok g bc rc \<longleftrightarrow> g AND MSB = 0 \<and> unat bc < 2 ^ 62 \<and> is_power_of_two rc \<and> unat rc \<le> 2 ^ 62"

lemma order_inv_start:
  assumes "start_ok g bc rc"
  shows "order_inv (start_at g bc rc)"
proof -
  have "own_inv (start_at g bc rc)" using assms by (auto simp: start_ok_def intro: own_inv_start)
  moreover have "ord_inv g (area_at g bc rc)" using assms
    by (simp add: ord_inv_def masked_def area_at_def cell_at_def with_capacity_and_init_def start_ok_def
        SUSPENDED_BIT_eq)
  ultimately show ?thesis using assms
    by (simp add: order_inv_def start_at_def start_ok_def) (simp add: area_at_def)
qed

lemma reserved_mono: "sys_exec nd e S = Some S' \<Longrightarrow> reserved S \<le> reserved S'"
  by (cases e) (auto elim: sys_execE)

lemma order_inv_reachable:
  assumes "reachable nd S0 S" and "order_inv S0" and "reserved S < 2 ^ 62"
  shows "order_inv S \<and> grows (base S0) (shared S0) (shared S) \<and> base S = base S0"
  using assms(1,3)
proof (induction rule: reachable.induct)
  case start
  show ?case using assms(2) by simp
next
  case (step S e S')
  have r: "reserved S < 2 ^ 62" using step reserved_mono by fastforce
  obtain t c where e: "e = (t, c)" by (cases e)
  from step.IH r have IH: "order_inv S" "grows (base S0) (shared S0) (shared S)" "base S = base S0" by auto
  from order_step [OF IH(1) r step.hyps(2) [unfolded e]] IH(2,3) show ?case
    by (auto intro: grows_trans)
qed

end
