(* ===== verification/Machine_Ring.thy ===== *)
theory Machine_Ring
  imports Machine_Order "HOL-Library.Multiset"
begin

text \<open>
  What the slots of the ring hold under every interleaving.  Positions map to slots one to
  one inside the window from \<open>free_gen\<close> to \<open>write_gen\<close>; the positions between
  \<open>last_valid_gen\<close> and \<open>read_gen\<close> hold the published messages; a writer owns the positions it
  reserved until it publishes them, a cleanup those it claimed until it frees them, and the
  ranges of different threads never meet.  \<open>drops_ok\<close> accounts for every message that was
  dropped.
\<close>

section \<open>Slots by position\<close>

definition ix :: "gen \<Rightarrow> nat \<Rightarrow> nat \<Rightarrow> nat" where
  "ix b cap off = ((unat b + off) mod 2 ^ 63) mod cap"

definition at_off :: "gen \<Rightarrow> 'a area \<Rightarrow> nat \<Rightarrow> 'a maybe_uninit" where
  "at_off b s off = buffer s ! ix b (unat (buffer_capacity s)) off"

text \<open>
  When the ring index \<open>generation % capacity\<close> is faithful: the capacity divides the range of
  generations, or the run stays clear of the wrap-around.
\<close>

definition ring_ok :: "gen \<Rightarrow> nat \<Rightarrow> bool" where
  "ring_ok b cap \<longleftrightarrow> 0 < cap \<and> cap < 2 ^ 62 \<and> (cap dvd 2 ^ 63 \<or> unat b + 2 ^ 62 \<le> 2 ^ 63)"

lemma unat_gen: "masked v \<Longrightarrow> unat v = (unat b + pos b v) mod 2 ^ 63"
proof -
  assume m: "masked v"
  have "int ((unat b + pos b v) mod 2 ^ 63) = (uint b + (uint v - uint b) mod 2 ^ 63) mod 2 ^ 63"
    by (simp add: zmod_int int_pos)
  also have "\<dots> = uint v mod 2 ^ 63" by (simp add: mod_add_right_eq)
  also have "\<dots> = int (unat v mod 2 ^ 63)" by (simp add: zmod_int)
  finally have "(unat b + pos b v) mod 2 ^ 63 = unat v mod 2 ^ 63" by simp
  then show ?thesis using unat_masked_less m by (simp add: masked_def)
qed

lemma get_slot_at: "masked v \<Longrightarrow> get_slot v s = at_off b s (pos b v)"
  using unat_gen [of v b] by (simp add: get_slot_def at_off_def slot_index_def unat_mono_mod ix_def)

lemma slot_index_at: "masked v \<Longrightarrow> unat (slot_index v s) = ix b (unat (buffer_capacity s)) (pos b v)"
  using unat_gen [of v b] by (simp add: slot_index_def unat_mono_mod ix_def)

lemma ix_inj:
  assumes "ring_ok b cap" and "o1 \<noteq> o2" and "o1 < o2 + cap" and "o2 < o1 + cap"
    and "o1 < 2 ^ 62" and "o2 < 2 ^ 62"
  shows "ix b cap o1 \<noteq> ix b cap o2"
proof -
  have ne: "(unat b + o1) mod cap \<noteq> (unat b + o2) mod cap"
    using assms by (intro mod_neq_close) auto
  show ?thesis
  proof (cases "cap dvd 2 ^ 63")
    case True
    then show ?thesis using ne by (simp add: ix_def mod_mod_cancel)
  next
    case False
    then have "unat b + o1 < 2 ^ 63" "unat b + o2 < 2 ^ 63" using assms by (auto simp: ring_ok_def)
    then show ?thesis using ne by (simp add: ix_def)
  qed
qed

lemma ix_less: "ring_ok b cap \<Longrightarrow> ix b cap off < cap"
  by (simp add: ix_def ring_ok_def)

section \<open>Ranges owned by threads\<close>

text \<open>
  The positions a writer has reserved and not yet published, those a cleanup has claimed and
  not yet freed, and those of the latter it has still to drop.
\<close>

fun wspan :: "gen \<Rightarrow> 'a pc \<Rightarrow> nat set" where
  "wspan b (Writing st en ms) = {pos b st..<pos b en}"
| "wspan b x = {}"

fun cspan :: "gen \<Rightarrow> 'a pc \<Rightarrow> nat set" where
  "cspan b (CleanDrop lv new k) = {pos b lv..<pos b new}"
| "cspan b (CleanFree lv new) = {pos b lv..<pos b new}"
| "cspan b x = {}"

fun undropped :: "gen \<Rightarrow> 'a pc \<Rightarrow> nat set" where
  "undropped b (CleanDrop lv new k) = {pos b lv + k..<pos b new}"
| "undropped b x = {}"

fun contents :: "gen \<Rightarrow> 'a area \<Rightarrow> 'a list \<Rightarrow> 'a pc \<Rightarrow> bool" where
  "contents b s lg (Writing st en ms) \<longleftrightarrow> (\<forall>k < length ms. at_off b s (pos b st + k) = Init (ms ! k))"
| "contents b s lg (CleanDrop lv new k) \<longleftrightarrow>
     (\<forall>off \<in> {pos b lv + k..<pos b new}. at_off b s off = Init (lg ! off))"
| "contents b s lg x \<longleftrightarrow> True"

definition pending :: "gen \<Rightarrow> (nat \<Rightarrow> 'a pc) \<Rightarrow> nat set" where
  "pending b th = (\<Union>t. undropped b (th t))"

definition live_ok :: "gen \<Rightarrow> 'a area \<Rightarrow> 'a list \<Rightarrow> bool" where
  "live_ok b s lg \<longleftrightarrow> (\<forall>off. pos b (last_valid_gen s) \<le> off \<longrightarrow> off < pos b (read_gen s) \<longrightarrow>
     at_off b s off = Init (lg ! off))"

definition spans_ok :: "gen \<Rightarrow> 'a area \<Rightarrow> (nat \<Rightarrow> 'a pc) \<Rightarrow> bool" where
  "spans_ok b s th \<longleftrightarrow>
     (\<forall>t. wspan b (th t) \<subseteq> {pos b (read_gen s)..<pos b (write_gen s)} \<and>
          cspan b (th t) \<subseteq> {pos b (free_gen s)..<pos b (last_valid_gen s)}) \<and>
     (\<forall>t u. t \<noteq> u \<longrightarrow> wspan b (th t) \<inter> wspan b (th u) = {} \<and> cspan b (th t) \<inter> cspan b (th u) = {})"

definition drops_ok :: "bool \<Rightarrow> gen \<Rightarrow> 'a area \<Rightarrow> (nat \<Rightarrow> 'a pc) \<Rightarrow> 'a list \<Rightarrow> bool" where
  "drops_ok nd b s th lg \<longleftrightarrow> mset (dropped s) =
     (if nd then image_mset (\<lambda>off. Init (lg ! off))
                   (mset_set ({..<pos b (last_valid_gen s)} - pending b th))
      else {#})"

definition ring_at :: "bool \<Rightarrow> gen \<Rightarrow> 'a area \<Rightarrow> (nat \<Rightarrow> 'a pc) \<Rightarrow> 'a list \<Rightarrow> bool" where
  "ring_at nd b s th lg \<longleftrightarrow>
     length (buffer s) = unat (buffer_capacity s) \<and> ring_ok b (unat (buffer_capacity s)) \<and>
     live_ok b s lg \<and> spans_ok b s th \<and> (\<forall>t. contents b s lg (th t)) \<and> drops_ok nd b s th lg"

definition ring_inv :: "bool \<Rightarrow> 'a sys \<Rightarrow> bool" where
  "ring_inv nd S \<longleftrightarrow> ring_at nd (base S) (shared S) (threads S) (log S)"

lemma undropped_cspan: "undropped b x \<subseteq> cspan b x"
  by (cases x) auto

lemma spans_at:
  "spans_ok b s th \<Longrightarrow> off \<in> wspan b (th t) \<Longrightarrow> pos b (read_gen s) \<le> off \<and> off < pos b (write_gen s)"
  "spans_ok b s th \<Longrightarrow> off \<in> cspan b (th t) \<Longrightarrow> pos b (free_gen s) \<le> off \<and> off < pos b (last_valid_gen s)"
  "spans_ok b s th \<Longrightarrow> off \<in> wspan b (th t) \<Longrightarrow> off \<in> wspan b (th u) \<Longrightarrow> t = u"
  "spans_ok b s th \<Longrightarrow> off \<in> cspan b (th t) \<Longrightarrow> off \<in> cspan b (th u) \<Longrightarrow> t = u"
  unfolding spans_ok_def by (auto simp: subset_iff) blast+


lemma spans_upd:
  assumes "spans_ok b s th"
    and "\<And>u. u \<noteq> t \<Longrightarrow> wspan b (th u) \<subseteq> {pos b (read_gen s')..<pos b (write_gen s')} \<and>
          cspan b (th u) \<subseteq> {pos b (free_gen s')..<pos b (last_valid_gen s')} \<and>
          wspan b x' \<inter> wspan b (th u) = {} \<and> cspan b x' \<inter> cspan b (th u) = {}"
    and "wspan b x' \<subseteq> {pos b (read_gen s')..<pos b (write_gen s')}"
    and "cspan b x' \<subseteq> {pos b (free_gen s')..<pos b (last_valid_gen s')}"
  shows "spans_ok b s' (th(t := x'))"
  unfolding spans_ok_def
proof (intro conjI allI impI)
  fix u
  show "wspan b ((th(t := x')) u) \<subseteq> {pos b (read_gen s')..<pos b (write_gen s')}"
    using assms(2,3) by (cases "u = t") auto
  show "cspan b ((th(t := x')) u) \<subseteq> {pos b (free_gen s')..<pos b (last_valid_gen s')}"
    using assms(2,4) by (cases "u = t") auto
next
  fix v u :: nat assume "v \<noteq> u"
  have w: "wspan b (th v) \<inter> wspan b (th u) = {}" and c: "cspan b (th v) \<inter> cspan b (th u) = {}"
    using assms(1) \<open>v \<noteq> u\<close> by (auto simp: spans_ok_def)
  show "wspan b ((th(t := x')) v) \<inter> wspan b ((th(t := x')) u) = {}"
    using w assms(2) [of v] assms(2) [of u] \<open>v \<noteq> u\<close> by (cases "v = t"; cases "u = t") auto
  show "cspan b ((th(t := x')) v) \<inter> cspan b ((th(t := x')) u) = {}"
    using c assms(2) [of v] assms(2) [of u] \<open>v \<noteq> u\<close> by (cases "v = t"; cases "u = t") auto
qed

lemma pending_upd:
  "pending b (th(t := x')) = undropped b x' \<union> (\<Union>u \<in> - {t}. undropped b (th u))"
  by (auto simp: pending_def split: if_splits)

lemma pending_split: "pending b th = undropped b (th t) \<union> (\<Union>u \<in> - {t}. undropped b (th u))"
  by (auto simp: pending_def)

lemma pending_same: "undropped b x' = undropped b (th t) \<Longrightarrow> pending b (th(t := x')) = pending b th"
  by (simp add: pending_upd pending_split [of b th t])

lemma contents_cong:
  "contents b s lg x \<Longrightarrow>
   (\<And>off. off \<in> wspan b x \<union> undropped b x \<Longrightarrow> at_off b s' off = at_off b s off) \<Longrightarrow>
   (\<And>off. off \<in> undropped b x \<Longrightarrow> lg' ! off = lg ! off) \<Longrightarrow>
   (case x of Writing st en ms \<Rightarrow> length ms \<le> pos b en - pos b st | _ \<Rightarrow> True) \<Longrightarrow>
   contents b s' lg' x"
  by (cases x) auto

text \<open>A step that changes neither a slot nor the ends of the live range.\<close>

lemma ring_quiet:
  assumes inv: "ring_at nd b s th lg"
    and frame: "buffer s' = buffer s" "buffer_capacity s' = buffer_capacity s" "dropped s' = dropped s"
      "read_gen s' = read_gen s" "last_valid_gen s' = last_valid_gen s" "free_gen s' = free_gen s"
    and wr: "pos b (write_gen s) \<le> pos b (write_gen s')" "pos b (read_gen s) \<le> pos b (write_gen s)"
    and spans: "wspan b x' \<subseteq> wspan b (th t) \<union> {pos b (write_gen s)..<pos b (write_gen s')}"
      "cspan b x' \<subseteq> cspan b (th t)" "nd \<Longrightarrow> undropped b x' = undropped b (th t)" "contents b s lg x'"
  shows "ring_at nd b s' (th(t := x')) lg"
proof -
  have at: "at_off b s' = at_off b s" by (rule ext) (simp add: at_off_def frame)
  have sp: "spans_ok b s th" using inv by (simp add: ring_at_def)
  have "spans_ok b s' (th(t := x'))"
  proof (rule spans_upd [OF sp])
    fix u assume ne: "u \<noteq> t"
    have w: "wspan b (th u) \<subseteq> {pos b (read_gen s)..<pos b (write_gen s)}"
      and c: "cspan b (th u) \<subseteq> {pos b (free_gen s)..<pos b (last_valid_gen s)}"
      and d: "wspan b (th t) \<inter> wspan b (th u) = {}" "cspan b (th t) \<inter> cspan b (th u) = {}"
      using sp ne unfolding spans_ok_def by metis+
    have "wspan b (th u) \<subseteq> {pos b (read_gen s')..<pos b (write_gen s')}" using w wr by (auto simp: frame)
    moreover have "wspan b x' \<inter> wspan b (th u) = {}"
      using spans(1) w d(1) by (auto simp: disjoint_iff subset_iff) (metis leD)
    moreover have "cspan b x' \<inter> cspan b (th u) = {}" using spans(2) d(2) by auto
    ultimately show "wspan b (th u) \<subseteq> {pos b (read_gen s')..<pos b (write_gen s')} \<and>
        cspan b (th u) \<subseteq> {pos b (free_gen s')..<pos b (last_valid_gen s')} \<and>
        wspan b x' \<inter> wspan b (th u) = {} \<and> cspan b x' \<inter> cspan b (th u) = {}"
      using c by (simp add: frame)
  next
    show "wspan b x' \<subseteq> {pos b (read_gen s')..<pos b (write_gen s')}"
      using spans_at(1) [OF sp, of _ t] spans(1) wr by (fastforce simp: frame subset_iff)
    show "cspan b x' \<subseteq> {pos b (free_gen s')..<pos b (last_valid_gen s')}"
      using spans_at(2) [OF sp, of _ t] spans(2) by (fastforce simp: frame subset_iff)
  qed
  moreover have "contents b s' lg x" if "contents b s lg x" for x
    using that by (cases x) (simp_all add: at)
  ultimately show ?thesis using inv spans(3,4)
    by (auto simp: ring_at_def frame live_ok_def at drops_ok_def pending_same)
qed


text \<open>What the order of the counters gives for the ring.\<close>

definition window :: "gen \<Rightarrow> 'a area \<Rightarrow> bool" where
  "window b s \<longleftrightarrow> pos b (free_gen s) \<le> pos b (last_valid_gen s) \<and>
     pos b (last_valid_gen s) \<le> pos b (read_gen s) \<and> pos b (read_gen s) \<le> pos b (write_gen s) \<and>
     pos b (write_gen s) \<le> pos b (free_gen s) + unat (buffer_capacity s) \<and> pos b (write_gen s) < 2 ^ 62"

lemma at_off_update:
  assumes "ring_at nd b s th lg" and "window b s"
    and "pos b (free_gen s) \<le> o1" "o1 < pos b (write_gen s)"
    and "pos b (free_gen s) \<le> o2" "o2 < pos b (write_gen s)"
    and "buffer s' = (buffer s)[ix b (unat (buffer_capacity s)) o1 := c]"
    and "buffer_capacity s' = buffer_capacity s"
  shows "at_off b s' o2 = (if o2 = o1 then c else at_off b s o2)"
proof -
  have ok: "ring_ok b (unat (buffer_capacity s))" and len: "length (buffer s) = unat (buffer_capacity s)"
    using assms(1) by (auto simp: ring_at_def)
  have "ix b (unat (buffer_capacity s)) o1 \<noteq> ix b (unat (buffer_capacity s)) o2" if "o1 \<noteq> o2"
    by (rule ix_inj [OF ok that]) (use assms(2-6) in \<open>auto simp: window_def\<close>)
  then show ?thesis using ix_less [OF ok, of o1] len assms(7,8) by (auto simp: at_off_def)
qed

lemma contents_other:
  assumes inv: "ring_at nd b s th lg" and loc: "local_ord b (th u) s"
    and at: "\<And>off. off \<in> wspan b (th u) \<or> off \<in> undropped b (th u) \<Longrightarrow> at_off b s' off = at_off b s off"
    and lg: "\<And>off. off \<in> undropped b (th u) \<Longrightarrow> lg' ! off = lg ! off"
  shows "contents b s' lg' (th u)"
proof -
  have "case th u of Writing st en ms \<Rightarrow> length ms \<le> pos b en - pos b st | _ \<Rightarrow> True"
  proof (cases "th u")
    case (Writing st en ms)
    then have "length ms \<le> unat (gen_dist_msb_masked en st)" "st = en \<or> pos b st < pos b en"
      using loc by auto
    then have "length ms \<le> pos b en - pos b st"
      using unat_dist_ge [of b st en] by (auto simp: gen_dist_msb_masked_def)
    then show ?thesis by (simp add: Writing)
  qed simp_all
  note len = this
  have c: "contents b s lg (th u)" using inv by (simp add: ring_at_def)
  show ?thesis
  proof (rule contents_cong [OF c _ _ len])
    fix off assume "off \<in> wspan b (th u) \<union> undropped b (th u)"
    then show "at_off b s' off = at_off b s off" using at by simp
  qed (rule lg)
qed

lemma span_disjoint:
  assumes "spans_ok b s th" and "u \<noteq> t"
  shows "off \<in> wspan b (th t) \<Longrightarrow> off \<notin> wspan b (th u)"
    and "off \<in> cspan b (th t) \<Longrightarrow> off \<notin> cspan b (th u)"
    and "off \<in> undropped b (th t) \<Longrightarrow> off \<notin> undropped b (th u)"
proof -
  show "off \<in> wspan b (th t) \<Longrightarrow> off \<notin> wspan b (th u)" using spans_at(3) [OF assms(1)] assms(2) by metis
  show c: "off \<in> cspan b (th t) \<Longrightarrow> off \<notin> cspan b (th u)" using spans_at(4) [OF assms(1)] assms(2) by metis
  show "off \<in> undropped b (th t) \<Longrightarrow> off \<notin> undropped b (th u)"
    using c undropped_cspan [of b "th t"] undropped_cspan [of b "th u"] by blast
qed

lemma spans_keep:
  assumes "spans_ok b s th" and "wspan b x' = wspan b (th t)" and "cspan b x' = cspan b (th t)"
    and "read_gen s' = read_gen s" "write_gen s' = write_gen s" "free_gen s' = free_gen s"
      "last_valid_gen s' = last_valid_gen s"
  shows "spans_ok b s' (th(t := x'))"
proof -
  have "wspan b ((th(t := x')) u) = wspan b (th u)" "cspan b ((th(t := x')) u) = cspan b (th u)" for u
    using assms(2,3) by simp_all
  then show ?thesis using assms(1) unfolding spans_ok_def assms(4-7) by presburger
qed

lemma ring_write:
  assumes inv: "ring_at nd b s th lg" and win: "window b s" and loc: "\<And>u. local_ord b (th u) s"
    and x: "th t = Writing st en ms" and room: "pos b st + length ms < pos b en"
    and s': "s' = s\<lparr>buffer := (buffer s)[ix b (unat (buffer_capacity s)) (pos b st + length ms) := Init v]\<rparr>"
  shows "ring_at nd b s' (th(t := Writing st en (ms @ [v]))) lg"
proof -
  let ?o = "pos b st + length ms"
  have sp: "spans_ok b s th" using inv by (simp add: ring_at_def)
  have o: "?o \<in> wspan b (th t)" using room by (simp add: x)
  have o_in: "pos b (read_gen s) \<le> ?o" "?o < pos b (write_gen s)" using spans_at(1) [OF sp o] by auto
  have o_free: "pos b (free_gen s) \<le> ?o" using win o_in(1) by (simp add: window_def)
  note at = at_off_update [OF inv win o_free o_in(2), of _ s' "Init v"]
  have at': "at_off b s' off = (if off = ?o then Init v else at_off b s off)"
    if "pos b (free_gen s) \<le> off" "off < pos b (write_gen s)" for off
    using at [OF that] by (simp add: s')
  have un: "pos b (free_gen s) \<le> off \<and> off < pos b (last_valid_gen s)"
    if "off \<in> undropped b (th u)" for off u
    using that undropped_cspan spans_at(2) [OF sp] by fast
  have "live_ok b s' lg" using inv win o_in
    by (auto simp: ring_at_def live_ok_def s' at' [unfolded s'] window_def)
  moreover have "spans_ok b s' (th(t := Writing st en (ms @ [v])))"
    by (rule spans_keep [OF sp]) (simp_all add: x s')
  moreover have "contents b s' lg (th u)" if "u \<noteq> t" for u
  proof (rule contents_other [OF inv loc])
    fix off assume off: "off \<in> wspan b (th u) \<or> off \<in> undropped b (th u)"
    then have "off \<noteq> ?o" using span_disjoint(1) [OF sp that o] un o_in(1) win by (force simp: window_def)
    moreover have "pos b (free_gen s) \<le> off \<and> off < pos b (write_gen s)"
      using off un spans_at(1) [OF sp, of off u] win by (force simp: window_def)
    ultimately show "at_off b s' off = at_off b s off" by (simp add: at')
  qed simp
  moreover have "contents b s' lg (Writing st en (ms @ [v]))"
  proof -
    have "at_off b s' (pos b st + k) = Init ((ms @ [v]) ! k)" if "k < Suc (length ms)" for k
    proof -
      have "pos b st + k \<in> wspan b (th t)" using that room by (simp add: x)
      then have "pos b (free_gen s) \<le> pos b st + k" "pos b st + k < pos b (write_gen s)"
        using spans_at(1) [OF sp] win by (auto simp: window_def intro: le_trans)
      moreover have "at_off b s (pos b st + k) = Init (ms ! k)" if "k < length ms"
        using inv that x by (auto simp: ring_at_def dest: spec [of _ t])
      ultimately show ?thesis using that by (auto simp: at' nth_append less_Suc_eq)
    qed
    then show ?thesis by simp
  qed
  moreover have "drops_ok nd b s' (th(t := Writing st en (ms @ [v]))) lg"
    using inv pending_same [of b "Writing st en (ms @ [v])" th t] by (simp add: ring_at_def drops_ok_def s' x)
  ultimately show ?thesis using inv by (simp add: ring_at_def s')
qed


lemma undropped_in:
  assumes "spans_ok b s th" and "off \<in> undropped b (th u)"
  shows "pos b (free_gen s) \<le> off" and "off < pos b (last_valid_gen s)"
  using assms undropped_cspan [of b "th u"] spans_at(2) [OF assms(1)] by blast+

lemma ring_drop:
  assumes inv: "ring_at True b s th lg" and win: "window b s" and loc: "\<And>u. local_ord b (th u) s"
    and x: "th t = CleanDrop lv new k" and room: "pos b lv + k < pos b new"
    and s': "s' = s\<lparr>buffer := (buffer s)[ix b (unat (buffer_capacity s)) (pos b lv + k) := Uninit],
                   dropped := dropped s @ [at_off b s (pos b lv + k)]\<rparr>"
  shows "ring_at True b s' (th(t := CleanDrop lv new (Suc k))) lg"
proof -
  let ?o = "pos b lv + k" and ?th = "th(t := CleanDrop lv new (Suc k))"
  have sp: "spans_ok b s th" using inv by (simp add: ring_at_def)
  have o: "?o \<in> undropped b (th t)" using room by (simp add: x)
  note o_in = undropped_in [OF sp o]
  have o_wr: "?o < pos b (write_gen s)" using o_in(2) win by (simp add: window_def)
  note at = at_off_update [OF inv win o_in(1) o_wr, of _ s' Uninit]
  have at': "at_off b s' off = at_off b s off"
    if "off \<noteq> ?o" "pos b (free_gen s) \<le> off" "off < pos b (write_gen s)" for off
    using at [OF that(2,3)] that(1) by (simp add: s')
  have head: "at_off b s ?o = Init (lg ! ?o)"
  proof -
    have "contents b s lg (CleanDrop lv new k)" using inv x by (metis ring_at_def)
    then show ?thesis using room by simp
  qed
  have "live_ok b s' lg" using inv win o_in(2) at' by (auto simp: ring_at_def live_ok_def s' window_def)
  moreover have "spans_ok b s' ?th" by (rule spans_keep [OF sp]) (simp_all add: x s')
  moreover have "contents b s' lg (th u)" if "u \<noteq> t" for u
  proof (rule contents_other [OF inv loc])
    fix off assume off: "off \<in> wspan b (th u) \<or> off \<in> undropped b (th u)"
    then have "off \<noteq> ?o"
    proof
      assume "off \<in> wspan b (th u)"
      then show ?thesis using spans_at(1) [OF sp] o_in(2) win by (fastforce simp: window_def)
    qed (use span_disjoint(3) [OF sp that o] in blast)
    moreover have "pos b (free_gen s) \<le> off \<and> off < pos b (write_gen s)"
      using off undropped_in [OF sp, of off u] spans_at(1) [OF sp, of off u] win by (force simp: window_def)
    ultimately show "at_off b s' off = at_off b s off" by (simp add: at')
  qed simp
  moreover have "contents b s' lg (CleanDrop lv new (Suc k))"
  proof -
    have "at_off b s' off = Init (lg ! off)" if "off \<in> {pos b lv + Suc k..<pos b new}" for off
    proof -
      have u: "off \<in> undropped b (th t)" using that by (simp add: x)
      then have "at_off b s off = Init (lg ! off)" using inv x by (auto simp: ring_at_def dest: spec [of _ t])
      moreover have "off < pos b (write_gen s)" using undropped_in(2) [OF sp u] win by (simp add: window_def)
      ultimately show ?thesis using at' [of off] undropped_in(1) [OF sp u] that by simp
    qed
    then show ?thesis by simp
  qed
  moreover have "drops_ok True b s' ?th lg"
  proof -
    let ?rest = "\<Union>u \<in> - {t}. undropped b (th u)" and ?lv = "pos b (last_valid_gen s)"
    have "?o \<notin> ?rest" using span_disjoint(3) [OF sp _ o] by blast
    then have "{..<?lv} - pending b ?th = insert ?o ({..<?lv} - pending b th)"
        and "?o \<notin> {..<?lv} - pending b th"
      using o_in(2) room unfolding pending_upd pending_split [of b th t] by (auto simp: x)
    then have "image_mset f (mset_set ({..<?lv} - pending b ?th)) =
        add_mset (f ?o) (image_mset f (mset_set ({..<?lv} - pending b th)))" for f :: "nat \<Rightarrow> 'a maybe_uninit"
      by simp
    then show ?thesis using inv head by (simp add: ring_at_def drops_ok_def s')
  qed
  ultimately show ?thesis using inv by (simp add: ring_at_def s')
qed

lemma ring_claim:
  assumes inv: "ring_at nd b s th lg" and win: "window b s"
    and x: "th t = CleanClaim (last_valid_gen s) new"
    and lt: "pos b (last_valid_gen s) < pos b new" "pos b new \<le> pos b (read_gen s)"
    and s': "s' = s\<lparr>last_valid_gen := new\<rparr>"
  shows "ring_at nd b s' (th(t := CleanDrop (last_valid_gen s) new 0)) lg"
proof -
  let ?x = "CleanDrop (last_valid_gen s) new 0" and ?lv = "pos b (last_valid_gen s)"
  have sp: "spans_ok b s th" using inv by (simp add: ring_at_def)
  have at: "at_off b s' = at_off b s" by (rule ext) (simp add: at_off_def s')
  have "live_ok b s' lg" using inv lt by (simp add: ring_at_def live_ok_def s' at [unfolded s'])
  moreover have "spans_ok b s' (th(t := ?x))"
  proof (rule spans_upd [OF sp])
    fix u
    have w: "wspan b (th u) \<subseteq> {pos b (read_gen s)..<pos b (write_gen s)}"
      and c: "cspan b (th u) \<subseteq> {pos b (free_gen s)..<?lv}" using sp by (simp_all add: spans_ok_def)
    show "wspan b (th u) \<subseteq> {pos b (read_gen s')..<pos b (write_gen s')} \<and>
        cspan b (th u) \<subseteq> {pos b (free_gen s')..<pos b (last_valid_gen s')} \<and>
        wspan b ?x \<inter> wspan b (th u) = {} \<and> cspan b ?x \<inter> cspan b (th u) = {}"
      using w c lt(1) by (fastforce simp: s' disjoint_iff subset_iff)
  qed (use win in \<open>auto simp: s' window_def\<close>)
  moreover have "contents b s' lg ?x" using inv lt(2) by (simp add: ring_at_def live_ok_def at)
  moreover have "contents b s' lg (th u)" for u
    using inv by (cases "th u") (auto simp: ring_at_def at dest: spec [of _ u])
  moreover have "drops_ok nd b s' (th(t := ?x)) lg"
  proof -
    let ?rest = "\<Union>u \<in> - {t}. undropped b (th u)"
    have "undropped b (th u) \<subseteq> {..<?lv}" for u using undropped_in(2) [OF sp, of _ u] by auto
    then have "{..<pos b new} - pending b (th(t := ?x)) = {..<?lv} - pending b th"
      using lt(1) unfolding pending_upd pending_split [of b th t] by (auto simp: x)
    then show ?thesis using inv by (simp add: ring_at_def drops_ok_def s')
  qed
  ultimately show ?thesis using inv by (simp add: ring_at_def s')
qed

lemma ring_free:
  assumes inv: "ring_at nd b s th lg" and x: "th t = CleanFree (free_gen s) new"
    and lt: "pos b (free_gen s) < pos b new" and s': "s' = s\<lparr>free_gen := new\<rparr>"
  shows "ring_at nd b s' (th(t := Idle)) lg"
proof -
  have sp: "spans_ok b s th" using inv by (simp add: ring_at_def)
  have at: "at_off b s' = at_off b s" by (rule ext) (simp add: at_off_def s')
  have "spans_ok b s' (th(t := Idle))"
  proof (rule spans_upd [OF sp])
    fix u assume ne: "u \<noteq> t"
    have w: "wspan b (th u) \<subseteq> {pos b (read_gen s)..<pos b (write_gen s)}"
      and c: "cspan b (th u) \<subseteq> {pos b (free_gen s)..<pos b (last_valid_gen s)}"
      using sp by (simp_all add: spans_ok_def)
    have "pos b new \<le> off" if "off \<in> cspan b (th u)" for off
      using that c span_disjoint(2) [OF sp ne, of off] lt by (force simp: x)
    then show "wspan b (th u) \<subseteq> {pos b (read_gen s')..<pos b (write_gen s')} \<and>
        cspan b (th u) \<subseteq> {pos b (free_gen s')..<pos b (last_valid_gen s')} \<and>
        wspan b Idle \<inter> wspan b (th u) = {} \<and> cspan b Idle \<inter> cspan b (th u) = {}"
      using w c by (force simp: s')
  qed simp_all
  moreover have "contents b s' lg (th u)" for u
    using inv by (cases "th u") (auto simp: ring_at_def at dest: spec [of _ u])
  moreover have "pending b (th(t := Idle)) = pending b th" by (rule pending_same) (simp add: x)
  ultimately show ?thesis using inv
    by (simp add: ring_at_def s' live_ok_def at [unfolded s'] drops_ok_def)
qed

lemma ring_publish:
  assumes inv: "ring_at nd b s th lg" and win: "window b s" and loc: "\<And>u. local_ord b (th u) s"
    and x: "th t = Writing (read_gen s) en ms" and len: "length lg = pos b (read_gen s)"
    and ms: "pos b (read_gen s) + length ms = pos b en" and s': "s' = s\<lparr>read_gen := en\<rparr>"
  shows "ring_at nd b s' (th(t := Idle)) (lg @ ms)"
proof -
  let ?r = "pos b (read_gen s)"
  have sp: "spans_ok b s th" using inv by (simp add: ring_at_def)
  have at: "at_off b s' = at_off b s" by (rule ext) (simp add: at_off_def s')
  have below: "off < length lg" if "off < pos b (last_valid_gen s)" for off
    using that win len by (simp add: window_def)
  have "at_off b s off = Init ((lg @ ms) ! off)" if "pos b (last_valid_gen s) \<le> off" "off < pos b en" for off
  proof (cases "off < ?r")
    case True
    then show ?thesis using that(1) inv len by (simp add: ring_at_def live_ok_def nth_append)
  next
    case False
    have "contents b s lg (th t)" using inv by (simp add: ring_at_def)
    then have c: "\<forall>k < length ms. at_off b s (?r + k) = Init (ms ! k)" unfolding x contents.simps .
    have "off - ?r < length ms" using that(2) ms False by linarith
    with c have "at_off b s (?r + (off - ?r)) = Init (ms ! (off - ?r))" by blast
    then show ?thesis using False len by (simp add: nth_append)
  qed
  then have "live_ok b s' (lg @ ms)" by (simp add: live_ok_def s' at [unfolded s'])
  moreover have "spans_ok b s' (th(t := Idle))"
  proof (rule spans_upd [OF sp])
    fix u assume ne: "u \<noteq> t"
    have w: "wspan b (th u) \<subseteq> {?r..<pos b (write_gen s)}"
      and c: "cspan b (th u) \<subseteq> {pos b (free_gen s)..<pos b (last_valid_gen s)}"
      using sp by (simp_all add: spans_ok_def)
    have "pos b en \<le> off" if "off \<in> wspan b (th u)" for off
      using that w span_disjoint(1) [OF sp ne, of off] by (force simp: x)
    then show "wspan b (th u) \<subseteq> {pos b (read_gen s')..<pos b (write_gen s')} \<and>
        cspan b (th u) \<subseteq> {pos b (free_gen s')..<pos b (last_valid_gen s')} \<and>
        wspan b Idle \<inter> wspan b (th u) = {} \<and> cspan b Idle \<inter> cspan b (th u) = {}"
      using w c by (force simp: s')
  qed simp_all
  moreover have "contents b s' (lg @ ms) (th u)" for u
  proof (rule contents_other [OF inv loc])
    fix off assume "off \<in> undropped b (th u)"
    then show "(lg @ ms) ! off = lg ! off" using undropped_in(2) [OF sp] below by (simp add: nth_append)
  qed (simp add: at)
  moreover have "drops_ok nd b s' (th(t := Idle)) (lg @ ms)"
  proof -
    have p: "pending b (th(t := Idle)) = pending b th" by (rule pending_same) (simp add: x)
    have "image_mset (\<lambda>off. Init ((lg @ ms) ! off)) (mset_set ({..<pos b (last_valid_gen s)} - pending b th))
        = image_mset (\<lambda>off. Init (lg ! off)) (mset_set ({..<pos b (last_valid_gen s)} - pending b th))"
      by (rule image_mset_cong) (auto simp: nth_append below)
    then show ?thesis using inv by (simp add: ring_at_def drops_ok_def p s')
  qed
  ultimately show ?thesis using inv by (simp add: ring_at_def s')
qed


section \<open>Steps\<close>

lemma order_window: "order_inv S \<Longrightarrow> reserved S < 2 ^ 62 \<Longrightarrow> window (base S) (shared S)"
  by (auto simp: order_inv_def ord_inv_def window_def)

text \<open>Steps that touch only the table of readers, or nothing.\<close>

definition ring_same :: "'a area \<Rightarrow> 'a area \<Rightarrow> bool" where
  "ring_same s s' \<longleftrightarrow> buffer s' = buffer s \<and> buffer_capacity s' = buffer_capacity s \<and> dropped s' = dropped s \<and>
     read_gen s' = read_gen s \<and> last_valid_gen s' = last_valid_gen s \<and> free_gen s' = free_gen s \<and>
     write_gen s' = write_gen s"

lemma ring_same_simps [simp]:
  "ring_same s s" "ring_same s (store_gen p v s)" "ring_same s (s\<lparr>reader_gens := m\<rparr>)"
  by (simp_all add: ring_same_def)

fun off_ring :: "'a pc \<Rightarrow> bool" where
  "off_ring (ReserveGrab be n cf cw) \<longleftrightarrow> False"
| "off_ring (Writing st en ms) \<longleftrightarrow> False"
| "off_ring (CleanClaim lv new) \<longleftrightarrow> False"
| "off_ring (CleanDrop lv new k) \<longleftrightarrow> False"
| "off_ring (CleanFree lv new) \<longleftrightarrow> False"
| "off_ring x \<longleftrightarrow> True"

fun idle_ring :: "'a pc \<Rightarrow> bool" where
  "idle_ring (Writing st en ms) \<longleftrightarrow> False"
| "idle_ring (CleanDrop lv new k) \<longleftrightarrow> False"
| "idle_ring (CleanFree lv new) \<longleftrightarrow> False"
| "idle_ring x \<longleftrightarrow> True"

lemma idle_ringD:
  "idle_ring x \<Longrightarrow> wspan b x = {} \<and> cspan b x = {} \<and> undropped b x = {} \<and> contents b s lg x"
  by (cases x) auto

lemma ring_idle_step:
  assumes "ring_at nd b s th lg" and "window b s" and "ring_same s s'"
    and "idle_ring (th t)" and "idle_ring x'"
  shows "ring_at nd b s' (th(t := x')) lg"
  by (rule ring_quiet [OF assms(1)])
    (use assms idle_ringD [OF assms(4)] idle_ringD [OF assms(5)] in \<open>simp_all add: ring_same_def window_def\<close>)

lemma pc_step_off_ring:
  "off_ring x \<Longrightarrow> ring_same s (snd (pc_step nd x s)) \<and> idle_ring (fst (pc_step nd x s))"
proof (cases x)
  case (OpAct r p c oper)
  then show ?thesis
    by (cases oper; cases rule: cas_gen_cases [of p s c "c AND NOT SUSPENDED_BIT"])
      (auto simp: set_gen_from_def suspend_from_def resume_turn_def resume_at_turn_def cas_gen_def
        split: sum.splits prod.splits)
qed (auto simp: scan_turn_def cas_gen_def compare_exchange_def enter_turn_def goi_turn_def Let_def
    split: option.splits reader_op.splits sum.splits if_splits prod.splits)


lemma off_ring_idle: "off_ring x \<Longrightarrow> idle_ring x"
  by (cases x) auto

lemma ring_pc_step:
  assumes inv: "ring_at nd b s th lg" and win: "window b s" and loc: "\<And>u. local_ord b (th u) s"
    and pre: "ord_pre b (th t) s" and step: "pc_step nd (th t) s = (x', s')"
  shows "ring_at nd b s' (th(t := x')) lg"
proof (cases "off_ring (th t)")
  case True
  have "ring_same s s'" "idle_ring x'" using pc_step_off_ring [OF True, of s nd] step by simp_all
  then show ?thesis using off_ring_idle [OF True] by (intro ring_idle_step [OF inv win])
next
  case False
  then consider (grab) be n cf cw where "th t = ReserveGrab be n cf cw"
    | (writing) st en ms where "th t = Writing st en ms"
    | (claim) lv new where "th t = CleanClaim lv new"
    | (drop) lv new k where "th t = CleanDrop lv new k"
    | (free) lv new where "th t = CleanFree lv new" by (cases "th t") auto
  then show ?thesis
  proof cases
    case grab
    note pre' = pre [unfolded grab]
    from step [unfolded grab] show ?thesis
    proof (cases rule: reserve_grab_cases)
      case (grabs k en)
      note g = ord_grab [OF pre' grabs(1,4)]
      have "pos b (write_gen s) \<le> pos b en" using g(1,5) by (simp add: ord_step_def grows_def)
      then show ?thesis using win g(3)
        by (intro ring_quiet [OF inv]) (simp_all add: g(5) grabs(5) grab window_def)
    qed (intro ring_quiet [OF inv]; use win in \<open>simp add: grab window_def\<close>)+
  next
    case writing
    then have "x' = th t" "s' = s" using step by auto
    then show ?thesis using inv by simp
  next
    case claim
    have l: "pos b lv \<le> pos b (last_valid_gen s)" "pos b new \<le> pos b (read_gen s)"
      using loc [of t] claim by auto
    note bounds = ord_pre_bounds [OF pre]
    have lt: "gen_lte_msb_masked new lv \<longleftrightarrow> pos b new \<le> pos b lv"
      using l bounds(2,3) by (simp add: lte_pos64 [of b])
    show ?thesis
    proof (cases "\<not> pos b new \<le> pos b lv \<and> last_valid_gen s = lv")
      case True
      then have "x' = CleanDrop (last_valid_gen s) new 0" "s' = s\<lparr>last_valid_gen := new\<rparr>"
        using step lt by (auto simp: claim claim_turn_def)
      then show ?thesis using ring_claim [OF inv win, of t new s'] True claim l(2) by simp
    next
      case False
      then have "s' = s \<and> idle_ring x'"
        using step lt by (auto simp: claim claim_turn_def compare_exchange_def split: if_splits)
      then show ?thesis using ring_idle_step [OF inv win, of s t x'] by (simp add: claim)
    qed
  next
    case drop
    have l: "masked lv" "pos b lv < pos b new" "pos b new \<le> pos b (last_valid_gen s)" using loc [of t] drop by auto
    have d: "unat (gen_dist_msb_masked new lv) = pos b new - pos b lv" using l(2) by (intro unat_dist_ge) simp
    have d': "k < unat (gen_dist_msb_masked new lv) \<longleftrightarrow> pos b lv + k < pos b new" using l(2) d by linarith
    show ?thesis
    proof (cases "nd \<and> pos b lv + k < pos b new")
      case True
      let ?v = "gen_add_msb_masked lv (of_nat k)"
      have k: "pos b lv + k < 2 ^ 62" using True l(3) ord_pre_bounds(2) [OF pre] by linarith
      then have u: "unat (of_nat k :: gen) = k" by (intro unat_of_nat64) simp
      have v: "pos b ?v = pos b lv + k" using k u by (subst pos_add64) auto
      have m: "masked ?v" by (simp add: masked_def)
      have "s' = drop_slot ?v s" "x' = CleanDrop lv new (Suc k)" using step True d' by (simp_all add: drop)
      then have "s' = s\<lparr>buffer := (buffer s)[ix b (unat (buffer_capacity s)) (pos b lv + k) := Uninit],
                   dropped := dropped s @ [at_off b s (pos b lv + k)]\<rparr>"
        by (simp add: drop_slot_def slot_index_at [OF m, where b = b] get_slot_at [OF m, where b = b] v)
      then show ?thesis using ring_drop [of b s th lg t lv new k s'] True inv win loc drop \<open>x' = _\<close> by simp
    next
      case False
      then have r: "s' = s" "x' = CleanFree lv new" using step d' by (auto simp: drop split: if_splits)
      show ?thesis unfolding r
        by (rule ring_quiet [OF inv]) (use win False in \<open>auto simp: drop window_def\<close>)
    qed
  next
    case free
    have l: "pos b lv < pos b new" using loc [of t] free by auto
    show ?thesis
    proof (cases "free_gen s = lv")
      case True
      then have "s' = s\<lparr>free_gen := new\<rparr>" "x' = Idle" using step by (auto simp: free free_turn_def)
      then show ?thesis using ring_free [OF inv, of t new s'] l free True by simp
    next
      case False
      then have "s' = s" "x' = th t" using step by (auto simp: free free_turn_def)
      then show ?thesis using inv by simp
    qed
  qed
qed

lemma ring_call:
  assumes inv: "ring_at nd b s th lg" and win: "window b s" and loc: "\<And>u. local_ord b (th u) s"
    and pre: "ord_pre b (th t) s" and len: "length lg = pos b (read_gen s)"
    and call: "call_step c (th t) s = Some (x', s')"
  shows "ring_at nd b s' (th(t := x')) (lg @ published_by (th t) (Some c) x')"
proof -
  have quiet: "ring_at nd b s (th(t := y)) lg" if "idle_ring (th t)" "idle_ring y" for y
    using that by (intro ring_idle_step [OF inv win]) simp_all
  from call show ?thesis
  proof (cases rule: call_step_cases)
    case (written v st en ms)
    have "st = en \<or> masked st \<and> pos b st < pos b en \<and> pos b en \<le> pos b (write_gen s)"
      using loc [of t] written(2) by auto
    then have l: "masked st" "pos b st < pos b en" "pos b en \<le> pos b (write_gen s)"
      using written(3) by (auto simp: gen_dist_msb_masked_def)
    have "length ms < pos b en - pos b st" using written(3) l(2) by (simp add: unat_dist_ge [of b])
    then have room: "pos b st + length ms < pos b en" by linarith
    have k: "pos b st + length ms < 2 ^ 62" using room l(3) win unfolding window_def by linarith
    then have u: "unat (of_nat (length ms) :: gen) = length ms" by (intro unat_of_nat64) simp
    let ?v = "gen_add_msb_masked st (of_nat (length ms))"
    have v: "pos b ?v = pos b st + length ms" using k u by (subst pos_add64) auto
    have m: "masked ?v" by (simp add: masked_def)
    have "s' = s\<lparr>buffer := (buffer s)[ix b (unat (buffer_capacity s)) (pos b st + length ms) := Init v]\<rparr>"
      unfolding written(5) write_slot_def slot_index_at [OF m, where b = b] v ..
    from ring_write [OF inv win loc written(2) room this] show ?thesis
      by (simp add: written(1,2,4) published_by_def)
  next
    case (published st en ms)
    note x = published(2)
    have l: "st = en \<or> pos b st < pos b en \<and> pos b en \<le> pos b (write_gen s)" using loc [of t] x by auto
    show ?thesis
    proof (cases "st = en")
      case True
      then have "ms = []" "s' = s" using published(3,4)
        by (auto simp: gen_dist_msb_masked_def gen_gte_msb_masked_def elim: publish_cases)
      then show ?thesis unfolding published x
        by (simp add: published_by_def) (rule ring_quiet [OF inv]; use win x in \<open>simp add: window_def\<close>)
    next
      case False
      with l have l: "pos b st < pos b en" "pos b en \<le> pos b (write_gen s)" by auto
      have "pos b st < 2 ^ 62" "pos b en < 2 ^ 62" using l ord_pre_bounds(4) [OF pre] by linarith+
      then have "\<not> gen_gte_msb_masked st en" using l(1) by (simp add: gte_masked [of b])
      with published(4) have rd: "read_gen s = st" and s': "s' = s\<lparr>read_gen := en\<rparr>"
        by (auto elim: publish_cases)
      have "length ms = pos b en - pos b st" using published(3) l(1) by (simp add: unat_dist_ge [of b])
      then have "pos b (read_gen s) + length ms = pos b en" using l(1) rd by simp
      from ring_publish [OF inv win loc _ len this s', of t] show ?thesis
        using x rd published by (simp add: published_by_def)
    qed
  next
    case (publish_fails st en ms e)
    then have "s' = s" by (auto elim: publish_cases)
    then show ?thesis using publish_fails inv by (simp add: published_by_def fun_upd_idem)
  next
    case reserve_none
    have "ring_at nd b s (th(t := Writing 0 0 [])) lg"
      by (rule ring_quiet [OF inv]) (use win reserve_none in \<open>simp_all add: window_def\<close>)
    then show ?thesis using reserve_none by (simp add: published_by_def)
  qed (simp_all add: published_by_def quiet)
qed

lemma ring_step:
  assumes ord: "order_inv S" and r: "reserved S < 2 ^ 62" and inv: "ring_inv nd S"
    and exec: "sys_exec nd (t, c) S = Some S'"
  shows "ring_inv nd S'"
  using exec
proof (cases rule: sys_execE)
  case (1 x' s')
  note pre = order_inv_pre [OF ord r, of t] and win = order_window [OF ord r]
  have loc: "local_ord (base S) (threads S u) (shared S)" for u using ord by (simp add: order_inv_def)
  note inv' = inv [unfolded ring_inv_def]
  have len: "length (log S) = pos (base S) (read_gen (shared S))" using ord by (simp add: order_inv_def)
  from 1(1) show ?thesis
  proof
    assume a: "c = None \<and> pc_step nd (threads S t) (shared S) = (x', s')"
    then show ?thesis
      using ring_pc_step [OF inv' win loc pre, of x' s'] 1 by (simp add: ring_inv_def)
  next
    assume "\<exists>d. c = Some d \<and> call_allowed d S \<and> call_step d (threads S t) (shared S) = Some (x', s')"
    then obtain d where d: "c = Some d" "call_step d (threads S t) (shared S) = Some (x', s')" by blast
    from ring_call [OF inv' win loc pre len d(2)] show ?thesis using 1 d(1) by (simp add: ring_inv_def)
  qed
qed

lemma ring_inv_start:
  assumes "start_ok g bc rc" and "ring_ok g (unat bc)"
  shows "ring_inv nd (start_at g bc rc)"
  using assms
  by (simp add: ring_inv_def ring_at_def start_at_def area_at_def live_ok_def spans_ok_def drops_ok_def)

lemma ring_inv_reachable:
  assumes "reachable nd S0 S" and "order_inv S0" and "ring_inv nd S0" and "reserved S < 2 ^ 62"
  shows "order_inv S \<and> ring_inv nd S"
  using assms(1,4)
proof (induction rule: reachable.induct)
  case start
  show ?case using assms(2,3) by simp
next
  case (step S e S')
  have r: "reserved S < 2 ^ 62" using step reserved_mono by fastforce
  obtain t c where e: "e = (t, c)" by (cases e)
  from step.IH r have IH: "order_inv S" "ring_inv nd S" by auto
  from order_step [OF IH(1) r step.hyps(2) [unfolded e]] ring_step [OF IH(1) r IH(2) step.hyps(2) [unfolded e]]
  show ?case by simp
qed

end
