(* ===== verification/Machine_Safety.thy ===== *)
theory Machine_Safety
  imports Machine_Ring
begin

text \<open>
  What the invariants of \<open>Machine_Ownership\<close>, \<open>Machine_Order\<close> and \<open>Machine_Ring\<close> give a user of
  the ring, for every schedule of any number of writers, readers and cleanups: what slices
  show, what cleanup drops, what reservations own, in which order messages appear.
\<close>

section \<open>Runs\<close>

text \<open>
  A state of a run: the schedule starts from an area at rest at generation \<open>g\<close>, and fewer
  than \<open>2 ^ 62\<close> generations were reserved on the way.
\<close>

definition run_of :: "bool \<Rightarrow> gen \<Rightarrow> usize \<Rightarrow> usize \<Rightarrow> 'a sys \<Rightarrow> bool" where
  "run_of nd g bc rc S \<longleftrightarrow> start_ok g bc rc \<and> ring_ok g (unat bc) \<and>
     reachable nd (start_at g bc rc) S \<and> reserved S < 2 ^ 62"

lemma run_ofD:
  assumes "run_of nd g bc rc S"
  shows "order_inv S" and "ring_inv nd S" and "base S = g" and "own_inv S"
    and "window g (shared S)" and "buffer_capacity (shared S) = bc" and "reserved S < 2 ^ 62"
proof -
  have s: "start_ok g bc rc" "ring_ok g (unat bc)" "reachable nd (start_at g bc rc) S"
    and r: "reserved S < 2 ^ 62" using assms by (auto simp: run_of_def)
  note o = order_inv_reachable [OF s(3) order_inv_start [OF s(1)] r]
  show "order_inv S" using o by simp
  show "ring_inv nd S"
    using ring_inv_reachable [OF s(3) order_inv_start [OF s(1)] ring_inv_start [OF s(1,2)] r] by simp
  show b: "base S = g" using o by (simp add: start_at_def)
  show "own_inv S" using o by (simp add: order_inv_def)
  show "window g (shared S)" using order_window [of S] o r b by simp
  show "buffer_capacity (shared S) = bc" using o by (simp add: grows_def start_at_def area_at_def)
  show "reserved S < 2 ^ 62" by (rule r)
qed

text \<open>What the lemmas below need of a state, however it was reached.\<close>

definition safe_state :: "bool \<Rightarrow> gen \<Rightarrow> usize \<Rightarrow> 'a sys \<Rightarrow> bool" where
  "safe_state nd g bc S \<longleftrightarrow> order_inv S \<and> ring_inv nd S \<and> base S = g \<and>
     buffer_capacity (shared S) = bc \<and> reserved S < 2 ^ 62"

lemma run_safe: "run_of nd g bc rc S \<Longrightarrow> safe_state nd g bc S"
  using run_ofD [of nd g bc rc S] by (simp add: safe_state_def)

lemma safeD:
  assumes "safe_state nd g bc S"
  shows "order_inv S" and "ring_inv nd S" and "base S = g" and "own_inv S"
    and "window g (shared S)" and "buffer_capacity (shared S) = bc" and "reserved S < 2 ^ 62"
  using assms order_window [of S] by (auto simp: safe_state_def order_inv_def)

lemma safe_local: "safe_state nd g bc S \<Longrightarrow> local_ord g (threads S t) (shared S)"
  using safeD(1,3) [of nd g bc S] by (auto simp: order_inv_def)

lemma safe_ring: "safe_state nd g bc S \<Longrightarrow> ring_at nd g (shared S) (threads S) (log S)"
  using safeD(2,3) [of nd g bc S] by (auto simp: ring_inv_def)

lemmas run_local = safe_local [OF run_safe]
lemmas run_ring = safe_ring [OF run_safe]

lemma safe_owned_gen:
  assumes "safe_state nd g bc S" and "owned (threads S t) = Some r"
  shows "get_reader_gen r (shared S) = Some (gen_of r (shared S))"
    and "pos g (last_valid_gen (shared S)) \<le> pos g (gen_of r (shared S))"
    and "pos g (gen_of r (shared S)) \<le> pos g (read_gen (shared S))"
proof -
  note R = safeD [OF assms(1)]
  have h: "holds r (shared S)" and inv: "reg_inv (shared S)" using R(4) assms(2) by (auto simp: own_inv_def)
  then show "get_reader_gen r (shared S) = Some (gen_of r (shared S))"
    by (auto simp: get_reader_gen_def get_reader_ptr_find find_id_eq holds_def gen_of_def slot_of_def Let_def)
  have "unat (slot_of r (shared S)) < length (slots (reader_gens (shared S)))"
    using inv by (intro slot_less) (simp add: reg_inv_def)
  then show "pos g (last_valid_gen (shared S)) \<le> pos g (gen_of r (shared S))"
      "pos g (gen_of r (shared S)) \<le> pos g (read_gen (shared S))"
    using R(1,3) by (auto simp: order_inv_def ord_inv_def gen_of_def load_cell_at)
qed

lemmas owned_gen = safe_owned_gen [OF run_safe]

text \<open>A generation inside a range, by its position.\<close>

lemma range_pos:
  assumes "pos g st \<le> pos g en" and "pos g en < 2 ^ 62" and "k < unat (gen_dist_msb_masked en st)"
  shows "pos g (gen_add_msb_masked st (of_nat k)) = pos g st + k" and "pos g st + k < pos g en"
    and "masked (gen_add_msb_masked st (of_nat k))"
proof -
  show lt: "pos g st + k < pos g en" using assms(1,3) unat_dist_ge [OF assms(1)] by linarith
  then have "k < 2 ^ 62" using assms(2) by linarith
  then have u: "unat (of_nat k :: gen) = k" by (intro unat_of_nat64) simp
  show "pos g (gen_add_msb_masked st (of_nat k)) = pos g st + k"
    using lt assms(2) u by (subst pos_add64) auto
  show "masked (gen_add_msb_masked st (of_nat k))" by (simp add: masked_def)
qed

text \<open>Running a concrete schedule.\<close>

lemma sys_run_threads:
  "sys_run nd es S = Some S' \<Longrightarrow> t \<notin> fst ` set es \<Longrightarrow> threads S' t = threads S t"
proof (induction es arbitrary: S)
  case (Cons e es)
  obtain u c where e: "e = (u, c)" by (cases e)
  from Cons.prems e obtain S1 where S1: "sys_exec nd (u, c) S = Some S1" "sys_run nd es S1 = Some S'"
    by (auto split: option.splits)
  have "threads S1 t = threads S t" using S1(1) Cons.prems(2) e by (auto elim!: sys_execE)
  then show ?case using Cons.IH [OF S1(2)] Cons.prems(2) by simp
qed simp

lemma run_of_schedule:
  assumes "case sys_run nd es (start_at g bc rc) of Some S \<Rightarrow> Q S \<and> reserved S = n | None \<Rightarrow> False"
    and "n < 2 ^ 62" and "start_ok g bc rc" and "ring_ok g (unat bc)"
  shows "\<exists>S. run_of nd g bc rc S \<and> Q S \<and> (\<forall>t. t \<notin> fst ` set es \<longrightarrow> threads S t = Idle)"
proof -
  from assms(1) obtain S where S: "sys_run nd es (start_at g bc rc) = Some S" "Q S" "reserved S = n"
    by (auto split: option.splits)
  from reachable_sys_run [OF reachable.start S(1)] sys_run_threads [OF S(1)] S(2,3) assms(2-4)
  show ?thesis by (intro exI [of _ S]) (simp add: run_of_def start_at_def)
qed

text \<open>A schedule of the machine whose calls of \<open>resume_at\<close> keep to published generations.\<close>

lemma run_of_free:
  assumes "start_ok g bc rc" and "ring_ok g (unat bc)" and "free_run nd es (start_at g bc rc) = Some S"
    and "resumes_published nd es (start_at g bc rc)" and "reserved S < 2 ^ 62"
  shows "run_of nd g bc rc S"
proof -
  have "sys_run nd es (start_at g bc rc) = Some S" using assms(3,4) by (simp add: sys_run_free)
  from reachable_sys_run [OF reachable.start this] show ?thesis using assms by (simp add: run_of_def)
qed

lemma demo_free:
  fixes Q :: "nat sys \<Rightarrow> bool"
  assumes "case sys_run nd es (start_at (2 ^ 63 - 1) 2 2) of Some S \<Rightarrow> Q S \<and> reserved S = n | None \<Rightarrow> False"
    and "n < 2 ^ 62"
  obtains S where "free_run nd es (start_at (2 ^ 63 - 1) 2 2) = Some S"
    and "resumes_published nd es (start_at (2 ^ 63 - 1) 2 2 :: nat sys)" and "reserved S < 2 ^ 62" and "Q S"
proof -
  from assms(1) obtain S where S: "sys_run nd es (start_at (2 ^ 63 - 1) 2 2) = Some S" "Q S" "reserved S = n"
    by (auto split: option.splits)
  from S(1) show thesis using that S(2,3) assms(2) by (simp add: sys_run_free)
qed

definition steps :: "nat \<Rightarrow> nat \<Rightarrow> (nat \<times> 'a call option) list" where
  "steps t n = replicate n (t, None)"

text \<open>The start of the example runs: capacity 2, the counters just below their wrap-around.\<close>

lemma demo_start: "start_ok (2 ^ 63 - 1) 2 2" "ring_ok (2 ^ 63 - 1) (unat (2 :: usize))"
proof -
  have "((2 :: gen) ^ 63 - 1) AND MSB = 0" and "is_power_of_two 2" by code_simp+
  then show "start_ok (2 ^ 63 - 1) 2 2" by (simp add: start_ok_def)
  show "ring_ok (2 ^ 63 - 1) (unat (2 :: usize))" by (simp add: ring_ok_def)
qed

lemma demo_run:
  fixes Q :: "nat sys \<Rightarrow> bool"
  assumes "case sys_run nd es (start_at (2 ^ 63 - 1) 2 2) of Some S \<Rightarrow> Q S \<and> reserved S = n | None \<Rightarrow> False"
    and "n < 2 ^ 62"
  shows "\<exists>S. run_of nd (2 ^ 63 - 1) 2 2 S \<and> Q S \<and> (\<forall>t. t \<notin> fst ` set es \<longrightarrow> threads S t = Idle)"
  using assms by (rule run_of_schedule [OF _ _ demo_start])

section \<open>Readers\<close>

lemma safe_slice_is_live:
  assumes safe: "safe_state nd g bc S" and x: "threads S t = Slice r st en"
    and c: "get_reader_gen r (shared S) = Some c" "\<not> is_suspended c"
    and k: "k < unat (gen_dist_msb_masked en st)"
  shows "get_slot (gen_add_msb_masked st (of_nat k)) (shared S) = Init (log S ! (pos g st + k))
    \<and> pos g st + k < length (log S)"
proof -
  note R = safeD [OF safe] and o = safe_owned_gen [OF safe, of t r]
  have "local_own (Slice r st en) (shared S)" using R(4) x by (metis own_inv_def)
  then have st: "gen_of r (shared S) = st" using c o(1) x by auto
  have loc: "pos g st \<le> pos g en" "pos g en \<le> pos g (read_gen (shared S))"
    using safe_local [OF safe, of t] x by auto
  then have "pos g en < 2 ^ 62" using R(5) by (auto simp: window_def)
  note p = range_pos [OF loc(1) this k]
  have "live_ok g (shared S) (log S)" using safe_ring [OF safe] by (simp add: ring_at_def)
  moreover have "pos g (last_valid_gen (shared S)) \<le> pos g st + k" using o(2) x st by auto
  moreover have "length (log S) = pos g (read_gen (shared S))" using R(1,3) by (simp add: order_inv_def)
  ultimately show ?thesis using p loc(2) get_slot_at [OF p(3), of "shared S" g]
    by (simp add: live_ok_def)
qed

lemmas slice_is_live = safe_slice_is_live [OF run_safe]

text \<open>
  C1: under every interleaving of the operations in which \<open>resume_at\<close> is not called with a
  generation ahead of \<open>read_gen\<close>, a slice held by a reader that is active shows exactly the
  messages that were published at its positions, every slot initialised: no cleanup drops,
  and no writer overwrites, a message while an active reader's slice covers it.  The source
  accepts such a call, and then it can be otherwise (\<open>resume_ahead_breaks_slices\<close>).
\<close>
theorem active_slices_are_live:
  assumes start: "start_ok g bc rc" "ring_ok g (unat bc)"
    and run: "free_run nd es (start_at g bc rc) = Some S" "reserved S < 2 ^ 62"
    and resumes: "resumes_published nd es (start_at g bc rc)"
    and x: "threads S t = Slice r st en"
    and c: "get_reader_gen r (shared S) = Some c" "\<not> is_suspended c"
    and k: "k < unat (gen_dist_msb_masked en st)"
  shows "get_slot (gen_add_msb_masked st (of_nat k)) (shared S) = Init (log S ! (pos g st + k))
    \<and> pos g st + k < length (log S)"
  by (rule slice_is_live [OF run_of_free [OF start run(1) resumes run(2)] x c k])

text \<open>
  Reader 1 registers, thread 0 publishes a message, reader 1 reads; thread 2 cleans up while
  the slice is held.
\<close>

definition demo_read :: "(nat \<times> nat call option) list" where
  "demo_read = [(1, Some (Register 1))] @ steps 1 5 @
     [(0, Some (Reserve False 1))] @ steps 0 2 @ [(0, Some (Write 7)), (0, Some Publish),
      (1, Some (Operate GetGen))] @ steps 1 4 @ [(2, Some Cleanup)] @ steps 2 6"

lemma active_slices_are_live_witness:
  "\<exists>S :: nat sys. free_run True demo_read (start_at (2 ^ 63 - 1) 2 2) = Some S \<and> threads S 1 = Slice 1 (2 ^ 63 - 1) 0 \<and>
     get_slot (gen_add_msb_masked (2 ^ 63 - 1) (of_nat 0)) (shared S) = Init (log S ! 0) \<and> log S = [7]"
proof -
  have "case sys_run True demo_read (start_at (2 ^ 63 - 1) 2 2) of
      Some S \<Rightarrow> (threads S 1 = Slice 1 (2 ^ 63 - 1) 0 \<and> get_reader_gen 1 (shared S) = Some (2 ^ 63 - 1) \<and>
        log S = [7]) \<and> reserved S = 1
    | None \<Rightarrow> False" by code_simp
  from demo_free [OF this] obtain S :: "nat sys" where S:
      "free_run True demo_read (start_at (2 ^ 63 - 1) 2 2) = Some S" "reserved S < 2 ^ 62"
      "resumes_published True demo_read (start_at (2 ^ 63 - 1) 2 2 :: nat sys)"
      "threads S 1 = Slice 1 (2 ^ 63 - 1) 0" "get_reader_gen 1 (shared S) = Some (2 ^ 63 - 1)" "log S = [7]"
    by auto
  have "\<not> is_suspended (2 ^ 63 - 1 :: gen)" "0 < unat (gen_dist_msb_masked 0 (2 ^ 63 - 1 :: gen))" by code_simp+
  from active_slices_are_live [OF demo_start S(1-5) this] S(1,4,6) show ?thesis
    by (intro exI [of _ S]) (simp del: of_nat_0)
qed

text \<open>Two readers register with the same seed.\<close>

definition demo_readers :: "(nat \<times> nat call option) list" where
  "demo_readers = [(1, Some (Register 1))] @ steps 1 5 @ [(2, Some (Register 1))] @ steps 2 8"

text \<open>
  C19: in every reachable state, whatever the schedule, two threads never hold the same reader
  id, and the \<open>IMMEDIATE\<close> lookup of a held id finds a slot that is the slot of no other held id.
\<close>
theorem readers_have_their_own_slots:
  assumes "is_power_of_two rc" and "unat rc \<le> 2 ^ 62" and "reachable nd (start_at g bc rc) S"
    and "owned (threads S t) = Some r" and "owned (threads S u) = Some q" and "t \<noteq> u"
  shows "\<exists>i j. r \<noteq> q \<and> i \<noteq> j
    \<and> get_reader_ptr r (shared S) = Some i \<and> get_reader_ptr q (shared S) = Some j"
proof -
  from assms(1-3) have inv: "own_inv S" by (rule own_inv_reachable)
  with assms(4-6) have h: "holds r (shared S)" "holds q (shared S)" and ne: "r \<noteq> q"
    by (auto simp: own_inv_def)
  then have "get_reader_ptr r (shared S) = Some (slot_of r (shared S))"
      "get_reader_ptr q (shared S) = Some (slot_of q (shared S))"
    by (simp_all add: get_reader_ptr_find find_id_Some slot_of_def holds_def)
  with slots_differ [OF h ne] ne show ?thesis by blast
qed

lemma readers_have_their_own_slots_witness:
  "\<exists>(S :: nat sys) i j. reachable True (start_at (2 ^ 63 - 1) 2 2) S \<and> owned (threads S 1) = Some 1 \<and>
     owned (threads S 2) = Some 2 \<and> i \<noteq> j \<and>
     get_reader_ptr 1 (shared S) = Some i \<and> get_reader_ptr 2 (shared S) = Some j"
proof -
  have "case sys_run True demo_readers (start_at (2 ^ 63 - 1) 2 2) of
      Some S \<Rightarrow> (owned (threads S 1) = Some 1 \<and> owned (threads S 2) = Some 2) \<and> reserved S = 0
    | None \<Rightarrow> False" by code_simp
  from demo_run [OF this] obtain S :: "nat sys" where S: "run_of True (2 ^ 63 - 1) 2 2 S"
      "owned (threads S 1) = Some 1" "owned (threads S 2) = Some 2" by auto
  then have "is_power_of_two 2" "unat (2 :: usize) \<le> 2 ^ 62" "reachable True (start_at (2 ^ 63 - 1) 2 2) S"
    by (auto simp: run_of_def start_ok_def)
  from readers_have_their_own_slots [OF this S(2,3)] this S show ?thesis by auto
qed

text \<open>
  The \<open>debug_assert!\<close> of registration holds under every interleaving: between the claim of
  a slot and the CAS that activates the reader its private generation is suspended, so the scan
  of a concurrent cleanup can drag it forward but never waits for it; and a
  reader whose id is being removed is suspended too, so the slot it gives back is.
\<close>
theorem new_slot_is_suspended:
  assumes "is_power_of_two rc" and "unat rc \<le> 2 ^ 62" and "reachable nd (start_at g bc rc) S"
    and "threads S t \<in> {Finish r p, EnterLoad r p, EnterCas r p c, RemoveLoad r, RemoveCas r k}"
  shows "is_suspended (gen_of r (shared S)) \<and> (threads S t = EnterCas r p c \<longrightarrow> is_suspended c)
   
    \<and> get_reader_ptr r (shared S) = Some (slot_of r (shared S))"
proof -
  from assms(1-3) have "own_inv S" by (rule own_inv_reachable)
  then have "local_own (threads S t) (shared S)" "owned (threads S t) = Some r \<longrightarrow> holds r (shared S)"
    by (simp_all add: own_inv_def)
  with assms(4) show ?thesis by (auto simp: get_reader_ptr_find find_id_Some slot_of_def holds_def)
qed

lemma new_slot_is_suspended_witness:
  "\<exists>S :: nat sys. threads S 2 = EnterCas 2 0 ((2 ^ 63 - 1) OR MSB) \<and> is_suspended (gen_of 2 (shared S))"
proof -
  have "case sys_run True (take 13 demo_readers) (start_at (2 ^ 63 - 1) 2 2) of
      Some S \<Rightarrow> threads S 2 = EnterCas 2 0 ((2 ^ 63 - 1) OR MSB) \<and> reserved S = 0
    | None \<Rightarrow> False" by code_simp
  from demo_run [OF this] obtain S :: "nat sys" where S: "run_of True (2 ^ 63 - 1) 2 2 S"
      "threads S 2 = EnterCas 2 0 ((2 ^ 63 - 1) OR MSB)" by auto
  then have "is_power_of_two 2" "unat (2 :: usize) \<le> 2 ^ 62" "reachable True (start_at (2 ^ 63 - 1) 2 2) S"
    by (auto simp: run_of_def start_ok_def)
  from new_slot_is_suspended [OF this, of 2 2 0 "(2 ^ 63 - 1) OR MSB" 0] S(2) show ?thesis by auto
qed

text \<open>
  C18: a cleanup never passes a registered reader: in every state reached without a call of
  \<open>resume_at\<close> with a generation ahead of \<open>read_gen\<close> (which the source would accept), the private
  generation of every reader that owns an id, active or suspended, lies between
  \<open>last_valid_gen\<close> and \<open>read_gen\<close>.
\<close>
theorem reader_generations_in_window:
  assumes start: "start_ok g bc rc" "ring_ok g (unat bc)"
    and free: "free_run nd es (start_at g bc rc) = Some S" "reserved S < 2 ^ 62"
    and resumes: "resumes_published nd es (start_at g bc rc)"
    and r: "owned (threads S t) = Some r"
  shows "\<exists>c. get_reader_gen r (shared S) = Some c
    \<and> gen_lte_msb_masked (last_valid_gen (shared S)) (gen_without_suspended_bit c)
    \<and> gen_lte_msb_masked (gen_without_suspended_bit c) (read_gen (shared S))"
proof -
  note run = run_of_free [OF start free(1) resumes free(2)]
  note o = owned_gen [OF run r]
  have win: "window g (shared S)" by (rule run_ofD(5) [OF run])
  then have "pos g (read_gen (shared S)) < 2 ^ 62" by (simp add: window_def)
  with o show ?thesis by (intro exI [of _ "gen_of r (shared S)"]) (simp add: strip_eq lte_pos64 [of g])
qed

lemma reader_generations_in_window_witness:
  "\<exists>(S :: nat sys) c. free_run True demo_read (start_at (2 ^ 63 - 1) 2 2) = Some S \<and> owned (threads S 1) = Some 1 \<and>
     get_reader_gen 1 (shared S) = Some c \<and>
     gen_lte_msb_masked (last_valid_gen (shared S)) (gen_without_suspended_bit c)"
proof -
  have "case sys_run True demo_read (start_at (2 ^ 63 - 1) 2 2) of
      Some S \<Rightarrow> owned (threads S 1) = Some 1 \<and> reserved S = 1 | None \<Rightarrow> False" by code_simp
  from demo_free [OF this] obtain S :: "nat sys" where S:
      "free_run True demo_read (start_at (2 ^ 63 - 1) 2 2) = Some S" "reserved S < 2 ^ 62"
      "resumes_published True demo_read (start_at (2 ^ 63 - 1) 2 2 :: nat sys)"
      "owned (threads S 1) = Some 1" by auto
  from reader_generations_in_window [OF demo_start S] S show ?thesis by blast
qed

definition demo_suspended :: "(nat \<times> nat call option) list" where
  "demo_suspended = [(1, Some (Register 1))] @ steps 1 5 @
     [(0, Some (Reserve False 1))] @ steps 0 2 @ [(0, Some (Write 7)), (0, Some Publish),
      (1, Some (Operate Suspend))] @ steps 1 3 @
     [(1, Some (Operate GetGen))] @ steps 1 4 @ [(2, Some Cleanup)] @ steps 2 9"

text \<open>
  The protection of a slice needs an active reader.  A reader that is suspended can
  still call \<open>read\<close>; a cleanup then drags its private generation past the slice it holds and
  drops the message, and the slice covers a slot that is no longer initialised.
\<close>
theorem suspended_slice_dangles:
  "case sys_run True demo_suspended (start_at 0 2 2) of
     Some S \<Rightarrow> threads S 1 = Slice 1 0 1 \<and> get_slot 0 (shared S) = Uninit
       \<and> dropped (shared S) = [Init 7] \<and> log S = [7]
   | None \<Rightarrow> False"
  by code_simp

text \<open>
  The condition on \<open>resume_at\<close> is needed: a reader that resumes at a generation that is not
  published yet is active, and the slice it reads covers a slot that was never written.
\<close>

definition demo_ahead :: "(nat \<times> nat call option) list" where
  "demo_ahead = [(1, Some (Register 1))] @ steps 1 5 @ [(1, Some (Operate Suspend))] @ steps 1 3 @
     [(1, Some (Operate (ResumeAt 1)))] @ steps 1 3 @ [(1, Some (Operate GetGen))] @ steps 1 4"

lemma resume_ahead_breaks_slices:
  "case free_run True demo_ahead (start_at 0 2 2) of
     Some S \<Rightarrow> threads S 1 = Slice 1 1 0 \<and> get_reader_gen 1 (shared S) = Some 1 \<and> log S = []
       \<and> get_slot 1 (shared S) = Uninit \<and> gen_dist_msb_masked 0 (1 :: gen) \<noteq> 0
   | None \<Rightarrow> False"
  by code_simp

section \<open>Cleanup\<close>

text \<open>
  Two messages are published; reader 1 advances past the first, which thread 2 then cleans
  up.
\<close>

definition demo_clean :: "(nat \<times> nat call option) list" where
  "demo_clean = [(1, Some (Register 1))] @ steps 1 5 @
     [(0, Some (Reserve False 1))] @ steps 0 2 @ [(0, Some (Write 7)), (0, Some Publish),
      (1, Some (Operate GetGen))] @ steps 1 4 @
     [(0, Some (Reserve True 1))] @ steps 0 2 @ [(0, Some (Write 8)), (0, Some Publish),
      (1, Some (EndSlice True))] @ steps 1 6 @ [(2, Some Cleanup)] @ steps 2 10"

lemma take_mset:
  "n \<le> length l \<Longrightarrow> mset (map f (take n l)) = image_mset (\<lambda>i. f (l ! i)) (mset_set {..<n})"
proof -
  assume "n \<le> length l"
  then have "take n l = map ((!) l) [0..<n]" by (intro nth_equalityI) auto
  then have "mset (map f (take n l)) = mset (map (\<lambda>i. f (l ! i)) [0..<n])" by (simp add: comp_def)
  also have "\<dots> = image_mset (\<lambda>i. f (l ! i)) (mset_set {..<n})"
    by (simp only: mset_map mset_upt atLeast0LessThan)
  finally show ?thesis .
qed

lemma safe_drops:
  assumes "safe_state nd g bc S"
  shows "mset (dropped (shared S)) = (if nd then image_mset (\<lambda>off. Init (log S ! off))
      (mset_set ({..<pos g (last_valid_gen (shared S))} - pending g (threads S))) else {#})"
    and "pos g (last_valid_gen (shared S)) \<le> length (log S)"
  using safe_ring [OF assms] safeD(1,3,5) [OF assms]
  by (simp_all add: ring_at_def drops_ok_def order_inv_def window_def)

lemmas run_drops = safe_drops [OF run_safe]

lemma safe_drops_at_most_once:
  assumes safe: "safe_state nd g bc S"
  shows "mset (dropped (shared S))
    \<subseteq># mset (map Init (take (pos g (last_valid_gen (shared S))) (log S)))"
proof (cases nd)
  case True
  let ?n = "pos g (last_valid_gen (shared S))"
  have "mset_set ({..<?n} - pending g (threads S)) \<subseteq># mset_set {..<?n}"
    by (rule subset_imp_msubset_mset_set) auto
  then show ?thesis using safe_drops [OF safe] True
    by (simp add: take_mset image_mset_subseteq_mono del: mset_map)
qed (use safe_drops(1) [OF safe] in simp)

text \<open>
  C7: under every interleaving of any number of cleanups, the contents passed to
  \<open>drop_in_place\<close> are published messages below \<open>last_valid_gen\<close>, each at most once: no
  uninitialised slot is dropped and no message twice.
\<close>
theorem drops_at_most_once:
  assumes run: "run_of nd g bc rc S"
  shows "mset (dropped (shared S))
    \<subseteq># mset (map Init (take (pos g (last_valid_gen (shared S))) (log S)))"
  by (rule safe_drops_at_most_once [OF run_safe [OF run]])

lemma drops_at_most_once_witness:
  "\<exists>S :: nat sys. run_of True (2 ^ 63 - 1) 2 2 S \<and> dropped (shared S) = [Init 7] \<and>
     mset (dropped (shared S)) \<subseteq># mset (map Init (take (pos (2 ^ 63 - 1) (last_valid_gen (shared S))) (log S)))"
proof -
  have "case sys_run True demo_clean (start_at (2 ^ 63 - 1) 2 2) of
      Some S \<Rightarrow> dropped (shared S) = [Init 7] \<and> reserved S = 2 | None \<Rightarrow> False" by code_simp
  from demo_run [OF this] obtain S :: "nat sys" where S: "run_of True (2 ^ 63 - 1) 2 2 S"
      "dropped (shared S) = [Init 7]" by auto
  from drops_at_most_once [OF S(1)] S show ?thesis by blast
qed

text \<open>
  C6: when no cleanup is in the middle of dropping and the message type needs to be dropped,
  every published message below \<open>last_valid_gen\<close> has been dropped exactly once: cleanup
  leaks nothing.
\<close>
theorem drops_exactly_once:
  assumes run: "run_of True g bc rc S"
    and "\<forall>t lv new k. threads S t \<noteq> CleanDrop lv new k"
  shows "mset (dropped (shared S)) = mset (map Init (take (pos g (last_valid_gen (shared S))) (log S)))"
proof -
  have "undropped g (threads S t) = {}" for t using assms(2) by (cases "threads S t") auto
  then have "pending g (threads S) = {}" by (simp add: pending_def)
  then show ?thesis using run_drops [OF run] by (simp add: take_mset del: mset_map)
qed

lemma drops_exactly_once_witness:
  "\<exists>S :: nat sys. run_of True (2 ^ 63 - 1) 2 2 S \<and> dropped (shared S) = [Init 7] \<and> log S = [7, 8] \<and>
     mset (dropped (shared S)) = mset (map Init (take (pos (2 ^ 63 - 1) (last_valid_gen (shared S))) (log S)))"
proof -
  have "case sys_run True demo_clean (start_at (2 ^ 63 - 1) 2 2) of
      Some S \<Rightarrow> (dropped (shared S) = [Init 7] \<and> log S = [7, 8] \<and> threads S 0 = Idle \<and> threads S 1 = Reader 1
        \<and> threads S 2 = Idle) \<and> reserved S = 2
    | None \<Rightarrow> False" by code_simp
  from demo_run [OF this] obtain S :: "nat sys" where S: "run_of True (2 ^ 63 - 1) 2 2 S"
      "dropped (shared S) = [Init 7]" "log S = [7, 8]"
    and th: "threads S 0 = Idle" "threads S 1 = Reader 1" "threads S 2 = Idle"
      "\<forall>t. t \<notin> fst ` set demo_clean \<longrightarrow> threads S t = Idle" by auto
  have "fst ` set demo_clean = {0, 1, 2}" by (auto simp: demo_clean_def steps_def)
  with th have "threads S t \<noteq> CleanDrop lv new k" for t lv new k
    by (cases "t \<in> {0, 1, 2}") auto
  with drops_exactly_once [OF S(1)] S show ?thesis by blast
qed

section \<open>Writers\<close>

text \<open>
  Two writers hold one slot each and the second fills its slot first; and a writer that
  reserves while an earlier message is live.
\<close>

definition demo_writers :: "(nat \<times> nat call option) list" where
  "demo_writers = [(0, Some (Reserve False 1))] @ steps 0 2 @
     [(3, Some (Reserve False 1))] @ steps 3 2 @ [(3, Some (Write 8))]"

definition demo_reserve :: "(nat \<times> nat call option) list" where
  "demo_reserve = [(0, Some (Reserve False 1))] @ steps 0 2 @ [(0, Some (Write 7)), (0, Some Publish)] @
     [(3, Some (Reserve False 1))] @ steps 3 2"

lemma safe_writing_range:
  assumes safe: "safe_state nd g bc S" and x: "threads S t = Writing st en ms"
    and i: "i < unat (gen_dist_msb_masked en st)"
  shows "pos g (gen_add_msb_masked st (of_nat i)) = pos g st + i" and "masked (gen_add_msb_masked st (of_nat i))"
    and "pos g st + i \<in> wspan g (threads S t)"
proof -
  have "st = en \<or> pos g st < pos g en \<and> pos g en \<le> pos g (write_gen (shared S))"
    using safe_local [OF safe, of t] x by auto
  then have l: "pos g st \<le> pos g en" "pos g en \<le> pos g (write_gen (shared S))"
    using i by (auto simp: gen_dist_msb_masked_def)
  have "pos g en < 2 ^ 62" using l(2) safeD(5) [OF safe] unfolding window_def by linarith
  note p = range_pos [OF l(1) this i]
  show "pos g (gen_add_msb_masked st (of_nat i)) = pos g st + i" "masked (gen_add_msb_masked st (of_nat i))"
    using p by simp_all
  show "pos g st + i \<in> wspan g (threads S t)" using p(2) x by simp
qed

lemmas writing_range = safe_writing_range [OF run_safe]

lemma safe_slots_in_window:
  assumes safe: "safe_state nd g bc S" and "masked v" and "masked w" and "pos g v \<noteq> pos g w"
    and "pos g (free_gen (shared S)) \<le> pos g v" and "pos g v < pos g (write_gen (shared S))"
    and "pos g (free_gen (shared S)) \<le> pos g w" and "pos g w < pos g (write_gen (shared S))"
  shows "slot_index v (shared S) \<noteq> slot_index w (shared S)"
proof -
  have "ix g (unat (buffer_capacity (shared S))) (pos g v) \<noteq> ix g (unat (buffer_capacity (shared S))) (pos g w)"
    by (rule ix_inj) (use safe_ring [OF safe] safeD(5) [OF safe] assms(4-) in \<open>auto simp: ring_at_def window_def\<close>)
  then show ?thesis using assms(2,3) slot_index_at [where b = g] by metis
qed

lemmas slots_in_window = safe_slots_in_window [OF run_safe]

lemma safe_reservations_disjoint:
  assumes safe: "safe_state nd g bc S" and ne: "t \<noteq> u"
    and x: "threads S t = Writing st en ms" "threads S u = Writing st' en' ms'"
    and i: "i < unat (gen_dist_msb_masked en st)" and j: "j < unat (gen_dist_msb_masked en' st')"
  shows "slot_index (gen_add_msb_masked st (of_nat i)) (shared S)
    \<noteq> slot_index (gen_add_msb_masked st' (of_nat j)) (shared S)"
proof -
  note p = safe_writing_range [OF safe x(1) i] and q = safe_writing_range [OF safe x(2) j]
  have sp: "spans_ok g (shared S) (threads S)" using safe_ring [OF safe] by (simp add: ring_at_def)
  have "pos g st + i \<noteq> pos g st' + j" using span_disjoint(1) [OF sp ne [symmetric] p(3)] q(3) by auto
  moreover have "pos g (free_gen (shared S)) \<le> pos g (read_gen (shared S))"
    using safeD(5) [OF safe] by (simp add: window_def)
  ultimately show ?thesis
    using p q spans_at(1) [OF sp p(3)] spans_at(1) [OF sp q(3)] by (intro safe_slots_in_window [OF safe]) auto
qed

text \<open>
  C8: two reservations held at the same time never share a slot of the ring, whatever the
  schedule, the wrap-around of the generations included.
\<close>
theorem reservations_are_disjoint:
  assumes run: "run_of nd g bc rc S" and ne: "t \<noteq> u"
    and x: "threads S t = Writing st en ms" "threads S u = Writing st' en' ms'"
    and i: "i < unat (gen_dist_msb_masked en st)" and j: "j < unat (gen_dist_msb_masked en' st')"
  shows "slot_index (gen_add_msb_masked st (of_nat i)) (shared S)
    \<noteq> slot_index (gen_add_msb_masked st' (of_nat j)) (shared S)"
  by (rule safe_reservations_disjoint [OF run_safe [OF run] assms(2-)])

lemma reservations_are_disjoint_witness:
  "\<exists>S :: nat sys. run_of True (2 ^ 63 - 1) 2 2 S \<and> threads S 0 = Writing (2 ^ 63 - 1) 0 [] \<and>
     threads S 3 = Writing 0 1 [8] \<and>
     slot_index (gen_add_msb_masked (2 ^ 63 - 1) (of_nat 0)) (shared S)
       \<noteq> slot_index (gen_add_msb_masked 0 (of_nat 0)) (shared S)"
proof -
  have "case sys_run True demo_writers (start_at (2 ^ 63 - 1) 2 2) of
      Some S \<Rightarrow> (threads S 0 = Writing (2 ^ 63 - 1) 0 [] \<and> threads S 3 = Writing 0 1 [8]) \<and> reserved S = 2
    | None \<Rightarrow> False" by code_simp
  from demo_run [OF this] obtain S :: "nat sys" where S: "run_of True (2 ^ 63 - 1) 2 2 S"
      "threads S 0 = Writing (2 ^ 63 - 1) 0 []" "threads S 3 = Writing 0 1 [8]" by auto
  have "0 < unat (gen_dist_msb_masked 0 (2 ^ 63 - 1 :: gen))" "0 < unat (gen_dist_msb_masked 1 (0 :: gen))"
    by code_simp+
  from reservations_are_disjoint [OF S(1) _ S(2,3) this] S show ?thesis
    by (intro exI [of _ S]) (simp del: of_nat_0)
qed

lemma safe_reservations_spare:
  assumes safe: "safe_state nd g bc S" and x: "threads S t = Writing st en ms"
    and i: "i < unat (gen_dist_msb_masked en st)" and v: "v AND MSB = 0"
    and live: "pos g (last_valid_gen (shared S)) \<le> pos g v \<and> pos g v < pos g (read_gen (shared S))
      \<or> pos g v \<in> cspan g (threads S u)"
  shows "slot_index (gen_add_msb_masked st (of_nat i)) (shared S) \<noteq> slot_index v (shared S)"
proof -
  note p = safe_writing_range [OF safe x i] and win = safeD(5) [OF safe]
  have sp: "spans_ok g (shared S) (threads S)" using safe_ring [OF safe] by (simp add: ring_at_def)
  have "pos g (free_gen (shared S)) \<le> pos g v \<and> pos g v < pos g (read_gen (shared S))"
    using live spans_at(2) [OF sp] win by (fastforce simp: window_def)
  then show ?thesis
    using p v spans_at(1) [OF sp p(3)] win
    by (intro safe_slots_in_window [OF safe]) (auto simp: masked_def window_def)
qed

text \<open>
  C9: a slot of a reservation holds no message that can still be read or has still to be
  dropped: it is not the slot of any position from \<open>last_valid_gen\<close> to \<open>read_gen\<close>, nor of
  any position a cleanup has claimed and not yet freed.
\<close>
theorem reservations_spare_live_messages:
  assumes run: "run_of nd g bc rc S" and x: "threads S t = Writing st en ms"
    and i: "i < unat (gen_dist_msb_masked en st)" and v: "v AND MSB = 0"
    and live: "pos g (last_valid_gen (shared S)) \<le> pos g v \<and> pos g v < pos g (read_gen (shared S))
      \<or> pos g v \<in> cspan g (threads S u)"
  shows "slot_index (gen_add_msb_masked st (of_nat i)) (shared S) \<noteq> slot_index v (shared S)"
  by (rule safe_reservations_spare [OF run_safe [OF run] assms(2-)])

lemma reservations_spare_live_messages_witness:
  "\<exists>S :: nat sys. run_of True (2 ^ 63 - 1) 2 2 S \<and> threads S 3 = Writing 0 1 [] \<and> log S = [7] \<and>
     slot_index (gen_add_msb_masked 0 (of_nat 0)) (shared S) \<noteq> slot_index (2 ^ 63 - 1) (shared S)"
proof -
  have "case sys_run True demo_reserve (start_at (2 ^ 63 - 1) 2 2) of
      Some S \<Rightarrow> (threads S 3 = Writing 0 1 [] \<and> log S = [7] \<and> last_valid_gen (shared S) = 2 ^ 63 - 1 \<and>
        read_gen (shared S) = 0) \<and> reserved S = 2
    | None \<Rightarrow> False" by code_simp
  from demo_run [OF this] obtain S :: "nat sys" where S: "run_of True (2 ^ 63 - 1) 2 2 S"
      "threads S 3 = Writing 0 1 []" "log S = [7]" "last_valid_gen (shared S) = 2 ^ 63 - 1" "read_gen (shared S) = 0"
    by auto
  have m: "((2 :: gen) ^ 63 - 1) AND MSB = 0" and "0 < unat (gen_dist_msb_masked 1 (0 :: gen))"
    and "pos (2 ^ 63 - 1) (0 :: gen) = 1" by code_simp+
  then have "pos (2 ^ 63 - 1) (last_valid_gen (shared S)) \<le> pos (2 ^ 63 - 1) (2 ^ 63 - 1 :: gen) \<and>
      pos (2 ^ 63 - 1) (2 ^ 63 - 1 :: gen) < pos (2 ^ 63 - 1) (read_gen (shared S))"
    unfolding S(4,5) pos_self by simp
  from reservations_spare_live_messages [OF S(1,2) \<open>0 < _\<close> m disjI1 [OF this]] S(1-3) show ?thesis by blast
qed



section \<open>Counters\<close>

text \<open>
  C16: in every reachable state \<open>free_gen\<close>, \<open>last_valid_gen\<close>, \<open>read_gen\<close> and \<open>write_gen\<close> are
  in this order, as the masked comparisons see it, and at most the capacity apart; as many
  messages are published as \<open>read_gen\<close> has advanced.
\<close>
theorem counters_stay_ordered:
  assumes run: "run_of nd g bc rc S"
  shows "gen_lte_msb_masked (free_gen (shared S)) (last_valid_gen (shared S))
    \<and> gen_lte_msb_masked (last_valid_gen (shared S)) (read_gen (shared S))
    \<and> gen_lte_msb_masked (read_gen (shared S)) (write_gen (shared S))
    \<and> gen_dist_msb_masked (write_gen (shared S)) (free_gen (shared S)) \<le> bc
    \<and> reserved S = pos g (write_gen (shared S)) \<and> length (log S) = pos g (read_gen (shared S))"
proof -
  note R = run_ofD [OF run]
  have "unat (gen_dist_msb_masked (write_gen (shared S)) (free_gen (shared S)))
      = pos g (write_gen (shared S)) - pos g (free_gen (shared S))"
    using R(5) by (intro unat_dist_ge) (simp add: window_def)
  then have "unat (gen_dist_msb_masked (write_gen (shared S)) (free_gen (shared S))) \<le> unat bc"
    using R(5,6) by (simp add: window_def) linarith
  then show ?thesis using R(1,3,5,6)
    by (simp add: window_def order_inv_def lte_pos64 [of g] word_le_nat_alt)
qed

lemma counters_stay_ordered_witness:
  "\<exists>S :: nat sys. run_of True (2 ^ 63 - 1) 2 2 S \<and> write_gen (shared S) = 1 \<and>
     gen_lte_msb_masked (free_gen (shared S)) (last_valid_gen (shared S))"
proof -
  have "case sys_run True demo_writers (start_at (2 ^ 63 - 1) 2 2) of
      Some S \<Rightarrow> write_gen (shared S) = 1 \<and> reserved S = 2 | None \<Rightarrow> False" by code_simp
  from demo_run [OF this] obtain S :: "nat sys" where S: "run_of True (2 ^ 63 - 1) 2 2 S" "write_gen (shared S) = 1"
    by auto
  from counters_stay_ordered [OF S(1)] S show ?thesis by blast
qed

text \<open>
  The \<open>debug_assert!\<close> of both ways of reserving holds under every interleaving: the
  \<open>free_gen\<close> a writer loaded never exceeds the \<open>write_gen\<close> it loaded afterwards.
\<close>
theorem free_never_exceeds_write:
  assumes run: "run_of nd g bc rc S" and x: "threads S t = ReserveGrab be n cf cw"
  shows "gen_lte_msb_masked cf cw"
proof -
  have "pos g cf \<le> pos g cw" "pos g cw \<le> pos g (write_gen (shared S))" using run_local [OF run, of t] x by auto
  then show ?thesis using run_ofD(5) [OF run] by (simp add: window_def lte_pos64 [of g])
qed

lemma free_never_exceeds_write_witness:
  "\<exists>S :: nat sys. run_of True (2 ^ 63 - 1) 2 2 S \<and>
     threads S 3 = ReserveGrab False 1 (2 ^ 63 - 1) 0 \<and> gen_lte_msb_masked (2 ^ 63 - 1 :: gen) 0"
proof -
  have "case sys_run True (take 5 demo_writers) (start_at (2 ^ 63 - 1) 2 2) of
      Some S \<Rightarrow> threads S 3 = ReserveGrab False 1 (2 ^ 63 - 1) 0 \<and> reserved S = 1 | None \<Rightarrow> False" by code_simp
  from demo_run [OF this] obtain S :: "nat sys" where S: "run_of True (2 ^ 63 - 1) 2 2 S"
      "threads S 3 = ReserveGrab False 1 (2 ^ 63 - 1) 0" by auto
  from free_never_exceeds_write [OF S] S show ?thesis by blast
qed

text \<open>
  No step of any thread moves a counter or the private generation of a registered reader
  backwards, and messages once published stay where they are in the order.
\<close>
theorem counters_only_grow:
  assumes run: "run_of nd g bc rc S" and exec: "sys_exec nd e S = Some S'"
  shows "pos g (free_gen (shared S)) \<le> pos g (free_gen (shared S'))
    \<and> pos g (last_valid_gen (shared S)) \<le> pos g (last_valid_gen (shared S'))
    \<and> pos g (read_gen (shared S)) \<le> pos g (read_gen (shared S'))
    \<and> pos g (write_gen (shared S)) \<le> pos g (write_gen (shared S'))
    \<and> (\<forall>i < length (slots (reader_gens (shared S))).
         pos g (cell (slots (reader_gens (shared S)) ! i)) \<le> pos g (cell (slots (reader_gens (shared S')) ! i)))
    \<and> take (length (log S)) (log S') = log S"
proof -
  obtain t c where e: "e = (t, c)" by (cases e)
  note R = run_ofD [OF run]
  have "grows g (shared S) (shared S')" using order_step [OF R(1,7) exec [unfolded e]] R(3) by simp
  moreover have "take (length (log S)) (log S') = log S" using exec e by (auto elim!: sys_execE)
  ultimately show ?thesis by (simp add: grows_def cell_at_def)
qed

lemma counters_only_grow_witness:
  "\<exists>(S :: nat sys) S'. run_of True (2 ^ 63 - 1) 2 2 S \<and> sys_exec True (3, None) S = Some S' \<and>
     pos (2 ^ 63 - 1) (write_gen (shared S)) \<le> pos (2 ^ 63 - 1) (write_gen (shared S'))"
proof -
  have "case sys_run True (take 5 demo_writers) (start_at (2 ^ 63 - 1) 2 2) of
      Some S \<Rightarrow> sys_exec True (3, None) S \<noteq> None \<and> reserved S = 1 | None \<Rightarrow> False" by code_simp
  from demo_run [OF this] obtain S S' :: "nat sys" where S: "run_of True (2 ^ 63 - 1) 2 2 S"
      "sys_exec True (3, None) S = Some S'" by auto
  from counters_only_grow [OF S] S show ?thesis by blast
qed

section \<open>Well-formed states\<close>

text \<open>
  C17: every reachable state is well formed: the counters keep their top bit clear, the ring has as
  many slots as its capacity says, the table keeps the capacity and the shape it was made with, every
  key in it is in the slot its bits select, and the id of every reader is a number below
  the progress bit.
\<close>
theorem run_states_are_well_formed:
  assumes run: "run_of nd g bc rc S"
  shows "write_gen (shared S) AND MSB = 0 \<and> read_gen (shared S) AND MSB = 0
    \<and> last_valid_gen (shared S) AND MSB = 0 \<and> free_gen (shared S) AND MSB = 0
    \<and> buffer_capacity (shared S) = bc \<and> length (buffer (shared S)) = unat bc
    \<and> map_inv (reader_gens (shared S)) \<and> capacity (reader_gens (shared S)) = rc
    \<and> (\<forall>t r. owned (threads S t) = Some r \<longrightarrow> r \<noteq> 0 \<and> r AND MSB = 0)"
proof -
  note R = run_ofD [OF run] and ring = run_ring [OF run]
  have m: "map_inv (reader_gens (shared S))" using R(4) by (simp add: own_inv_def reg_inv_def)
  have s: "start_ok g bc rc" "reachable nd (start_at g bc rc) S" using run by (simp_all add: run_of_def)
  have "length (slots (reader_gens (shared S))) = unat rc"
    using order_inv_reachable [OF s(2) order_inv_start [OF s(1)] R(7)]
    by (simp add: grows_def start_at_def area_at_def with_capacity_and_init_def)
  then have c: "unat (mask_of (reader_gens (shared S))) + 1 = unat rc" using m by (simp add: map_inv_def map_wf_def)
  have "capacity m = of_nat (unat (mask_of m) + 1)" for m :: "gen lpmap" by (simp add: capacity_def)
  from this [of "reader_gens (shared S)", unfolded c] have "capacity (reader_gens (shared S)) = rc" by simp
  moreover have "r \<noteq> 0 \<and> r AND MSB = 0" if "owned (threads S t) = Some r" for t r
  proof -
    have "id_ok r" using R(4) that unfolding own_inv_def holds_def by blast
    then show ?thesis using id_okD by blast
  qed
  moreover have "masked (write_gen (shared S)) \<and> masked (read_gen (shared S)) \<and>
      masked (last_valid_gen (shared S)) \<and> masked (free_gen (shared S))"
    using R(1) by (simp add: order_inv_def ord_inv_def)
  moreover have "length (buffer (shared S)) = unat bc" using ring R(6) by (simp add: ring_at_def)
  ultimately show ?thesis using R(6) m unfolding masked_def by blast
qed

lemma run_states_are_well_formed_witness:
  "\<exists>S :: nat sys. run_of True (2 ^ 63 - 1) 2 2 S \<and> owned (threads S 2) = Some 2 \<and>
     capacity (reader_gens (shared S)) = 2 \<and> length (buffer (shared S)) = 2"
proof -
  have "case sys_run True demo_readers (start_at (2 ^ 63 - 1) 2 2) of
      Some S \<Rightarrow> owned (threads S 2) = Some 2 \<and> reserved S = 0 | None \<Rightarrow> False" by code_simp
  from demo_run [OF this] obtain S :: "nat sys" where S: "run_of True (2 ^ 63 - 1) 2 2 S" "owned (threads S 2) = Some 2"
    by auto
  from run_states_are_well_formed [OF S(1)] S show ?thesis by (intro exI [of _ S]) simp
qed

end
