(* ===== verification/Handles_Writer.thy ===== *)
theory Handles_Writer
  imports Area_Cleanup
begin

text \<open>
  The writing handles: \<open>AreaWriter\<close> and \<open>Reservation\<close> of \<open>src/area.rs\<close>, \<open>ReservationIter\<close>
  and \<open>ReservationSlot\<close> of \<open>src/iter.rs\<close>.  A handle is a record of its fields other than the
  reference to the area, which the operations take and return; consuming a handle is a call
  whose result does not contain it.  A \<open>drop\<close> is an operation that may panic.
\<close>

section \<open>Reservations\<close>

record reservation =
  start_gen :: gen
  end_gen :: gen
  published :: bool
  armed :: bool

definition reserve :: "emode \<Rightarrow> usize \<Rightarrow> 'a area \<Rightarrow> (reserve_error + reservation) \<times> 'a area" where
  "reserve E n s =
     (case try_reserve_slots E n s of
        (Inr (st, en), s') \<Rightarrow>
          (Inr \<lparr>start_gen = st, end_gen = en, published = False, armed = True\<rparr>, s')
      | (Inl e, s') \<Rightarrow> (Inl e, s'))"

definition reserve_best_effort :: "emode \<Rightarrow> usize \<Rightarrow> 'a area \<Rightarrow> (reserve_error + reservation) \<times> 'a area" where
  "reserve_best_effort E n s =
     (case try_reserve_slots_best_effort E n s of
        (Inr (st, en, count), s') \<Rightarrow>
          (Inr \<lparr>start_gen = st, end_gen = en, published = False, armed = True\<rparr>, s')
      | (Inl e, s') \<Rightarrow> (Inl e, s'))"

definition len :: "reservation \<Rightarrow> usize" where
  "len r = gen_dist_msb_masked (end_gen r) (start_gen r)"

definition is_empty :: "reservation \<Rightarrow> bool" where
  "is_empty r \<longleftrightarrow> gen_gte_msb_masked (start_gen r) (end_gen r)"

definition disarm :: "reservation \<Rightarrow> reservation" where
  "disarm r = r\<lparr>armed := False\<rparr>"

definition arm :: "reservation \<Rightarrow> reservation" where
  "arm r = r\<lparr>armed := True\<rparr>"

definition is_armed :: "reservation \<Rightarrow> bool" where
  "is_armed r \<longleftrightarrow> armed r"

text \<open>The slot a mutable reference points to, by its index in the ring.\<close>

definition get_mut :: "reservation \<Rightarrow> usize \<Rightarrow> 'a area \<Rightarrow> usize option" where
  "get_mut r index s =
     (if index \<ge> len r then None
      else Some (slot_index (gen_add_msb_masked (start_gen r) index) s))"

definition publish ::
  "emode \<Rightarrow> reservation \<Rightarrow> 'a area \<Rightarrow> (reservation \<times> publish_error + unit) \<times> 'a area" where
  "publish E r s =
     (let r = r\<lparr>published := True\<rparr> in
      case publish_slots E (start_gen r) (end_gen r) s of
        (Inr _, s') \<Rightarrow> (Inr (), s')
      | (Inl err, s') \<Rightarrow> (Inl (r\<lparr>published := False\<rparr>, err), s'))"

text \<open>One turn of \<open>while let Err(..) = reservation.publish()\<close>; \<open>unreachable!\<close> panics.\<close>

definition publish_turn :: "reservation \<times> 'a area \<Rightarrow> unit outcome flow \<times> (reservation \<times> 'a area)" where
  "publish_turn = (\<lambda>(r, s).
     case publish Cas r s of
       (Inr _, s') \<Rightarrow> (Return (Returns ()), (r, s'))
     | (Inl (returned, CasFailed), s') \<Rightarrow> (Continue, (returned, s'))
     | (Inl (returned, OutOfOrderPublishAttempt), s') \<Rightarrow> (Return Panics, (returned, s')))"

definition publish_spin :: "reservation \<Rightarrow> 'a area \<Rightarrow> (unit outcome \<times> 'a area) option" where
  "publish_spin r s = map_option (\<lambda>(v, (_, s')). (v, s')) (run_loop publish_turn (r, s))"

definition split_at_mut :: "reservation \<Rightarrow> usize \<Rightarrow> (reservation \<times> reservation) outcome" where
  "split_at_mut r index =
     (if \<not> index \<le> len r then Panics
      else
        (let split_gen = gen_add_msb_masked (start_gen r) index in
         Returns
           (\<lparr>start_gen = start_gen r, end_gen = split_gen, published = False, armed = armed r\<rparr>,
            \<lparr>start_gen = split_gen, end_gen = end_gen r, published = False, armed = armed r\<rparr>)))"

definition drop_reservation :: "reservation \<Rightarrow> unit outcome" where
  "drop_reservation r = (if \<not> published r \<and> armed r then Panics else Returns ())"

section \<open>Writing slot by slot\<close>

record reservation_iter =
  iter_start :: gen
  iter_end :: gen
  cursor :: gen
  written_count :: usize
  total :: usize
  iter_published :: bool

record reservation_slot =
  generation :: gen
  written :: bool

definition into_iter :: "reservation \<Rightarrow> reservation_iter" where
  "into_iter r =
     \<lparr>iter_start = start_gen r, iter_end = end_gen r, cursor = start_gen r, written_count = 0,
      total = len r, iter_published = False\<rparr>"

definition iter_len :: "reservation_iter \<Rightarrow> usize" where
  "iter_len it = total it"

definition iter_is_empty :: "reservation_iter \<Rightarrow> bool" where
  "iter_is_empty it \<longleftrightarrow> total it = 0"

definition all_written :: "reservation_iter \<Rightarrow> bool" where
  "all_written it \<longleftrightarrow> written_count it = total it"

definition remaining :: "reservation_iter \<Rightarrow> usize" where
  "remaining it = gen_dist_msb_masked (iter_end it) (cursor it)"

definition iter_next :: "reservation_iter \<Rightarrow> reservation_slot option \<times> reservation_iter" where
  "iter_next it =
     (if gen_gte_msb_masked (cursor it) (iter_end it) then (None, it)
      else (Some \<lparr>generation = cursor it, written = False\<rparr>,
            it\<lparr>cursor := gen_add_msb_masked (cursor it) 1\<rparr>))"

definition iter_size_hint :: "reservation_iter \<Rightarrow> usize \<times> usize option" where
  "iter_size_hint it = (remaining it, Some (remaining it))"

text \<open>
  \<open>write\<close> counts through the reference to \<open>written_count\<close> the slot holds, so it also returns
  the iterator.
\<close>

definition slot_write ::
  "'a \<Rightarrow> reservation_slot \<Rightarrow> reservation_iter \<Rightarrow> 'a area \<Rightarrow>
   (reservation_slot \<times> reservation_iter \<times> 'a area) outcome" where
  "slot_write val sl it s =
     (if written sl then Panics
      else Returns (sl\<lparr>written := True\<rparr>, it\<lparr>written_count := written_count it + 1\<rparr>,
                    write_slot (generation sl) val s))"

definition drop_reservation_slot :: "reservation_slot \<Rightarrow> unit outcome" where
  "drop_reservation_slot sl = (if \<not> written sl then Panics else Returns ())"

definition iter_publish ::
  "emode \<Rightarrow> reservation_iter \<Rightarrow> 'a area \<Rightarrow> (reservation_iter \<times> publish_error + unit) outcome \<times> 'a area" where
  "iter_publish E it s =
     (if \<not> all_written it then (Panics, s)
      else
        (let it = it\<lparr>iter_published := True\<rparr> in
         case publish_slots E (iter_start it) (iter_end it) s of
           (Inr _, s') \<Rightarrow> (Returns (Inr ()), s')
         | (Inl err, s') \<Rightarrow> (Returns (Inl (it\<lparr>iter_published := False\<rparr>, err)), s')))"

definition iter_publish_turn ::
  "reservation_iter \<times> 'a area \<Rightarrow> unit outcome flow \<times> (reservation_iter \<times> 'a area)" where
  "iter_publish_turn = (\<lambda>(it, s).
     case iter_publish Cas it s of
       (Panics, s') \<Rightarrow> (Return Panics, (it, s'))
     | (Returns (Inr _), s') \<Rightarrow> (Return (Returns ()), (it, s'))
     | (Returns (Inl (returned, CasFailed)), s') \<Rightarrow> (Continue, (returned, s'))
     | (Returns (Inl (returned, OutOfOrderPublishAttempt)), s') \<Rightarrow> (Return Panics, (returned, s')))"

definition iter_publish_spin :: "reservation_iter \<Rightarrow> 'a area \<Rightarrow> (unit outcome \<times> 'a area) option" where
  "iter_publish_spin it s = map_option (\<lambda>(v, (_, s')). (v, s')) (run_loop iter_publish_turn (it, s))"

definition drop_iter :: "reservation_iter \<Rightarrow> unit outcome" where
  "drop_iter it = (if \<not> iter_published it then Panics else Returns ())"

text \<open>
  The loop of the documentation of \<open>ReservationIter\<close>, \<open>for mut slot in &mut iter\<close>, over the
  messages a caller supplies: it ends when the iterator or the messages do.
\<close>

fun write_each :: "'a list \<Rightarrow> reservation_iter \<Rightarrow> 'a area \<Rightarrow> (reservation_iter \<times> 'a area) outcome" where
  "write_each [] it s = Returns (it, s)"
| "write_each (v # vs) it s =
     (case iter_next it of
        (None, it') \<Rightarrow> Returns (it', s)
      | (Some sl, it') \<Rightarrow>
          (case slot_write v sl it' s of
             Panics \<Rightarrow> Panics
           | Returns (sl', it'', s') \<Rightarrow>
               (case drop_reservation_slot sl' of Panics \<Rightarrow> Panics | Returns _ \<Rightarrow> write_each vs it'' s')))"

section \<open>Writers\<close>

definition create_writer :: "'a area \<Rightarrow> 'a area" where
  "create_writer s = s\<lparr>writers_count := writers_count s + 1\<rparr>"

definition get_writers_count :: "'a area \<Rightarrow> usize" where
  "get_writers_count s = writers_count s"

text \<open>The storages \<open>deallocate\<close> is called on.\<close>

datatype region = DestroyStages | ReaderKeepAllocTickets | ReaderStageTickets | Buffer | Inner

definition free_all :: "region list" where
  "free_all = [DestroyStages, ReaderKeepAllocTickets, ReaderStageTickets, Buffer, Inner]"

text \<open>
  The last stage of destruction, shared by the drops of writers and readers.  A panic of the
  cleanup would unwind out of the drop and leave everything allocated.
\<close>

definition leave_stage :: "bool \<Rightarrow> 'a area \<Rightarrow> ('a area \<times> region list) option" where
  "leave_stage nd s =
     (let prev_stages = destroy_stages s; s' = s\<lparr>destroy_stages := prev_stages - 1\<rparr> in
      if prev_stages = 1 then
        map_option (\<lambda>(res, s''). (s'', case res of Returns _ \<Rightarrow> free_all | Panics \<Rightarrow> [])) (try_cleanup_old_slots Exclusive nd s')
      else Some (s', []))"

definition drop_writer :: "bool \<Rightarrow> 'a area \<Rightarrow> ('a area \<times> region list) option" where
  "drop_writer nd s =
     (let prev_count = writers_count s; s' = s\<lparr>writers_count := prev_count - 1\<rparr> in
      if prev_count = 1 then leave_stage nd s' else Some (s', []))"

end
