(* ===== verification/Handles_Reader.thy ===== *)
theory Handles_Reader
  imports Handles_Writer
begin

text \<open>
  The reading handles of \<open>src/area.rs\<close>: \<open>AreaReader\<close>, which is its reader id,
  \<open>ReadSlice\<close> and \<open>ReadSliceIter\<close>; the construction of an area; the drops.  A reference to a
  message is modelled by the contents of its slot.
\<close>

section \<open>Readers\<close>

type_synonym reader = gen

definition create_reader :: "gen \<Rightarrow> 'a area \<Rightarrow> ((register_error + reader) \<times> 'a area) option" where
  "create_reader random s = register_reader random s"

definition create_reader_with_seed :: "gen \<Rightarrow> 'a area \<Rightarrow> ((register_error + reader) \<times> 'a area) option" where
  "create_reader_with_seed seed s = register_reader_with_seed seed s"

text \<open>\<open>.expect("Reader not found!")\<close>.\<close>

definition get_gen :: "reader \<Rightarrow> 'a area \<Rightarrow> gen outcome" where
  "get_gen r s = (case get_reader_gen r s of Some g \<Rightarrow> Returns g | None \<Rightarrow> Panics)"

definition advance :: "reader \<Rightarrow> gen \<Rightarrow> 'a area \<Rightarrow> (set_gen_error + unit) outcome \<times> 'a area" where
  "advance r n s =
     (case get_gen r s of
        Panics \<Rightarrow> (Panics, s)
      | Returns current \<Rightarrow>
          (let new_generation = gen_add_msb_masked (gen_without_suspended_bit current) n in
           case set_reader_gen r new_generation s of (res, s') \<Rightarrow> (Returns res, s')))"

definition suspend :: "reader \<Rightarrow> 'a area \<Rightarrow> (suspend_error + unit) \<times> 'a area" where
  "suspend r s = suspend_reader r s"

definition resume :: "reader \<Rightarrow> 'a area \<Rightarrow> ((resume_error + bool) \<times> 'a area) option" where
  "resume r s = resume_reader r s"

definition resume_at :: "reader \<Rightarrow> gen \<Rightarrow> 'a area \<Rightarrow> ((resume_error + bool) \<times> 'a area) option" where
  "resume_at r entry_generation s = resume_reader_at r entry_generation s"

section \<open>Slices\<close>

record read_slice =
  reader :: gen
  slice_start :: gen
  slice_end :: gen
  slice_armed :: bool

definition new_disarmed :: "reader \<Rightarrow> gen \<Rightarrow> gen \<Rightarrow> read_slice" where
  "new_disarmed r st en = \<lparr>reader = r, slice_start = st, slice_end = en, slice_armed = False\<rparr>"

definition slice_disarm :: "read_slice \<Rightarrow> read_slice" where
  "slice_disarm sl = sl\<lparr>slice_armed := False\<rparr>"

definition slice_arm :: "read_slice \<Rightarrow> read_slice" where
  "slice_arm sl = sl\<lparr>slice_armed := True\<rparr>"

definition slice_is_armed :: "read_slice \<Rightarrow> bool" where
  "slice_is_armed sl \<longleftrightarrow> slice_armed sl"

text \<open>The slice is not dropped.\<close>

definition into_raw_parts :: "read_slice \<Rightarrow> reader \<times> gen \<times> gen \<times> bool" where
  "into_raw_parts sl = (reader sl, slice_start sl, slice_end sl, slice_armed sl)"

definition slice_len :: "read_slice \<Rightarrow> usize" where
  "slice_len sl = gen_dist_msb_masked (slice_end sl) (slice_start sl)"

definition slice_is_empty :: "read_slice \<Rightarrow> bool" where
  "slice_is_empty sl \<longleftrightarrow> gen_gte_msb_masked (slice_start sl) (slice_end sl)"

definition slice_get :: "read_slice \<Rightarrow> usize \<Rightarrow> 'a area \<Rightarrow> 'a maybe_uninit option" where
  "slice_get sl index s =
     (if index \<ge> slice_len sl then None
      else Some (get_slot (gen_add_msb_masked (slice_start sl) index) s))"

text \<open>\<open>slice::from_raw_parts(buffer_ptr.add(at), n)\<close>.\<close>

definition raw_parts :: "usize \<Rightarrow> usize \<Rightarrow> 'a area \<Rightarrow> 'a maybe_uninit list" where
  "raw_parts at n s = take (unat n) (drop (unat at) (buffer s))"

definition as_slices :: "read_slice \<Rightarrow> 'a area \<Rightarrow> 'a maybe_uninit list \<times> 'a maybe_uninit list" where
  "as_slices sl s =
     (if slice_is_empty sl then ([], [])
      else
        (let cap = buffer_capacity s; start_idx = slice_start sl mod cap;
             n = gen_dist_msb_masked (slice_end sl) (slice_start sl) in
         if start_idx + n \<le> cap then (raw_parts start_idx n s, [])
         else
           (let first_len = cap - start_idx; second_len = n - first_len in
            (raw_parts start_idx first_len s, raw_parts 0 second_len s))))"

definition drop_slice :: "read_slice \<Rightarrow> 'a area \<Rightarrow> unit outcome \<times> 'a area" where
  "drop_slice sl s =
     (if \<not> slice_armed sl then (Returns (), s)
      else
        (case get_gen (reader sl) s of
           Panics \<Rightarrow> (Panics, s)
         | Returns g \<Rightarrow>
             (if gen_without_suspended_bit g \<noteq> slice_start sl then (Panics, s)
              else (Returns (), snd (set_reader_gen (reader sl) (slice_end sl) s)))))"

text \<open>\<open>ReadSliceIter\<close>: the slice and \<open>current\<close>.\<close>

definition slice_iter :: "read_slice \<Rightarrow> read_slice \<times> usize" where
  "slice_iter sl = (sl, 0)"

definition slice_iter_next ::
  "read_slice \<times> usize \<Rightarrow> 'a area \<Rightarrow> 'a maybe_uninit option \<times> (read_slice \<times> usize)" where
  "slice_iter_next = (\<lambda>(sl, current) s.
     case slice_get sl current s of
       None \<Rightarrow> (None, (sl, current))
     | Some item \<Rightarrow> (Some item, (sl, current + 1)))"

definition slice_iter_size_hint :: "read_slice \<times> usize \<Rightarrow> usize \<times> usize option" where
  "slice_iter_size_hint = (\<lambda>(sl, current).
     let remaining = slice_len sl - current in (remaining, Some remaining))"

text \<open>All items an iterator yields, with fuel for the calls of \<open>next\<close>.\<close>

fun collect :: "nat \<Rightarrow> read_slice \<times> usize \<Rightarrow> 'a area \<Rightarrow> 'a maybe_uninit list" where
  "collect 0 it s = []"
| "collect (Suc fuel) it s =
     (case slice_iter_next it s of
        (None, _) \<Rightarrow> []
      | (Some item, it') \<Rightarrow> item # collect fuel it' s)"

section \<open>Reading\<close>

definition read :: "reader \<Rightarrow> 'a area \<Rightarrow> read_slice outcome" where
  "read r s =
     (case get_gen r s of
        Panics \<Rightarrow> Panics
      | Returns g \<Rightarrow>
          Returns \<lparr>reader = r, slice_start = gen_without_suspended_bit g, slice_end = read_gen s,
                   slice_armed = True\<rparr>)"

definition read_at_most :: "reader \<Rightarrow> usize \<Rightarrow> 'a area \<Rightarrow> read_slice outcome" where
  "read_at_most r n s =
     (case get_gen r s of
        Panics \<Rightarrow> Panics
      | Returns g \<Rightarrow>
          (let start_generation = gen_without_suspended_bit g;
               available = gen_dist_msb_masked (read_gen s) start_generation;
               actual = min available n;
               capped_end = gen_add_msb_masked start_generation actual in
           Returns \<lparr>reader = r, slice_start = start_generation, slice_end = capped_end,
                    slice_armed = True\<rparr>))"

text \<open>
  The area is given at the three moments the source looks at it: the first \<open>read\<close>, the
  count of writers, the second \<open>read\<close>.  Before \<open>Err(ReadError)\<close> the source drops the second
  slice, which is empty: it does not move the reader, and is left out.
\<close>

definition read_with_check ::
  "reader \<Rightarrow> 'a area \<Rightarrow> 'a area \<Rightarrow> 'a area \<Rightarrow> (read_error + read_slice) outcome" where
  "read_with_check r s1 s2 s3 =
     (case read r s1 of
        Panics \<Rightarrow> Panics
      | Returns result \<Rightarrow>
          (if slice_len result \<noteq> 0 then Returns (Inr result)
           else
             (case into_raw_parts result of
                (returned_self, st_gen, _, _) \<Rightarrow>
                  (if get_writers_count s2 = 0 then
                     (case read returned_self s3 of
                        Panics \<Rightarrow> Panics
                      | Returns result \<Rightarrow>
                          (if slice_len result \<noteq> 0 then Returns (Inr result) else Returns (Inl ReadError)))
                   else Returns (Inr (new_disarmed returned_self st_gen st_gen))))))"

section \<open>Construction\<close>

text \<open>\<open>finish_init\<close>: the writer has no fields of its own, so the result is the reader.\<close>

definition finish_init :: "'a area \<Rightarrow> (reader outcome \<times> 'a area) option" where
  "finish_init s =
     (let s' = s\<lparr>writers_count := 1\<rparr> in
      case register_reader_with_seed 1 s' of
        None \<Rightarrow> None
      | Some (Inl ReaderCapacityReached, s'') \<Rightarrow> Some (Panics, s'')
      | Some (Inr reader_id, s'') \<Rightarrow> Some (Returns reader_id, s''))"

definition area :: "usize \<Rightarrow> usize \<Rightarrow> (reader \<times> 'a area) outcome option" where
  "area buffer_cap reader_cap =
     (case area_new buffer_cap reader_cap of
        Panics \<Rightarrow> Some Panics
      | Returns inner \<Rightarrow>
          (case finish_init inner of
             None \<Rightarrow> None
           | Some (Panics, s) \<Rightarrow> Some Panics
           | Some (Returns reader_id, s) \<Rightarrow> Some (Returns (reader_id, s))))"

section \<open>Dropping a reader\<close>

text \<open>Waiting for \<open>reader_keep_alloc_tickets\<close> to reach 0, run alone.\<close>

definition wait_turn :: "'a area \<Rightarrow> unit flow \<times> 'a area" where
  "wait_turn s = (if reader_keep_alloc_tickets s \<noteq> 0 then (Continue, s) else (Return (), s))"

definition drop_reader :: "bool \<Rightarrow> reader \<Rightarrow> 'a area \<Rightarrow> ('a area \<times> region list) option" where
  "drop_reader nd r s =
     (let s1 = s\<lparr>reader_keep_alloc_tickets := reader_keep_alloc_tickets s + 1\<rparr>;
          s2 = snd (unregister_reader r s1);
          attempting_free = (\<not> has_readers s2);
          s3 = (if attempting_free then s2\<lparr>reader_stage_tickets := reader_stage_tickets s2 + 1\<rparr> else s2);
          s4 = s3\<lparr>reader_keep_alloc_tickets := reader_keep_alloc_tickets s3 - 1\<rparr> in
      if \<not> attempting_free then Some (s4, [])
      else
        (case run_loop wait_turn s4 of
           None \<Rightarrow> None
         | Some (_, s5) \<Rightarrow>
             (let prev_stage = reader_stage_tickets s5;
                  s6 = s5\<lparr>reader_stage_tickets := prev_stage - 1\<rparr> in
              if prev_stage = 1 then leave_stage nd s6 else Some (s6, []))))"

end
