(* ===== verification/Sequential.thy ===== *)
theory Sequential
  imports Machine_Safety Handles_Reader
begin

text \<open>
  The operations run alone, from any state a run of the interleaved system can be in: results
  on every branch, what they leave behind, and that their loops end.
\<close>

section \<open>Well-formed areas\<close>

definition good :: "gen \<Rightarrow> 'a area \<Rightarrow> bool" where
  "good g s \<longleftrightarrow> reg_inv s \<and> ord_inv g s \<and> window g s \<and> ring_ok g (unat (buffer_capacity s)) \<and>
     length (buffer s) = unat (buffer_capacity s)"

lemma run_good: "run_of nd g bc rc S \<Longrightarrow> good g (shared S)"
  using run_ofD [of nd g bc rc S] run_ring [of nd g bc rc S]
  by (auto simp: good_def own_inv_def order_inv_def ring_at_def)

lemma good_map: "good g s \<Longrightarrow> map_inv (reader_gens s)"
  by (simp add: good_def reg_inv_def)

lemma goodD:
  assumes "good g s"
  shows "pos g (free_gen s) \<le> pos g (last_valid_gen s)" "pos g (last_valid_gen s) \<le> pos g (read_gen s)"
    "pos g (read_gen s) \<le> pos g (write_gen s)"
    "pos g (write_gen s) \<le> pos g (free_gen s) + unat (buffer_capacity s)"
    "pos g (write_gen s) < 2 ^ 62" "pos g (read_gen s) < 2 ^ 62" "pos g (last_valid_gen s) < 2 ^ 62"
    "pos g (free_gen s) < 2 ^ 62"
    "masked (write_gen s)" "masked (read_gen s)" "masked (last_valid_gen s)" "masked (free_gen s)"
    "unat (buffer_capacity s) < 2 ^ 62" "0 < unat (buffer_capacity s)"
  using assms by (auto simp: good_def window_def ord_inv_def ring_ok_def)

lemma found_slot:
  assumes "good g s" and "get_reader_ptr r s = Some p"
  shows "unat p < length (slots (reader_gens s))" and "p = slot_of r s"
    and "pos g (last_valid_gen s) \<le> pos g (load_gen p s)" "pos g (load_gen p s) \<le> pos g (read_gen s)"
proof -
  show l: "unat p < length (slots (reader_gens s))"
    using assms good_map by (auto simp: get_reader_ptr_find dest: find_id_less)
  show "p = slot_of r s" using assms(2) by (simp add: get_reader_ptr_find find_id_Some slot_of_def)
  show "pos g (last_valid_gen s) \<le> pos g (load_gen p s)" "pos g (load_gen p s) \<le> pos g (read_gen s)"
    using assms(1) l by (auto simp: good_def ord_inv_def load_cell_at)
qed

lemma reader_gen_ptr:
  "get_reader_gen r s = Some c \<longleftrightarrow> (\<exists>p. get_reader_ptr r s = Some p \<and> load_gen p s = c)"
  by (auto simp: get_reader_gen_def split: option.splits)

lemma find_store_cell [simp]: "find_id q (store_cell p v m) = find_id q m"
  by (simp add: find_id_eq)

lemma get_ptr_store [simp]: "get_reader_ptr r (store_gen p v s) = get_reader_ptr r s"
  by (simp add: get_reader_ptr_find find_id_eq)

section \<open>Registering\<close>

lemma register_alone:
  assumes g: "good g s"
  shows "(\<forall>i < length (slots (reader_gens s)). key (slots (reader_gens s) ! i) \<noteq> EMPTY) \<and>
      register_reader_with_seed seed s = Some (Inl ReaderCapacityReached, s) \<or>
    (\<exists>r p. id_ok r \<and> claim_id (seed_of seed) (reader_gens s) = Some (r, p, store_key p r (reader_gens s)) \<and>
       unat p < length (slots (reader_gens s)) \<and> load_key p (reader_gens s) = EMPTY \<and>
       register_reader_with_seed seed s = Some (Inr r,
         store_gen p (gen_without_suspended_bit (load_gen p s))
           (s\<lparr>reader_gens := store_key p r (reader_gens s)\<rparr>)))"
proof -
  note inv = good_map [OF g] and seed = id_ok_seed_of [of seed]
  from inv id_okD [OF seed] show ?thesis
  proof (cases rule: fold_search)
    case full
    then have "register_reader_with_seed seed s = Some (Inl ReaderCapacityReached, s)"
      by (simp add: register_reader_with_seed_def goi_not_found_def)
    with full(2) show ?thesis by blast
  next
    case (new d ix k)
    have c: "claim_id (seed_of seed) (reader_gens s) = Some (key_bits k, ix, store_key ix (key_bits k) (reader_gens s))"
      using new by (simp add: claim_id_def finish_init_at_eq load_store_key)
    let ?s = "s\<lparr>reader_gens := store_key ix (key_bits k) (reader_gens s)\<rparr>"
    let ?t = "store_gen ix (gen_without_suspended_bit (load_gen ix s)) ?s"
    have "enter_turn ix (load_gen ix ?s) ?s = (Return (), ?t)"
      using new(2) by (simp add: enter_turn_def cas_gen_hit)
    then have "run_loop (\<lambda>t. enter_turn ix (load_gen ix t) t) ?s = Some ((), ?t)"
      by (rule run_loop_Return)
    then have "register_reader_with_seed seed s = Some (Inr (key_bits k), ?t)"
      using new by (simp add: register_reader_with_seed_def finish_init_at_eq load_store_key Let_def)
    moreover have "id_ok (key_bits k)" unfolding id_ok_def using new(5) key_bits_masked by blast
    ultimately show ?thesis
      by (intro disjI2 exI [of _ "key_bits k"] exI [of _ ix] conjI c new(2,3))
  qed
qed

text \<open>
  C21: registering a reader always comes to an end.  It fails exactly when every slot of the
  table is taken, and then changes nothing; otherwise it returns an id nobody held, whose
  private generation is active and within the published range, and leaves every other
  reader's generation alone.
\<close>
theorem register_reader_result:
  assumes "good g s"
  shows "\<exists>res s'. register_reader_with_seed seed s = Some (res, s')
    \<and> (case res of
         Inl ReaderCapacityReached \<Rightarrow> s' = s \<and> (\<forall>i < length (slots (reader_gens s)). key (slots (reader_gens s) ! i) \<noteq> EMPTY)
       | Inr r \<Rightarrow> id_ok r \<and> get_reader_gen r s = None
           \<and> (\<exists>c. get_reader_gen r s' = Some c \<and> \<not> is_suspended c
                \<and> pos g (last_valid_gen s) \<le> pos g c \<and> pos g c \<le> pos g (read_gen s))
           \<and> (\<forall>q. id_ok q \<and> q \<noteq> r \<longrightarrow> get_reader_gen q s' = get_reader_gen q s))"
  using register_alone [OF assms, of seed]
proof (elim disjE exE conjE)
  fix r p assume r: "id_ok r" and c: "claim_id (seed_of seed) (reader_gens s) = Some (r, p, store_key p r (reader_gens s))"
    and p: "unat p < length (slots (reader_gens s))" and e: "load_key p (reader_gens s) = EMPTY"
    and res: "register_reader_with_seed seed s = Some (Inr r,
         store_gen p (gen_without_suspended_bit (load_gen p s)) (s\<lparr>reader_gens := store_key p r (reader_gens s)\<rparr>))"
  let ?s1 = "s\<lparr>reader_gens := store_key p r (reader_gens s)\<rparr>"
  let ?s = "store_gen p (gen_without_suspended_bit (load_gen p s)) ?s1"
  note inv = good_map [OF assms] and seed = id_ok_seed_of [of seed]
  note lookups = slot_map.claim_find [OF inv seed c] slot_map.claim_new [OF inv seed c]
    slot_map.claim_fresh [OF inv seed c] slot_map.claim_other [OF inv seed c]
  have load: "load_gen q ?s = (if q = p then gen_without_suspended_bit (load_gen p s) else load_gen q s)" for q
    using p by (simp add: load_store_gen)
  have "pos g (last_valid_gen s) \<le> pos g (load_gen p s)" "pos g (load_gen p s) \<le> pos g (read_gen s)"
    using assms p by (auto simp: good_def ord_inv_def load_cell_at)
  moreover have "get_reader_gen r s = None" using lookups(2) by (simp add: get_reader_gen_def get_reader_ptr_find)
  moreover have "get_reader_gen r ?s = Some (gen_without_suspended_bit (load_gen p s))"
    using lookups(1) by (simp add: get_reader_gen_def get_reader_ptr_find load)
  moreover have "get_reader_gen q ?s = get_reader_gen q s" if "id_ok q" "q \<noteq> r" for q
    using lookups(3) [OF that(1)] lookups(4) [OF that]
    by (auto simp: get_reader_gen_def load get_reader_ptr_find split: option.splits)
  ultimately show ?thesis using res r by (simp add: strip_eq)
qed auto


section \<open>Suspending and resuming\<close>

lemma store_store_gen [simp]:
  "unat p < length (slots (reader_gens s)) \<Longrightarrow> store_gen p w (store_gen p v s) = store_gen p w s"
  by (simp add: store_gen_def store_cell_def slot_at_def)

text \<open>
  C22: suspending an active reader succeeds and keeps its generation; suspending it again is
  refused; resuming it then gives back exactly the area as it was, and resuming an active
  reader changes nothing.  All the retry loops end.
\<close>
theorem suspend_then_resume:
  assumes g: "good g s" and c: "get_reader_gen r s = Some c" "\<not> is_suspended c"
  shows "\<exists>s'. suspend r s = (Inr (), s')
    \<and> get_reader_gen r s' = Some (c OR SUSPENDED_BIT)
    \<and> suspend r s' = (Inl AlreadySuspended, s')
    \<and> set_reader_gen r v s' = (Inl ReaderSuspended, s')
    \<and> resume r s' = Some (Inr True, s)
    \<and> resume r s = Some (Inr False, s)"
proof -
  from c(1) obtain p where p: "get_reader_ptr r s = Some p" "load_gen p s = c"
    by (auto simp: reader_gen_ptr)
  note less = found_slot(1) [OF g p(1)]
  let ?s = "store_gen p (c OR MSB) s"
  have load: "load_gen p ?s = c OR MSB" using less by (simp add: load_store_gen)
  have again: "resume_turn p (load_gen p ?s) ?s = (Return True, s)"
    using load less c(2) store_gen_same [of p s] p(2)
    by (simp add: resume_turn_def cas_gen_hit SUSPENDED_BIT_eq masked_active strip_id masked_def)
  have "resume r ?s = Some (Inr True, s)"
    using p(1) run_loop_Return [where body = "\<lambda>t. resume_turn p (load_gen p t) t" and s = ?s, OF again]
    by (simp add: resume_def resume_reader_def)
  moreover have once: "resume_turn p (load_gen p s) s = (Return False, s)" using c(2) p(2) by (simp add: resume_turn_def)
  have "resume r s = Some (Inr False, s)"
    using p(1) run_loop_Return [where body = "\<lambda>t. resume_turn p (load_gen p t) t" and s = s, OF once]
    by (simp add: resume_def resume_reader_def)
  ultimately show ?thesis using p c(2) load
    by (intro exI [of _ ?s])
      (simp add: suspend_def suspend_reader_def suspend_from_def SUSPENDED_BIT_eq reader_gen_ptr
        set_reader_gen_def set_gen_from_def)
qed

text \<open>
  \<open>resume_at\<close> on a suspended reader is refused exactly when the entry generation lies
  before the reader's own, and otherwise makes the reader active at the entry generation; on
  an active reader it returns \<open>false\<close>, and without the reader an error, changing nothing.
\<close>
theorem resume_at_result:
  assumes g: "good g s" and e: "e AND MSB = 0" "pos g e < 2 ^ 62"
  shows "case get_reader_gen r s of
      None \<Rightarrow> resume_at r e s = Some (Inl ResumeReaderNotFound, s)
    | Some c \<Rightarrow>
        if \<not> is_suspended c then resume_at r e s = Some (Inr False, s)
        else if pos g e < pos g c then resume_at r e s = Some (Inl GenerationTooOld, s)
        else \<exists>s'. resume_at r e s = Some (Inr True, s') \<and> get_reader_gen r s' = Some e
               \<and> write_gen s' = write_gen s \<and> read_gen s' = read_gen s
               \<and> last_valid_gen s' = last_valid_gen s \<and> free_gen s' = free_gen s \<and> buffer s' = buffer s
               \<and> buffer_capacity s' = buffer_capacity s"
proof (cases "get_reader_ptr r s")
  case None
  then show ?thesis by (simp add: get_reader_gen_def resume_at_def resume_reader_at_def)
next
  case (Some p)
  let ?c = "load_gen p s" and ?body = "\<lambda>t. resume_at_turn p e (load_gen p t) t"
  note less = found_slot(1) [OF g Some]
  have c62: "pos g ?c < 2 ^ 62" using found_slot(4) [OF g Some] goodD(6) [OF g] by linarith
  have lt: "gen_lt_msb_masked e (?c AND NOT MSB) \<longleftrightarrow> pos g e < pos g ?c"
    using e c62 by (simp add: gen_lt_msb_masked_def gt_masked [of _ _ g] masked_def)
  have run: "resume_at r e s = Some (v, s')" if "?body s = (Return v, s')" for v s'
    using run_loop_Return [where body = ?body and s = s, OF that] Some by (simp add: resume_at_def resume_reader_at_def)
  consider (active) "\<not> is_suspended ?c" | (old) "is_suspended ?c" "pos g e < pos g ?c"
    | (ok) "is_suspended ?c" "\<not> pos g e < pos g ?c" by blast
  then show ?thesis
  proof cases
    case active
    then have "?body s = (Return (Inr False), s)" by (simp add: resume_at_turn_def)
    from run [OF this] active Some show ?thesis by (simp add: get_reader_gen_def)
  next
    case old
    then have "?body s = (Return (Inl GenerationTooOld), s)" using lt by (simp add: resume_at_turn_def strip_eq)
    from run [OF this] old Some show ?thesis by (simp add: get_reader_gen_def)
  next
    case ok
    then have "?body s = (Return (Inr True), store_gen p e s)"
      using lt e(1) by (simp add: resume_at_turn_def strip_eq cas_gen_hit SUSPENDED_BIT_eq strip_id)
    from run [OF this] ok Some less show ?thesis by (simp add: get_reader_gen_def load_store_gen)
  qed
qed

section \<open>Advancing\<close>

lemma set_reader_gen_alone:
  assumes g: "good g s" and v: "pos g v < 2 ^ 62" and r: "id_ok r"
  shows "case get_reader_gen r s of
      None \<Rightarrow> set_reader_gen r v s = (Inl SetReaderNotFound, s)
    | Some c \<Rightarrow>
        if is_suspended c then set_reader_gen r v s = (Inl ReaderSuspended, s)
        else if pos g v \<le> pos g c then set_reader_gen r v s = (Inl InvalidGeneration, s)
        else \<exists>s'. set_reader_gen r v s = (Inr (), s') \<and> get_reader_gen r s' = Some v
               \<and> (\<forall>q. id_ok q \<and> q \<noteq> r \<longrightarrow> get_reader_gen q s' = get_reader_gen q s)"
proof (cases "get_reader_ptr r s")
  case None
  then show ?thesis by (simp add: get_reader_gen_def set_reader_gen_def)
next
  case (Some p)
  note less = found_slot(1) [OF g Some]
  have c62: "pos g (load_gen p s) < 2 ^ 62" using found_slot(4) [OF g Some] goodD(6) [OF g] by linarith
  have "get_reader_gen q (store_gen p v s) = get_reader_gen q s" if "id_ok q" "q \<noteq> r" for q
  proof (cases "get_reader_ptr q s")
    case (Some p')
    then have "p' \<noteq> p" using \<open>get_reader_ptr r s = Some p\<close> slot_map.find_inj [OF good_map [OF g] that(1) r] that(2)
      by (auto simp: get_reader_ptr_find)
    then show ?thesis using less Some by (simp add: get_reader_gen_def load_store_gen)
  qed (simp add: get_reader_gen_def)
  then show ?thesis using Some less v c62
    by (auto simp: get_reader_gen_def set_reader_gen_def set_gen_from_def lte_pos64 [of g] load_store_gen)
qed

text \<open>
  Setting a reader's generation succeeds exactly when the reader is registered, active and
  moves strictly forward; then the reader is at the new generation and every other reader where
  it was.  In every other case the matching error is returned and nothing changes.
\<close>
theorem set_reader_gen_result:
  assumes g: "good g s" and v: "pos g v < 2 ^ 62" and r: "id_ok r"
  shows "case get_reader_gen r s of
      None \<Rightarrow> set_reader_gen r v s = (Inl SetReaderNotFound, s)
    | Some c \<Rightarrow>
        if is_suspended c then set_reader_gen r v s = (Inl ReaderSuspended, s)
        else if pos g v \<le> pos g c then set_reader_gen r v s = (Inl InvalidGeneration, s)
        else \<exists>s'. set_reader_gen r v s = (Inr (), s') \<and> get_reader_gen r s' = Some v
               \<and> (\<forall>q. id_ok q \<and> q \<noteq> r \<longrightarrow> get_reader_gen q s' = get_reader_gen q s)"
  using assms by (rule set_reader_gen_alone)

section \<open>Examples\<close>

text \<open>The area of an example run.\<close>

lemma demo_good:
  fixes Q :: "nat area \<Rightarrow> bool"
  assumes "case sys_run nd es (start_at (2 ^ 63 - 1) 2 2) of Some S \<Rightarrow> Q (shared S) \<and> reserved S = n | None \<Rightarrow> False"
    and "n < 2 ^ 62"
  shows "\<exists>s. good (2 ^ 63 - 1) s \<and> Q s"
proof -
  from demo_run [OF assms] obtain S :: "nat sys" where "run_of nd (2 ^ 63 - 1) 2 2 S" "Q (shared S)" by blast
  then show ?thesis by (intro exI [of _ "shared S"]) (simp add: run_good)
qed

lemma demo_one_reader:
  "\<exists>s :: nat area. good (2 ^ 63 - 1) s \<and> get_reader_gen 1 s = Some (2 ^ 63 - 1) \<and> read_gen s = 0
     \<and> write_gen s = 0 \<and> free_gen s = 2 ^ 63 - 1 \<and> last_valid_gen s = 2 ^ 63 - 1 \<and> buffer_capacity s = 2"
proof -
  have "case sys_run True demo_read (start_at (2 ^ 63 - 1) 2 2) of
      Some S \<Rightarrow> (\<lambda>s. get_reader_gen 1 s = Some (2 ^ 63 - 1) \<and> read_gen s = 0 \<and> write_gen s = 0
        \<and> free_gen s = 2 ^ 63 - 1 \<and> last_valid_gen s = 2 ^ 63 - 1 \<and> buffer_capacity s = 2) (shared S) \<and> reserved S = 1
    | None \<Rightarrow> False" by code_simp
  from demo_good [OF this] show ?thesis by auto
qed

lemma demo_active: "\<not> is_suspended (2 ^ 63 - 1 :: gen)"
  by code_simp

lemma register_reader_result_witness:
  "\<exists>(s :: nat area) res s'. good (2 ^ 63 - 1) s \<and> register_reader_with_seed 1 s = Some (res, s')"
proof -
  obtain s :: "nat area" where s: "good (2 ^ 63 - 1) s" using demo_one_reader by blast
  from register_reader_result [OF s, of 1] s show ?thesis by blast
qed

lemma suspend_then_resume_witness:
  "\<exists>s s' :: nat area. good (2 ^ 63 - 1) s \<and> suspend 1 s = (Inr (), s') \<and> resume 1 s' = Some (Inr True, s)"
proof -
  obtain s :: "nat area" where s: "good (2 ^ 63 - 1) s" "get_reader_gen 1 s = Some (2 ^ 63 - 1)"
    using demo_one_reader by blast
  from suspend_then_resume [OF s demo_active] s show ?thesis by blast
qed

lemma resume_at_result_witness:
  "\<exists>s :: nat area. good (2 ^ 63 - 1) s \<and> resume_at 1 0 s = Some (Inr False, s)"
proof -
  obtain s :: "nat area" where s: "good (2 ^ 63 - 1) s" "get_reader_gen 1 s = Some (2 ^ 63 - 1)"
    using demo_one_reader by blast
  have "(0 :: gen) AND MSB = 0" by simp
  moreover have "pos (2 ^ 63 - 1) (0 :: gen) = 1" by code_simp
  then have "pos (2 ^ 63 - 1) (0 :: gen) < 2 ^ 62" by (simp only:) simp
  ultimately show ?thesis using resume_at_result [OF s(1), of 0 1] s demo_active by auto
qed

lemma set_reader_gen_result_witness:
  "\<exists>s s' :: nat area. good (2 ^ 63 - 1) s \<and> set_reader_gen 1 0 s = (Inr (), s') \<and> get_reader_gen 1 s' = Some 0"
proof -
  obtain s :: "nat area" where s: "good (2 ^ 63 - 1) s" "get_reader_gen 1 s = Some (2 ^ 63 - 1)"
    using demo_one_reader by blast
  have p: "pos (2 ^ 63 - 1) (0 :: gen) = 1" by code_simp
  then have "pos (2 ^ 63 - 1) (0 :: gen) < 2 ^ 62" by (simp only:) simp
  from set_reader_gen_result [OF s(1) this demo_id_ok] s demo_active p show ?thesis by auto
qed

end
