(* ===== verification/Delivery.thy ===== *)
theory Delivery
  imports Sequential
begin

text \<open>
  From a reservation to a reader: reserving, filling slot by slot, publishing, splitting, and
  what a reader's slice then shows, in the three ways the source offers to look at it.
\<close>

section \<open>Reserving\<close>

definition room :: "'a area \<Rightarrow> nat" where
  "room s = unat (buffer_capacity s) - unat (gen_dist_msb_masked (write_gen s) (free_gen s))"

lemma used_dist:
  assumes "good g s"
  shows "unat (gen_dist_msb_masked (write_gen s) (free_gen s)) = pos g (write_gen s) - pos g (free_gen s)"
    and "unat (gen_dist_msb_masked (write_gen s) (free_gen s)) \<le> unat (buffer_capacity s)"
proof -
  have le: "pos g (free_gen s) \<le> pos g (write_gen s)" using goodD(1-3) [OF assms] by linarith
  show d: "unat (gen_dist_msb_masked (write_gen s) (free_gen s)) = pos g (write_gen s) - pos g (free_gen s)"
    using le by (rule unat_dist_ge)
  show "unat (gen_dist_msb_masked (write_gen s) (free_gen s)) \<le> unat (buffer_capacity s)"
    using d goodD(4) [OF assms] by linarith
qed

lemma unat_available:
  "good g s \<Longrightarrow> unat (available_slots (buffer_capacity s) (free_gen s) (write_gen s)) = room s"
  using used_dist(2) [of g s] by (simp add: available_slots_def room_def unat_sub unat_min_word)

lemma reserve_grabs:
  assumes g: "good g s" and "unat n \<le> room s"
  shows "reserve Cas n s =
    (Inr \<lparr>start_gen = write_gen s, end_gen = gen_add_msb_masked (write_gen s) n, published = False, armed = True\<rparr>,
     s\<lparr>write_gen := gen_add_msb_masked (write_gen s) n\<rparr>)"
proof -
  have "\<not> available_slots (buffer_capacity s) (free_gen s) (write_gen s) < n"
    using assms(2) unat_available [OF g] by (simp add: word_less_nat_alt not_less)
  then show ?thesis by (simp add: reserve_def try_reserve_slots_def reserve_from_def grab_Cas)
qed

lemma reserve_refused:
  "good g s \<Longrightarrow> room s < unat n \<Longrightarrow> reserve Cas n s = (Inl NoSpace, s)"
  using unat_available [of g s] by (simp add: reserve_def try_reserve_slots_def reserve_from_def word_less_nat_alt)

lemma best_effort_alone:
  assumes g: "good g s"
  shows "reserve_best_effort Cas n s =
    (let k = min (unat n) (room s) in
     if k = 0 then (Inr \<lparr>start_gen = 0, end_gen = 0, published = False, armed = True\<rparr>, s)
     else (Inr \<lparr>start_gen = write_gen s, end_gen = gen_add_msb_masked (write_gen s) (of_nat k),
                published = False, armed = True\<rparr>,
           s\<lparr>write_gen := gen_add_msb_masked (write_gen s) (of_nat k)\<rparr>))"
proof -
  let ?a = "available_slots (buffer_capacity s) (free_gen s) (write_gen s)"
  have "min (unat n) (room s) = unat (min n ?a)" using unat_available [OF g] by (simp add: unat_min_word)
  then have k: "of_nat (min (unat n) (room s)) = min n ?a" and z: "min n ?a = 0 \<longleftrightarrow> min (unat n) (room s) = 0"
    by (simp_all add: unat_eq_zero)
  show ?thesis
  proof (cases "min (unat n) (room s) = 0")
    case True
    then have "n = 0 \<or> min n ?a = 0" using z by simp
    then show ?thesis using True
      by (auto simp: reserve_best_effort_def try_reserve_slots_best_effort_def best_effort_from_def Let_def)
  next
    case False
    then have "n \<noteq> 0" "min n ?a \<noteq> 0" using z by (auto simp: unat_eq_zero)
    then show ?thesis unfolding Let_def if_not_P [OF False] k
      by (simp add: reserve_best_effort_def try_reserve_slots_best_effort_def best_effort_from_def Let_def
          grab_Cas)
  qed
qed

lemma pos_in_room:
  assumes g: "good g s" and "k \<le> room s"
  shows "pos g (gen_add_msb_masked (write_gen s) (of_nat k)) = pos g (write_gen s) + k"
proof -
  have "k < 2 ^ 62" using assms(2) goodD(13) [OF g] unfolding room_def by linarith
  then have "unat (of_nat k :: gen) = k" by (intro unat_of_nat64) simp
  with \<open>k < 2 ^ 62\<close> show ?thesis using goodD(5) [OF g] by (subst pos_add64) auto
qed

text \<open>
  C23: run alone, reserving \<open>n\<close> slots succeeds exactly when \<open>n\<close> slots are free (it never
  fails for another reason), and takes the next \<open>n\<close> generations; the best-effort variant
  takes as many as are free, and gives the empty reservation when there are none.
\<close>
theorem reserve_result:
  assumes g: "good g s"
  shows "reserve Cas n s =
      (if unat n \<le> room s
       then (Inr \<lparr>start_gen = write_gen s, end_gen = gen_add_msb_masked (write_gen s) n,
                 published = False, armed = True\<rparr>,
             s\<lparr>write_gen := gen_add_msb_masked (write_gen s) n\<rparr>)
       else (Inl NoSpace, s))
    \<and> reserve_best_effort Cas n s =
      (let k = min (unat n) (room s) in
       if k = 0 then (Inr \<lparr>start_gen = 0, end_gen = 0, published = False, armed = True\<rparr>, s)
       else (Inr \<lparr>start_gen = write_gen s, end_gen = gen_add_msb_masked (write_gen s) (of_nat k),
                  published = False, armed = True\<rparr>,
             s\<lparr>write_gen := gen_add_msb_masked (write_gen s) (of_nat k)\<rparr>))
    \<and> (\<forall>k \<le> room s. pos g (gen_add_msb_masked (write_gen s) (of_nat k)) = pos g (write_gen s) + k)"
  using reserve_grabs [OF g, of n] reserve_refused [OF g, of n] best_effort_alone [OF g, of n]
    pos_in_room [OF g] by simp

section \<open>Filling a reservation\<close>

lemma at_off_write:
  assumes "good g s" and "masked v"
    and "pos g (free_gen s) \<le> pos g v" "pos g v < pos g (write_gen s)"
    and "pos g (free_gen s) \<le> off" "off < pos g (write_gen s)"
  shows "at_off g (write_slot v x s) off = (if off = pos g v then Init x else at_off g s off)"
proof -
  have ne: "ix g (unat (buffer_capacity s)) (pos g v) \<noteq> ix g (unat (buffer_capacity s)) off" if "off \<noteq> pos g v"
    by (rule ix_inj) (use assms that goodD(4,5) [OF assms(1)] in \<open>auto simp: good_def\<close>)
  have "ix g (unat (buffer_capacity s)) (pos g v) < length (buffer s)"
    using assms(1) ix_less by (auto simp: good_def)
  then show ?thesis using ne
    by (auto simp: write_slot_def at_off_def slot_index_at [OF assms(2), where b = g])
qed

lemma write_slot_frame [simp]:
  "write_gen (write_slot v x s) = write_gen s" "read_gen (write_slot v x s) = read_gen s"
  "free_gen (write_slot v x s) = free_gen s" "last_valid_gen (write_slot v x s) = last_valid_gen s"
  "reader_gens (write_slot v x s) = reader_gens s" "buffer_capacity (write_slot v x s) = buffer_capacity s"
  "good g (write_slot v x s) = good g s"
  by (simp_all add: write_slot_def good_def reg_inv_def free_suspended_def ord_inv_def cell_at_def window_def)

lemma write_each_fills:
  assumes "good g s" and "masked (cursor it)" and "masked (iter_end it)"
    and "pos g (free_gen s) \<le> pos g (cursor it)" and "pos g (iter_end it) \<le> pos g (write_gen s)"
    and "pos g (cursor it) + length vs = pos g (iter_end it)"
  shows "\<exists>it' s'. write_each vs it s = Returns (it', s')
    \<and> it' = it\<lparr>cursor := iter_end it, written_count := written_count it + of_nat (length vs)\<rparr>
    \<and> s' = s\<lparr>buffer := buffer s'\<rparr> \<and> good g s'
    \<and> (\<forall>off. pos g (free_gen s) \<le> off \<longrightarrow> off < pos g (write_gen s) \<longrightarrow> at_off g s' off =
         (if pos g (cursor it) \<le> off \<and> off < pos g (iter_end it)
          then Init (vs ! (off - pos g (cursor it))) else at_off g s off))"
  using assms
proof (induction vs arbitrary: it s)
  case Nil
  have "cursor it = iter_end it"
    by (rule pos_inj [of _ _ g]) (use Nil in \<open>simp_all add: masked_def\<close>)
  then show ?case using Nil by (intro exI [of _ it] exI [of _ s]) auto
next
  case (Cons v vs)
  let ?c = "cursor it" and ?it = "it\<lparr>cursor := gen_add_msb_masked (cursor it) 1, written_count := written_count it + 1\<rparr>"
  let ?s = "write_slot (cursor it) v s"
  note w62 = goodD(5) [OF Cons.prems(1)]
  have lt: "pos g ?c < pos g (iter_end it)" using Cons.prems(6) by simp
  have end62: "pos g (iter_end it) < 2 ^ 62" using Cons.prems(5) w62 by linarith
  have "\<not> gen_gte_msb_masked ?c (iter_end it)" using lt end62 by (simp add: gte_masked [of g])
  then have step: "write_each (v # vs) it s = write_each vs ?it ?s"
    by (simp add: iter_next_def slot_write_def drop_reservation_slot_def)
  have p1: "pos g (gen_add_msb_masked ?c 1) = pos g ?c + 1" using lt end62 by (subst pos_add64) auto
  have "\<exists>it' s'. write_each vs ?it ?s = Returns (it', s')
    \<and> it' = ?it\<lparr>cursor := iter_end ?it, written_count := written_count ?it + of_nat (length vs)\<rparr>
    \<and> s' = ?s\<lparr>buffer := buffer s'\<rparr> \<and> good g s'
    \<and> (\<forall>off. pos g (free_gen ?s) \<le> off \<longrightarrow> off < pos g (write_gen ?s) \<longrightarrow> at_off g s' off =
         (if pos g (cursor ?it) \<le> off \<and> off < pos g (iter_end ?it)
          then Init (vs ! (off - pos g (cursor ?it))) else at_off g ?s off))"
    using Cons.prems p1 by (intro Cons.IH) (auto simp: masked_def)
  then obtain it' s' where r: "write_each vs ?it ?s = Returns (it', s')"
      "it' = ?it\<lparr>cursor := iter_end ?it, written_count := written_count ?it + of_nat (length vs)\<rparr>"
      "s' = ?s\<lparr>buffer := buffer s'\<rparr>" "good g s'"
      "\<And>off. pos g (free_gen s) \<le> off \<Longrightarrow> off < pos g (write_gen s) \<Longrightarrow> at_off g s' off =
         (if pos g ?c + 1 \<le> off \<and> off < pos g (iter_end it)
          then Init (vs ! (off - (pos g ?c + 1))) else at_off g ?s off)"
    using p1 by auto
  have at: "at_off g s' off = (if pos g ?c \<le> off \<and> off < pos g (iter_end it)
          then Init ((v # vs) ! (off - pos g ?c)) else at_off g s off)"
    if "pos g (free_gen s) \<le> off" "off < pos g (write_gen s)" for off
  proof -
    have "at_off g ?s off = (if off = pos g ?c then Init v else at_off g s off)"
      using that Cons.prems lt by (intro at_off_write) auto
    moreover have "off - pos g ?c = Suc (off - (pos g ?c + 1))" if "pos g ?c + 1 \<le> off" using that by simp
    ultimately show ?thesis using r(5) [OF that] lt by auto
  qed
  have "s' = s\<lparr>buffer := buffer s'\<rparr>" using r(3) by (simp add: write_slot_def)
  then show ?case using step r(1,2,4) at by (intro exI [of _ it'] exI [of _ s']) simp
qed

text \<open>
  Filling a reservation slot by slot: as many messages as the reservation has slots can
  be written, no step panics, the iterator then yields nothing more and lets the reservation
  be published; the slots hold the messages in order, and no other slot of the window from
  \<open>free_gen\<close> to \<open>write_gen\<close> has changed.
\<close>
theorem iterator_fills_reservation:
  assumes g: "good g s" and r: "start_gen r AND MSB = 0" "end_gen r AND MSB = 0"
    and range: "pos g (read_gen s) \<le> pos g (start_gen r)" "pos g (start_gen r) \<le> pos g (end_gen r)"
      "pos g (end_gen r) \<le> pos g (write_gen s)"
    and vs: "length vs = unat (len r)"
  shows "\<exists>it s'. write_each vs (into_iter r) s = Returns (it, s')
    \<and> all_written it \<and> iter_next it = (None, it) \<and> s' = s\<lparr>buffer := buffer s'\<rparr>
    \<and> (\<forall>k < length vs. get_slot (gen_add_msb_masked (start_gen r) (of_nat k)) s' = Init (vs ! k))
    \<and> (\<forall>v. v AND MSB = 0 \<longrightarrow> pos g (free_gen s) \<le> pos g v \<longrightarrow> pos g v < pos g (start_gen r)
         \<longrightarrow> get_slot v s' = get_slot v s)"
proof -
  let ?it = "into_iter r"
  have len: "length vs = pos g (end_gen r) - pos g (start_gen r)"
    using vs range(2) by (simp add: len_def unat_dist_ge [of g])
  have free: "pos g (free_gen s) \<le> pos g (start_gen r)" using goodD(1,2) [OF g] range(1) by linarith
  have end62: "pos g (end_gen r) < 2 ^ 62" using range(3) goodD(5) [OF g] by linarith
  obtain it s' where w: "write_each vs ?it s = Returns (it, s')"
      "it = ?it\<lparr>cursor := iter_end ?it, written_count := written_count ?it + of_nat (length vs)\<rparr>"
      "s' = s\<lparr>buffer := buffer s'\<rparr>" "good g s'"
      "\<And>off. pos g (free_gen s) \<le> off \<Longrightarrow> off < pos g (write_gen s) \<Longrightarrow> at_off g s' off =
         (if pos g (cursor ?it) \<le> off \<and> off < pos g (iter_end ?it)
          then Init (vs ! (off - pos g (cursor ?it))) else at_off g s off)"
    using write_each_fills [OF g, of ?it vs] r range free len by (auto simp: into_iter_def masked_def)
  have cur: "pos g (cursor ?it) = pos g (start_gen r)" "pos g (iter_end ?it) = pos g (end_gen r)"
    by (simp_all add: into_iter_def)
  have "all_written it" using w(2) vs by (simp add: all_written_def into_iter_def)
  moreover have "iter_next it = (None, it)"
    using w(2) end62 by (simp add: iter_next_def into_iter_def gte_masked [of g])
  moreover have "get_slot (gen_add_msb_masked (start_gen r) (of_nat k)) s' = Init (vs ! k)" if "k < length vs" for k
  proof -
    note p = range_pos [OF range(2) end62, of k]
    have k: "k < unat (gen_dist_msb_masked (end_gen r) (start_gen r))" using that vs by (simp add: len_def)
    show ?thesis
      using p [OF k] w(5) [of "pos g (start_gen r) + k"] free range(3)
      by (simp add: get_slot_at [where b = g] cur)
  qed
  moreover have "get_slot v s' = get_slot v s"
    if "v AND MSB = 0" "pos g (free_gen s) \<le> pos g v" "pos g v < pos g (start_gen r)" for v
    using that w(5) [of "pos g v"] range by (simp add: get_slot_at [where b = g] cur masked_def)
  ultimately show ?thesis using w(1,3) by blast
qed

section \<open>Splitting, publishing, dropping\<close>

text \<open>The point of a split: the lengths of the parts, and the generations of the right one.\<close>

lemma split_point:
  assumes "pos g (start_gen r) \<le> pos g (end_gen r)" and "pos g (end_gen r) < 2 ^ 62" and True: "i \<le> len r"
  defines "m \<equiv> gen_add_msb_masked (start_gen r) i"
  shows "gen_dist_msb_masked m (start_gen r) = i" and "gen_dist_msb_masked (end_gen r) m = len r - i"
    and "k < len r - i \<Longrightarrow> gen_add_msb_masked m k = gen_add_msb_masked (start_gen r) (i + k) \<and> i + k < len r"
proof -
  have len: "unat (len r) = pos g (end_gen r) - pos g (start_gen r)"
    using assms(1) by (simp add: len_def unat_dist_ge)
  have i: "unat i \<le> pos g (end_gen r) - pos g (start_gen r)" using True len by (simp add: word_le_nat_alt)
  have m: "pos g m = pos g (start_gen r) + unat i" unfolding m_def by (intro pos_add64) (use i assms(1,2) in simp)
  show "gen_dist_msb_masked m (start_gen r) = i"
    using m by (simp add: word_unat_eq_iff unat_dist_ge [of g])
  have "pos g m \<le> pos g (end_gen r)" using m i assms(1) by linarith
  then have "unat (gen_dist_msb_masked (end_gen r) m) = pos g (end_gen r) - pos g m" by (rule unat_dist_ge)
  then show "gen_dist_msb_masked (end_gen r) m = len r - i"
    using m i True len by (simp add: word_unat_eq_iff unat_sub)
  show "gen_add_msb_masked m k = gen_add_msb_masked (start_gen r) (i + k) \<and> i + k < len r" if "k < len r - i"
  proof -
    have k: "unat k < unat (len r) - unat i" using that True by (simp add: word_less_nat_alt unat_sub)
    then have "unat i + unat k < 2 ^ 64" using len assms(2) by simp
    then have ik: "unat (i + k) = unat i + unat k" by (simp add: unat_word_ariths)
    have "pos g (gen_add_msb_masked m k) = pos g m + unat k"
      using k len m assms(2) by (intro pos_add64) simp
    moreover have "pos g (gen_add_msb_masked (start_gen r) (i + k)) = pos g (start_gen r) + unat (i + k)"
      using k len ik assms(2) by (intro pos_add64) simp
    ultimately have "pos g (gen_add_msb_masked m k) = pos g (gen_add_msb_masked (start_gen r) (i + k))"
      using m ik by simp
    moreover have "i + k < len r" using k ik by (simp add: word_less_nat_alt)
    ultimately show ?thesis using pos_inj [OF gen_add_masked gen_add_masked] by blast
  qed
qed

text \<open>
  Splitting a reservation panics exactly when the index is beyond its length; otherwise
  the two parts are as long as asked, adjacent, cover the range of the whole, keep its arming,
  and every slot of the whole is the slot of one of the parts.
\<close>
theorem split_covers:
  assumes "pos g (start_gen r) \<le> pos g (end_gen r)" and "pos g (end_gen r) < 2 ^ 62"
  shows "case split_at_mut r i of
      Panics \<Rightarrow> len r < i
    | Returns (left, right) \<Rightarrow> i \<le> len r \<and> len left = i \<and> len right = len r - i
        \<and> start_gen left = start_gen r \<and> end_gen left = start_gen right \<and> end_gen right = end_gen r
        \<and> armed left = armed r \<and> armed right = armed r \<and> \<not> published left \<and> \<not> published right
        \<and> (\<forall>k < len left. get_mut left k s = get_mut r k s)
        \<and> (\<forall>k < len right. get_mut right k s = get_mut r (i + k) s)"
proof (cases "i \<le> len r")
  case False
  then show ?thesis by (simp add: split_at_mut_def)
next
  case True
  let ?m = "gen_add_msb_masked (start_gen r) i"
  note at = split_point [OF assms True]
  let ?left = "\<lparr>start_gen = start_gen r, end_gen = ?m, published = False, armed = armed r\<rparr>"
  let ?right = "\<lparr>start_gen = ?m, end_gen = end_gen r, published = False, armed = armed r\<rparr>"
  have split: "split_at_mut r i = Returns (?left, ?right)" using True by (simp add: split_at_mut_def Let_def)
  have lens: "len ?left = i" "len ?right = len r - i" using at(1,2) by (simp_all add: len_def)
  have "get_mut ?left k s = get_mut r k s" if "k < i" for k
    using that True lens(1) by (simp add: get_mut_def not_le [symmetric] dual_order.strict_trans2)
  moreover have "get_mut ?right k s = get_mut r (i + k) s" if "k < len r - i" for k
    using that lens(2) at(3) [OF that] by (simp add: get_mut_def not_le)
  ultimately show ?thesis unfolding split using True lens by simp
qed

section \<open>Examples\<close>

text \<open>The reservation of both slots of a ring of two, the generations wrapping inside it.\<close>

definition demo_whole :: reservation where
  "demo_whole = \<lparr>start_gen = 2 ^ 63 - 1, end_gen = 1, published = False, armed = True\<rparr>"

definition demo_both :: "(nat \<times> nat call option) list" where
  "demo_both = [(0, Some (Reserve False 2))] @ steps 0 2"

lemma demo_reserved:
  "\<exists>s :: nat area. good (2 ^ 63 - 1) s \<and> read_gen s = 2 ^ 63 - 1 \<and> write_gen s = 1 \<and> free_gen s = 2 ^ 63 - 1"
proof -
  have "case sys_run True demo_both (start_at (2 ^ 63 - 1) 2 2) of
      Some S \<Rightarrow> (\<lambda>s. read_gen s = 2 ^ 63 - 1 \<and> write_gen s = 1 \<and> free_gen s = 2 ^ 63 - 1) (shared S)
        \<and> reserved S = 2
    | None \<Rightarrow> False" by code_simp
  from demo_good [OF this] show ?thesis by auto
qed

lemma demo_whole_range:
  "pos (2 ^ 63 - 1) (start_gen demo_whole) = 0" "pos (2 ^ 63 - 1) (end_gen demo_whole) = 2"
  "start_gen demo_whole AND MSB = 0" "end_gen demo_whole AND MSB = 0"
  by code_simp+

lemma reserve_result_witness:
  "\<exists>s :: nat area. good (2 ^ 63 - 1) s \<and> room s = 1 \<and> fst (reserve Cas 2 s) = Inl NoSpace"
proof -
  obtain s :: "nat area" where s: "good (2 ^ 63 - 1) s" "write_gen s = 0" "free_gen s = 2 ^ 63 - 1"
      "buffer_capacity s = 2" using demo_one_reader by blast
  have "unat (gen_dist_msb_masked 0 (2 ^ 63 - 1 :: gen)) = 1" by code_simp
  then have "room s = 1" using s by (simp add: room_def)
  with reserve_result [OF s(1), of 2] s show ?thesis by auto
qed

lemma iterator_fills_reservation_witness:
  "\<exists>(s :: nat area) it s'. good (2 ^ 63 - 1) s \<and> write_each [7, 8] (into_iter demo_whole) s = Returns (it, s') \<and>
     all_written it"
proof -
  obtain s :: "nat area" where s: "good (2 ^ 63 - 1) s" "read_gen s = 2 ^ 63 - 1" "write_gen s = 1"
    using demo_reserved by blast
  have p: "pos (2 ^ 63 - 1) (2 ^ 63 - 1 :: gen) = 0" "pos (2 ^ 63 - 1) (1 :: gen) = 2" by code_simp+
  have l: "length [7 :: nat, 8] = unat (len demo_whole)" by code_simp
  have "pos (2 ^ 63 - 1) (read_gen s) \<le> pos (2 ^ 63 - 1) (start_gen demo_whole)"
      "pos (2 ^ 63 - 1) (start_gen demo_whole) \<le> pos (2 ^ 63 - 1) (end_gen demo_whole)"
      "pos (2 ^ 63 - 1) (end_gen demo_whole) \<le> pos (2 ^ 63 - 1) (write_gen s)"
    unfolding demo_whole_range s(2,3) p by simp_all
  from iterator_fills_reservation [OF s(1) demo_whole_range(3,4) this l] s(1) show ?thesis by blast
qed

lemma split_covers_witness:
  "\<exists>left right. split_at_mut demo_whole 1 = Returns (left, right) \<and> len left = 1 \<and> len right = 1 \<and>
     get_mut right 0 (area_at 0 2 2 :: nat area) = get_mut demo_whole 1 (area_at 0 2 2 :: nat area)"
proof -
  have "pos (2 ^ 63 - 1) (start_gen demo_whole) \<le> pos (2 ^ 63 - 1) (end_gen demo_whole)"
      "pos (2 ^ 63 - 1) (end_gen demo_whole) < 2 ^ 62"
    unfolding demo_whole_range by simp_all
  note split = split_covers [OF this, of 1 "area_at 0 2 2 :: nat area"]
  have l: "len demo_whole = 2" by code_simp
  then have "split_at_mut demo_whole 1 \<noteq> Panics" by (simp add: split_at_mut_def Let_def)
  then obtain a b where ab: "split_at_mut demo_whole 1 = Returns (a, b)" by (cases "split_at_mut demo_whole 1") auto
  from split ab l have "get_mut b 0 (area_at 0 2 2 :: nat area) = get_mut demo_whole 1 (area_at 0 2 2 :: nat area)" by simp
  with split ab l show ?thesis by (intro exI [of _ a] exI [of _ b]) simp
qed

end
