(* ===== verification/Slices.thy ===== *)
theory Slices
  imports Delivery
begin

text \<open>
  What a reader sees: the slices of \<open>read\<close>, \<open>read_at_most\<close> and \<open>read_with_check\<close>, the three
  ways of looking into a slice, and what dropping it does; and the way of a message from a
  reservation to a slice.
\<close>

lemma unat_less64: "unat w < 2 ^ 64" for w :: "64 word"
  by (rule order_less_le_trans [OF unsigned_less]) simp

lemma upt_shift: "c \<le> n \<Longrightarrow> [c..<n] = map (\<lambda>k. k + c) [0..<n - c]" for c n :: nat
  using map_add_upt [of c "n - c"] by simp

section \<open>Publishing\<close>

lemma publish_Cas: "publish Cas r s =
    (if is_empty r then (Inr (), s)
     else if read_gen s = start_gen r then (Inr (), s\<lparr>read_gen := end_gen r\<rparr>)
     else (Inl (r\<lparr>published := False\<rparr>, CasFailed), s))"
  by (simp add: publish_def publish_slots_def is_empty_def)

lemma iter_publish_Cas: "iter_publish Cas it s =
    (if \<not> all_written it then (Panics, s)
     else if gen_gte_msb_masked (iter_start it) (iter_end it) then (Returns (Inr ()), s)
     else if read_gen s = iter_start it then (Returns (Inr ()), s\<lparr>read_gen := iter_end it\<rparr>)
     else (Returns (Inl (it\<lparr>iter_published := False\<rparr>, CasFailed)), s))"
  by (simp add: iter_publish_def publish_slots_def Let_def)

lemma run_loop_stuck_after:
  "body s = (Continue, s') \<Longrightarrow> body s' = (Continue, s') \<Longrightarrow> run_loop body s = None"
  by (metis run_loop_Continue run_loop_stuck)

lemma iter_publish_spin_alone:
  "iter_publish_spin it s =
     (if \<not> all_written it then Some (Panics, s)
      else if gen_gte_msb_masked (iter_start it) (iter_end it) then Some (Returns (), s)
      else if read_gen s = iter_start it then Some (Returns (), s\<lparr>read_gen := iter_end it\<rparr>)
      else None)"
proof -
  have "run_loop iter_publish_turn (it, s) = None"
    if "all_written it" "\<not> gen_gte_msb_masked (iter_start it) (iter_end it)" "read_gen s \<noteq> iter_start it"
    using that
    by (intro run_loop_stuck_after [where s' = "(it\<lparr>iter_published := False\<rparr>, s)"])
      (simp_all add: iter_publish_turn_def iter_publish_Cas all_written_def)
  moreover have "run_loop iter_publish_turn (it, s) =
      Some (if all_written it then Returns () else Panics, (it, snd (iter_publish Cas it s)))"
    if "\<not> all_written it \<or> gen_gte_msb_masked (iter_start it) (iter_end it) \<or> read_gen s = iter_start it"
    using that by (intro run_loop_Return) (auto simp: iter_publish_turn_def iter_publish_Cas)
  ultimately show ?thesis by (auto simp: iter_publish_spin_def iter_publish_Cas)
qed

text \<open>
  Publishing with spinning comes back exactly when the reservation is empty or it is its
  turn; run alone it otherwise spins for ever, since nobody else publishes what comes before.
  It never panics; the variant of the slot-by-slot iterator panics exactly when a slot has
  not been written.
\<close>
theorem publish_spin_ends:
  "publish_spin r s =
     (if is_empty r then Some (Returns (), s)
      else if read_gen s = start_gen r then Some (Returns (), s\<lparr>read_gen := end_gen r\<rparr>)
      else None)
   \<and> iter_publish_spin it s =
     (if \<not> all_written it then Some (Panics, s)
      else if gen_gte_msb_masked (iter_start it) (iter_end it) then Some (Returns (), s)
      else if read_gen s = iter_start it then Some (Returns (), s\<lparr>read_gen := iter_end it\<rparr>)
      else None)"
proof -
  have "run_loop publish_turn (r, s) = None" if "\<not> is_empty r" "read_gen s \<noteq> start_gen r"
    using that
    by (intro run_loop_stuck_after [where s' = "(r\<lparr>published := False\<rparr>, s)"])
      (simp_all add: publish_turn_def publish_Cas is_empty_def)
  moreover have "run_loop publish_turn (r, s) = Some (Returns (), (r, snd (publish Cas r s)))"
    if "is_empty r \<or> read_gen s = start_gen r"
    using that by (intro run_loop_Return) (auto simp: publish_turn_def publish_Cas)
  ultimately show ?thesis
    by (auto simp: publish_spin_def publish_Cas iter_publish_spin_alone)
qed

section \<open>Looking into a slice\<close>

definition shown :: "read_slice \<Rightarrow> 'a area \<Rightarrow> 'a maybe_uninit list" where
  "shown sl s = map (\<lambda>k. get_slot (gen_add_msb_masked (slice_start sl) (of_nat k)) s) [0..<unat (slice_len sl)]"

text \<open>A slice of the window: from a generation that is not freed to one that is published.\<close>

definition slice_in :: "gen \<Rightarrow> read_slice \<Rightarrow> 'a area \<Rightarrow> bool" where
  "slice_in g sl s \<longleftrightarrow> masked (slice_start sl) \<and> masked (slice_end sl) \<and>
     pos g (free_gen s) \<le> pos g (slice_start sl) \<and> pos g (slice_start sl) \<le> pos g (slice_end sl) \<and>
     pos g (slice_end sl) \<le> pos g (read_gen s)"

lemma ix_add: "ring_ok b cap \<Longrightarrow> o' < 2 ^ 62 \<Longrightarrow> o' + k < 2 ^ 62 \<Longrightarrow> ix b cap (o' + k) = (ix b cap o' + k) mod cap"
proof (cases "cap dvd 2 ^ 63")
  case True
  then show ?thesis by (simp add: ix_def mod_mod_cancel mod_add_left_eq add.assoc)
next
  case False
  moreover assume "ring_ok b cap" "o' < 2 ^ 62" "o' + k < 2 ^ 62"
  ultimately have "unat b + o' < 2 ^ 63" "unat b + (o' + k) < 2 ^ 63" by (auto simp: ring_ok_def)
  then show ?thesis by (simp add: ix_def mod_add_left_eq add.assoc)
qed

lemma slice_in_len:
  assumes "good g s" and "slice_in g sl s"
  shows "unat (slice_len sl) = pos g (slice_end sl) - pos g (slice_start sl)"
    and "unat (slice_len sl) \<le> unat (buffer_capacity s)" and "pos g (slice_end sl) < 2 ^ 62"
    and "slice_is_empty sl \<longleftrightarrow> slice_len sl = 0"
proof -
  show l: "unat (slice_len sl) = pos g (slice_end sl) - pos g (slice_start sl)"
    using assms(2) by (simp add: slice_in_def slice_len_def unat_dist_ge)
  show "unat (slice_len sl) \<le> unat (buffer_capacity s)"
    using assms(2) goodD(3,4) [OF assms(1)] unfolding l slice_in_def by linarith
  show e: "pos g (slice_end sl) < 2 ^ 62" using assms(2) goodD(6) [OF assms(1)] unfolding slice_in_def by linarith
  have "slice_is_empty sl \<longleftrightarrow> pos g (slice_end sl) \<le> pos g (slice_start sl)"
    using assms(2) e by (simp add: slice_is_empty_def slice_in_def gte_masked [of g])
  then show "slice_is_empty sl \<longleftrightarrow> slice_len sl = 0" using l by (simp add: unat_eq_0 [symmetric])
qed

lemma slice_slot:
  assumes "good g s" and "slice_in g sl s" and "k < unat (slice_len sl)"
  shows "get_slot (gen_add_msb_masked (slice_start sl) (of_nat k)) s = at_off g s (pos g (slice_start sl) + k)"
    and "ix g (unat (buffer_capacity s)) (pos g (slice_start sl) + k) =
      (unat (slice_start sl) mod unat (buffer_capacity s) + k) mod unat (buffer_capacity s)"
proof -
  note l = slice_in_len [OF assms(1,2)]
  have p: "pos g (slice_start sl) \<le> pos g (slice_end sl)" "masked (slice_start sl)"
    using assms(2) by (auto simp: slice_in_def)
  note r = range_pos [OF p(1) l(3), of k]
  have k: "k < unat (gen_dist_msb_masked (slice_end sl) (slice_start sl))"
    using assms(3) by (simp add: slice_len_def)
  show "get_slot (gen_add_msb_masked (slice_start sl) (of_nat k)) s = at_off g s (pos g (slice_start sl) + k)"
    using r [OF k] get_slot_at by metis
  have "ix g (unat (buffer_capacity s)) (pos g (slice_start sl)) = unat (slice_start sl) mod unat (buffer_capacity s)"
    using unat_gen [OF p(2), of g] by (simp add: ix_def)
  then show "ix g (unat (buffer_capacity s)) (pos g (slice_start sl) + k) =
      (unat (slice_start sl) mod unat (buffer_capacity s) + k) mod unat (buffer_capacity s)"
    using r(2) [OF k] l(3) assms(1) by (subst ix_add) (auto simp: good_def)
qed

lemma collect_from:
  "i \<le> unat (slice_len sl) \<Longrightarrow> unat (slice_len sl) - i < fuel \<Longrightarrow>
   collect fuel (sl, of_nat i) s = drop i (shown sl s)"
proof (induction fuel arbitrary: i)
  case (Suc fuel)
  have i64: "i < 2 ^ 64" using Suc.prems(1) unat_less64 [of "slice_len sl"] by linarith
  then have u: "unat (of_nat i :: usize) = i" by (rule unat_of_nat64)
  show ?case
  proof (cases "i < unat (slice_len sl)")
    case True
    then have "\<not> slice_len sl \<le> of_nat i" using u by (simp add: word_le_nat_alt)
    moreover have "collect fuel (sl, of_nat (Suc i)) s = drop (Suc i) (shown sl s)"
      using Suc.prems True by (intro Suc.IH) auto
    moreover have "drop i (shown sl s) = shown sl s ! i # drop (Suc i) (shown sl s)"
      using True by (intro Cons_nth_drop_Suc [symmetric]) (simp add: shown_def)
    ultimately show ?thesis using True
      by (simp add: slice_iter_next_def slice_get_def shown_def add.commute)
  next
    case False
    then have "slice_len sl \<le> of_nat i" using u by (simp add: word_le_nat_alt)
    then show ?thesis using False Suc.prems(1)
      by (simp add: slice_iter_next_def slice_get_def shown_def)
  qed
qed simp

lemma raw_parts_map:
  "unat at + unat n \<le> length (buffer s) \<Longrightarrow>
   raw_parts at n s = map (\<lambda>k. buffer s ! (unat at + k)) [0..<unat n]"
  by (rule nth_equalityI) (simp_all add: raw_parts_def)

lemma shown_map:
  assumes "good g s" and "slice_in g sl s"
  shows "shown sl s = map (\<lambda>k. buffer s ! ((unat (slice_start sl mod buffer_capacity s) + k) mod unat (buffer_capacity s)))
    [0..<unat (slice_len sl)]"
  using slice_slot [OF assms] by (simp add: shown_def at_off_def unat_mono_mod)

lemma as_slices_shown:
  assumes g: "good g s" and sl: "slice_in g sl s"
  defines "k \<equiv> unat (buffer_capacity s) - unat (slice_start sl mod buffer_capacity s)"
  shows "as_slices sl s = (take k (shown sl s), drop k (shown sl s))"
proof -
  let ?cap = "unat (buffer_capacity s)" and ?n = "unat (slice_len sl)"
  let ?st = "slice_start sl mod buffer_capacity s"
  let ?h = "\<lambda>k. buffer s ! ((unat ?st + k) mod ?cap)"
  note l = slice_in_len [OF g sl] and cap = goodD(13,14) [OF g] and all = shown_map [OF g sl]
  have len: "length (buffer s) = ?cap" using g by (simp add: good_def)
  have il: "unat ?st < ?cap" using cap(2) by (simp add: unat_mono_mod)
  have sum: "unat (?st + slice_len sl) = unat ?st + ?n"
    using il l(2) cap(1) by (subst unat_add_lem [THEN iffD1]) simp_all
  consider (empty) "slice_is_empty sl" | (fits) "\<not> slice_is_empty sl" "unat ?st + ?n \<le> ?cap"
    | (wraps) "\<not> slice_is_empty sl" "?cap < unat ?st + ?n" by linarith
  then show ?thesis
  proof cases
    case empty
    then show ?thesis using l(4) by (simp add: as_slices_def shown_def)
  next
    case fits
    have "as_slices sl s = (raw_parts ?st (slice_len sl) s, [])"
      using fits sum by (simp add: as_slices_def Let_def slice_len_def word_le_nat_alt)
    moreover have "raw_parts ?st (slice_len sl) s = shown sl s"
      using fits len by (subst raw_parts_map) (auto simp: all)
    moreover have "length (shown sl s) \<le> k" using fits by (simp add: shown_def k_def)
    ultimately show ?thesis by simp
  next
    case wraps
    let ?f = "buffer_capacity s - ?st"
    have f: "unat ?f = k" using il by (simp add: unat_sub word_le_nat_alt k_def)
    have k: "k \<le> ?n" "unat ?st + k = ?cap" using wraps il by (simp_all add: k_def)
    have r: "unat (slice_len sl - ?f) = ?n - k" using f k(1) by (simp add: unat_sub word_le_nat_alt)
    have "raw_parts ?st ?f s = map ?h [0..<k]"
      using il len f k(2) by (subst raw_parts_map) auto
    also have "\<dots> = take k (shown sl s)" using k(1) by (simp add: all take_map)
    finally have first: "raw_parts ?st ?f s = take k (shown sl s)" .
    have "drop k (shown sl s) = map ?h (map (\<lambda>j. j + k) [0..<?n - k])"
      unfolding all drop_map by (simp add: upt_shift [OF k(1)])
    also have "\<dots> = map (\<lambda>j. buffer s ! j) [0..<?n - k]"
      unfolding map_map using il l(2) k(2) by (intro map_cong) (auto simp: add.assoc [symmetric] add.commute [of _ k])
    also have "\<dots> = raw_parts 0 (slice_len sl - ?f) s"
      using l(2) len r by (subst raw_parts_map) auto
    finally show ?thesis
      using wraps sum first by (simp add: as_slices_def Let_def slice_len_def word_le_nat_alt)
  qed
qed

lemma shown_at_off:
  assumes "good g s" and "slice_in g sl s"
  shows "shown sl s = map (at_off g s) [pos g (slice_start sl)..<pos g (slice_end sl)]"
  by (rule nth_equalityI) (simp_all add: shown_def slice_in_len [OF assms] slice_slot [OF assms])

text \<open>
  C32: the three ways of looking into a slice agree with the ring.  For a slice of the window,
  from a generation that is not freed to one that is published, as \<open>read\<close> and
  \<open>read_at_most\<close> return it: the iterator yields the contents of the ring at the positions
  from its start to its end, in order, and then ends; the first half of \<open>as_slices\<close> is what
  lies before the end of the ring and the second what wrapped around it; and \<open>get\<close> with an
  index is the content of the ring that many positions after the start, or \<open>None\<close> from the
  end of the slice on.
\<close>
theorem slice_views_agree:
  assumes g: "good g s" and sl: "slice_in g sl s"
    and fuel: "pos g (slice_end sl) - pos g (slice_start sl) < fuel"
  defines "messages \<equiv> map (at_off g s) [pos g (slice_start sl)..<pos g (slice_end sl)]"
    and "before_wrap \<equiv> unat (buffer_capacity s) - unat (slice_start sl) mod unat (buffer_capacity s)"
  shows "collect fuel (slice_iter sl) s = messages
    \<and> as_slices sl s = (take before_wrap messages, drop before_wrap messages)
    \<and> slice_get sl i s =
        (if unat i < pos g (slice_end sl) - pos g (slice_start sl)
         then Some (at_off g s (pos g (slice_start sl) + unat i)) else None)"
proof (intro conjI)
  note l = slice_in_len [OF g sl] and all = shown_at_off [OF g sl]
  show "collect fuel (slice_iter sl) s = messages"
    using collect_from [of 0 sl fuel s] fuel by (simp add: slice_iter_def messages_def l all)
  show "as_slices sl s = (take before_wrap messages, drop before_wrap messages)"
    using as_slices_shown [OF g sl] by (simp add: messages_def before_wrap_def all unat_mono_mod)
  show "slice_get sl i s =
      (if unat i < pos g (slice_end sl) - pos g (slice_start sl)
       then Some (at_off g s (pos g (slice_start sl) + unat i)) else None)"
    using slice_slot(1) [OF g sl, of "unat i"] l(1) by (simp add: slice_get_def word_le_nat_alt)
qed

section \<open>Reading and dropping\<close>

lemma read_at_most_good:
  assumes g: "good g s" and c: "get_reader_gen r s = Some c"
  obtains sl where "read_at_most r n s = Returns sl" and "slice_in g sl s" and "reader sl = r" and "slice_armed sl"
    and "slice_start sl = c AND NOT MSB"
    and "pos g (slice_end sl) = pos g c + min (pos g (read_gen s) - pos g c) (unat n)"
proof -
  let ?st = "c AND NOT MSB"
  let ?k = "min (gen_dist_msb_masked (read_gen s) ?st) n"
  let ?sl = "\<lparr>reader = r, slice_start = ?st, slice_end = gen_add_msb_masked ?st ?k, slice_armed = True\<rparr>"
  from c obtain p where p: "get_reader_ptr r s = Some p" "load_gen p s = c" by (auto simp: reader_gen_ptr)
  have in_range: "pos g (last_valid_gen s) \<le> pos g c" "pos g c \<le> pos g (read_gen s)"
    using found_slot(3,4) [OF g p(1)] p(2) by auto
  have r62: "pos g (read_gen s) < 2 ^ 62" by (rule goodD(6) [OF g])
  have k: "unat ?k = min (pos g (read_gen s) - pos g c) (unat n)"
    using in_range by (simp add: unat_min_word unat_dist_ge [of g])
  then have le: "pos g c + unat ?k \<le> pos g (read_gen s)" using in_range by linarith
  then have e: "pos g (gen_add_msb_masked ?st ?k) = pos g c + unat ?k"
    using r62 by (subst pos_add64) simp_all
  have "slice_in g ?sl s" using e le in_range goodD(1) [OF g] by (simp add: slice_in_def masked_def)
  moreover have "read_at_most r n s = Returns ?sl"
    using c by (simp add: read_at_most_def get_gen_def strip_eq Let_def)
  ultimately show ?thesis using e k by (intro that [of ?sl]) simp_all
qed

lemma read_is_read_at_most:
  assumes g: "good g s" and "get_reader_gen r s = Some c"
  shows "read r s = read_at_most r USIZE_MAX s"
proof -
  from assms obtain sl where sl: "read_at_most r USIZE_MAX s = Returns sl" "slice_in g sl s" "reader sl = r"
      "slice_armed sl" "slice_start sl = c AND NOT MSB"
      "pos g (slice_end sl) = pos g c + min (pos g (read_gen s) - pos g c) (unat USIZE_MAX)"
    by (rule read_at_most_good)
  have big: "unat USIZE_MAX = 2 ^ 64 - 1" by (simp add: unsigned_minus_1_eq_mask mask_eq_exp_minus_1)
  have "pos g c \<le> pos g (read_gen s)" using assms found_slot(4) [OF g] by (auto simp: reader_gen_ptr)
  then have "pos g (slice_end sl) = pos g (read_gen s)"
    using sl(6) goodD(6) [OF g] unfolding big by (simp add: min_def)
  then have "slice_end sl = read_gen s"
    by (rule pos_inj [rotated 2]) (use sl(2) goodD(10) [OF g] in \<open>simp_all add: slice_in_def masked_def\<close>)
  with sl assms(2) show ?thesis by (simp add: read_def get_gen_def strip_eq)
qed

lemma set_reader_gen_frame [simp]:
  "read_gen (snd (set_reader_gen r v s)) = read_gen s"
  "buffer (snd (set_reader_gen r v s)) = buffer s"
  "buffer_capacity (snd (set_reader_gen r v s)) = buffer_capacity s"
  by (simp_all add: set_reader_gen_def set_gen_from_def split: option.splits)

lemma shown_cong:
  "buffer s' = buffer s \<Longrightarrow> buffer_capacity s' = buffer_capacity s \<Longrightarrow> shown sl s' = shown sl s"
  by (simp add: shown_def get_slot_def slot_index_def)

text \<open>Dropping a slice of an active reader that is still where the slice began.\<close>

lemma drop_slice_moves:
  assumes g: "good g s" and r: "id_ok r" "reader sl = r" and c: "get_reader_gen r s = Some c" "\<not> is_suspended c"
    and sl: "slice_in g sl s" "slice_armed sl" "slice_start sl = c"
  obtains s' where "drop_slice sl s = (Returns (), s')" and "get_reader_gen r s' = Some (slice_end sl)"
    and "\<forall>q. id_ok q \<and> q \<noteq> r \<longrightarrow> get_reader_gen q s' = get_reader_gen q s"
    and "read_gen s' = read_gen s" and "buffer s' = buffer s" and "buffer_capacity s' = buffer_capacity s"
proof -
  let ?s' = "snd (set_reader_gen r (slice_end sl) s)"
  have m: "masked c" "masked (slice_end sl)" using c(2) sl(1) by (auto simp: masked_active slice_in_def)
  have e62: "pos g (slice_end sl) < 2 ^ 62" using slice_in_len(3) [OF g sl(1)] .
  have d: "drop_slice sl s = (Returns (), ?s')"
    using r(2) sl c m(1) by (simp add: drop_slice_def get_gen_def strip_active)
  have "get_reader_gen r ?s' = Some (slice_end sl) \<and> (\<forall>q. id_ok q \<and> q \<noteq> r \<longrightarrow> get_reader_gen q ?s' = get_reader_gen q s)"
  proof (cases "pos g (slice_end sl) \<le> pos g c")
    case True
    then have "pos g (slice_end sl) = pos g c" using sl by (auto simp: slice_in_def)
    then have "slice_end sl = c" by (rule pos_inj [rotated 2]) (use m in \<open>simp_all add: masked_def\<close>)
    moreover have "set_reader_gen r (slice_end sl) s = (Inl InvalidGeneration, s)"
      using set_reader_gen_alone [OF g e62 r(1)] c True by simp
    ultimately show ?thesis using c by simp
  next
    case False
    then show ?thesis using set_reader_gen_alone [OF g e62 r(1)] c by auto
  qed
  then show ?thesis using d by (intro that [of ?s']) simp_all
qed

text \<open>
  C31: for an active reader, \<open>read_at_most(n)\<close> shows the first \<open>n\<close> messages \<open>read\<close> would show.
  Dropping its slice never panics and moves the reader exactly past them: the next \<open>read\<close>
  shows the rest, and no other reader has moved.
\<close>
theorem read_in_pieces:
  assumes g: "good g s" and r: "id_ok r" and c: "get_reader_gen r s = Some c" "\<not> is_suspended c"
  shows "\<exists>every piece rest s'. read r s = Returns every \<and> read_at_most r n s = Returns piece
    \<and> unat (slice_len every) = pos g (read_gen s) - pos g c
    \<and> shown piece s = take (unat n) (shown every s)
    \<and> drop_slice piece s = (Returns (), s') \<and> get_reader_gen r s' = Some (slice_end piece)
    \<and> (\<forall>q. id_ok q \<and> q \<noteq> r \<longrightarrow> get_reader_gen q s' = get_reader_gen q s)
    \<and> read r s' = Returns rest \<and> shown rest s' = drop (unat n) (shown every s)"
proof -
  have strip: "c AND NOT MSB = c" using c(2) by (simp add: not_suspended_masked strip_id)
  have le: "pos g c \<le> pos g (read_gen s)" using c(1) found_slot(4) [OF g] by (auto simp: reader_gen_ptr)
  let ?every = "\<lparr>reader = r, slice_start = c, slice_end = read_gen s, slice_armed = True\<rparr>"
  have every: "read r s = Returns ?every" using c(1) strip by (simp add: read_def get_gen_def strip_eq)
  obtain piece where piece: "read_at_most r n s = Returns piece" "slice_in g piece s"
      "reader piece = r" "slice_armed piece" "slice_start piece = c AND NOT MSB"
      "pos g (slice_end piece) = pos g c + min (pos g (read_gen s) - pos g c) (unat n)"
    using g c(1) by (rule read_at_most_good)
  have sl: "slice_start piece = c" using piece(5) strip by simp
  have in_every: "slice_in g ?every s" using piece(2) le sl goodD(10) [OF g] by (simp add: slice_in_def)
  obtain s' where s': "drop_slice piece s = (Returns (), s')" "get_reader_gen r s' = Some (slice_end piece)"
      "\<forall>q. id_ok q \<and> q \<noteq> r \<longrightarrow> get_reader_gen q s' = get_reader_gen q s"
      "read_gen s' = read_gen s" "buffer s' = buffer s" "buffer_capacity s' = buffer_capacity s"
    using g r piece(3) c piece(2,4) sl by (rule drop_slice_moves)
  let ?rest = "\<lparr>reader = r, slice_start = slice_end piece, slice_end = read_gen s, slice_armed = True\<rparr>"
  have rest: "read r s' = Returns ?rest"
    using s'(2,4) piece(2) by (simp add: read_def get_gen_def strip_eq strip_id masked_def slice_in_def)
  have in_rest: "slice_in g ?rest s" using piece(2) goodD(10) [OF g] by (auto simp: slice_in_def)
  have len: "unat (slice_len ?every) = pos g (read_gen s) - pos g c"
    using slice_in_len(1) [OF g in_every] by simp
  have all: "shown ?every s = map (at_off g s) [pos g c..<pos g (read_gen s)]"
    using shown_at_off [OF g in_every] by simp
  have "shown piece s = take (unat n) (shown ?every s)"
    unfolding all shown_at_off [OF g piece(2)] piece(6) sl using le by (simp add: take_map min_def)
  moreover have "shown ?rest s' = drop (unat n) (shown ?every s)"
    unfolding shown_cong [OF s'(5,6)] all shown_at_off [OF g in_rest] using le piece(6)
    by (simp add: drop_map min_def)
  ultimately show ?thesis using every piece(1) len s'(1-3) rest by blast
qed

section \<open>Reading with a check for writers\<close>

text \<open>
  \<open>read_with_check\<close>, whatever other threads do between its three looks at the area: it
  gives up only if no writer was left when it looked and no message was there for the reader
  afterwards; a slice it returns shows at least one message and will advance the reader, or
  it is empty, disarmed and there still was a writer.
\<close>
theorem read_with_check_result:
  assumes g: "good g s1" "good g s3" and c: "get_reader_gen r s1 = Some c" "get_reader_gen r s3 = Some c"
  shows "\<exists>res. read_with_check r s1 s2 s3 = Returns res \<and>
    (case res of
       Inl ReadError \<Rightarrow> get_writers_count s2 = 0 \<and> pos g (read_gen s1) = pos g c \<and> pos g (read_gen s3) = pos g c
     | Inr sl \<Rightarrow>
         slice_armed sl \<and> 0 < unat (slice_len sl) \<and> (read r s1 = Returns sl \<or> read r s3 = Returns sl)
         \<or> \<not> slice_armed sl \<and> slice_len sl = 0 \<and> get_writers_count s2 \<noteq> 0 \<and> pos g (read_gen s1) = pos g c)"
proof -
  let ?sl = "\<lambda>s. \<lparr>reader = r, slice_start = c AND NOT MSB, slice_end = read_gen s, slice_armed = True\<rparr>"
  have read: "read r s1 = Returns (?sl s1)" "read r s3 = Returns (?sl s3)"
    using c by (simp_all add: read_def get_gen_def strip_eq)
  have none: "slice_len (?sl s) = 0 \<longleftrightarrow> pos g (read_gen s) = pos g c"
    if "good g s" "get_reader_gen r s = Some c" for s
  proof -
    have le: "pos g c \<le> pos g (read_gen s)" using found_slot(4) [OF that(1)] that(2) by (auto simp: reader_gen_ptr)
    then have "unat (slice_len (?sl s)) = pos g (read_gen s) - pos g c" by (simp add: slice_len_def unat_dist_ge [of g])
    then show ?thesis using le by (simp add: unat_eq_0 [symmetric])
  qed
  note n1 = none [OF g(1) c(1)] and n3 = none [OF g(2) c(2)]
  consider (first) "slice_len (?sl s1) \<noteq> 0"
    | (second) "slice_len (?sl s1) = 0" "get_writers_count s2 = 0" "slice_len (?sl s3) \<noteq> 0"
    | (gone) "slice_len (?sl s1) = 0" "get_writers_count s2 = 0" "slice_len (?sl s3) = 0"
    | (wait) "slice_len (?sl s1) = 0" "get_writers_count s2 \<noteq> 0" by blast
  then show ?thesis
  proof cases
    case first
    then show ?thesis using read by (simp add: read_with_check_def unat_gt_0)
  next
    case second
    then show ?thesis using read by (simp add: read_with_check_def into_raw_parts_def unat_gt_0)
  next
    case gone
    then show ?thesis using read n1 n3 by (simp add: read_with_check_def into_raw_parts_def)
  next
    case wait
    then show ?thesis using read n1
      by (simp add: read_with_check_def into_raw_parts_def new_disarmed_def slice_len_def gen_dist_msb_masked_def)
  qed
qed

section \<open>From a writer to a reader\<close>

lemma good_counters:
  assumes g: "good g s" and m: "masked w" "masked r"
    and "pos g (read_gen s) \<le> pos g r" "pos g r \<le> pos g w" "pos g w < 2 ^ 62"
    and "pos g w \<le> pos g (free_gen s) + unat (buffer_capacity s)"
  shows "good g (s\<lparr>write_gen := w, read_gen := r\<rparr>)"
proof -
  have "pos g (cell_at i s) \<le> pos g r" if "i < length (slots (reader_gens s))" for i
    using g that assms(4) by (auto simp: good_def ord_inv_def intro: order_trans)
  then show ?thesis using assms goodD(1,2) [OF g]
    by (auto simp: good_def reg_inv_def free_suspended_def ord_inv_def cell_at_def window_def)
qed

lemma into_iter_fields [simp]:
  "iter_start (into_iter r) = start_gen r" "iter_end (into_iter r) = end_gen r"
  "cursor (into_iter r) = start_gen r" "written_count (into_iter r) = 0" "total (into_iter r) = len r"
  by (simp_all add: into_iter_def)

lemma get_reader_gen_cong: "reader_gens s' = reader_gens s \<Longrightarrow> get_reader_gen r s' = get_reader_gen r s"
  by (cases "find_id r (reader_gens s)") (simp_all add: get_reader_gen_def get_reader_ptr_find load_gen_cong [of s' s])

text \<open>Publishing what was filled: what a registered reader sees afterwards.\<close>

lemma shown_after_publish:
  assumes g: "good g s" "good g s'" and c: "get_reader_gen r s = Some c"
    and table: "reader_gens s' = reader_gens s" and rd: "pos g (read_gen s') = pos g (read_gen s) + length vs"
    and old: "\<And>off. pos g (free_gen s) \<le> off \<Longrightarrow> off < pos g (read_gen s) \<Longrightarrow> at_off g s' off = at_off g s off"
    and new: "\<And>k. k < length vs \<Longrightarrow> at_off g s' (pos g (read_gen s) + k) = Init (vs ! k)"
  shows "\<exists>before after. read r s = Returns before \<and> read r s' = Returns after
    \<and> shown after s' = shown before s @ map Init vs"
proof -
  have c': "get_reader_gen r s' = Some c"
    using c get_reader_gen_cong [OF table] by simp
  obtain before where b: "read r s = Returns before" "slice_in g before s"
    using read_is_read_at_most [OF g(1) c] read_at_most_good [OF g(1) c] by metis
  obtain after where a: "read r s' = Returns after" "slice_in g after s'"
    using read_is_read_at_most [OF g(2) c'] read_at_most_good [OF g(2) c'] by metis
  have ends: "slice_start before = slice_start after" "slice_end before = read_gen s" "slice_end after = read_gen s'"
    using a(1) b(1) c c' by (auto simp: read_def get_gen_def)
  let ?p = "pos g (slice_start before)"
  have le: "pos g (free_gen s) \<le> ?p" "?p \<le> pos g (read_gen s)" using b(2) ends by (auto simp: slice_in_def)
  have "shown after s' = map (at_off g s') [?p..<pos g (read_gen s) + length vs]"
    using shown_at_off [OF g(2) a(2)] ends rd by simp
  also have "\<dots> = map (at_off g s') [?p..<pos g (read_gen s)] @
      map (at_off g s') [pos g (read_gen s)..<pos g (read_gen s) + length vs]"
    by (subst upt_add_eq_append [OF le(2)]) simp
  also have "map (at_off g s') [?p..<pos g (read_gen s)] = shown before s"
    using shown_at_off [OF g(1) b(2)] ends(2) old le(1) by (auto intro!: map_cong)
  also have "map (at_off g s') [pos g (read_gen s)..<pos g (read_gen s) + length vs] = map Init vs"
    by (rule nth_equalityI) (simp_all add: new)
  finally show ?thesis using a(1) b(1) by blast
qed

text \<open>A reservation filled slot by slot: what is in the ring, and that it is published at once.\<close>

lemma filled_is_published:
  assumes g: "good g s" and idle: "write_gen s = read_gen s" and n: "unat n = length vs" "length vs \<le> room s"
    and bound: "pos g (write_gen s) + length vs < 2 ^ 62"
  defines "w \<equiv> gen_add_msb_masked (write_gen s) n"
  shows "\<exists>it s2. write_each vs (into_iter \<lparr>start_gen = write_gen s, end_gen = w, published = False, armed = True\<rparr>)
        (s\<lparr>write_gen := w\<rparr>) = Returns (it, s2)
    \<and> iter_publish_spin it s2 = Some (Returns (), s2\<lparr>write_gen := w, read_gen := w\<rparr>)
    \<and> good g (s2\<lparr>write_gen := w, read_gen := w\<rparr>) \<and> s2 = s\<lparr>write_gen := w, buffer := buffer s2\<rparr>
    \<and> (\<forall>off. pos g (free_gen s) \<le> off \<longrightarrow> off < pos g w \<longrightarrow> at_off g s2 off =
         (if pos g (write_gen s) \<le> off then Init (vs ! (off - pos g (write_gen s))) else at_off g s off))"
proof -
  let ?res = "\<lparr>start_gen = write_gen s, end_gen = w, published = False, armed = True\<rparr>"
  let ?s1 = "s\<lparr>write_gen := w\<rparr>"
  have w: "pos g w = pos g (write_gen s) + length vs" "masked w"
    using n bound unfolding w_def by (subst pos_add64) (simp_all add: masked_def)
  have cap: "pos g w \<le> pos g (free_gen s) + unat (buffer_capacity s)"
    using w n(2) used_dist [OF g] goodD(1-3) [OF g] unfolding room_def by linarith
  then have g1: "good g ?s1"
    using good_counters [OF g, of w "read_gen s"] w bound goodD(3,10) [OF g] by simp
  have free: "pos g (free_gen s) \<le> pos g (write_gen s)" using goodD(1-3) [OF g] by linarith
  obtain it s2 where fill: "write_each vs (into_iter ?res) ?s1 = Returns (it, s2)"
      "it = into_iter ?res\<lparr>cursor := w, written_count := of_nat (length vs)\<rparr>"
      "s2 = ?s1\<lparr>buffer := buffer s2\<rparr>" "good g s2"
      "\<And>off. pos g (free_gen s) \<le> off \<Longrightarrow> off < pos g w \<Longrightarrow> at_off g s2 off =
         (if pos g (write_gen s) \<le> off \<and> off < pos g w
          then Init (vs ! (off - pos g (write_gen s))) else at_off g ?s1 off)"
    using write_each_fills [OF g1, of "into_iter ?res" vs] w free goodD(9) [OF g] by (auto cong: if_cong)
  have s2: "read_gen s2 = write_gen s" "write_gen s2 = w" "free_gen s2 = free_gen s" "buffer_capacity s2 = buffer_capacity s"
    by ((subst fill(3), simp add: idle)+)
  let ?s3 = "s2\<lparr>write_gen := w, read_gen := w\<rparr>"
  have g3: "good g ?s3" using w cap bound n(2) by (intro good_counters [OF fill(4)]) (simp_all add: s2)
  have "total it = n" using fill(2) w by (simp add: len_def word_unat_eq_iff unat_dist_ge [of g] n)
  moreover have "of_nat (length vs) = n" using n(1) [symmetric] by simp
  ultimately have "all_written it" using fill(2) by (simp add: all_written_def)
  moreover have "?s3 = s2" if "gen_gte_msb_masked (write_gen s) w"
  proof -
    have "pos g w \<le> pos g (write_gen s)" using that w(1) bound by (simp add: gte_masked [of g])
    then have "pos g (write_gen s) = pos g w" using w(1) by simp
    then have "write_gen s = w"
      by (rule pos_inj [rotated 2]) (use w(2) goodD(9) [OF g] in \<open>simp_all add: masked_def\<close>)
    then show ?thesis using s2 by simp
  qed
  ultimately have "iter_publish_spin it s2 = Some (Returns (), ?s3)"
    using fill(2) s2 by (auto simp: iter_publish_spin_alone)
  moreover have "at_off g ?s1 = at_off g s" by (simp add: fun_eq_iff at_off_def)
  ultimately show ?thesis using fill(1,3,5) g3 by (intro exI [of _ it] exI [of _ s2]) (simp cong: if_cong)
qed

text \<open>
  C24: the broadcast itself.  When nothing is reserved ahead and there is room, a writer that
  reserves as many slots as it has messages, fills them one by one and publishes, does so
  without an error or a panic and without spinning; and any registered reader, wherever it
  stands, then sees exactly what it saw before followed by the new messages in order.
\<close>
theorem broadcast_reaches_reader:
  assumes g: "good g s" and c: "get_reader_gen r s = Some c" and idle: "write_gen s = read_gen s"
    and n: "unat n = length vs" "length vs \<le> room s" and bound: "pos g (write_gen s) + length vs < 2 ^ 62"
  shows "\<exists>res s1 it s2 s3 before after. reserve Cas n s = (Inr res, s1)
    \<and> write_each vs (into_iter res) s1 = Returns (it, s2)
    \<and> iter_publish_spin it s2 = Some (Returns (), s3)
    \<and> read r s = Returns before \<and> read r s3 = Returns after
    \<and> shown after s3 = shown before s @ map Init vs"
proof -
  let ?w = "gen_add_msb_masked (write_gen s) n"
  let ?res = "\<lparr>start_gen = write_gen s, end_gen = ?w, published = False, armed = True\<rparr>"
  let ?s1 = "s\<lparr>write_gen := ?w\<rparr>"
  have w: "pos g ?w = pos g (write_gen s) + length vs" using n bound by (subst pos_add64) simp_all
  have res: "reserve Cas n s = (Inr ?res, ?s1)" using reserve_grabs [OF g, of n] n by simp
  have free: "pos g (free_gen s) \<le> pos g (write_gen s)" using goodD(1-3) [OF g] by linarith
  from filled_is_published [OF g idle n bound] obtain it s2 where
    fill: "write_each vs (into_iter ?res) ?s1 = Returns (it, s2)"
      "iter_publish_spin it s2 = Some (Returns (), s2\<lparr>write_gen := ?w, read_gen := ?w\<rparr>)"
      "good g (s2\<lparr>write_gen := ?w, read_gen := ?w\<rparr>)" "s2 = s\<lparr>write_gen := ?w, buffer := buffer s2\<rparr>"
      "\<And>off. pos g (free_gen s) \<le> off \<Longrightarrow> off < pos g ?w \<Longrightarrow> at_off g s2 off =
         (if pos g (write_gen s) \<le> off then Init (vs ! (off - pos g (write_gen s))) else at_off g s off)"
    by blast
  let ?s3 = "s2\<lparr>write_gen := ?w, read_gen := ?w\<rparr>"
  have s2: "free_gen s2 = free_gen s" "buffer_capacity s2 = buffer_capacity s" "reader_gens s2 = reader_gens s"
    by ((subst fill(4), simp)+)
  have at3: "at_off g ?s3 = at_off g s2" by (simp add: fun_eq_iff at_off_def)
  have "\<exists>before after. read r s = Returns before \<and> read r ?s3 = Returns after
      \<and> shown after ?s3 = shown before s @ map Init vs"
    using w fill(5) free
    by (intro shown_after_publish [OF g fill(3) c]) (simp_all add: s2 idle [symmetric] at3)
  then show ?thesis using res fill(1,2) by blast
qed

section \<open>Where the interface lets go of the guarantees\<close>


text \<open>
  An example: \<open>resume_at\<close> takes any entry generation that is not too old, also one that lies ahead of
  everything published.  A slice read then says that it is empty and that its length is
  almost the whole range of generations; its \<open>get\<close> hands out a slot that was never written.
\<close>
theorem resume_at_ahead_reads_unwritten:
  "case area 2 2 of
     Some (Returns (r, s)) \<Rightarrow>
       (case resume_at r 5 (snd (suspend r s)) of
          Some (res, s') \<Rightarrow>
            (case read r (s' :: nat area) of
               Returns sl \<Rightarrow> res = Inr True \<and> slice_is_empty sl \<and> slice_len sl = 2 ^ 63 - 5
                 \<and> slice_get sl 0 s' = Some Uninit
             | Panics \<Rightarrow> False)
        | None \<Rightarrow> False)
   | _ \<Rightarrow> False"
  by code_simp

lemma mod_add_cancel:
  fixes a :: nat
  assumes "(a + i) mod n = (a + k) mod n"
  shows "i mod n = k mod n"
proof -
  from assms have "(int a + int i) mod int n = (int a + int k) mod int n"
    by (simp only: of_nat_add [symmetric] of_nat_mod [symmetric])
  then have "int i mod int n = int k mod int n" by (simp add: mod_eq_dvd_iff)
  then show ?thesis by (simp only: of_nat_mod [symmetric] of_nat_eq_iff)
qed

text \<open>
  C34: the index \<open>generation % capacity\<close> keeps the slots of a reservation apart across the
  wrap-around of the generations exactly for the capacities that divide their number, the
  powers of two: only for these is a writer that reserves an empty ring as a whole given as many
  different slots as messages wherever the generations stand.
\<close>
theorem capacities_that_survive_the_wrap:
  assumes cap: "0 < unat cap" "unat cap < 2 ^ 63"
  shows "(\<forall>g. g AND MSB = 0 \<longrightarrow>
      (\<exists>res s. reserve Cas cap (area_at g cap rc :: 'a area) = (Inr res, s) \<and> len res = cap
        \<and> (\<forall>i < cap. \<forall>k < cap. i \<noteq> k \<longrightarrow>
             slot_index (gen_add_msb_masked (start_gen res) i) s \<noteq> slot_index (gen_add_msb_masked (start_gen res) k) s)))
    \<longleftrightarrow> unat cap dvd 2 ^ 63"
proof -
  let ?s = "\<lambda>g. area_at g cap rc\<lparr>write_gen := gen_add_msb_masked g cap\<rparr> :: 'a area"
  let ?r = "\<lambda>g. \<lparr>start_gen = g, end_gen = gen_add_msb_masked g cap, published = False, armed = True\<rparr>"
  have res: "reserve Cas cap (area_at g cap rc) = (Inr (?r g), ?s g)" for g
    by (simp add: reserve_def try_reserve_slots_def reserve_from_def grab_def area_at_def available_slots_def
      gen_dist_msb_masked_def Let_def)
  have add: "pos g (gen_add_msb_masked g i) = unat i" if "unat i < 2 ^ 63" for g i :: gen
    using that by (subst pos_add64) simp_all
  have len: "len (?r g) = cap" if "g AND MSB = 0" for g
    using add [OF cap(2), of g] that
    by (simp add: len_def word_unat_eq_iff unat_dist_ge [of g])
  have index: "unat (slot_index (gen_add_msb_masked g i) (?s g)) = (unat g + unat i) mod 2 ^ 63 mod unat cap" for g i
  proof -
    have "uint (gen_add_msb_masked g i) = (uint g + uint i) mod 2 ^ 63" by (simp add: uint_add_masked)
    then have "int (unat (gen_add_msb_masked g i)) = int ((unat g + unat i) mod 2 ^ 63)"
      by (simp add: of_nat_mod)
    then have "unat (gen_add_msb_masked g i) = (unat g + unat i) mod 2 ^ 63" by (simp only: of_nat_eq_iff)
    then show ?thesis by (simp add: slot_index_def area_at_def unat_mod_distrib)
  qed
  have apart: "slot_index (gen_add_msb_masked g i) (?s g) \<noteq> slot_index (gen_add_msb_masked g k) (?s g)"
    if d: "unat cap dvd 2 ^ 63" and ik: "i < cap" "k < cap" "i \<noteq> k" for g i k
  proof
    assume "slot_index (gen_add_msb_masked g i) (?s g) = slot_index (gen_add_msb_masked g k) (?s g)"
    then have "(unat g + unat i) mod unat cap = (unat g + unat k) mod unat cap"
      using index [of g i] index [of g k] d by (simp add: mod_mod_cancel)
    then have "unat i mod unat cap = unat k mod unat cap" by (rule mod_add_cancel)
    then show False using ik by (simp add: word_less_nat_alt word_unat_eq_iff)
  qed
  have "unat cap dvd 2 ^ 63"
    if all: "\<And>g i k. g AND MSB = 0 \<Longrightarrow> i < cap \<Longrightarrow> k < cap \<Longrightarrow> i \<noteq> k \<Longrightarrow>
      slot_index (gen_add_msb_masked g i) (?s g) \<noteq> slot_index (gen_add_msb_masked g k) (?s g)"
  proof (rule ccontr)
    define M :: nat where "M = 2 ^ 63"
    define q where "q = M mod unat cap"
    assume "\<not> unat cap dvd 2 ^ 63"
    then have q: "0 < q" "q < unat cap" "q \<le> M" "M < 2 ^ 64"
      using cap by (simp_all add: M_def q_def dvd_eq_mod_eq_0)
    define g :: gen where "g = of_nat (M - q)"
    define i :: gen where "i = of_nat q"
    have u: "unat g = M - q" "unat i = q" using q unfolding g_def i_def by (simp_all only: unat_of_nat64)
    have "unat g < M" "M = 2 ^ 63" using u(1) q(1,3) M_def by simp_all
    then have "g AND NOT MSB = g" by (simp add: word_unat_eq_iff unat_masked)
    moreover have "(g AND NOT MSB) AND MSB = 0" by simp
    ultimately have "g AND MSB = 0" by simp
    moreover have "0 < cap" "i < cap" "i \<noteq> 0" using cap q u(2) by (auto simp: word_less_nat_alt)
    moreover have "slot_index (gen_add_msb_masked g i) (?s g) = slot_index (gen_add_msb_masked g 0) (?s g)"
    proof -
      have m: "(unat g + unat i) mod M = 0" "(unat g + unat (0 :: gen)) mod M = M - q" using u q by simp_all
      have z: "(M - q) mod unat cap = 0" "0 mod unat cap = 0" by (simp_all add: q_def minus_mod_eq_mult_div)
      show ?thesis by (simp only: word_unat_eq_iff index M_def [symmetric] m z)
    qed
    ultimately show False using all [of g i 0] by blast
  qed
  with apart res len show ?thesis by fastforce
qed

text \<open>
  An example: with three slots, a reservation of three at the last generation puts two of its
  messages into the same slot.
\<close>
theorem odd_capacity_collides_at_wrap:
  "case reserve Cas 3 (area_at (2 ^ 63 - 1) 3 2 :: nat area) of
     (Inr res, s) \<Rightarrow>
       (case write_each [7, 8, 9] (into_iter res) s of
          Returns (it, s') \<Rightarrow> all_written it
            \<and> map (\<lambda>k. get_slot (gen_add_msb_masked (start_gen res) k) s') [0, 1, 2] = [Init 9, Init 8, Init 9]
        | Panics \<Rightarrow> False)
   | _ \<Rightarrow> False"
  by code_simp

section \<open>Examples\<close>

definition demo_slice :: read_slice where
  "demo_slice = \<lparr>reader = 1, slice_start = 2 ^ 63 - 1, slice_end = 0, slice_armed = True\<rparr>"

lemma demo_pos: "pos (2 ^ 63 - 1) (2 ^ 63 - 1 :: gen) = 0" "pos (2 ^ 63 - 1) (0 :: gen) = 1"
  by code_simp+

text \<open>Two messages in a ring of two, the second of them behind the end of the ring.\<close>

definition demo_wrap :: "(nat \<times> nat call option) list" where
  "demo_wrap = [(0, Some (Reserve False 2))] @ steps 0 2 @ [(0, Some (Write 7)), (0, Some (Write 8)), (0, Some Publish)]"

definition demo_wrapped_slice :: read_slice where
  "demo_wrapped_slice = \<lparr>reader = 1, slice_start = 2 ^ 63 - 1, slice_end = 1, slice_armed = True\<rparr>"

lemma slice_views_agree_witness:
  "\<exists>s :: nat area. good (2 ^ 63 - 1) s \<and> buffer s = [Init 8, Init 7]
    \<and> collect 3 (slice_iter demo_wrapped_slice) s = [Init 7, Init 8]
    \<and> as_slices demo_wrapped_slice s = ([Init 7], [Init 8])
    \<and> slice_get demo_wrapped_slice 1 s = Some (Init 8) \<and> slice_get demo_wrapped_slice 2 s = None"
proof -
  let ?g = "2 ^ 63 - 1 :: gen"
  have "case sys_run True demo_wrap (start_at (2 ^ 63 - 1) 2 2) of
      Some S \<Rightarrow> (\<lambda>s. buffer s = [Init 8, Init 7] \<and> read_gen s = 1 \<and> free_gen s = 2 ^ 63 - 1 \<and> buffer_capacity s = 2)
          (shared S) \<and> reserved S = 2
    | None \<Rightarrow> False" by code_simp
  from demo_good [OF this] obtain s :: "nat area" where s: "good ?g s" "buffer s = [Init 8, Init 7]"
      "read_gen s = 1" "free_gen s = 2 ^ 63 - 1" "buffer_capacity s = 2" by auto
  have p: "pos ?g ?g = 0" "pos ?g 1 = 2" by code_simp+
  have "masked ?g" by (simp add: masked_def MSB64)
  moreover have "masked 1" unfolding masked_def by code_simp
  ultimately have sl: "slice_in ?g demo_wrapped_slice s"
    using s(3,4) p by (simp add: slice_in_def demo_wrapped_slice_def)
  have ends: "slice_start demo_wrapped_slice = ?g" "slice_end demo_wrapped_slice = 1"
    by (simp_all add: demo_wrapped_slice_def)
  have "pos ?g (slice_end demo_wrapped_slice) - pos ?g (slice_start demo_wrapped_slice) < 3"
    unfolding ends p by simp
  note views = slice_views_agree [OF s(1) sl this, unfolded ends p]
  have "unat ?g = 2 ^ 63 - 1" by simp
  then have "at_off ?g s 0 = Init 7" "at_off ?g s 1 = Init 8" and k: "unat ?g mod unat (buffer_capacity s) = 1"
    by (simp_all add: at_off_def ix_def s(2,5))
  then have at: "map (at_off ?g s) [0..<2] = [Init 7, Init 8]" "at_off ?g s (0 + unat (1 :: usize)) = Init 8"
    by (simp_all add: upt_rec)
  from views [of 1, unfolded at k] views [of 2, unfolded at k] show ?thesis
    using s(1,2) by (intro exI [of _ s]) (simp add: s(5))
qed



lemma capacities_that_survive_the_wrap_witness:
  "\<exists>g :: gen. g AND MSB = 0 \<and>
    (\<forall>res s. reserve Cas 3 (area_at g 3 2 :: nat area) = (Inr res, s) \<and> len res = 3 \<longrightarrow>
       (\<exists>i < 3. \<exists>k < 3. i \<noteq> k \<and>
          slot_index (gen_add_msb_masked (start_gen res) i) s = slot_index (gen_add_msb_masked (start_gen res) k) s))"
proof -
  have "\<not> (3 :: nat) dvd 2 ^ 63" by simp
  then show ?thesis using capacities_that_survive_the_wrap [of 3 2, where 'a = nat] by auto
qed

lemma read_in_pieces_witness:
  "\<exists>(s :: nat area) every s'. good (2 ^ 63 - 1) s \<and> read 1 s = Returns every \<and> unat (slice_len every) = 1"
proof -
  obtain s :: "nat area" where s: "good (2 ^ 63 - 1) s" "get_reader_gen 1 s = Some (2 ^ 63 - 1)" "read_gen s = 0"
    using demo_one_reader by blast
  obtain every where "read 1 s = Returns every"
      "unat (slice_len every) = pos (2 ^ 63 - 1) (read_gen s) - pos (2 ^ 63 - 1) (2 ^ 63 - 1 :: gen)"
    using read_in_pieces [OF s(1) demo_id_ok s(2) demo_active, of 1] by blast
  then show ?thesis using s demo_pos by (intro exI [of _ s] exI [of _ every]) simp
qed

lemma read_with_check_result_witness:
  "\<exists>(s :: nat area) sl. good (2 ^ 63 - 1) s \<and> read_with_check 1 s s s = Returns (Inr sl)"
proof -
  obtain s :: "nat area" where s: "good (2 ^ 63 - 1) s" "get_reader_gen 1 s = Some (2 ^ 63 - 1)" "read_gen s = 0"
    using demo_one_reader by blast
  obtain res where res: "read_with_check 1 s s s = Returns res"
      "res = Inl ReadError \<Longrightarrow> pos (2 ^ 63 - 1) (read_gen s) = pos (2 ^ 63 - 1) (2 ^ 63 - 1 :: gen)"
    using read_with_check_result [OF s(1,1,2,2), of s] by fastforce
  then have "res \<noteq> Inl ReadError" using s(3) demo_pos by auto
  then show ?thesis using res(1) s(1) by (cases res) (auto, metis read_error.exhaust)
qed

lemma broadcast_reaches_reader_witness:
  "\<exists>(s :: nat area) s3 before after. good (2 ^ 63 - 1) s \<and> read 1 s = Returns before \<and> read 1 s3 = Returns after \<and>
     shown after s3 = shown before s @ [Init 9]"
proof -
  obtain s :: "nat area" where s: "good (2 ^ 63 - 1) s" "get_reader_gen 1 s = Some (2 ^ 63 - 1)" "read_gen s = 0"
      "write_gen s = 0" "free_gen s = 2 ^ 63 - 1" "buffer_capacity s = 2" using demo_one_reader by blast
  have "unat (gen_dist_msb_masked 0 (2 ^ 63 - 1 :: gen)) = 1" by code_simp
  then have "room s = 1" using s by (simp add: room_def)
  moreover have "pos (2 ^ 63 - 1) (write_gen s) + length [9 :: nat] < 2 ^ 62" unfolding s(4) demo_pos by simp
  ultimately have "\<exists>s3 before after. read 1 s = Returns before \<and> read 1 s3 = Returns after
      \<and> shown after s3 = shown before s @ map Init [9]"
    using broadcast_reaches_reader [OF s(1,2), of 1 "[9]"] s(3,4) by fastforce
  then show ?thesis using s(1) by auto
qed

end
