(* ===== verification/Cleanup_Alone.thy ===== *)
theory Cleanup_Alone
  imports Slices
begin

text \<open>
  \<open>try_cleanup_old_slots\<close> run alone: it ends, \<open>last_valid_gen\<close> becomes exactly the least
  generation an active reader holds, exactly the messages below it are dropped, once each, and
  all their slots are handed back.
\<close>

section \<open>What the active readers hold\<close>

definition held :: "gen \<Rightarrow> nat \<Rightarrow> 'a area \<Rightarrow> nat" where
  "held g n s = Min (insert (pos g (read_gen s))
     ((\<lambda>j. pos g (cell_at j s)) ` {j. j < n \<and> \<not> is_suspended (cell_at j s)}))"

definition oldest_held :: "gen \<Rightarrow> 'a area \<Rightarrow> nat" where
  "oldest_held g s = held g (length (slots (reader_gens s))) s"

lemma held_0 [simp]: "held g 0 s = pos g (read_gen s)"
  by (simp add: held_def)

lemma held_Suc: "held g (Suc n) s =
  (if is_suspended (cell_at n s) then held g n s else min (held g n s) (pos g (cell_at n s)))"
proof (cases "is_suspended (cell_at n s)")
  case True
  then have "{j. j < Suc n \<and> \<not> is_suspended (cell_at j s)} = {j. j < n \<and> \<not> is_suspended (cell_at j s)}"
    by (auto simp: less_Suc_eq)
  then show ?thesis using True by (simp add: held_def)
next
  case False
  let ?J = "{j. j < n \<and> \<not> is_suspended (cell_at j s)}"
  have "insert (pos g (read_gen s)) ((\<lambda>j. pos g (cell_at j s)) ` {j. j < Suc n \<and> \<not> is_suspended (cell_at j s)})
      = insert (pos g (cell_at n s)) (insert (pos g (read_gen s)) ((\<lambda>j. pos g (cell_at j s)) ` ?J))"
    using False by (auto simp: less_Suc_eq)
  moreover have "finite (insert (pos g (read_gen s)) ((\<lambda>j. pos g (cell_at j s)) ` ?J))" by simp
  ultimately show ?thesis using False by (simp only: held_def Min_insert insert_not_empty simp_thms if_False min.commute not_False_eq_True)
qed

lemma held_le: "held g n s \<le> pos g (read_gen s)"
  by (simp add: held_def)

lemma oldest_held_active:
  assumes "good g s" and "get_reader_gen r s = Some c" and "\<not> is_suspended c"
  shows "oldest_held g s \<le> pos g c"
proof -
  from assms(2) obtain p where p: "get_reader_ptr r s = Some p" "load_gen p s = c" by (auto simp: reader_gen_ptr)
  then have "unat p < length (slots (reader_gens s))" "cell_at (unat p) s = c"
    using found_slot(1) [OF assms(1)] by (auto simp: load_cell_at)
  then show ?thesis using assms(3) unfolding oldest_held_def held_def by (intro Min_le) auto
qed

section \<open>The scan\<close>

text \<open>Suspended cells, and nothing else, have been dragged forward.\<close>

definition dragged :: "gen \<Rightarrow> 'a area \<Rightarrow> 'a area \<Rightarrow> bool" where
  "dragged g s s' \<longleftrightarrow> good g s' \<and> (\<exists>m. s' = s\<lparr>reader_gens := m\<rparr>) \<and>
     length (slots (reader_gens s')) = length (slots (reader_gens s)) \<and>
     mask_of (reader_gens s') = mask_of (reader_gens s) \<and>
     (\<forall>j. key (slots (reader_gens s') ! j) = key (slots (reader_gens s) ! j)) \<and>
     (\<forall>j < length (slots (reader_gens s)).
        (is_suspended (cell_at j s') \<longleftrightarrow> is_suspended (cell_at j s)) \<and>
        (is_suspended (cell_at j s) \<or> cell_at j s' = cell_at j s) \<and> pos g (cell_at j s) \<le> pos g (cell_at j s'))"

lemma dragged_refl: "good g s \<Longrightarrow> dragged g s s"
  by (auto simp: dragged_def intro: exI [of _ "reader_gens s"])

lemma dragged_cell:
  assumes "dragged g s s'" and "j < length (slots (reader_gens s))"
  shows "is_suspended (cell_at j s') \<longleftrightarrow> is_suspended (cell_at j s)"
    and "is_suspended (cell_at j s) \<or> cell_at j s' = cell_at j s" and "pos g (cell_at j s) \<le> pos g (cell_at j s')"
  using assms by (auto simp: dragged_def)

lemma dragged_trans:
  assumes st: "dragged g s t" and tu: "dragged g t u"
  shows "dragged g s u"
proof -
  have len: "length (slots (reader_gens t)) = length (slots (reader_gens s))" using st by (simp add: dragged_def)
  have cells: "(is_suspended (cell_at j u) \<longleftrightarrow> is_suspended (cell_at j s)) \<and>
      (is_suspended (cell_at j s) \<or> cell_at j u = cell_at j s) \<and> pos g (cell_at j s) \<le> pos g (cell_at j u)"
    if j: "j < length (slots (reader_gens s))" for j
  proof -
    have jt: "j < length (slots (reader_gens t))" using j len by simp
    show ?thesis
      using dragged_cell [OF st j] dragged_cell [OF tu jt] by auto
  qed
  obtain m m' where "t = s\<lparr>reader_gens := m\<rparr>" "u = t\<lparr>reader_gens := m'\<rparr>" using st tu by (auto simp: dragged_def)
  then have "\<exists>m. u = s\<lparr>reader_gens := m\<rparr>" by auto
  moreover have "good g u" "mask_of (reader_gens u) = mask_of (reader_gens s)"
      "length (slots (reader_gens u)) = length (slots (reader_gens s))"
      "key (slots (reader_gens u) ! j) = key (slots (reader_gens s) ! j)" for j
    using st tu by (simp_all add: dragged_def)
  ultimately show ?thesis using cells by (simp add: dragged_def)
qed

lemma dragged_store:
  assumes g: "good g s" and p: "unat p < length (slots (reader_gens s))"
    and "is_suspended (load_gen p s)" and "is_suspended v"
    and "pos g (load_gen p s) \<le> pos g v" and "pos g v \<le> pos g (read_gen s)"
  shows "dragged g s (store_gen p v s)"
proof -
  have "ord_inv g (store_gen p v s)" using g assms(2,5,6) by (intro ord_store) (auto simp: good_def)
  moreover have "reg_inv (store_gen p v s)" using g assms(2-4) by (intro store_suspended) (auto simp: good_def)
  ultimately have "good g (store_gen p v s)" using g by (simp add: good_def window_def)
  moreover have "\<exists>m. store_gen p v s = s\<lparr>reader_gens := m\<rparr>" by (auto simp: store_gen_def)
  ultimately show ?thesis using assms(3-5) by (auto simp: dragged_def cell_at_store [OF p] load_cell_at)
qed

lemma scan_slot_alone:
  assumes g: "good g s" and p: "unat p < length (slots (reader_gens s))"
    and m: "masked m" "pos g m \<le> pos g (read_gen s)"
  obtains m' s' where "scan_slot p m s = Some (m', s')" and "dragged g s s'" and "masked m'"
    and "pos g m' = (if is_suspended (load_gen p s) then pos g m else min (pos g m) (pos g (load_gen p s)))"
    and "pos g m' \<le> pos g (load_gen p s')"
proof -
  let ?c = "load_gen p s"
  have r62: "pos g (read_gen s) < 2 ^ 62" by (rule goodD(6) [OF g])
  have c: "pos g ?c \<le> pos g (read_gen s)" using g p by (auto simp: good_def ord_inv_def load_cell_at)
  have m62: "pos g m < 2 ^ 62" and c62: "pos g ?c < 2 ^ 62" using m(2) c r62 by linarith+
  have alone: "scan_slot p m s = Some (m', s')" if "scan_turn p m (?c, s) = (Return m', (x, s'))" for m' x s'
    using run_loop_Return [where body = "scan_turn p m", OF that] by (simp add: scan_slot_def)
  consider (drag) "is_suspended ?c" "pos g ?c < pos g m" | (ahead) "is_suspended ?c" "pos g m \<le> pos g ?c"
    | (active) "\<not> is_suspended ?c" by linarith
  then show thesis
  proof cases
    case drag
    then have "gen_gt_msb_masked m (gen_without_suspended_bit ?c)"
      using gt_masked [OF m(1) masked_strip m62, of ?c] c62 by (simp add: strip_eq)
    then have "scan_turn p m (?c, s) = (Return m, (?c, store_gen p (m OR MSB) s))"
      using drag(1) by (simp add: scan_turn_def SUSPENDED_BIT_eq cas_gen_hit)
    moreover have "dragged g s (store_gen p (m OR MSB) s)" using drag m by (intro dragged_store [OF g p]) simp_all
    ultimately show ?thesis using drag m alone load_store_gen [OF p, of p "m OR MSB"]
      by (intro that [of m "store_gen p (m OR MSB) s"]) simp_all
  next
    case ahead
    then have "\<not> gen_gt_msb_masked m (gen_without_suspended_bit ?c)"
      using gt_masked [OF m(1) masked_strip m62, of ?c] c62 by (simp add: strip_eq)
    then have "scan_turn p m (?c, s) = (Return m, (?c, s))" using ahead by (simp add: scan_turn_def)
    then show ?thesis using ahead m alone dragged_refl [OF g] by (intro that [of m s]) simp_all
  next
    case active
    then have "scan_turn p m (?c, s) = (Return (if pos g ?c \<le> pos g m then ?c else m), (?c, s))"
      by (simp add: scan_turn_def gte_masked [OF m62 c62])
    then show ?thesis using active m alone dragged_refl [OF g]
      by (intro that [of "if pos g ?c \<le> pos g m then ?c else m" s]) (auto simp: masked_active min_def)
  qed
qed

lemma scan_all_alone:
  assumes "dragged g s0 s" and "masked m" and "pos g m = held g i s0"
    and "\<forall>j < i. pos g m \<le> pos g (cell_at j s)" and "i \<le> n" and "n = length (slots (reader_gens s0))"
  shows "\<exists>m' s'. scan_all [i..<n] m s = Some (m', s') \<and> dragged g s0 s' \<and> masked m' \<and> pos g m' = held g n s0
    \<and> (\<forall>j < n. pos g m' \<le> pos g (cell_at j s'))"
  using assms
proof (induction "n - i" arbitrary: i m s)
  case 0
  then have "i = n" by simp
  then show ?case using 0 by (intro exI [of _ m] exI [of _ s]) simp
next
  case (Suc k)
  have gs: "good g s" and len: "length (slots (reader_gens s)) = n" and i: "i < n"
    using Suc by (auto simp: dragged_def)
  have u: "unat (of_nat i :: usize) = i"
    using gs i len by (intro unat_of_nat_slot [of s]) (simp_all add: good_def reg_inv_def)
  have ld: "load_gen (of_nat i) t = cell_at i t" for t :: "'a area" using u by (simp add: load_cell_at)
  have rd: "read_gen s = read_gen s0" using Suc.prems(1) by (auto simp: dragged_def)
  have "pos g m \<le> pos g (read_gen s)" using Suc.prems(3) held_le by (simp add: rd)
  then obtain m' s' where sl: "scan_slot (of_nat i) m s = Some (m', s')" "dragged g s s'" "masked m'"
      "pos g m' = (if is_suspended (cell_at i s) then pos g m else min (pos g m) (pos g (cell_at i s)))"
      "pos g m' \<le> pos g (cell_at i s')"
    using scan_slot_alone [OF gs, of "of_nat i" m, unfolded ld u len, OF i Suc.prems(2)] by blast
  have same: "is_suspended (cell_at i s) = is_suspended (cell_at i s0)"
      "\<not> is_suspended (cell_at i s0) \<Longrightarrow> cell_at i s = cell_at i s0"
    using Suc.prems(1,6) i by (auto simp: dragged_def)
  have "pos g m' = held g (Suc i) s0" using sl(4) same Suc.prems(3) by (auto simp: held_Suc)
  moreover have "\<forall>j < Suc i. pos g m' \<le> pos g (cell_at j s')"
  proof (intro allI impI)
    fix j assume "j < Suc i"
    then consider "j = i" | "j < i" by linarith
    then show "pos g m' \<le> pos g (cell_at j s')"
    proof cases
      case 2
      then have "pos g m \<le> pos g (cell_at j s)" "pos g (cell_at j s) \<le> pos g (cell_at j s')"
        using Suc.prems(4) sl(2) i len by (auto simp: dragged_def)
      then show ?thesis using sl(4) by (auto split: if_splits)
    qed (use sl(5) in simp)
  qed
  ultimately have "\<exists>m'' s''. scan_all [Suc i..<n] m' s' = Some (m'', s'') \<and> dragged g s0 s'' \<and> masked m''
      \<and> pos g m'' = held g n s0 \<and> (\<forall>j < n. pos g m'' \<le> pos g (cell_at j s''))"
    using Suc.hyps(2) Suc.prems(1,6) sl(2,3) i by (intro Suc.hyps(1)) (auto intro: dragged_trans)
  moreover have "[i..<n] = i # [Suc i..<n]" using i by (simp add: upt_rec)
  ultimately show ?case using sl(1) by simp
qed

section \<open>Dropping\<close>

lemma at_off_drop:
  assumes "good g s" and "masked v"
    and "pos g (free_gen s) \<le> pos g v" "pos g v < pos g (write_gen s)"
    and "pos g (free_gen s) \<le> off" "off < pos g (write_gen s)"
  shows "at_off g (drop_slot v s) off = (if off = pos g v then Uninit else at_off g s off)"
proof -
  have ne: "ix g (unat (buffer_capacity s)) (pos g v) \<noteq> ix g (unat (buffer_capacity s)) off" if "off \<noteq> pos g v"
    by (rule ix_inj) (use assms that goodD(4,5) [OF assms(1)] in \<open>auto simp: good_def\<close>)
  have "ix g (unat (buffer_capacity s)) (pos g v) < length (buffer s)"
    using assms(1) ix_less by (auto simp: good_def)
  then show ?thesis using ne
    by (auto simp: drop_slot_def at_off_def slot_index_at [OF assms(2), where b = g])
qed

lemma drop_slot_frame [simp]:
  "write_gen (drop_slot v s) = write_gen s" "read_gen (drop_slot v s) = read_gen s"
  "free_gen (drop_slot v s) = free_gen s" "last_valid_gen (drop_slot v s) = last_valid_gen s"
  "reader_gens (drop_slot v s) = reader_gens s" "buffer_capacity (drop_slot v s) = buffer_capacity s"
  "good g (drop_slot v s) = good g s"
  by (simp_all add: drop_slot_def good_def reg_inv_def free_suspended_def ord_inv_def cell_at_def window_def)

lemma drop_range_drops:
  assumes "good g s" and "masked lv" and "pos g (free_gen s) \<le> pos g lv"
    and "pos g lv + i + n \<le> pos g (write_gen s)"
  shows "\<exists>buf. drop_range n (of_nat i) lv s = s\<lparr>buffer := buf,
      dropped := dropped s @ map (at_off g s) [pos g lv + i..<pos g lv + i + n]\<rparr>
    \<and> length buf = length (buffer s)
    \<and> (\<forall>off. pos g lv + i + n \<le> off \<longrightarrow> off < pos g (write_gen s) \<longrightarrow>
         at_off g (drop_range n (of_nat i) lv s) off = at_off g s off)"
  using assms
proof (induction n arbitrary: i s)
  case 0
  then show ?case by (intro exI [of _ "buffer s"]) simp
next
  case (Suc n)
  let ?v = "gen_add_msb_masked lv (of_nat i)"
  let ?s = "drop_slot ?v s"
  have w62: "pos g (write_gen s) < 2 ^ 62" by (rule goodD(5) [OF Suc.prems(1)])
  have i: "i < 2 ^ 62" using Suc.prems(4) w62 by linarith
  then have "unat (of_nat i :: gen) = i" by (intro unat_of_nat64) simp
  then have v: "pos g ?v = pos g lv + i" "masked ?v"
    using Suc.prems(4) w62 by (subst pos_add64) (simp_all add: masked_def)
  have at: "at_off g ?s off = (if off = pos g lv + i then Uninit else at_off g s off)"
    if "pos g (free_gen s) \<le> off" "off < pos g (write_gen s)" for off
    using at_off_drop [OF Suc.prems(1) v(2), of off] that Suc.prems(3,4) v(1) by simp
  have gs: "get_slot ?v s = at_off g s (pos g lv + i)" using get_slot_at [OF v(2), of s g] v(1) by simp
  obtain buf where IH: "drop_range n (of_nat (Suc i)) lv ?s = ?s\<lparr>buffer := buf,
      dropped := dropped ?s @ map (at_off g ?s) [pos g lv + Suc i..<pos g lv + Suc i + n]\<rparr>"
      "length buf = length (buffer ?s)"
      "\<And>off. pos g lv + Suc i + n \<le> off \<Longrightarrow> off < pos g (write_gen ?s) \<Longrightarrow>
         at_off g (drop_range n (of_nat (Suc i)) lv ?s) off = at_off g ?s off"
    using Suc.IH [of ?s "Suc i"] Suc.prems by auto
  have "map (at_off g ?s) [pos g lv + Suc i..<pos g lv + Suc i + n] = map (at_off g s) [pos g lv + Suc i..<pos g lv + Suc i + n]"
    using at Suc.prems(3,4) by (intro map_cong) auto
  moreover have "[pos g lv + i..<pos g lv + i + Suc n] = (pos g lv + i) # [pos g lv + Suc i..<pos g lv + Suc i + n]"
    by (simp add: upt_rec)
  moreover have "drop_range (Suc n) (of_nat i) lv s = drop_range n (of_nat (Suc i)) lv ?s"
    by (simp add: add.commute)
  moreover have "dropped ?s = dropped s @ [at_off g s (pos g lv + i)]" using gs by (simp add: drop_slot_def)
  ultimately have "drop_range (Suc n) (of_nat i) lv s = s\<lparr>buffer := buf,
      dropped := dropped s @ map (at_off g s) [pos g lv + i..<pos g lv + i + Suc n]\<rparr>"
    using IH(1) by (simp add: drop_slot_def)
  moreover have "at_off g (drop_range (Suc n) (of_nat i) lv s) off = at_off g s off"
    if "pos g lv + i + Suc n \<le> off" "off < pos g (write_gen s)" for off
    using IH(3) [of off] that at [of off] Suc.prems(3) by (simp add: add.commute)
  ultimately show ?case using IH(2) by (intro exI [of _ buf]) (simp add: drop_slot_def)
qed

lemma drop_range_other:
  "drop_range n i lv (s\<lparr>last_valid_gen := m\<rparr>) = (drop_range n i lv s)\<lparr>last_valid_gen := m\<rparr>"
proof (induction n arbitrary: i s)
  case (Suc n)
  have "drop_slot v (s\<lparr>last_valid_gen := m\<rparr>) = (drop_slot v s)\<lparr>last_valid_gen := m\<rparr>" for v
    by (simp add: drop_slot_def get_slot_def slot_index_def)
  then show ?case using Suc by simp
qed simp

section \<open>The whole cleanup\<close>

lemma claim_turn_alone:
  "last_valid_gen s = lv \<Longrightarrow> claim_turn E new (lv, s) =
    (if gen_lte_msb_masked new lv then (Return NothingLeft, (lv, s))
     else (Return (Claimed lv), (lv, s\<lparr>last_valid_gen := new\<rparr>)))"
  by (cases E) (simp_all add: claim_turn_def)

lemma free_turn_alone: "free_gen s = lv \<Longrightarrow> free_turn E lv new s = (Return (Returns ()), s\<lparr>free_gen := new\<rparr>)"
  by (cases E) (simp_all add: free_turn_def)

lemma good_cleaned:
  assumes g: "good g s" and "masked m" and "pos g (last_valid_gen s) \<le> pos g m" and "pos g m \<le> pos g (read_gen s)"
    and "\<forall>j < length (slots (reader_gens s)). pos g m \<le> pos g (cell_at j s)" and "length buf = length (buffer s)"
  shows "good g (s\<lparr>last_valid_gen := m, buffer := buf, dropped := d, free_gen := m\<rparr>)"
  using assms goodD(1-5) [OF g]
  by (auto simp: good_def reg_inv_def free_suspended_def ord_inv_def cell_at_def window_def)

definition same_counts :: "'a area \<Rightarrow> 'a area \<Rightarrow> bool" where
  "same_counts s s' \<longleftrightarrow> write_gen s' = write_gen s \<and> read_gen s' = read_gen s \<and>
     writers_count s' = writers_count s \<and> buffer_capacity s' = buffer_capacity s \<and>
     destroy_stages s' = destroy_stages s \<and> reader_keep_alloc_tickets s' = reader_keep_alloc_tickets s \<and>
     reader_stage_tickets s' = reader_stage_tickets s"

lemma finish_alone:
  assumes g: "good g s" and free: "free_gen s = last_valid_gen s" and m: "masked m"
    and "pos g (last_valid_gen s) \<le> pos g m" and "pos g m \<le> pos g (read_gen s)"
    and "\<forall>j < length (slots (reader_gens s)). pos g m \<le> pos g (cell_at j s)"
  obtains s' where "finish_cleanup E nd (last_valid_gen s) m (s\<lparr>last_valid_gen := m\<rparr>) =
      Some (Returns (Inr \<lparr>old_last_valid = last_valid_gen s, new_last_valid = m,
        slots_cleaned = of_nat (pos g m - pos g (last_valid_gen s))\<rparr>), s')"
    and "good g s'" and "last_valid_gen s' = m" and "free_gen s' = m" and "reader_gens s' = reader_gens s"
    and "dropped s' = dropped s @ (if nd then map (at_off g s) [pos g (last_valid_gen s)..<pos g m] else [])"
    and "\<forall>off. pos g m \<le> off \<longrightarrow> off < pos g (write_gen s) \<longrightarrow> at_off g s' off = at_off g s off"
    and "same_counts s s'"
proof -
  let ?lv = "last_valid_gen s" and ?n = "unat (gen_dist_msb_masked m (last_valid_gen s))"
  let ?d = "if nd then map (at_off g s) [pos g ?lv..<pos g m] else []"
  note lim = goodD [OF g]
  have n: "?n = pos g m - pos g ?lv" using assms(4) by (rule unat_dist_ge)
  then have cleaned: "gen_dist_msb_masked m ?lv = of_nat (pos g m - pos g ?lv)" by (simp flip: n)
  have below: "pos g ?lv + 0 + ?n \<le> pos g (write_gen s)" using n assms(4,5) lim(3) by linarith
  have "\<exists>buf. (if nd then drop_range ?n 0 ?lv s else s) = s\<lparr>buffer := buf, dropped := dropped s @ ?d\<rparr>
      \<and> length buf = length (buffer s) \<and> (nd \<or> buf = buffer s)
      \<and> (\<forall>off. pos g m \<le> off \<longrightarrow> off < pos g (write_gen s) \<longrightarrow>
           at_off g (s\<lparr>buffer := buf, dropped := dropped s @ ?d\<rparr>) off = at_off g s off)"
  proof (cases nd)
    case True
    from drop_range_drops [OF g lim(11) lim(1) below] obtain buf where
      b: "drop_range ?n 0 ?lv s = s\<lparr>buffer := buf, dropped := dropped s @ map (at_off g s) [pos g ?lv..<pos g m]\<rparr>"
        "length buf = length (buffer s)"
        "\<forall>off. pos g m \<le> off \<longrightarrow> off < pos g (write_gen s) \<longrightarrow> at_off g (drop_range ?n 0 ?lv s) off = at_off g s off"
      using n assms(4) by auto
    then show ?thesis using True by (intro exI [of _ buf]) simp
  qed (intro exI [of _ "buffer s"], simp)
  then obtain buf where b: "(if nd then drop_range ?n 0 ?lv s else s) = s\<lparr>buffer := buf, dropped := dropped s @ ?d\<rparr>"
      "length buf = length (buffer s)" "nd \<or> buf = buffer s"
      "\<And>off. pos g m \<le> off \<Longrightarrow> off < pos g (write_gen s) \<Longrightarrow>
         at_off g (s\<lparr>buffer := buf, dropped := dropped s @ ?d\<rparr>) off = at_off g s off" by blast
  have comm: "drop_range k i l (s\<lparr>last_valid_gen := m\<rparr>) = (drop_range k i l s)\<lparr>last_valid_gen := m\<rparr>" for k i l
    by (rule drop_range_other)
  let ?u = "s\<lparr>last_valid_gen := m, buffer := buf, dropped := dropped s @ ?d\<rparr>"
  let ?s' = "s\<lparr>last_valid_gen := m, buffer := buf, dropped := dropped s @ ?d, free_gen := m\<rparr>"
  have u: "(if nd then drop_range ?n 0 ?lv (s\<lparr>last_valid_gen := m\<rparr>) else s\<lparr>last_valid_gen := m\<rparr>) = ?u"
    using b(1,3) comm by (cases nd) simp_all
  have "run_loop (free_turn E ?lv m) ?u = Some (Returns (), ?s')"
    using free by (intro run_loop_Return) (simp add: free_turn_alone)
  then have "finish_cleanup E nd ?lv m (s\<lparr>last_valid_gen := m\<rparr>) =
      Some (Returns (Inr \<lparr>old_last_valid = ?lv, new_last_valid = m, slots_cleaned = gen_dist_msb_masked m ?lv\<rparr>), ?s')"
    unfolding finish_cleanup_def Let_def u by simp
  moreover have "good g ?s'" using good_cleaned [OF g m assms(4-6) b(2), of "dropped s @ ?d"] .
  moreover have "\<forall>off. pos g m \<le> off \<longrightarrow> off < pos g (write_gen s) \<longrightarrow> at_off g ?s' off = at_off g s off"
    using b(4) by (simp add: at_off_def)
  ultimately show thesis unfolding cleaned by (intro that [of ?s']) (simp_all add: same_counts_def)
qed

lemma cleanup_alone:
  assumes g: "good g s" and free: "free_gen s = last_valid_gen s"
  obtains res s' where "try_cleanup_old_slots E nd s = Some (Returns res, s')" and "good g s'"
    and "free_gen s' = last_valid_gen s'" and "pos g (last_valid_gen s') = oldest_held g s"
    and "dropped s' = dropped s @
      (if nd then map (at_off g s) [pos g (last_valid_gen s)..<oldest_held g s] else [])"
    and "res = (if oldest_held g s = pos g (last_valid_gen s) then Inl NothingToClean
      else Inr \<lparr>old_last_valid = last_valid_gen s, new_last_valid = last_valid_gen s',
                slots_cleaned = of_nat (oldest_held g s - pos g (last_valid_gen s))\<rparr>)"
    and "\<forall>off. oldest_held g s \<le> off \<longrightarrow> off < pos g (write_gen s) \<longrightarrow> at_off g s' off = at_off g s off"
    and "\<exists>t. dragged g s t \<and> reader_gens s' = reader_gens t" and "same_counts s s'"
proof -
  note lim = goodD [OF g]
  have cells: "pos g (last_valid_gen s) \<le> pos g (cell_at j s)" if "j < length (slots (reader_gens s))" for j
    using g that by (auto simp: good_def ord_inv_def)
  show thesis
  proof (cases "pos g (read_gen s) \<le> pos g (last_valid_gen s)")
    case True
    then have "gen_gte_msb_masked (last_valid_gen s) (read_gen s)" using gte_masked [OF lim(7,6)] by simp
    then have "try_cleanup_old_slots E nd s = Some (Returns (Inl NothingToClean), s)"
      by (simp add: try_cleanup_old_slots_def)
    moreover have "oldest_held g s = pos g (last_valid_gen s)"
      using True lim(2) cells unfolding oldest_held_def held_def by (intro Min_eqI) auto
    ultimately show ?thesis using g free dragged_refl [OF g] by (intro that) (auto simp: same_counts_def)
  next
    case False
    then have start: "\<not> gen_gte_msb_masked (last_valid_gen s) (read_gen s)" using gte_masked [OF lim(7,6)] by simp
    obtain m t where scan: "scan_all [0..<length (slots (reader_gens s))] (read_gen s) s = Some (m, t)"
        "dragged g s t" "masked m" "pos g m = oldest_held g s"
        "\<forall>j < length (slots (reader_gens s)). pos g m \<le> pos g (cell_at j t)"
      using scan_all_alone [OF dragged_refl [OF g] lim(10), of 0] unfolding oldest_held_def by auto
    from scan(2) have gt: "good g t" by (simp add: dragged_def)
    from scan(2) have len: "length (slots (reader_gens t)) = length (slots (reader_gens s))" by (simp add: dragged_def)
    have t: "last_valid_gen t = last_valid_gen s" "free_gen t = free_gen s" "read_gen t = read_gen s"
        "dropped t = dropped s" "at_off g t = at_off g s" "write_gen t = write_gen s" "same_counts s t"
      using scan(2) by (auto simp: dragged_def at_off_def same_counts_def)
    have lvm: "pos g (last_valid_gen s) \<le> pos g m"
      unfolding scan(4) oldest_held_def held_def using lim(2) cells by (intro Min.boundedI) auto
    have mr: "pos g m \<le> pos g (read_gen s)" unfolding scan(4) oldest_held_def by (rule held_le)
    then have m62: "pos g m < 2 ^ 62" using lim(6) by linarith
    have run: "try_cleanup_old_slots E nd s = claim_and_clean E nd m (last_valid_gen s) t"
      using start scan(1) by (simp add: try_cleanup_old_slots_def raw_slots_def)
    have lte: "gen_lte_msb_masked m (last_valid_gen s) \<longleftrightarrow> pos g m = pos g (last_valid_gen s)"
      using lvm by (auto simp: lte_pos64 [OF m62 lim(7)])
    show ?thesis
    proof (cases "pos g m = pos g (last_valid_gen s)")
      case True
      have "run_loop (claim_turn E m) (last_valid_gen s, t) = Some (NothingLeft, (last_valid_gen s, t))"
        using True lte by (intro run_loop_Return) (simp add: claim_turn_alone t)
      then have "try_cleanup_old_slots E nd s = Some (Returns (Inl NothingToClean), t)"
        by (simp add: run claim_and_clean_def)
      then show ?thesis using True scan(2,4) gt free t by (intro that [of _ t]) auto
    next
      case False
      have "run_loop (claim_turn E m) (last_valid_gen s, t) =
          Some (Claimed (last_valid_gen s), (last_valid_gen s, t\<lparr>last_valid_gen := m\<rparr>))"
        using False lte by (intro run_loop_Return) (simp add: claim_turn_alone t)
      then have run': "try_cleanup_old_slots E nd s =
          finish_cleanup E nd (last_valid_gen t) m (t\<lparr>last_valid_gen := m\<rparr>)"
        by (simp add: run claim_and_clean_def t)
      obtain s' where fin: "finish_cleanup E nd (last_valid_gen t) m (t\<lparr>last_valid_gen := m\<rparr>) =
            Some (Returns (Inr \<lparr>old_last_valid = last_valid_gen t, new_last_valid = m,
              slots_cleaned = of_nat (pos g m - pos g (last_valid_gen t))\<rparr>), s')"
          "good g s'" "last_valid_gen s' = m" "free_gen s' = m" "reader_gens s' = reader_gens t"
          "dropped s' = dropped t @ (if nd then map (at_off g t) [pos g (last_valid_gen t)..<pos g m] else [])"
          "\<forall>off. pos g m \<le> off \<longrightarrow> off < pos g (write_gen t) \<longrightarrow> at_off g s' off = at_off g t off" "same_counts t s'"
        by (rule finish_alone [OF gt _ scan(3), of E nd]) (use free lvm mr scan(5) len t in simp_all)
      have "same_counts s s'" using t(7) fin(8) by (simp add: same_counts_def)
      then show ?thesis using False fin scan(2,4) t run' by (intro that [of _ s']) auto
    qed
  qed
qed

section \<open>What a cleanup does\<close>

text \<open>The messages that are published and not yet dropped, oldest first.\<close>

definition live_messages :: "'a area \<Rightarrow> 'a maybe_uninit list" where
  "live_messages s = map (\<lambda>k. get_slot (gen_add_msb_masked (last_valid_gen s) (of_nat k)) s)
     [0..<unat (gen_dist_msb_masked (read_gen s) (last_valid_gen s))]"

lemma live_messages_at_off:
  assumes g: "good g s"
  shows "live_messages s = map (at_off g s) [pos g (last_valid_gen s)..<pos g (read_gen s)]"
proof -
  let ?sl = "\<lparr>reader = 0, slice_start = last_valid_gen s, slice_end = read_gen s, slice_armed = True\<rparr>"
  have "slice_in g ?sl s" using goodD [OF g] by (simp add: slice_in_def)
  from shown_at_off [OF g this] show ?thesis by (simp add: shown_def live_messages_def slice_len_def)
qed

lemma dragged_find: "dragged g s s' \<Longrightarrow> get_reader_ptr r s' = get_reader_ptr r s"
  by (simp add: dragged_def get_reader_ptr_find find_id_eq load_key_def slot_at_def Let_def)

lemma dragged_active:
  assumes "good g s" and "dragged g s s'" and "get_reader_gen r s = Some c" and "\<not> is_suspended c"
  shows "get_reader_gen r s' = Some c"
proof -
  from assms(3) obtain p where p: "get_reader_ptr r s = Some p" "load_gen p s = c" by (auto simp: reader_gen_ptr)
  then have "load_gen p s' = c"
    using found_slot(1) [OF assms(1) p(1)] assms(2,4) by (auto simp: dragged_def load_cell_at)
  then show ?thesis using p(1) dragged_find [OF assms(2)] by (auto simp: reader_gen_ptr)
qed

text \<open>
  C25: a cleanup run alone comes to an end without a panic, in both modes.  Afterwards
  \<open>last_valid_gen\<close> is the least generation any active reader holds, or \<open>read_gen\<close> if none does;
  exactly the messages below it have been dropped, in order, and their slots freed; no active
  reader has been moved, and every message from there on is as it was.  It reports an error
  exactly if there was nothing to drop.
\<close>
theorem cleanup_frees_up_to_slowest_reader:
  assumes g: "good g s" and free: "free_gen s = last_valid_gen s"
  shows "\<exists>res s'. try_cleanup_old_slots E nd s = Some (Returns res, s')
    \<and> pos g (last_valid_gen s') = oldest_held g s \<and> free_gen s' = last_valid_gen s'
    \<and> (let n = oldest_held g s - pos g (last_valid_gen s) in
        dropped s' = dropped s @ (if nd then take n (live_messages s) else [])
        \<and> live_messages s' = drop n (live_messages s)
        \<and> res = (if n = 0 then Inl NothingToClean
             else Inr \<lparr>old_last_valid = last_valid_gen s, new_last_valid = last_valid_gen s', slots_cleaned = of_nat n\<rparr>))
    \<and> (\<forall>r c. get_reader_gen r s = Some c \<and> \<not> is_suspended c \<longrightarrow> get_reader_gen r s' = Some c)"
proof -
  obtain res s' where c: "try_cleanup_old_slots E nd s = Some (Returns res, s')" "good g s'"
    "free_gen s' = last_valid_gen s'" "pos g (last_valid_gen s') = oldest_held g s"
    "dropped s' = dropped s @
      (if nd then map (at_off g s) [pos g (last_valid_gen s)..<oldest_held g s] else [])"
    "res = (if oldest_held g s = pos g (last_valid_gen s) then Inl NothingToClean
      else Inr \<lparr>old_last_valid = last_valid_gen s, new_last_valid = last_valid_gen s',
                slots_cleaned = of_nat (oldest_held g s - pos g (last_valid_gen s))\<rparr>)"
    "\<forall>off. oldest_held g s \<le> off \<longrightarrow> off < pos g (write_gen s) \<longrightarrow> at_off g s' off = at_off g s off"
    "\<exists>t. dragged g s t \<and> reader_gens s' = reader_gens t" "same_counts s s'"
    using g free by (rule cleanup_alone)
  let ?lv = "pos g (last_valid_gen s)" and ?h = "oldest_held g s" and ?rd = "pos g (read_gen s)"
  have le: "?lv \<le> ?h" "?h \<le> ?rd"
  proof -
    have "pos g (last_valid_gen s) \<le> pos g (cell_at j s)" if "j < length (slots (reader_gens s))" for j
      using g that by (auto simp: good_def ord_inv_def)
    then show "?lv \<le> ?h" unfolding oldest_held_def held_def using goodD(2) [OF g] by (intro Min.boundedI) auto
    show "?h \<le> ?rd" unfolding oldest_held_def by (rule held_le)
  qed
  have rd: "read_gen s' = read_gen s" using c(9) by (simp add: same_counts_def)
  have live: "live_messages s = map (at_off g s) [?lv..<?rd]" by (rule live_messages_at_off [OF g])
  have "live_messages s' = map (at_off g s') [?h..<?rd]" using live_messages_at_off [OF c(2)] c(4) rd by simp
  also have "\<dots> = map (at_off g s) [?h..<?rd]" using c(7) goodD(3) [OF g] by (intro map_cong) auto
  finally have "live_messages s' = drop (?h - ?lv) (live_messages s)" using le live by (simp add: drop_map)
  moreover have "map (at_off g s) [?lv..<?h] = take (?h - ?lv) (live_messages s)"
    using le live by (simp add: take_map)
  moreover have "get_reader_gen r s' = Some x" if "get_reader_gen r s = Some x" "\<not> is_suspended x" for r x
    using c(8) dragged_active [OF g _ that] get_reader_gen_cong by metis
  moreover have "?h - ?lv = 0 \<longleftrightarrow> ?h = ?lv" using le(1) by linarith
  ultimately show ?thesis using c(1,3-6) by (simp add: Let_def)
qed

lemma cleanup_frees_up_to_slowest_reader_witness:
  "\<exists>(s :: nat area) res s'. good (2 ^ 63 - 1) s \<and> try_cleanup_old_slots Cas True s = Some (Returns res, s')
     \<and> pos (2 ^ 63 - 1) (last_valid_gen s') = oldest_held (2 ^ 63 - 1) s"
proof -
  obtain s :: "nat area" where s: "good (2 ^ 63 - 1) s" "free_gen s = last_valid_gen s"
    using demo_one_reader by force
  from cleanup_frees_up_to_slowest_reader [OF s] s(1) show ?thesis by blast
qed

end
