(* ===== verification/Teardown.thy ===== *)
theory Teardown
  imports Cleanup_Alone
begin

text \<open>
  The life of an area from its construction to the drop of its last handle, the handles
  used one at a time: \<open>area\<close> establishes what every other result asks for, and whatever the
  order in which the handles are dropped, exactly the last drop frees the memory, after
  dropping every message that is left.
\<close>

section \<open>The readers that are registered\<close>

definition registered :: "'a area \<Rightarrow> gen set" where
  "registered s = {q. id_ok q \<and> get_reader_ptr q s \<noteq> None}"

lemma registered_cong: "reader_gens s' = reader_gens s \<Longrightarrow> registered s' = registered s"
  by (simp add: registered_def get_reader_ptr_find)

lemma key_is_registered:
  assumes g: "good g s" and i: "i < length (slots (reader_gens s))" and k: "key (slots (reader_gens s) ! i) \<noteq> EMPTY"
  shows "key_bits (key (slots (reader_gens s) ! i)) \<in> registered s"
proof -
  let ?m = "reader_gens s" and ?r = "key_bits (key (slots (reader_gens s) ! i))"
  have p: "?r \<noteq> 0" "unat (?r AND mask_of ?m) = i"
    using good_map [OF g] i k by (auto simp: map_inv_def keys_placed_def)
  then have "find_id ?r ?m = Some (?r AND mask_of ?m)" by (simp add: find_id_Some load_key_def slot_at_def)
  moreover have "id_ok ?r" unfolding id_ok_def using p(1) by (simp add: key_bits_masked)
  ultimately show ?thesis by (simp add: registered_def get_reader_ptr_find)
qed

lemma registered_key:
  assumes g: "good g s" and r: "r \<in> registered s"
  obtains i where "i < length (slots (reader_gens s))" and "key (slots (reader_gens s) ! i) \<noteq> EMPTY"
proof -
  from r obtain p where p: "find_id r (reader_gens s) = Some p" "id_ok r"
    by (auto simp: registered_def get_reader_ptr_find)
  then have "key (slots (reader_gens s) ! unat p) \<noteq> EMPTY"
    by (auto simp: find_id_Some load_key_def slot_at_def)
  then show ?thesis using that find_id_less [OF good_map [OF g] p(1)] by blast
qed

lemma has_readers_registered: "good g s \<Longrightarrow> has_readers s \<longleftrightarrow> registered s \<noteq> {}"
proof -
  assume g: "good g s"
  have "has_readers s \<longleftrightarrow> (\<exists>i < length (slots (reader_gens s)). key (slots (reader_gens s) ! i) \<noteq> EMPTY)"
    by (simp add: has_readers_def raw_slots_def list_ex_length)
  then show ?thesis using key_is_registered [OF g] registered_key [OF g] by blast
qed

lemma nobody_holds:
  assumes g: "good g s" and "registered s = {}"
  shows "oldest_held g s = pos g (read_gen s)"
proof -
  have "is_suspended (cell_at j s)" if "j < length (slots (reader_gens s))" for j
    using that g key_is_registered [OF g that] assms(2)
    by (auto simp: good_def reg_inv_def free_suspended_def cell_at_def)
  then have none: "{j. j < length (slots (reader_gens s)) \<and> \<not> is_suspended (cell_at j s)} = {}" by blast
  show ?thesis unfolding oldest_held_def held_def none by simp
qed

text \<open>The counts of handles do not matter to the ring.\<close>

lemma counts_frame [simp]:
  "good g (s\<lparr>writers_count := n\<rparr>) = good g s" "good g (s\<lparr>destroy_stages := n\<rparr>) = good g s"
  "good g (s\<lparr>reader_keep_alloc_tickets := n\<rparr>) = good g s" "good g (s\<lparr>reader_stage_tickets := n\<rparr>) = good g s"
  "registered (s\<lparr>writers_count := n\<rparr>) = registered s" "registered (s\<lparr>destroy_stages := n\<rparr>) = registered s"
  "registered (s\<lparr>reader_keep_alloc_tickets := n\<rparr>) = registered s"
  "registered (s\<lparr>reader_stage_tickets := n\<rparr>) = registered s"
  by (simp_all add: good_def reg_inv_def free_suspended_def ord_inv_def cell_at_def window_def
      registered_def get_reader_ptr_find)

lemma live_messages_frame [simp]:
  "live_messages (s\<lparr>writers_count := n\<rparr>) = live_messages s" "live_messages (s\<lparr>destroy_stages := n\<rparr>) = live_messages s"
  "live_messages (s\<lparr>reader_keep_alloc_tickets := n\<rparr>) = live_messages s"
  "live_messages (s\<lparr>reader_stage_tickets := n\<rparr>) = live_messages s"
  "live_messages (s\<lparr>reader_gens := m\<rparr>) = live_messages s"
  by (simp_all add: live_messages_def get_slot_def slot_index_def)

section \<open>Unregistering\<close>

lemma good_store_suspended:
  assumes g: "good g s" and p: "get_reader_ptr r s = Some p"
  shows "good g (store_gen p (load_gen p s OR MSB) s)"
proof -
  note f = found_slot [OF g p]
  have "ord_inv g (store_gen p (load_gen p s OR MSB) s)"
    using g f(1,4) by (intro ord_store) (simp_all add: good_def)
  moreover have "reg_inv (store_gen p (load_gen p s OR MSB) s)"
    using g f(1) by (auto simp: good_def reg_inv_def free_suspended_def slot_store_cell)
  ultimately show ?thesis using g by (simp add: good_def window_def)
qed

lemma good_release:
  assumes g: "good g s" and r: "id_ok r" and susp: "\<And>p. get_reader_ptr r s = Some p \<Longrightarrow> is_suspended (load_gen p s)"
  shows "good g (s\<lparr>reader_gens := release_id r (reader_gens s)\<rparr>)"
proof -
  let ?m = "reader_gens s"
  have cells: "length (slots (release_id r ?m)) = length (slots ?m) \<and>
      (\<forall>i < length (slots ?m). cell (slots (release_id r ?m) ! i) = cell (slots ?m ! i))"
    using good_map [OF g] by (auto simp: release_id_eq slot_store_key map_inv_def index_less)
  have "free_suspended (s\<lparr>reader_gens := release_id r ?m\<rparr>)"
  proof (cases "find_id r ?m")
    case None
    then show ?thesis using g by (simp add: release_id_eq good_def reg_inv_def free_suspended_def)
  next
    case (Some p)
    then have p: "p = r AND mask_of ?m" "is_suspended (cell (slots ?m ! unat p))"
      using susp by (auto simp: find_id_Some get_reader_ptr_find load_gen_def slot_at_def)
    then show ?thesis using g Some good_map [OF g]
      by (auto simp: release_id_eq good_def reg_inv_def free_suspended_def slot_store_key map_inv_def index_less)
  qed
  moreover have "map_inv (release_id r ?m)" by (rule slot_map.release_inv [OF good_map [OF g] r])
  ultimately show ?thesis using g cells
    by (auto simp: good_def reg_inv_def ord_inv_def cell_at_def window_def)
qed

lemma registered_release:
  assumes g: "good g s" and r: "id_ok r"
  shows "registered (s\<lparr>reader_gens := release_id r (reader_gens s)\<rparr>) = registered s - {r}"
proof (rule set_eqI)
  fix q
  show "q \<in> registered (s\<lparr>reader_gens := release_id r (reader_gens s)\<rparr>) \<longleftrightarrow> q \<in> registered s - {r}"
    using slot_map.release_find [OF good_map [OF g] r] slot_map.release_other [OF good_map [OF g] r, of q]
    by (cases "q = r") (simp_all add: registered_def get_reader_ptr_find cong: conj_cong)
qed

lemma unregister_alone:
  assumes g: "good g s" and r: "r \<in> registered s"
  obtains m where "unregister_reader r s = (Inr (), s\<lparr>reader_gens := m\<rparr>)"
    and "good g (s\<lparr>reader_gens := m\<rparr>)" and "registered (s\<lparr>reader_gens := m\<rparr>) = registered s - {r}"
proof -
  from r obtain p where p: "get_reader_ptr r s = Some p" and ok: "id_ok r" by (auto simp: registered_def)
  let ?s = "snd (suspend_reader r s)"
  have less: "unat p < length (slots (reader_gens s))" using found_slot(1) [OF g p] .
  have s: "\<exists>m. ?s = s\<lparr>reader_gens := m\<rparr>" "good g ?s" "registered ?s = registered s"
      "fst (suspend_reader r s) \<noteq> Inl SuspendReaderNotFound"
      "\<And>p. get_reader_ptr r ?s = Some p \<Longrightarrow> is_suspended (load_gen p ?s)"
  proof -
    show "\<exists>m. ?s = s\<lparr>reader_gens := m\<rparr>"
      using p by (auto simp: suspend_reader_def suspend_from_def store_gen_def intro: exI [of _ "reader_gens s"])
    show "good g ?s" using p g good_store_suspended [OF g p]
      by (simp add: suspend_reader_def suspend_from_def SUSPENDED_BIT_eq)
    show "registered ?s = registered s" using p
      by (simp add: suspend_reader_def suspend_from_def registered_def)
    show "fst (suspend_reader r s) \<noteq> Inl SuspendReaderNotFound" using p
      by (simp add: suspend_reader_def suspend_from_def)
    show "is_suspended (load_gen q ?s)" if "get_reader_ptr r ?s = Some q" for q
      using that p less by (auto simp: suspend_reader_def suspend_from_def SUSPENDED_BIT_eq load_store_gen split: if_splits)
  qed
  obtain m where m: "?s = s\<lparr>reader_gens := m\<rparr>" using s(1) by blast
  obtain res where res: "suspend_reader r s = (res, s\<lparr>reader_gens := m\<rparr>)" using m by (cases "suspend_reader r s") auto
  then have "unregister_reader r s = (Inr (), s\<lparr>reader_gens := release_id r (reader_gens ?s)\<rparr>)"
    using s(4) by (auto simp: unregister_reader_def release_id_def split: sum.splits suspend_error.splits)
  moreover have "good g (s\<lparr>reader_gens := release_id r (reader_gens ?s)\<rparr>)"
    using good_release [OF s(2) ok s(5)] m by simp
  moreover have "registered (s\<lparr>reader_gens := release_id r (reader_gens ?s)\<rparr>) = registered s - {r}"
    using registered_release [OF s(2) ok] s(3) m by simp
  ultimately show thesis by (rule that)
qed

section \<open>One drop\<close>

datatype handle = WriterHandle | ReaderHandle reader

fun drop_handle :: "bool \<Rightarrow> handle \<Rightarrow> 'a area \<Rightarrow> ('a area \<times> region list) option" where
  "drop_handle nd WriterHandle s = drop_writer nd s"
| "drop_handle nd (ReaderHandle r) s = drop_reader nd r s"

fun writer_handles :: "handle list \<Rightarrow> nat" where
  "writer_handles [] = 0"
| "writer_handles (WriterHandle # hs) = Suc (writer_handles hs)"
| "writer_handles (ReaderHandle r # hs) = writer_handles hs"

fun reader_handles :: "handle list \<Rightarrow> reader list" where
  "reader_handles [] = []"
| "reader_handles (WriterHandle # hs) = reader_handles hs"
| "reader_handles (ReaderHandle r # hs) = r # reader_handles hs"

text \<open>
  The state between two drops, when no operation is under way: the handles that are left are
  counted by \<open>writers_count\<close> and the table, and \<open>destroy_stages\<close> says which kinds are left.
\<close>

definition at_rest :: "gen \<Rightarrow> handle list \<Rightarrow> 'a area \<Rightarrow> bool" where
  "at_rest g hs s \<longleftrightarrow> good g s \<and> free_gen s = last_valid_gen s \<and>
     writers_count s = of_nat (writer_handles hs) \<and> writer_handles hs < 2 ^ 64 \<and>
     registered s = set (reader_handles hs) \<and> distinct (reader_handles hs) \<and>
     destroy_stages s = of_bool (writer_handles hs \<noteq> 0) + of_bool (reader_handles hs \<noteq> []) \<and>
     reader_keep_alloc_tickets s = 0 \<and> reader_stage_tickets s = 0"

text \<open>The last stage: everything that is left is dropped, then all the memory is freed.\<close>

lemma leave_stage_last:
  assumes g: "good g s" and "free_gen s = last_valid_gen s" and "registered s = {}" and "destroy_stages s = 1"
  shows "\<exists>s'. leave_stage nd s = Some (s', free_all) \<and> dropped s' = dropped s @ (if nd then live_messages s else [])"
proof -
  let ?s = "s\<lparr>destroy_stages := 0\<rparr>"
  have gs: "good g ?s" using g by simp
  have "registered ?s = {}" using assms(3) by simp
  then have h: "oldest_held g ?s = pos g (read_gen s)" using nobody_holds [OF gs] by simp
  have at: "at_off g ?s = at_off g s" by (simp add: fun_eq_iff at_off_def)
  obtain res s' where "try_cleanup_old_slots Exclusive nd ?s = Some (Returns res, s')"
      "dropped s' = dropped ?s @ (if nd then map (at_off g ?s) [pos g (last_valid_gen ?s)..<oldest_held g ?s] else [])"
    by (rule cleanup_alone [OF gs, of Exclusive nd]) (use assms(2) in simp_all)
  then show ?thesis using assms(4) h at live_messages_at_off [OF g] by (simp add: leave_stage_def)
qed

lemma drop_reader_alone:
  assumes g: "good g s" and r: "r \<in> registered s"
    and z: "reader_keep_alloc_tickets s = 0" "reader_stage_tickets s = 0"
  obtains m s' where "s' = s\<lparr>reader_gens := m, reader_keep_alloc_tickets := 0, reader_stage_tickets := 0\<rparr>"
    and "drop_reader nd r s = (if registered s = {r} then leave_stage nd s' else Some (s', []))"
    and "good g s'" and "registered s' = registered s - {r}"
proof -
  let ?s1 = "s\<lparr>reader_keep_alloc_tickets := 1\<rparr>"
  have g1: "good g ?s1" and r1: "registered ?s1 = registered s" using g by simp_all
  obtain m where m: "unregister_reader r ?s1 = (Inr (), ?s1\<lparr>reader_gens := m\<rparr>)" "good g (?s1\<lparr>reader_gens := m\<rparr>)"
      "registered (?s1\<lparr>reader_gens := m\<rparr>) = registered s - {r}"
    by (rule unregister_alone [OF g1, of r]) (use r r1 in simp_all)
  let ?s' = "s\<lparr>reader_gens := m, reader_keep_alloc_tickets := 0, reader_stage_tickets := 0\<rparr>"
  have s': "?s1\<lparr>reader_gens := m\<rparr> = (s\<lparr>reader_gens := m\<rparr>)\<lparr>reader_keep_alloc_tickets := 1\<rparr>" by simp
  have g': "good g ?s'" and r': "registered ?s' = registered s - {r}" using m(2,3) unfolding s' by simp_all
  have "has_readers (?s1\<lparr>reader_gens := m\<rparr>) \<longleftrightarrow> registered s \<noteq> {r}"
    unfolding has_readers_registered [OF m(2)] m(3) using r by blast
  moreover have "s\<lparr>reader_gens := m, reader_keep_alloc_tickets := 0\<rparr> = ?s'" using z(2) by simp
  moreover have "run_loop wait_turn (s\<lparr>reader_gens := m, reader_stage_tickets := 1, reader_keep_alloc_tickets := 0\<rparr>) =
      Some ((), s\<lparr>reader_gens := m, reader_stage_tickets := 1, reader_keep_alloc_tickets := 0\<rparr>)"
    by (rule run_loop_Return) (simp add: wait_turn_def)
  ultimately have "drop_reader nd r s = (if registered s = {r} then leave_stage nd ?s' else Some (?s', []))"
    using m(1) z by (simp add: drop_reader_def Let_def)
  then show thesis using g' r' by (intro that [of ?s' m]) simp_all
qed

section \<open>All drops\<close>

lemma drop_step:
  assumes rest: "at_rest g (h # hs) s" and ne: "hs \<noteq> []"
  obtains s' where "drop_handle nd h s = Some (s', [])" and "at_rest g hs s'" and "dropped s' = dropped s"
    and "live_messages s' = live_messages s"
proof -
  have g: "good g s" using rest by (simp add: at_rest_def)
  have some: "writer_handles hs \<noteq> 0 \<or> reader_handles hs \<noteq> []"
    using ne by (cases hs rule: writer_handles.cases) auto
  show thesis
  proof (cases h)
    case WriterHandle
    let ?n = "writer_handles hs"
    let ?s = "s\<lparr>writers_count := writers_count s - 1\<rparr>"
    have c: "writers_count s = of_nat (Suc ?n)" "Suc ?n < 2 ^ 64" using rest WriterHandle by (auto simp: at_rest_def)
    have last: "writers_count s = 1 \<longleftrightarrow> ?n = 0"
      using unat_of_nat64 [OF c(2)] c(1) by (metis One_nat_def Suc_inject of_nat_1 unat_1)
    show ?thesis
    proof (cases "?n = 0")
      case False
      then have "drop_writer nd s = Some (?s, [])" using last by (simp add: drop_writer_def)
      moreover have "at_rest g hs ?s" using rest False c WriterHandle by (simp add: at_rest_def)
      ultimately show ?thesis using WriterHandle by (intro that [of ?s]) simp_all
    next
      case True
      let ?t = "?s\<lparr>destroy_stages := destroy_stages s - 1\<rparr>"
      have st: "destroy_stages s = 2" using rest WriterHandle True some by (simp add: at_rest_def)
      then have "drop_writer nd s = Some (?t, [])" using last True by (simp add: drop_writer_def leave_stage_def)
      moreover have "at_rest g hs ?t" using rest st True some c WriterHandle by (simp add: at_rest_def)
      ultimately show ?thesis using WriterHandle by (intro that [of ?t]) simp_all
    qed
  next
    case (ReaderHandle r)
    have r: "r \<in> registered s" and rs: "registered s - {r} = set (reader_handles hs)"
      and z: "reader_keep_alloc_tickets s = 0" "reader_stage_tickets s = 0"
      using rest ReaderHandle by (auto simp: at_rest_def)
    have only: "registered s = {r} \<longleftrightarrow> reader_handles hs = []"
    proof -
      have "registered s = {r} \<longleftrightarrow> registered s - {r} = {}" using r by blast
      then show ?thesis by (simp add: rs)
    qed
    obtain m s' where d: "s' = s\<lparr>reader_gens := m, reader_keep_alloc_tickets := 0, reader_stage_tickets := 0\<rparr>"
        "drop_reader nd r s = (if registered s = {r} then leave_stage nd s' else Some (s', []))"
        "good g s'" "registered s' = registered s - {r}"
      using g r z by (rule drop_reader_alone)
    have live: "live_messages s' = live_messages s" unfolding d(1) by simp
    show ?thesis
    proof (cases "reader_handles hs = []")
      case False
      then have "at_rest g hs s'" using rest ReaderHandle d(1,3,4) rs by (simp add: at_rest_def)
      then show ?thesis using False only d live ReaderHandle by (intro that [of s']) simp_all
    next
      case True
      let ?t = "s'\<lparr>destroy_stages := destroy_stages s' - 1\<rparr>"
      have st: "destroy_stages s' = 2" using rest ReaderHandle True some d(1) by (simp add: at_rest_def)
      then have "drop_reader nd r s = Some (?t, [])" using only True d(2) by (simp add: leave_stage_def)
      moreover have "at_rest g hs ?t" using rest st True some ReaderHandle d(1,3,4) rs by (simp add: at_rest_def)
      ultimately show ?thesis using ReaderHandle live d(1) by (intro that [of ?t]) simp_all
    qed
  qed
qed

lemma drop_last:
  assumes rest: "at_rest g [h] s"
  shows "\<exists>s'. drop_handle nd h s = Some (s', free_all) \<and> dropped s' = dropped s @ (if nd then live_messages s else [])"
proof (cases h)
  case WriterHandle
  let ?s = "s\<lparr>writers_count := 0\<rparr>"
  have g: "good g ?s" and z: "registered ?s = {}" "destroy_stages ?s = 1" "free_gen ?s = last_valid_gen ?s"
      "writers_count s = 1" "live_messages ?s = live_messages s"
    using rest WriterHandle by (simp_all add: at_rest_def)
  from leave_stage_last [OF g z(3,1,2), of nd] show ?thesis
    using WriterHandle z(4,5) by (simp add: drop_writer_def cong: if_cong)
next
  case (ReaderHandle r)
  have g: "good g s" and r: "r \<in> registered s" "registered s = {r}"
    and z: "reader_keep_alloc_tickets s = 0" "reader_stage_tickets s = 0"
    using rest ReaderHandle by (auto simp: at_rest_def)
  obtain m s' where d: "s' = s\<lparr>reader_gens := m, reader_keep_alloc_tickets := 0, reader_stage_tickets := 0\<rparr>"
      "drop_reader nd r s = (if registered s = {r} then leave_stage nd s' else Some (s', []))"
      "good g s'" "registered s' = registered s - {r}"
    using g r(1) z by (rule drop_reader_alone)
  have live: "live_messages s' = live_messages s" unfolding d(1) by simp
  have "registered s' = {}" "destroy_stages s' = 1" "free_gen s' = last_valid_gen s'"
    using d(1,4) r(2) rest ReaderHandle by (simp_all add: at_rest_def)
  from leave_stage_last [OF d(3) this(3,1,2), of nd] show ?thesis
    using ReaderHandle d(1,2) r(2) live by (simp cong: if_cong)
qed

fun drop_handles :: "bool \<Rightarrow> handle list \<Rightarrow> 'a area \<Rightarrow> ('a area \<times> region list) option" where
  "drop_handles nd [] s = Some (s, [])"
| "drop_handles nd (h # hs) s =
     (case drop_handle nd h s of
        None \<Rightarrow> None
      | Some (s', freed) \<Rightarrow> map_option (\<lambda>(s'', more). (s'', freed @ more)) (drop_handles nd hs s'))"

text \<open>
  C26: whatever the number of handles and the order in which they are dropped one after the
  other, no drop but the last frees anything; the last one drops every message that is still
  alive, in order, and frees every region, once.  No drop panics or waits for ever.
\<close>
theorem last_drop_frees_once:
  assumes rest: "at_rest g hs s" and ne: "hs \<noteq> []"
  shows "\<exists>s' s''. drop_handles nd (butlast hs) s = Some (s', [])
    \<and> drop_handle nd (last hs) s' = Some (s'', free_all) \<and> distinct free_all
    \<and> dropped s'' = dropped s @ (if nd then live_messages s else [])"
  using rest ne
proof (induction hs arbitrary: s)
  case (Cons h hs)
  show ?case
  proof (cases "hs = []")
    case True
    then show ?thesis using drop_last [of g h s nd] Cons.prems(1) by (auto simp: free_all_def)
  next
    case False
    from drop_step [OF Cons.prems(1) False, of nd] obtain s1 where s1: "drop_handle nd h s = Some (s1, [])"
        "at_rest g hs s1" "dropped s1 = dropped s" "live_messages s1 = live_messages s" by blast
    from Cons.IH [OF s1(2) False] s1 False show ?thesis by auto
  qed
qed simp

section \<open>Construction\<close>

lemma good_registered:
  assumes g: "good g s" and seed: "id_ok seed"
    and c: "claim_id seed (reader_gens s) = Some (r, p, store_key p r (reader_gens s))"
    and p: "unat p < length (slots (reader_gens s))"
  shows "good g (store_gen p (gen_without_suspended_bit (load_gen p s)) (s\<lparr>reader_gens := store_key p r (reader_gens s)\<rparr>))"
    (is "good g ?s")
proof -
  let ?m = "store_key p r (reader_gens s)"
  have ok: "map_inv ?m" "id_ok r" using slot_map.claim_ok [OF good_map [OF g] seed c] by auto
  have "r \<noteq> 0" using ok(2) by (rule id_okD)
  then have "free_suspended ?s" using g p
    by (auto simp: good_def reg_inv_def free_suspended_def slot_store_cell slot_store_key)
  moreover have "cell_at j ?s = (if j = unat p then gen_without_suspended_bit (load_gen p s) else cell_at j s)" for j
    using p by (simp add: cell_at_def slot_store_cell slot_store_key)
  ultimately show ?thesis using g ok(1)
    by (auto simp: good_def reg_inv_def ord_inv_def window_def strip_eq load_cell_at)
qed

lemma first_insert:
  assumes inv: "map_inv m" and e: "load_key (1 AND mask_of m) m = EMPTY"
  shows "get_or_insert_concurrent 1 ZERO_OFFSET (capacity m) True True m =
    ((Some (1 AND mask_of m), True, 0, 1 OR MSB, 1 AND mask_of m), store_key (1 AND mask_of m) (1 OR MSB) m)"
proof -
  have wf: "map_wf m" using inv by (simp add: map_inv_def)
  then have "unat (capacity m) \<noteq> 0" using map_wf_capacity [OF wf] by (simp add: unat_eq_0)
  then obtain k where "unat (turns (capacity m) m) = Suc k"
    using map_wf_capacity [OF wf] by (metis not0_implies_Suc)
  moreover have "fold_key 1 0 0 (mask_of m) = 1 OR MSB" by (simp add: fold_key_def IN_PROGRESS_def MSB64)
  ultimately show ?thesis
    using e by (simp add: get_or_insert_concurrent_def index_for_def goi_turn_def value_ptr_def Let_def)
qed

text \<open>The state \<open>AreaInner::new\<close> and the first store to \<open>writers_count\<close> leave.\<close>

lemma area_new_at:
  "area_new bc rc = (if bc = 0 \<or> \<not> is_power_of_two rc then Panics else Returns ((area_at 0 bc rc)\<lparr>writers_count := 0\<rparr>))"
proof -
  have "rc \<noteq> 0" if "is_power_of_two rc" using that by (auto simp: is_power_of_two_def list_ex_iff)
  then show ?thesis by (auto simp: area_new_def area_at_def word_gt_0)
qed

lemma start_good:
  assumes "bc \<noteq> 0" and "unat bc < 2 ^ 62" and "is_power_of_two rc" and "unat rc \<le> 2 ^ 62"
  shows "good 0 (area_at 0 bc rc)"
proof -
  have "run_of True 0 bc rc (start_at 0 bc rc)"
    using assms reachable.start [of True "start_at 0 bc rc"]
    by (simp add: run_of_def start_ok_def ring_ok_def start_at_def unat_gt_0)
  from run_good [OF this] show ?thesis by (simp add: start_at_def)
qed

lemma finish_init_start:
  assumes b: "bc \<noteq> 0" "unat bc < 2 ^ 62" "is_power_of_two rc" "unat rc \<le> 2 ^ 62"
  obtains s :: "'a area" where "finish_init (area_at 0 bc rc) = Some (Returns 1, s)"
    and "at_rest 0 [WriterHandle, ReaderHandle 1] s" and "get_reader_gen 1 s = Some 0"
    and "\<exists>m. s = (area_at 0 bc rc)\<lparr>reader_gens := m\<rparr>"
proof -
  let ?s = "area_at 0 bc rc :: 'a area"
  let ?m = "reader_gens ?s"
  have g: "good 0 ?s" by (rule start_good [OF b])
  note inv = good_map [OF g] and seed = id_ok_seed_of [of 1]
  have empty: "key (slots ?m ! i) = EMPTY" if "i < length (slots ?m)" for i
    using that by (simp add: area_at_def with_capacity_and_init_def)
  have less: "unat (1 AND mask_of ?m) < length (slots ?m)" using inv by (simp add: map_inv_def index_less)
  have s1: "seed_of 1 = 1" by (simp add: seed_of_def MSB64)
  have none: "registered ?s = {}"
    using registered_key [OF g] empty by blast
  have claim: "claim_id 1 ?m = Some (1, 1 AND mask_of ?m, store_key (1 AND mask_of ?m) 1 ?m)"
  proof -
    have bits: "is_in_progress (1 OR MSB)" "key_bits (1 OR MSB) = 1" by code_simp+
    have "load_key (1 AND mask_of ?m) ?m = EMPTY" using empty [OF less] by (simp add: load_key_def slot_at_def)
    from first_insert [OF inv this] show ?thesis
      using less bits by (simp add: claim_id_def finish_init_at_eq load_store_key)
  qed
  let ?p = "1 AND mask_of ?m"
  let ?t = "store_gen ?p (gen_without_suspended_bit (load_gen ?p ?s)) (?s\<lparr>reader_gens := store_key ?p 1 ?m\<rparr>)"
  have "0 < length (slots ?m)" using less by linarith
  then have "\<exists>i < length (slots ?m). key (slots ?m ! i) = EMPTY" using empty by blast
  then have reg: "register_reader_with_seed 1 ?s = Some (Inr 1, ?t)"
    using register_alone [OF g, of 1] claim s1 by auto
  have gt: "good 0 ?t" using good_registered [OF g _ claim less] seed s1 by simp
  have gen: "load_gen ?p ?s = SUSPENDED_BIT"
    using less by (simp add: load_gen_def slot_at_def area_at_def with_capacity_and_init_def)
  have ok1: "id_ok 1" using seed s1 by simp
  have "registered ?t = {1}"
  proof (rule set_eqI)
    fix q
    show "q \<in> registered ?t \<longleftrightarrow> q \<in> {1}"
      using slot_map.claim_find [OF inv ok1 claim] slot_map.claim_other [OF inv ok1 claim, of q] none ok1
      by (cases "q = 1") (auto simp: registered_def get_reader_ptr_find)
  qed
  then have rest: "at_rest 0 [WriterHandle, ReaderHandle 1] ?t" using gt by (simp add: at_rest_def area_at_def)
  have "get_reader_gen 1 ?t = Some 0"
    using slot_map.claim_find [OF inv ok1 claim] gen less
    by (simp add: get_reader_gen_def get_reader_ptr_find load_store_gen strip_eq SUSPENDED_BIT_eq)
  moreover have "?s\<lparr>writers_count := 1\<rparr> = ?s" by (simp add: area_at_def)
  then have "finish_init ?s = Some (Returns 1, ?t)" using reg by (simp add: finish_init_def)
  moreover have "\<exists>m. ?t = ?s\<lparr>reader_gens := m\<rparr>" by (auto simp: store_gen_def)
  ultimately show thesis using rest by (intro that [of ?t])
qed

text \<open>
  Making an area panics exactly when the buffer has no slot or the capacity for readers
  is not a power of two; it never spins.  Otherwise it returns one writer and one reader with
  id 1, all counters at 0, nothing published, the whole ring free and no message in it; and
  the invariants of every other result hold.
\<close>
theorem area_establishes:
  assumes "unat bc < 2 ^ 62" and "unat rc \<le> 2 ^ 62"
  shows "case area bc rc of
      None \<Rightarrow> False
    | Some Panics \<Rightarrow> bc = 0 \<or> \<not> is_power_of_two rc
    | Some (Returns (r, s)) \<Rightarrow> bc \<noteq> 0 \<and> is_power_of_two rc \<and> r = 1
        \<and> at_rest 0 [WriterHandle, ReaderHandle r] s \<and> get_reader_gen r s = Some 0
        \<and> write_gen s = 0 \<and> read_gen s = 0 \<and> last_valid_gen s = 0 \<and> free_gen s = 0
        \<and> room s = unat bc \<and> live_messages s = [] \<and> dropped s = []"
proof (cases "bc = 0 \<or> \<not> is_power_of_two rc")
  case True
  then show ?thesis by (simp add: area_def area_new_at)
next
  case False
  then have b: "bc \<noteq> 0" "is_power_of_two rc" by auto
  obtain s :: "'a area" where s: "finish_init (area_at 0 bc rc) = Some (Returns 1, s)"
      "at_rest 0 [WriterHandle, ReaderHandle 1] s" "get_reader_gen 1 s = Some 0"
      "\<exists>m. s = (area_at 0 bc rc)\<lparr>reader_gens := m\<rparr>"
    using b(1) assms(1) b(2) assms(2) by (rule finish_init_start)
  have "finish_init ((area_at 0 bc rc)\<lparr>writers_count := 0\<rparr>) = finish_init (area_at 0 bc rc :: 'a area)"
    by (simp add: finish_init_def area_at_def)
  then have "area bc rc = Some (Returns (1, s))" using b s(1) by (simp add: area_def area_new_at)
  then show ?thesis using b s(2-4)
    by (auto simp: room_def live_messages_def area_at_def gen_dist_msb_masked_def)
qed

section \<open>Examples\<close>

lemma area_establishes_witness:
  "\<exists>s :: nat area. area 2 2 = Some (Returns (1, s)) \<and> at_rest 0 [WriterHandle, ReaderHandle 1] s \<and> room s = 2"
proof -
  have "unat (2 :: usize) < 2 ^ 62" "unat (2 :: usize) \<le> 2 ^ 62" by simp_all
  note e = area_establishes [OF this, where 'a = nat]
  have "case area 2 2 of Some (Returns (r, s :: nat area)) \<Rightarrow> True | _ \<Rightarrow> False" by code_simp
  then obtain r and s :: "nat area" where "area 2 2 = Some (Returns (r, s))"
    by (auto split: option.splits outcome.splits)
  then show ?thesis using e by auto
qed

text \<open>A reader and a writer are dropped, in this order.\<close>

lemma last_drop_frees_once_witness:
  "\<exists>s s' s'' :: nat area. drop_handles True [ReaderHandle 1] s = Some (s', [])
     \<and> drop_handle True WriterHandle s' = Some (s'', free_all) \<and> dropped s'' = []"
proof -
  have "is_power_of_two 2" by code_simp
  then obtain s :: "nat area" where s: "at_rest 0 [WriterHandle, ReaderHandle 1] s"
      "\<exists>m. s = (area_at 0 2 2)\<lparr>reader_gens := m\<rparr>"
    using finish_init_start [of 2 2] by auto
  then have "live_messages s = []" "dropped s = []"
    by (auto simp: live_messages_def area_at_def gen_dist_msb_masked_def)
  moreover have "at_rest 0 [ReaderHandle 1, WriterHandle] s" using s(1) by (simp add: at_rest_def)
  ultimately show ?thesis using last_drop_frees_once [of 0 "[ReaderHandle 1, WriterHandle]" s True] by auto
qed

end
