(* ===== verification/Drop_Machine.thy ===== *)
theory Drop_Machine
  imports Teardown
begin

text \<open>
  The destruction protocol of \<open>src/area.rs\<close> under every interleaving: any number of threads
  drop their handles at the same time.  A thread is at a step of \<open>AreaWriter::drop\<close> or
  \<open>AreaReader::drop\<close>; every access to a counter and every key the scan of \<open>has_readers\<close> loads
  is a step of its own.  \<open>unregister_reader\<close>, a load and a
  \<open>fetch_or\<close> on the reader's cell and a load and a CAS of its key, is one step: the scan looks at
  keys only, so that what the others see of it is the CAS that empties the key.  New handles can be made from handles that are still held.
\<close>

section \<open>The steps of the drops\<close>

datatype drop_pc =
    Held handle
  | LastWriter              \<comment> \<open>\<open>prev_count == 1\<close>\<close>
  | Ticketed reader         \<comment> \<open>after step 1 of the source\<close>
  | Scanning nat            \<comment> \<open>step 3: the next slot \<open>has_readers\<close> looks at\<close>
  | TakeStage               \<comment> \<open>step 6\<close>
  | ReturnTicket bool       \<comment> \<open>step 7, with \<open>attempting_free\<close>\<close>
  | Waiting                 \<comment> \<open>step 9\<close>
  | GiveStage
  | Elected                 \<comment> \<open>\<open>prev_stage == 1\<close>\<close>
  | Freeing                 \<comment> \<open>\<open>prev_stages == 1\<close>\<close>
  | Finished

text \<open>The third component counts how often the memory was freed.\<close>

fun dropper_step :: "bool \<Rightarrow> drop_pc \<Rightarrow> 'a area \<Rightarrow> (drop_pc \<times> 'a area \<times> nat) option" where
  "dropper_step nd (Held WriterHandle) s =
     Some (if writers_count s = 1 then LastWriter else Finished, s\<lparr>writers_count := writers_count s - 1\<rparr>, 0)"
| "dropper_step nd LastWriter s =
     Some (if destroy_stages s = 1 then Freeing else Finished, s\<lparr>destroy_stages := destroy_stages s - 1\<rparr>, 0)"
| "dropper_step nd (Held (ReaderHandle r)) s =
     Some (Ticketed r, s\<lparr>reader_keep_alloc_tickets := reader_keep_alloc_tickets s + 1\<rparr>, 0)"
| "dropper_step nd (Ticketed r) s = Some (Scanning 0, snd (unregister_reader r s), 0)"
| "dropper_step nd (Scanning i) s =
     Some (if i < length (raw_slots (reader_gens s))
           then (if key (raw_slots (reader_gens s) ! i) \<noteq> EMPTY then ReturnTicket False else Scanning (Suc i))
           else TakeStage, s, 0)"
| "dropper_step nd TakeStage s = Some (ReturnTicket True, s\<lparr>reader_stage_tickets := reader_stage_tickets s + 1\<rparr>, 0)"
| "dropper_step nd (ReturnTicket attempting_free) s =
     Some (if attempting_free then Waiting else Finished,
           s\<lparr>reader_keep_alloc_tickets := reader_keep_alloc_tickets s - 1\<rparr>, 0)"
| "dropper_step nd Waiting s =
     (case wait_turn s of (Return _, s') \<Rightarrow> Some (GiveStage, s', 0) | (Continue, s') \<Rightarrow> Some (Waiting, s', 0))"
| "dropper_step nd GiveStage s =
     Some (if reader_stage_tickets s = 1 then Elected else Finished,
           s\<lparr>reader_stage_tickets := reader_stage_tickets s - 1\<rparr>, 0)"
| "dropper_step nd Elected s =
     Some (if destroy_stages s = 1 then Freeing else Finished, s\<lparr>destroy_stages := destroy_stages s - 1\<rparr>, 0)"
| "dropper_step nd Freeing s = map_option (\<lambda>(res, s'). (Finished, s', case res of Returns _ \<Rightarrow> 1 | Panics \<Rightarrow> 0)) (try_cleanup_old_slots Exclusive nd s)"
| "dropper_step nd Finished s = Some (Finished, s, 0)"

record 'a drops =
  dying :: "'a area"
  droppers :: "drop_pc list"
  frees :: nat

datatype drop_event = Step nat | NewWriter nat | NewReader nat gen

definition drop_exec :: "bool \<Rightarrow> drop_event \<Rightarrow> 'a drops \<Rightarrow> 'a drops option" where
  "drop_exec nd e S =
     (case e of
        Step t \<Rightarrow>
          (if t < length (droppers S) then
             map_option (\<lambda>(x, s, n). \<lparr>dying = s, droppers = (droppers S)[t := x], frees = frees S + n\<rparr>)
               (dropper_step nd (droppers S ! t) (dying S))
           else None)
      | NewWriter t \<Rightarrow>
          (if t < length (droppers S) \<and> droppers S ! t = Held WriterHandle
           then Some (S\<lparr>dying := create_writer (dying S), droppers := droppers S @ [Held WriterHandle]\<rparr>)
           else None)
      | NewReader t seed \<Rightarrow>
          (if t < length (droppers S) \<and> (case droppers S ! t of Held (ReaderHandle _) \<Rightarrow> True | _ \<Rightarrow> False) then
             map_option (\<lambda>(res, s).
                 S\<lparr>dying := s,
                   droppers := (case res of Inr r \<Rightarrow> droppers S @ [Held (ReaderHandle r)] | Inl _ \<Rightarrow> droppers S)\<rparr>)
               (create_reader_with_seed seed (dying S))
           else None))"

fun drops_run :: "bool \<Rightarrow> drop_event list \<Rightarrow> 'a drops \<Rightarrow> 'a drops option" where
  "drops_run nd [] S = Some S"
| "drops_run nd (e # es) S = (case drop_exec nd e S of None \<Rightarrow> None | Some S' \<Rightarrow> drops_run nd es S')"

definition start_drops :: "'a area \<Rightarrow> handle list \<Rightarrow> 'a drops" where
  "start_drops s hs = \<lparr>dying = s, droppers = map Held hs, frees = 0\<rparr>"

section \<open>Counting threads\<close>

definition tally :: "('x \<Rightarrow> bool) \<Rightarrow> 'x list \<Rightarrow> nat" where
  "tally P ts = length (filter P ts)"

lemma tally_append [simp]: "tally P (ts @ [y]) = tally P ts + of_bool (P y)"
  by (simp add: tally_def)

lemma tally_update:
  "t < length ts \<Longrightarrow> tally P (ts[t := y]) + of_bool (P (ts ! t)) = tally P ts + of_bool (P y)"
proof (induction ts arbitrary: t)
  case (Cons x ts)
  then show ?case by (cases t) (auto simp: tally_def)
qed simp

lemma tally_mono: "(\<And>x. P x \<Longrightarrow> Q x) \<Longrightarrow> tally P ts \<le> tally Q ts"
  by (induction ts) (auto simp: tally_def)

lemma tally_pos: "0 < tally P ts \<longleftrightarrow> (\<exists>t < length ts. P (ts ! t))"
  by (auto simp: tally_def length_filter_conv_card card_gt_0_iff)

lemma tally_le: "tally P ts \<le> length ts"
  by (simp add: tally_def)

lemma tally_one:
  assumes "tally P ts \<le> 1" and "t < length ts" "P (ts ! t)" and "u < length ts" "P (ts ! u)"
  shows "t = u"
proof (rule ccontr)
  assume ne: "t \<noteq> u"
  have "card {t, u} \<le> card {i. i < length ts \<and> P (ts ! i)}" using assms by (intro card_mono) auto
  then show False using ne assms(1) by (simp add: tally_def length_filter_conv_card)
qed

fun is_writer :: "drop_pc \<Rightarrow> bool" where
  "is_writer (Held WriterHandle) = True"
| "is_writer x = False"

text \<open>The reader id a thread still has in the table.\<close>

fun reader_of :: "drop_pc \<Rightarrow> reader option" where
  "reader_of (Held (ReaderHandle r)) = Some r"
| "reader_of (Ticketed r) = Some r"
| "reader_of x = None"

fun has_ticket :: "drop_pc \<Rightarrow> bool" where
  "has_ticket (Ticketed r) = True"
| "has_ticket (Scanning i) = True"
| "has_ticket TakeStage = True"
| "has_ticket (ReturnTicket b) = True"
| "has_ticket x = False"

fun has_stage :: "drop_pc \<Rightarrow> bool" where
  "has_stage (ReturnTicket b) = b"
| "has_stage Waiting = True"
| "has_stage GiveStage = True"
| "has_stage x = False"

text \<open>Threads that know that all keys are gone, or will.\<close>

fun alone :: "drop_pc \<Rightarrow> bool" where
  "alone TakeStage = True"
| "alone x = has_stage x"

fun candidate :: "drop_pc \<Rightarrow> bool" where
  "candidate (Scanning i) = True"
| "candidate x = alone x"

definition active :: "drop_pc \<Rightarrow> bool" where
  "active x \<longleftrightarrow> reader_of x \<noteq> None \<or> has_ticket x \<or> has_stage x"

lemma active_simps [simp]:
  "\<not> active (Held WriterHandle)" "active (Held (ReaderHandle r))" "\<not> active LastWriter" "active (Ticketed r)"
  "active (Scanning i)" "active TakeStage" "active (ReturnTicket b)" "active Waiting" "active GiveStage"
  "\<not> active Elected" "\<not> active Freeing" "\<not> active Finished"
  by (simp_all add: active_def)

text \<open>
  \<open>writer_side\<close> and \<open>reader_side\<close> are the two shares of \<open>destroy_stages\<close>.
\<close>

definition writer_side :: "drop_pc list \<Rightarrow> nat" where
  "writer_side ts = min 1 (tally is_writer ts) + tally ((=) LastWriter) ts"

definition reader_side :: "drop_pc list \<Rightarrow> nat" where
  "reader_side ts = min 1 (tally active ts) + tally ((=) Elected) ts"

definition ids_ok :: "'a area \<Rightarrow> drop_pc list \<Rightarrow> bool" where
  "ids_ok s ts \<longleftrightarrow>
     (\<forall>t < length ts. \<forall>r. reader_of (ts ! t) = Some r \<longrightarrow> r \<in> registered s) \<and>
     (\<forall>t < length ts. \<forall>u < length ts. \<forall>r. reader_of (ts ! t) = Some r \<longrightarrow> reader_of (ts ! u) = Some r \<longrightarrow> t = u) \<and>
     (\<forall>r \<in> registered s. \<exists>t < length ts. reader_of (ts ! t) = Some r)"

definition scans_ok :: "'a area \<Rightarrow> drop_pc list \<Rightarrow> bool" where
  "scans_ok s ts \<longleftrightarrow> (\<forall>t < length ts. \<forall>i. ts ! t = Scanning i \<longrightarrow>
     (\<forall>j < i. j < length (slots (reader_gens s)) \<longrightarrow> key (slots (reader_gens s) ! j) = EMPTY))"

definition counts_ok :: "'a area \<Rightarrow> drop_pc list \<Rightarrow> bool" where
  "counts_ok s ts \<longleftrightarrow>
     unat (writers_count s) = tally is_writer ts \<and>
     unat (reader_keep_alloc_tickets s) = tally has_ticket ts \<and>
     unat (reader_stage_tickets s) = tally has_stage ts \<and>
     unat (destroy_stages s) = writer_side ts + reader_side ts"

definition sides_ok :: "drop_pc list \<Rightarrow> bool" where
  "sides_ok ts \<longleftrightarrow> writer_side ts \<le> 1 \<and> reader_side ts \<le> 1 \<and>
     tally ((=) Freeing) ts = (if writer_side ts + reader_side ts = 0 then 1 else 0)"

definition phases_ok :: "'a area \<Rightarrow> drop_pc list \<Rightarrow> bool" where
  "phases_ok s ts \<longleftrightarrow>
     (0 < tally alone ts \<longrightarrow> registered s = {}) \<and>
     (0 < tally ((=) GiveStage) ts \<longrightarrow> tally has_ticket ts = 0) \<and>
     (0 < tally active ts \<longrightarrow> registered s \<noteq> {} \<or> 0 < tally candidate ts)"

text \<open>The part of the invariant that counts.\<close>

definition numbers_ok :: "'a area \<Rightarrow> drop_pc list \<Rightarrow> bool" where
  "numbers_ok s ts \<longleftrightarrow> counts_ok s ts \<and> sides_ok ts \<and> phases_ok s ts"

text \<open>No drop but the last touches the messages.\<close>

definition untouched :: "gen \<Rightarrow> 'a area \<Rightarrow> 'a area \<Rightarrow> bool" where
  "untouched g s0 s \<longleftrightarrow> good g s \<and> free_gen s = last_valid_gen s \<and>
     dropped s = dropped s0 \<and> live_messages s = live_messages s0"

definition drops_inv :: "gen \<Rightarrow> 'a area \<Rightarrow> 'a drops \<Rightarrow> bool" where
  "drops_inv g s0 S \<longleftrightarrow> frees S = 0 \<and> untouched g s0 (dying S) \<and> ids_ok (dying S) (droppers S) \<and>
     scans_ok (dying S) (droppers S) \<and> numbers_ok (dying S) (droppers S)"

section \<open>Every step keeps the invariant\<close>

lemma tally_bounds:
  "tally alone ts \<le> tally candidate ts" "tally candidate ts \<le> tally active ts"
  "tally has_ticket ts \<le> tally active ts" "tally has_stage ts \<le> tally alone ts"
  "tally ((=) GiveStage) ts \<le> tally has_stage ts" "tally (\<lambda>x. reader_of x \<noteq> None) ts \<le> tally active ts"
proof -
  have c: "alone x \<Longrightarrow> candidate x" "candidate x \<Longrightarrow> active x" "has_stage x \<Longrightarrow> alone x" for x
    by (cases x; simp add: active_def)+
  show "tally alone ts \<le> tally candidate ts" "tally candidate ts \<le> tally active ts"
    "tally has_ticket ts \<le> tally active ts" "tally has_stage ts \<le> tally alone ts"
    "tally ((=) GiveStage) ts \<le> tally has_stage ts" "tally (\<lambda>x. reader_of x \<noteq> None) ts \<le> tally active ts"
    by (rule tally_mono; use c in \<open>force simp: active_def\<close>)+
qed

lemma tally_active: "tally active ts \<le> tally (\<lambda>x. reader_of x \<noteq> None) ts + tally has_ticket ts + tally has_stage ts"
  by (induction ts) (auto simp: tally_def active_def)

lemma registered_tally: "ids_ok s ts \<Longrightarrow> registered s \<noteq> {} \<longleftrightarrow> 0 < tally (\<lambda>x. reader_of x \<noteq> None) ts"
  unfolding tally_pos ids_ok_def by fastforce

text \<open>How one thread's step changes the counts.\<close>

lemmas tally_phases = tally_update [where P = has_ticket] tally_update [where P = alone]
  tally_update [where P = candidate] tally_update [where P = active] tally_update [where P = "(=) GiveStage"]

lemma tally_same: "t < length ts \<Longrightarrow> P x = P (ts ! t) \<Longrightarrow> tally P (ts[t := x]) = tally P ts"
  using tally_update [of t ts P x] by simp

lemma sides_same:
  assumes t: "t < length ts" and same: "is_writer x = is_writer (ts ! t)" "LastWriter = x \<longleftrightarrow> LastWriter = ts ! t"
      "Elected = x \<longleftrightarrow> Elected = ts ! t" "Freeing = x \<longleftrightarrow> Freeing = ts ! t"
    and act: "0 < tally active (ts[t := x]) \<longleftrightarrow> 0 < tally active ts"
  shows "writer_side (ts[t := x]) = writer_side ts \<and> reader_side (ts[t := x]) = reader_side ts
    \<and> (sides_ok ts \<longrightarrow> sides_ok (ts[t := x]))"
proof -
  have "min 1 (tally active (ts[t := x])) = min 1 (tally active ts)" using act by linarith
  then have sides: "writer_side (ts[t := x]) = writer_side ts" "reader_side (ts[t := x]) = reader_side ts"
    unfolding writer_side_def reader_side_def using same by (simp_all add: tally_same [OF t])
  then show ?thesis unfolding sides_ok_def sides tally_same [of t ts "(=) Freeing", OF t same(4)] by simp
qed

lemma active_not:
  "active x \<Longrightarrow> \<not> is_writer x" "active x \<Longrightarrow> LastWriter \<noteq> x" "active x \<Longrightarrow> Elected \<noteq> x" "active x \<Longrightarrow> Freeing \<noteq> x"
  by (auto elim: is_writer.elims)

lemma sides_quiet:
  assumes t: "t < length ts" and pc: "active (ts ! t)" and x: "active x"
  shows "writer_side (ts[t := x]) = writer_side ts \<and> reader_side (ts[t := x]) = reader_side ts
    \<and> (sides_ok ts \<longrightarrow> sides_ok (ts[t := x]))"
proof (rule sides_same [OF t])
  show "is_writer x = is_writer (ts ! t)" using active_not(1) [OF pc] active_not(1) [OF x] by simp
  show "LastWriter = x \<longleftrightarrow> LastWriter = ts ! t" using active_not(2) [OF pc] active_not(2) [OF x] by simp
  show "Elected = x \<longleftrightarrow> Elected = ts ! t" using active_not(3) [OF pc] active_not(3) [OF x] by simp
  show "Freeing = x \<longleftrightarrow> Freeing = ts ! t" using active_not(4) [OF pc] active_not(4) [OF x] by simp
  show "0 < tally active (ts[t := x]) \<longleftrightarrow> 0 < tally active ts" using tally_same [OF t, of active x] pc x by simp
qed

lemma ids_step:
  assumes "ids_ok s ts" and "t < length ts" and "reader_of x = reader_of (ts ! t)" and "registered s' = registered s"
  shows "ids_ok s' (ts[t := x])"
proof -
  have "reader_of (ts[t := x] ! u) = reader_of (ts ! u)" if "u < length ts" for u
    using assms(2,3) that by (cases "u = t") simp_all
  then show ?thesis using assms(1,4) unfolding ids_ok_def length_list_update by (simp cong: conj_cong)
qed

lemma ids_gone:
  assumes ids: "ids_ok s ts" and t: "t < length ts" "reader_of (ts ! t) = Some r" and x: "reader_of x = None"
    and reg: "registered s' = registered s - {r}"
  shows "ids_ok s' (ts[t := x])"
proof -
  have ro: "reader_of (ts[t := x] ! u) = Some q \<longleftrightarrow> u \<noteq> t \<and> reader_of (ts ! u) = Some q" if "u < length ts" for u q
    using t(1) x that by (cases "u = t") simp_all
  have "q \<noteq> r" if "u < length ts" "u \<noteq> t" "reader_of (ts ! u) = Some q" for u q
    using ids t that unfolding ids_ok_def by blast
  moreover have "\<exists>u < length ts. u \<noteq> t \<and> reader_of (ts ! u) = Some q" if "q \<in> registered s" "q \<noteq> r" for q
  proof -
    from ids that(1) obtain u where "u < length ts" "reader_of (ts ! u) = Some q" unfolding ids_ok_def by blast
    then show ?thesis using t(2) that(2) by (intro exI [of _ u]) auto
  qed
  ultimately show ?thesis using ids unfolding ids_ok_def reg length_list_update by (fastforce simp: ro)
qed

lemma unregister_keys:
  assumes g: "good g s" and p: "get_reader_ptr r s = Some p"
  defines "s' \<equiv> snd (unregister_reader r s)"
  shows "length (slots (reader_gens s')) = length (slots (reader_gens s))"
    and "j < length (slots (reader_gens s)) \<Longrightarrow> key (slots (reader_gens s) ! j) = EMPTY \<Longrightarrow> key (slots (reader_gens s') ! j) = EMPTY"
proof -
  have rel: "snd (remove_concurrent r 0 1 m) = release_id r m" for m :: "gen lpmap"
    by (simp add: release_id_def)
  show "length (slots (reader_gens s')) = length (slots (reader_gens s))"
    and "j < length (slots (reader_gens s)) \<Longrightarrow> key (slots (reader_gens s) ! j) = EMPTY \<Longrightarrow> key (slots (reader_gens s') ! j) = EMPTY"
    using found_slot(1) [OF g p] good_map [OF g] p unfolding s'_def
    by (auto simp: unregister_reader_def suspend_reader_def suspend_from_def rel release_id_eq
      slot_store_key slot_store_cell map_inv_def index_less split: sum.splits suspend_error.splits)
qed

lemma scans_step:
  assumes "scans_ok s ts" and "t < length ts"
    and "\<And>i. x = Scanning i \<Longrightarrow> \<forall>j < i. j < length (slots (reader_gens s')) \<longrightarrow> key (slots (reader_gens s') ! j) = EMPTY"
    and "length (slots (reader_gens s')) = length (slots (reader_gens s))"
    and "\<And>j. j < length (slots (reader_gens s)) \<Longrightarrow> key (slots (reader_gens s) ! j) = EMPTY \<Longrightarrow> key (slots (reader_gens s') ! j) = EMPTY"
  shows "scans_ok s' (ts[t := x])"
  using assms by (auto simp: scans_ok_def nth_list_update)

lemma unat_dec: "unat w = Suc n \<Longrightarrow> unat (w - 1 :: usize) = n"
  by (cases "w = 0") (simp_all add: unat_minus_one)

lemma unat_inc: "unat w = n \<Longrightarrow> Suc n < 2 ^ 64 \<Longrightarrow> unat (w + 1 :: usize) = Suc n"
  by (simp add: unat_word_ariths)

lemma one_iff: "(w :: usize) = 1 \<longleftrightarrow> unat w = 1"
  by (simp add: word_unat_eq_iff)

lemma numbers_writer:
  assumes n: "numbers_ok s ts" and t: "t < length ts" and pc: "ts ! t = Held WriterHandle"
    and x: "x = (if writers_count s = 1 then LastWriter else Finished)"
  shows "numbers_ok (s\<lparr>writers_count := writers_count s - 1\<rparr>) (ts[t := x])"
proof -
  have w: "unat (writers_count s) = tally is_writer ts" using n by (simp add: numbers_ok_def counts_ok_def)
  have up: "tally is_writer ts = Suc (tally is_writer (ts[t := x]))"
      "tally ((=) LastWriter) (ts[t := x]) = tally ((=) LastWriter) ts + of_bool (writers_count s = 1)"
    using tally_update [OF t, of is_writer x] tally_update [OF t, of "(=) LastWriter" x] pc x by auto
  then have side: "writer_side (ts[t := x]) = writer_side ts" using w by (auto simp: writer_side_def one_iff)
  have same: "tally P (ts[t := x]) = tally P ts" if "\<not> P (Held WriterHandle)" "\<not> P LastWriter" "\<not> P Finished" for P
    using that pc x by (intro tally_same [OF t]) auto
  have "reader_side (ts[t := x]) = reader_side ts" unfolding reader_side_def by (simp add: same)
  then show ?thesis using n side unat_dec [OF w [unfolded up(1)]] by (simp add: numbers_ok_def counts_ok_def sides_ok_def phases_ok_def same)
qed

lemma numbers_give_up:
  assumes n: "numbers_ok s ts" and t: "t < length ts" and pc: "ts ! t = LastWriter \<or> ts ! t = Elected"
    and x: "x = (if destroy_stages s = 1 then Freeing else Finished)"
  shows "numbers_ok (s\<lparr>destroy_stages := destroy_stages s - 1\<rparr>) (ts[t := x])"
proof -
  let ?ts = "ts[t := x]"
  have same: "tally P ?ts = tally P ts" if "\<not> P LastWriter" "\<not> P Elected" "\<not> P Freeing" "\<not> P Finished" for P
    using that pc x by (intro tally_same [OF t]) auto
  have w: "unat (destroy_stages s) = writer_side ts + reader_side ts" using n by (simp add: numbers_ok_def counts_ok_def)
  have c: "tally is_writer ?ts = tally is_writer ts" "tally active ?ts = tally active ts" by (simp_all add: same)
  have "tally ((=) LastWriter) ts + tally ((=) Elected) ts = Suc (tally ((=) LastWriter) ?ts + tally ((=) Elected) ?ts)
      \<and> tally ((=) LastWriter) ?ts \<le> tally ((=) LastWriter) ts \<and> tally ((=) Elected) ?ts \<le> tally ((=) Elected) ts"
    using tally_update [OF t, of "(=) LastWriter" x] tally_update [OF t, of "(=) Elected" x] pc x by auto
  then have side: "writer_side ts + reader_side ts = Suc (writer_side ?ts + reader_side ?ts)"
      "writer_side ?ts \<le> writer_side ts" "reader_side ?ts \<le> reader_side ts"
    unfolding writer_side_def reader_side_def c by linarith+
  have "destroy_stages s = 1 \<longleftrightarrow> writer_side ?ts + reader_side ?ts = 0" unfolding one_iff w side(1) by simp
  moreover have "tally ((=) Freeing) ?ts = tally ((=) Freeing) ts + of_bool (destroy_stages s = 1)"
    using tally_update [OF t, of "(=) Freeing" x] pc x by auto
  ultimately have "tally ((=) Freeing) ?ts = tally ((=) Freeing) ts + of_bool (writer_side ?ts + reader_side ?ts = 0)" by simp
  then have "sides_ok ?ts" using n side by (simp add: numbers_ok_def sides_ok_def)
  moreover have "unat (destroy_stages s - 1) = writer_side ?ts + reader_side ?ts"
    using unat_dec [OF w [unfolded side(1)]] .
  ultimately show ?thesis using n by (simp add: numbers_ok_def counts_ok_def phases_ok_def same)
qed

lemma numbers_ticket:
  assumes n: "numbers_ok s ts" and t: "t < length ts" and pc: "ts ! t = Held (ReaderHandle r)" and len: "length ts < 2 ^ 64"
    and r: "r \<in> registered s"
  shows "numbers_ok (s\<lparr>reader_keep_alloc_tickets := reader_keep_alloc_tickets s + 1\<rparr>) (ts[t := Ticketed r])"
proof -
  let ?ts = "ts[t := Ticketed r]"
  note up = tally_phases [OF t, of "Ticketed r", unfolded pc, simplified]
  have same: "tally is_writer ?ts = tally is_writer ts" "tally has_stage ?ts = tally has_stage ts"
    using pc by (simp_all add: tally_same [OF t])
  have "tally alone ts = 0" using n r by (auto simp: numbers_ok_def phases_ok_def)
  then have "tally ((=) GiveStage) ts = 0" using tally_bounds(4,5) [of ts] by simp
  moreover have "tally has_ticket ?ts < 2 ^ 64" using tally_le [of has_ticket ?ts] len by simp
  ultimately show ?thesis using n up sides_quiet [OF t, of "Ticketed r"] pc
    by (simp add: numbers_ok_def counts_ok_def phases_ok_def unat_inc same)
qed

lemma numbers_gone:
  assumes n: "numbers_ok s ts" and t: "t < length ts" and pc: "ts ! t = Ticketed r"
    and reg: "registered (s\<lparr>reader_gens := m\<rparr>) \<subseteq> registered s"
  shows "numbers_ok (s\<lparr>reader_gens := m\<rparr>) (ts[t := Scanning 0])"
proof -
  let ?ts = "ts[t := Scanning 0]"
  note up = tally_phases [OF t, of "Scanning 0", unfolded pc, simplified]
  have same: "tally is_writer ?ts = tally is_writer ts" "tally has_stage ?ts = tally has_stage ts"
    using pc by (simp_all add: tally_same [OF t])
  show ?thesis using n up sides_quiet [OF t, of "Scanning 0"] pc reg
    by (simp add: numbers_ok_def counts_ok_def phases_ok_def same) blast
qed

lemma numbers_scan:
  assumes n: "numbers_ok s ts" and t: "t < length ts" and pc: "ts ! t = Scanning i"
    and x: "x = Scanning (Suc i) \<or> x = TakeStage \<and> registered s = {} \<or> x = ReturnTicket False \<and> registered s \<noteq> {}"
  shows "numbers_ok s (ts[t := x])"
proof -
  have sides: "writer_side (ts[t := x]) = writer_side ts \<and> reader_side (ts[t := x]) = reader_side ts
      \<and> (sides_ok ts \<longrightarrow> sides_ok (ts[t := x]))" using pc x by (intro sides_quiet [OF t]) auto
  have same: "tally is_writer (ts[t := x]) = tally is_writer ts" "tally has_stage (ts[t := x]) = tally has_stage ts"
      "tally has_ticket (ts[t := x]) = tally has_ticket ts" "tally active (ts[t := x]) = tally active ts"
      "tally ((=) GiveStage) (ts[t := x]) = tally ((=) GiveStage) ts"
    using pc x by (auto simp: tally_same [OF t])
  have "tally alone (ts[t := x]) = tally alone ts + of_bool (x = TakeStage)"
      "x \<noteq> ReturnTicket False \<Longrightarrow> tally candidate (ts[t := x]) = tally candidate ts"
    using tally_update [OF t, of alone x] tally_update [OF t, of candidate x] pc x by auto
  moreover have "x = TakeStage \<longrightarrow> registered s = {}" "registered s = {} \<longrightarrow> x \<noteq> ReturnTicket False" using x by auto
  ultimately have "0 < tally alone (ts[t := x]) \<longrightarrow> 0 < tally alone ts \<or> registered s = {}"
      "registered s = {} \<longrightarrow> tally candidate (ts[t := x]) = tally candidate ts" by auto
  then show ?thesis using n sides by (simp add: numbers_ok_def counts_ok_def phases_ok_def same) blast
qed

lemma numbers_stage:
  assumes n: "numbers_ok s ts" and t: "t < length ts" and pc: "ts ! t = TakeStage" and len: "length ts < 2 ^ 64"
  shows "numbers_ok (s\<lparr>reader_stage_tickets := reader_stage_tickets s + 1\<rparr>) (ts[t := ReturnTicket True])"
proof -
  let ?ts = "ts[t := ReturnTicket True]"
  note up = tally_phases [OF t, of "ReturnTicket True", unfolded pc, simplified]
    tally_update [OF t, of has_stage "ReturnTicket True", unfolded pc, simplified]
  have same: "tally is_writer ?ts = tally is_writer ts" using pc by (simp add: tally_same [OF t])
  have "tally has_stage ?ts < 2 ^ 64" using tally_le [of has_stage ?ts] len by simp
  then show ?thesis using n up sides_quiet [OF t, of "ReturnTicket True"] pc
    by (simp add: numbers_ok_def counts_ok_def phases_ok_def unat_inc same)
qed

lemma numbers_return_true:
  assumes n: "numbers_ok s ts" and t: "t < length ts" and pc: "ts ! t = ReturnTicket True"
  shows "numbers_ok (s\<lparr>reader_keep_alloc_tickets := reader_keep_alloc_tickets s - 1\<rparr>) (ts[t := Waiting])"
proof -
  let ?ts = "ts[t := Waiting]"
  note up = tally_phases [OF t, of Waiting, unfolded pc, simplified]
  have same: "tally is_writer ?ts = tally is_writer ts" "tally has_stage ?ts = tally has_stage ts"
    using pc by (simp_all add: tally_same [OF t])
  have "unat (reader_keep_alloc_tickets s - 1) = tally has_ticket ?ts"
    using n up(1) by (intro unat_dec) (simp add: numbers_ok_def counts_ok_def)
  then show ?thesis using n up sides_quiet [OF t, of Waiting] pc
    by (simp add: numbers_ok_def counts_ok_def phases_ok_def same)
qed

lemma numbers_return_false:
  assumes n: "numbers_ok s ts" and ids: "ids_ok s ts" and t: "t < length ts" and pc: "ts ! t = ReturnTicket False"
  shows "numbers_ok (s\<lparr>reader_keep_alloc_tickets := reader_keep_alloc_tickets s - 1\<rparr>) (ts[t := Finished])"
proof -
  let ?ts = "ts[t := Finished]"
  note up = tally_phases [OF t, of Finished, unfolded pc, simplified]
  have same: "tally is_writer ?ts = tally is_writer ts" "tally has_stage ?ts = tally has_stage ts"
      "tally (\<lambda>x. reader_of x \<noteq> None) ?ts = tally (\<lambda>x. reader_of x \<noteq> None) ts"
    using pc by (simp_all add: tally_same [OF t])
  have "unat (reader_keep_alloc_tickets s - 1) = tally has_ticket ?ts"
    using n up(1) by (intro unat_dec) (simp add: numbers_ok_def counts_ok_def)
  moreover have "0 < tally active ts" using up(4) by simp
  moreover have "0 < tally active ?ts"
    using n tally_bounds(2,6) [of ?ts] registered_tally [OF ids] up(3,4) unfolding same numbers_ok_def phases_ok_def by linarith
  ultimately show ?thesis using n up sides_same [OF t, of Finished] pc
    by (simp add: numbers_ok_def counts_ok_def phases_ok_def same)
qed

lemma numbers_wait:
  assumes n: "numbers_ok s ts" and t: "t < length ts" and pc: "ts ! t = Waiting" and z: "reader_keep_alloc_tickets s = 0"
  shows "numbers_ok s (ts[t := GiveStage])"
proof -
  let ?ts = "ts[t := GiveStage]"
  note up = tally_phases [OF t, of GiveStage, unfolded pc, simplified]
  have same: "tally is_writer ?ts = tally is_writer ts" "tally has_stage ?ts = tally has_stage ts"
    using pc by (simp_all add: tally_same [OF t])
  show ?thesis using n up sides_quiet [OF t, of GiveStage] pc z
    by (simp add: numbers_ok_def counts_ok_def phases_ok_def same)
qed

lemma numbers_give_stage:
  assumes n: "numbers_ok s ts" and ids: "ids_ok s ts" and t: "t < length ts" and pc: "ts ! t = GiveStage"
    and x: "x = (if reader_stage_tickets s = 1 then Elected else Finished)"
  shows "numbers_ok (s\<lparr>reader_stage_tickets := reader_stage_tickets s - 1\<rparr>) (ts[t := x])"
proof -
  let ?ts = "ts[t := x]"
  have same: "tally P ?ts = tally P ts" if "\<not> P GiveStage" "\<not> P Elected" "\<not> P Finished" for P
    using that pc x by (intro tally_same [OF t]) auto
  have less: "tally P ts = Suc (tally P ?ts)" if "P GiveStage" "\<not> P Elected" "\<not> P Finished" for P
    using that tally_update [OF t, of P x] pc x by auto
  have up: "tally has_stage ts = Suc (tally has_stage ?ts)" "tally alone ts = Suc (tally alone ?ts)"
      "tally active ts = Suc (tally active ?ts)" "tally ((=) GiveStage) ts = Suc (tally ((=) GiveStage) ?ts)"
      "tally candidate ts = Suc (tally candidate ?ts)"
    by (simp_all add: less)
  have none: "registered s = {}" "tally has_ticket ts = 0" using n up by (simp_all add: numbers_ok_def phases_ok_def)
  have w: "unat (reader_stage_tickets s) = tally has_stage ts" using n by (simp add: numbers_ok_def counts_ok_def)
  have act: "tally active ?ts = tally has_stage ?ts"
    using tally_active [of ts] tally_bounds [of ?ts] registered_tally [OF ids] none up by simp
  have cand: "tally has_stage ?ts \<le> tally candidate ?ts" using tally_bounds(1,4) [of ?ts] by simp
  have sides: "writer_side ?ts = writer_side ts" "reader_side ?ts = reader_side ts"
  proof -
    have "reader_stage_tickets s = 1 \<longleftrightarrow> tally active ?ts = 0" unfolding one_iff w up(1) act by simp
    moreover have "tally ((=) Elected) ?ts = tally ((=) Elected) ts + of_bool (reader_stage_tickets s = 1)"
      using tally_update [OF t, of "(=) Elected" x] pc x by auto
    ultimately have "tally ((=) Elected) ?ts = tally ((=) Elected) ts + of_bool (tally active ?ts = 0)" by simp
    then show "reader_side ?ts = reader_side ts" unfolding reader_side_def up(3) by simp
    show "writer_side ?ts = writer_side ts" by (simp add: writer_side_def same)
  qed
  have "unat (reader_stage_tickets s - 1) = tally has_stage ?ts" using w up(1) by (intro unat_dec) simp
  then show ?thesis using n none act cand
    by (simp add: numbers_ok_def counts_ok_def phases_ok_def sides_ok_def sides same)
qed

text \<open>All steps together.  \<open>counters\<close> changes nothing but the counts of handles.\<close>

lemma untouched_frame [simp]:
  "untouched g s0 (s\<lparr>writers_count := n\<rparr>) = untouched g s0 s" "untouched g s0 (s\<lparr>destroy_stages := n\<rparr>) = untouched g s0 s"
  "untouched g s0 (s\<lparr>reader_keep_alloc_tickets := n\<rparr>) = untouched g s0 s"
  "untouched g s0 (s\<lparr>reader_stage_tickets := n\<rparr>) = untouched g s0 s"
  by (simp_all add: untouched_def)

lemma dropper_step_inv:
  assumes u: "untouched g s0 s" and ids: "ids_ok s ts" and sc: "scans_ok s ts" and n: "numbers_ok s ts"
    and len: "length ts < 2 ^ 64" and t: "t < length ts" and pc: "ts ! t \<noteq> Freeing"
    and step: "dropper_step nd (ts ! t) s = Some (x, s', k)"
  shows "untouched g s0 s' \<and> ids_ok s' (ts[t := x]) \<and> scans_ok s' (ts[t := x]) \<and> numbers_ok s' (ts[t := x]) \<and> k = 0"
proof -
  have frame: ?thesis
    if "k = 0" "untouched g s0 s'" "reader_gens s' = reader_gens s" "reader_of x = reader_of (ts ! t)" "numbers_ok s' (ts[t := x])"
      and "\<And>i. x = Scanning i \<Longrightarrow> \<forall>j < i. j < length (slots (reader_gens s')) \<longrightarrow> key (slots (reader_gens s') ! j) = EMPTY"
    using that ids_step [OF ids t that(4) registered_cong [OF that(3)]] scans_step [OF sc t that(6)] by simp
  have g: "good g s" using u by (simp add: untouched_def)
  show ?thesis
  proof (cases "ts ! t")
    case (Held h)
    show ?thesis
    proof (cases h)
      case WriterHandle
      show ?thesis by (rule frame) (use Held WriterHandle step u numbers_writer [OF n t] in \<open>auto split: if_splits\<close>)
    next
      case (ReaderHandle r)
      then have "r \<in> registered s" using ids t Held by (auto simp: ids_ok_def)
      from numbers_ticket [OF n t _ len this] show ?thesis
        by (intro frame) (use Held ReaderHandle step u in auto)
    qed
  next
    case LastWriter
    show ?thesis by (rule frame) (use LastWriter step u numbers_give_up [OF n t] in \<open>auto split: if_splits\<close>)
  next
    case (Ticketed r)
    then have r: "r \<in> registered s" using ids t by (auto simp: ids_ok_def)
    then obtain p where p: "get_reader_ptr r s = Some p" by (auto simp: registered_def)
    obtain m where m: "unregister_reader r s = (Inr (), s\<lparr>reader_gens := m\<rparr>)" "good g (s\<lparr>reader_gens := m\<rparr>)"
        "registered (s\<lparr>reader_gens := m\<rparr>) = registered s - {r}"
      using unregister_alone [OF g r] by blast
    then have x: "x = Scanning 0" "s' = s\<lparr>reader_gens := m\<rparr>" "k = 0" using step Ticketed by simp_all
    have "scans_ok s' (ts[t := x])"
      using unregister_keys [OF g p] m(1) x by (intro scans_step [OF sc t]) simp_all
    then show ?thesis using u m x ids_gone [OF ids t, of r x s'] numbers_gone [OF n t Ticketed, of m] Ticketed
      by (auto simp: untouched_def)
  next
    case (Scanning i)
    show ?thesis
    proof (rule frame)
      have "i < length (slots (reader_gens s)) \<Longrightarrow> key (slots (reader_gens s) ! i) \<noteq> EMPTY \<Longrightarrow> registered s \<noteq> {}"
        using key_is_registered [OF g] by blast
      moreover have "registered s = {}" if i: "\<not> i < length (slots (reader_gens s))"
      proof (rule ccontr)
        assume "registered s \<noteq> {}"
        then obtain j where "j < length (slots (reader_gens s))" "key (slots (reader_gens s) ! j) \<noteq> EMPTY"
          using registered_key [OF g] by blast
        moreover from this(1) i have "j < i" by simp
        ultimately show False using sc t Scanning unfolding scans_ok_def by blast
      qed
      ultimately have "x = Scanning (Suc i) \<or> x = TakeStage \<and> registered s = {} \<or> x = ReturnTicket False \<and> registered s \<noteq> {}"
          and "s' = s"
        using step Scanning by (auto simp: raw_slots_def split: if_splits)
      then show "numbers_ok s' (ts[t := x])" using numbers_scan [OF n t Scanning] by simp
    qed (use Scanning step u sc t in \<open>auto simp: scans_ok_def raw_slots_def less_Suc_eq split: if_splits\<close>)
  next
    case TakeStage
    from numbers_stage [OF n t this len] show ?thesis by (intro frame) (use TakeStage step u in auto)
  next
    case (ReturnTicket b)
    show ?thesis by (rule frame) (use ReturnTicket step u numbers_return_true [OF n t] numbers_return_false [OF n ids t]
        in \<open>auto split: if_splits\<close>)
  next
    case Waiting
    have "ts[t := Waiting] = ts" using Waiting by (metis list_update_id)
    then show ?thesis
      by (intro frame) (use Waiting step u n numbers_wait [OF n t] in \<open>auto simp: wait_turn_def split: if_splits\<close>)
  next
    case GiveStage
    show ?thesis by (rule frame) (use GiveStage step u numbers_give_stage [OF n ids t] in \<open>auto split: if_splits\<close>)
  next
    case Elected
    show ?thesis by (rule frame) (use Elected step u numbers_give_up [OF n t] in \<open>auto split: if_splits\<close>)
  next
    case Freeing
    then show ?thesis using pc by simp
  next
    case Finished
    have "ts[t := Finished] = ts" using Finished by (metis list_update_id)
    then show ?thesis by (intro frame) (use Finished step u n in auto)
  qed
qed

lemma drops_inv_step:
  assumes inv: "drops_inv g s0 S" and len: "length (droppers S) < 2 ^ 64" and pc: "droppers S ! t \<noteq> Freeing"
    and step: "drop_exec nd (Step t) S = Some S'"
  shows "drops_inv g s0 S'"
proof -
  from step obtain x s k where "t < length (droppers S)" "dropper_step nd (droppers S ! t) (dying S) = Some (x, s, k)"
      "S' = \<lparr>dying = s, droppers = (droppers S)[t := x], frees = frees S + k\<rparr>"
    by (auto simp: drop_exec_def split: if_splits)
  then show ?thesis using dropper_step_inv [of g s0 "dying S" "droppers S" t nd x s k] inv len pc
    by (simp add: drops_inv_def)
qed

lemma drops_inv_writer:
  assumes inv: "drops_inv g s0 S" and len: "length (droppers S') < 2 ^ 64" and step: "drop_exec nd (NewWriter t) S = Some S'"
  shows "drops_inv g s0 S'"
proof -
  let ?ts = "droppers S"
  have t: "t < length ?ts" "?ts ! t = Held WriterHandle"
      and S': "S' = S\<lparr>dying := create_writer (dying S), droppers := ?ts @ [Held WriterHandle]\<rparr>"
    using step by (auto simp: drop_exec_def split: if_splits)
  have pos: "0 < tally is_writer ?ts" using t tally_pos by fastforce
  have new: "(?ts @ [Held WriterHandle]) ! u = (if u < length ?ts then ?ts ! u else Held WriterHandle)"
    if "u < length (?ts @ [Held WriterHandle])" for u using that by (auto simp: nth_append less_Suc_eq)
  have sides: "writer_side (?ts @ [Held WriterHandle]) = writer_side ?ts" "reader_side (?ts @ [Held WriterHandle]) = reader_side ?ts"
    using pos by (simp_all add: writer_side_def reader_side_def)
  have "numbers_ok (create_writer (dying S)) (?ts @ [Held WriterHandle])"
    using inv len tally_le [of is_writer ?ts] S'
    by (auto simp: drops_inv_def numbers_ok_def counts_ok_def sides_ok_def phases_ok_def sides create_writer_def unat_inc)
  moreover have "ids_ok (create_writer (dying S)) (?ts @ [Held WriterHandle])"
  proof -
    have ro: "reader_of ((?ts @ [Held WriterHandle]) ! u) = Some r \<longleftrightarrow> u < length ?ts \<and> reader_of (?ts ! u) = Some r"
      if "u < Suc (length ?ts)" for u r using that new by simp
    have "\<exists>u < Suc (length ?ts). u < length ?ts \<and> reader_of (?ts ! u) = Some r" if "r \<in> registered (dying S)" for r
      using inv that unfolding drops_inv_def ids_ok_def by (meson less_Suc_eq)
    then show ?thesis using inv by (auto simp: drops_inv_def ids_ok_def create_writer_def ro cong: conj_cong)
  qed
  moreover have "scans_ok (create_writer (dying S)) (?ts @ [Held WriterHandle])"
    using inv by (auto simp: drops_inv_def scans_ok_def create_writer_def new)
  ultimately show ?thesis using inv S' by (simp add: drops_inv_def create_writer_def)
qed

text \<open>The last thread frees; nobody is left then.\<close>

definition all_finished :: "'a drops \<Rightarrow> bool" where
  "all_finished S \<longleftrightarrow> (\<forall>x \<in> set (droppers S). x = Finished)"

lemma drops_inv_freeing:
  assumes inv: "drops_inv g s0 S" and t: "t < length (droppers S)" and pc: "droppers S ! t = Freeing"
  shows "\<exists>S'. drop_exec nd (Step t) S = Some S' \<and> frees S' = 1 \<and> all_finished S'
    \<and> dropped (dying S') = dropped s0 @ (if nd then live_messages s0 else [])"
proof -
  let ?ts = "droppers S" and ?s = "dying S"
  have n: "sides_ok ?ts" "phases_ok ?s ?ts" and u: "untouched g s0 ?s" and ids: "ids_ok ?s ?ts"
    using inv by (simp_all add: drops_inv_def numbers_ok_def)
  have one: "0 < tally ((=) Freeing) ?ts" using t pc tally_pos by fastforce
  then have sides: "writer_side ?ts + reader_side ?ts = 0" "tally ((=) Freeing) ?ts = 1"
    using n(1) by (auto simp: sides_ok_def split: if_splits)
  have zero: "tally is_writer ?ts = 0" "tally active ?ts = 0" "tally ((=) LastWriter) ?ts = 0" "tally ((=) Elected) ?ts = 0"
    using sides(1) by (auto simp: writer_side_def reader_side_def)
  have none: "\<not> P (?ts ! v)" if "tally P ?ts = 0" "v < length ?ts" for P v using that tally_pos [of P ?ts] by auto
  have fin: "?ts ! v = Finished" if v: "v < length ?ts" "v \<noteq> t" for v
  proof -
    have "?ts ! v \<noteq> Freeing" using tally_one [of "(=) Freeing" ?ts t v] sides(2) t pc v by auto
    moreover have "\<not> is_writer (?ts ! v)" "\<not> active (?ts ! v)" "LastWriter \<noteq> ?ts ! v" "Elected \<noteq> ?ts ! v"
      using none [OF _ v(1)] zero by blast+
    ultimately show ?thesis by (cases "?ts ! v" rule: is_writer.cases) auto
  qed
  have "registered ?s = {}" using registered_tally [OF ids] tally_bounds(6) [of ?ts] zero by simp
  then have h: "oldest_held g ?s = pos g (read_gen ?s)" using u by (intro nobody_holds) (simp_all add: untouched_def)
  obtain res s' where "try_cleanup_old_slots Exclusive nd ?s = Some (Returns res, s')"
      "dropped s' = dropped ?s @ (if nd then map (at_off g ?s) [pos g (last_valid_gen ?s)..<oldest_held g ?s] else [])"
    by (rule cleanup_alone [of g ?s Exclusive nd]) (use u in \<open>simp_all add: untouched_def\<close>)
  then show ?thesis using t pc fin inv u h live_messages_at_off [of g ?s]
    by (auto simp: drop_exec_def drops_inv_def untouched_def all_finished_def all_set_conv_all_nth nth_list_update)
qed

text \<open>Before: somebody is not finished.\<close>

lemma drops_inv_unfinished:
  assumes inv: "drops_inv g s0 S" shows "\<not> all_finished S"
proof
  assume fin: "all_finished S"
  have z: "tally P (droppers S) = 0" if "\<not> P Finished" for P
    using that fin by (auto simp: tally_def all_finished_def filter_empty_conv)
  have "writer_side (droppers S) + reader_side (droppers S) = 0" "tally ((=) Freeing) (droppers S) = 0"
    by (simp_all add: writer_side_def reader_side_def z)
  then show False using inv by (simp add: drops_inv_def numbers_ok_def sides_ok_def)
qed

section \<open>From construction to the end\<close>

lemma start_tally: "tally P (map Held hs) = length (filter (P \<circ> Held) hs)"
  by (simp add: tally_def filter_map comp_def)

lemma start_counts:
  "tally is_writer (map Held hs) = writer_handles hs"
  "0 < tally active (map Held hs) \<longleftrightarrow> reader_handles hs \<noteq> []"
  by (induction hs rule: writer_handles.induct) (auto simp: tally_def)

lemma start_reader: "r \<in> set (reader_handles hs) \<longleftrightarrow> ReaderHandle r \<in> set hs"
  by (induction hs rule: reader_handles.induct) auto

lemma start_distinct:
  "distinct (reader_handles hs) \<Longrightarrow> t < length hs \<Longrightarrow> u < length hs \<Longrightarrow> hs ! t = ReaderHandle r \<Longrightarrow> hs ! u = ReaderHandle r \<Longrightarrow> t = u"
proof (induction hs arbitrary: t u rule: reader_handles.induct)
  case (2 hs)
  then show ?case by (cases t; cases u) auto
next
  case (3 q hs)
  have "ReaderHandle r \<notin> set hs" if "q = r" using 3(2) that by (simp add: start_reader)
  then have "hs ! i \<noteq> ReaderHandle r" if "q = r" "i < length hs" for i using that nth_mem by metis
  then show ?case using 3 by (cases t; cases u) auto
qed simp

lemma start_inv:
  assumes rest: "at_rest g hs s" and ne: "hs \<noteq> []"
  shows "drops_inv g s (start_drops s hs)"
proof -
  have none: "tally P (map Held hs) = 0" if "\<And>h. \<not> P (Held h)" for P using that by (simp add: start_tally comp_def)
  have z: "tally has_ticket (map Held hs) = 0" "tally has_stage (map Held hs) = 0" "tally alone (map Held hs) = 0"
      "tally ((=) LastWriter) (map Held hs) = 0" "tally ((=) Elected) (map Held hs) = 0"
      "tally ((=) Freeing) (map Held hs) = 0" "tally ((=) GiveStage) (map Held hs) = 0"
    by (rule none; simp)+
  have act: "min 1 (tally active (map Held hs)) = of_bool (reader_handles hs \<noteq> [])"
      "min 1 (writer_handles hs) = of_bool (writer_handles hs \<noteq> 0)"
    using start_counts(2) [of hs] by auto
  have some: "writer_handles hs \<noteq> 0 \<or> reader_handles hs \<noteq> []"
    using ne by (cases hs rule: writer_handles.cases) auto
  have "numbers_ok s (map Held hs)"
    using rest some start_counts(2) [of hs] unfolding numbers_ok_def counts_ok_def sides_ok_def phases_ok_def writer_side_def reader_side_def z act start_counts(1)
    by (auto simp: at_rest_def unat_of_nat64)
  moreover have "ids_ok s (map Held hs)"
  proof -
    have reg: "registered s = {r. ReaderHandle r \<in> set hs}" using rest start_reader by (auto simp: at_rest_def)
    have ro: "reader_of (Held h) = Some r \<longleftrightarrow> h = ReaderHandle r" for h r by (cases h) auto
    have "distinct (reader_handles hs)" using rest by (simp add: at_rest_def)
    from start_distinct [OF this] show ?thesis
      unfolding ids_ok_def reg by (auto simp: ro in_set_conv_nth cong: conj_cong)
  qed
  moreover have "scans_ok s (map Held hs)" by (simp add: scans_ok_def)
  ultimately show ?thesis using rest by (simp add: drops_inv_def untouched_def at_rest_def start_drops_def)
qed

fun makes_no_reader :: "drop_event \<Rightarrow> bool" where
  "makes_no_reader (NewReader t seed) = False"
| "makes_no_reader e = True"

lemma drop_exec_length: "drop_exec nd e S = Some S' \<Longrightarrow> length (droppers S) \<le> length (droppers S')"
  by (auto simp: drop_exec_def split: drop_event.splits if_splits dest!: arg_cong [where f = "\<lambda>S. length (droppers S)"])
    (auto split: sum.splits)

lemma drops_run_length: "drops_run nd es S = Some S' \<Longrightarrow> length (droppers S) \<le> length (droppers S')"
  by (induction nd es S rule: drops_run.induct) (auto split: option.splits dest!: drop_exec_length)

text \<open>What holds at every moment.\<close>

definition teardown_ok :: "bool \<Rightarrow> gen \<Rightarrow> 'a area \<Rightarrow> 'a drops \<Rightarrow> bool" where
  "teardown_ok nd g s0 S \<longleftrightarrow> drops_inv g s0 S \<or>
     frees S = 1 \<and> all_finished S \<and> dropped (dying S) = dropped s0 @ (if nd then live_messages s0 else [])"

lemma teardown_ok_exec:
  assumes ok: "teardown_ok nd g s0 S" and step: "drop_exec nd e S = Some S'" and e: "makes_no_reader e"
    and len: "length (droppers S') < 2 ^ 64"
  shows "teardown_ok nd g s0 S'"
proof (cases "drops_inv g s0 S")
  case inv: True
  have len': "length (droppers S) < 2 ^ 64" using drop_exec_length [OF step] len by linarith
  show ?thesis
  proof (cases e)
    case (Step t)
    then have t: "t < length (droppers S)" using step by (auto simp: drop_exec_def split: if_splits)
    show ?thesis
    proof (cases "droppers S ! t = Freeing")
      case True
      from drops_inv_freeing [OF inv t this, of nd] step show ?thesis unfolding Step teardown_ok_def by auto
    next
      case False
      from drops_inv_step [OF inv len' this] step show ?thesis unfolding Step teardown_ok_def by blast
    qed
  next
    case (NewWriter t)
    then show ?thesis using drops_inv_writer [OF inv len] step by (simp add: teardown_ok_def)
  qed (use e in simp)
next
  case False
  then have fin: "frees S = 1" "all_finished S" "dropped (dying S) = dropped s0 @ (if nd then live_messages s0 else [])"
    using ok by (auto simp: teardown_ok_def)
  have x: "droppers S ! t = Finished" if "t < length (droppers S)" for t
    using fin(2) that by (simp add: all_finished_def)
  have "S' = S"
  proof (cases e)
    case (Step t)
    then have "t < length (droppers S)" using step by (auto simp: drop_exec_def split: if_splits)
    then show ?thesis using step Step x list_update_id [of "droppers S" t] by (auto simp: drop_exec_def)
  qed (use step e x in \<open>auto simp: drop_exec_def split: if_splits\<close>)
  then show ?thesis using ok by simp
qed

lemma teardown_ok_run:
  "drops_run nd es S = Some S' \<Longrightarrow> teardown_ok nd g s0 S \<Longrightarrow> list_all makes_no_reader es \<Longrightarrow>
     length (droppers S') < 2 ^ 64 \<Longrightarrow> teardown_ok nd g s0 S'"
proof (induction nd es S rule: drops_run.induct)
  case (2 nd e es S)
  then obtain S1 where s1: "drop_exec nd e S = Some S1" "drops_run nd es S1 = Some S'" by (auto split: option.splits)
  have "length (droppers S1) < 2 ^ 64" using drops_run_length [OF s1(2)] "2.prems"(4) by linarith
  then show ?case using "2.IH" [OF s1] teardown_ok_exec [OF "2.prems"(2) s1(1)] "2.prems"(3,4) by simp
qed simp

text \<open>
  C27: any number of handles is dropped by any number of threads at once, in any interleaving
  of the steps of the drops, and new writers may be made meanwhile.  The memory is freed at
  most once; it is freed exactly when the last thread is through, and no message is dropped
  before; then those that were still alive are dropped, in order.  Only making readers is
  excluded; the last section shows that it has to be.
\<close>
theorem concurrent_drops_free_once:
  assumes "at_rest g hs s" and "hs \<noteq> []"
    and "drops_run nd es (start_drops s hs) = Some S" and "list_all makes_no_reader es"
    and "length (droppers S) < 2 ^ 64"
  shows "frees S \<le> 1 \<and> (frees S = 1 \<longleftrightarrow> all_finished S)
    \<and> dropped (dying S) = dropped s @ (if frees S = 1 \<and> nd then live_messages s else [])"
proof -
  have "teardown_ok nd g s S" using assms start_inv teardown_ok_run by (metis teardown_ok_def)
  then show ?thesis using drops_inv_unfinished [of g s S] by (auto simp: teardown_ok_def drops_inv_def untouched_def)
qed

section \<open>The drops come to an end\<close>

text \<open>How many steps a thread has left at most, with \<open>n\<close> slots in the table, when it need not wait.\<close>

fun steps_left :: "nat \<Rightarrow> drop_pc \<Rightarrow> nat" where
  "steps_left n (Held WriterHandle) = 3"
| "steps_left n LastWriter = 2"
| "steps_left n (Held (ReaderHandle r)) = n + 9"
| "steps_left n (Ticketed r) = n + 8"
| "steps_left n (Scanning i) = n - i + 7"
| "steps_left n TakeStage = 6"
| "steps_left n (ReturnTicket b) = 5"
| "steps_left n Waiting = 4"
| "steps_left n GiveStage = 3"
| "steps_left n Elected = 2"
| "steps_left n Freeing = 1"
| "steps_left n Finished = 0"

definition work_left :: "'a drops \<Rightarrow> nat" where
  "work_left S = sum_list (map (steps_left (length (slots (reader_gens (dying S))))) (droppers S))"

lemma step_goes_on:
  assumes inv: "drops_inv g s0 S" and t: "t < length (droppers S)"
    and pc: "droppers S ! t \<noteq> Finished" "droppers S ! t \<noteq> Freeing"
    and go: "droppers S ! t = Waiting \<Longrightarrow> reader_keep_alloc_tickets (dying S) = 0"
  shows "\<exists>S'. drop_exec nd (Step t) S = Some S' \<and> work_left S' < work_left S \<and> length (droppers S') = length (droppers S)"
proof -
  let ?n = "length (slots (reader_gens (dying S)))"
  have ids: "ids_ok (dying S) (droppers S)" and g: "good g (dying S)" using inv by (simp_all add: drops_inv_def untouched_def)
  have "\<exists>x s k. dropper_step nd (droppers S ! t) (dying S) = Some (x, s, k) \<and> length (slots (reader_gens s)) = ?n
      \<and> steps_left ?n x < steps_left ?n (droppers S ! t)"
  proof (cases "droppers S ! t")
    case (Held h)
    then show ?thesis by (cases h) auto
  next
    case (Ticketed r)
    then have "r \<in> registered (dying S)" using ids t by (auto simp: ids_ok_def)
    then obtain p where "get_reader_ptr r (dying S) = Some p" by (auto simp: registered_def)
    from unregister_keys(1) [OF g this] show ?thesis using Ticketed by simp
  qed (use pc go in \<open>auto simp: wait_turn_def raw_slots_def\<close>)
  then obtain x s k where "dropper_step nd (droppers S ! t) (dying S) = Some (x, s, k)"
      and s: "length (slots (reader_gens s)) = ?n" "steps_left ?n x < steps_left ?n (droppers S ! t)" by blast
  moreover have "sum_list (map (steps_left ?n) ((droppers S)[t := x])) < sum_list (map (steps_left ?n) (droppers S))"
  proof -
    have "steps_left ?n (droppers S ! t) \<le> sum_list (map (steps_left ?n) (droppers S))"
      using t by (intro member_le_sum_list) simp_all
    then show ?thesis using s(2) t by (simp add: map_update sum_list_update)
  qed
  ultimately show ?thesis using t by (simp add: drop_exec_def work_left_def)
qed

text \<open>Somebody can always go on: whoever waits, waits for a thread that is not waiting.\<close>

lemma somebody_goes_on:
  assumes inv: "drops_inv g s0 S" and len: "length (droppers S) < 2 ^ 64"
  shows "\<exists>t < length (droppers S). droppers S ! t \<noteq> Finished
    \<and> (droppers S ! t = Waiting \<longrightarrow> reader_keep_alloc_tickets (dying S) = 0)"
proof (rule ccontr)
  assume none: "\<not> ?thesis"
  then have "droppers S ! t = Finished \<or> droppers S ! t = Waiting" if "t < length (droppers S)" for t using that by blast
  then have "\<not> has_ticket (droppers S ! t)" if "t < length (droppers S)" for t using that by fastforce
  then have "tally has_ticket (droppers S) = 0" using tally_pos [of has_ticket "droppers S"] by auto
  then have "reader_keep_alloc_tickets (dying S) = 0"
    using inv by (simp add: drops_inv_def numbers_ok_def counts_ok_def unat_eq_0)
  then have "all_finished S" using none by (auto simp: all_finished_def all_set_conv_all_nth)
  then show False using drops_inv_unfinished [OF inv] by simp
qed

lemma drops_end:
  assumes "drops_inv g s0 S" and "length (droppers S) < 2 ^ 64"
  shows "\<exists>ts S'. drops_run nd (map Step ts) S = Some S' \<and> frees S' = 1 \<and> all_finished S'"
  using assms
proof (induction "work_left S" arbitrary: S rule: less_induct)
  case less
  obtain t where t: "t < length (droppers S)" "droppers S ! t \<noteq> Finished"
      "droppers S ! t = Waiting \<longrightarrow> reader_keep_alloc_tickets (dying S) = 0"
    using somebody_goes_on [OF less.prems] by blast
  show ?case
  proof (cases "droppers S ! t = Freeing")
    case True
    from drops_inv_freeing [OF less.prems(1) t(1) True, of nd] obtain S' where
      "drop_exec nd (Step t) S = Some S'" "frees S' = 1" "all_finished S'" by blast
    then show ?thesis by (intro exI [of _ "[t]"]) simp
  next
    case False
    obtain S1 where s1: "drop_exec nd (Step t) S = Some S1" "work_left S1 < work_left S"
        "length (droppers S1) = length (droppers S)"
      using step_goes_on [OF less.prems(1) t(1,2) False, of nd] t(3) by blast
    from less.hyps [OF s1(2) drops_inv_step [OF less.prems False s1(1)]] s1(3) less.prems(2)
    obtain ts S' where "drops_run nd (map Step ts) S1 = Some S'" "frees S' = 1" "all_finished S'" by auto
    then show ?thesis using s1 by (intro exI [of _ "t # ts"]) auto
  qed
qed

text \<open>
  C28: dropping never gets stuck.  At every moment of a run of concurrent drops in which not all
  handles are gone for good there is a thread whose next step is one towards the end - no set
  of threads waits for each other at step 9 - and the threads can be scheduled so that all
  memory is freed.
\<close>
theorem concurrent_drops_never_stuck:
  assumes "at_rest g hs s" and "hs \<noteq> []"
    and "drops_run nd es (start_drops s hs) = Some S" and "list_all makes_no_reader es"
    and "length (droppers S) < 2 ^ 64" and "frees S = 0"
  shows "(\<exists>t < length (droppers S). \<exists>S'. drop_exec nd (Step t) S = Some S' \<and> (work_left S' < work_left S \<or> frees S' = 1))
    \<and> (\<exists>ts S'. drops_run nd (map Step ts) S = Some S' \<and> frees S' = 1 \<and> all_finished S')"
proof -
  have "teardown_ok nd g s S" using assms start_inv teardown_ok_run by (metis teardown_ok_def)
  then have inv: "drops_inv g s S" using assms(6) by (simp add: teardown_ok_def)
  obtain t where t: "t < length (droppers S)" "droppers S ! t \<noteq> Finished"
      "droppers S ! t = Waiting \<longrightarrow> reader_keep_alloc_tickets (dying S) = 0"
    using somebody_goes_on [OF inv assms(5)] by blast
  then have "\<exists>S'. drop_exec nd (Step t) S = Some S' \<and> (work_left S' < work_left S \<or> frees S' = 1)"
    using drops_inv_freeing [OF inv t(1), of nd] step_goes_on [OF inv t(1,2), of nd]
    by (cases "droppers S ! t = Freeing") blast+
  moreover obtain ts S' where run: "drops_run nd (map Step ts) S = Some S'" "frees S' = 1" "all_finished S'"
    using drops_end [OF inv assms(5), of nd] by blast
  ultimately show ?thesis using t(1) run by blast
qed

section \<open>A reader made during the last drop\<close>

text \<open>
  Thread 0 holds the writer, threads 1 and 2 the readers in slots 1 and 0.  While the drop of
  the latter scans and has found slot 0 empty, thread 1 makes a new reader, which is put into
  slot 0, and drops its own; the scan goes on, finds slot 1 empty as well, and the readers'
  share of \<open>destroy_stages\<close> is given up although a reader is left.
\<close>

definition race :: "drop_event list" where
  "race = [NewReader 1 2] @ replicate 3 (Step 2) @ [NewReader 1 2] @ replicate 4 (Step 1) @ replicate 7 (Step 2)"

text \<open>
  The protocol is not safe when readers are made while readers are dropped.  In this
  schedule of calls of the safe interface, the drop of a reader that is not the last gives up
  the readers' share; when the last reader is dropped, the writers' share is taken for its
  own, and all memory is freed while the writer is still held.
\<close>
theorem reader_made_during_drop_frees_early:
  "case area 2 2 of
     Some (Returns (r, s :: nat area)) \<Rightarrow>
       (case drops_run True race (start_drops s [WriterHandle, ReaderHandle r]) of
          Some S \<Rightarrow> droppers S = [Held WriterHandle, Finished, Finished, Held (ReaderHandle 2)]
            \<and> destroy_stages (dying S) = 1
            \<and> (case drops_run True (replicate 11 (Step 3)) S of
                  Some S' \<Rightarrow> frees S' = 1 \<and> droppers S' = [Held WriterHandle, Finished, Finished, Finished]
                | None \<Rightarrow> False)
        | None \<Rightarrow> False)
   | _ \<Rightarrow> False"
  by code_simp

section \<open>Examples\<close>

text \<open>The writer and the reader of a new area are dropped at the same time, the writer is first cloned.\<close>

definition both :: "drop_event list" where
  "both = [Step 1, NewWriter 0, Step 1, Step 0, Step 1, Step 2] @ replicate 6 (Step 1) @ [Step 2] @ replicate 3 (Step 1)"

lemma both_run:
  obtains s :: "nat area" and S and S' where "at_rest 0 [WriterHandle, ReaderHandle 1] s"
    and "drops_run True both (start_drops s [WriterHandle, ReaderHandle 1]) = Some S" and "frees S = 1"
    and "drops_run True (take 4 both) (start_drops s [WriterHandle, ReaderHandle 1]) = Some S'" and "frees S' = 0"
    and "length (droppers S) = 3" and "length (droppers S') = 3" 
proof -
  have p: "is_power_of_two 2" by code_simp
  obtain s :: "nat area" where s: "finish_init (area_at 0 2 2) = Some (Returns 1, s)" "at_rest 0 [WriterHandle, ReaderHandle 1] s"
    using finish_init_start [of 2 2] p by auto
  have "case finish_init (area_at 0 2 2 :: nat area) of
      Some (Returns r, s) \<Rightarrow>
        (case drops_run True both (start_drops s [WriterHandle, ReaderHandle 1]) of
           Some S \<Rightarrow> frees S = 1 \<and> length (droppers S) = 3 | None \<Rightarrow> False) \<and>
        (case drops_run True (take 4 both) (start_drops s [WriterHandle, ReaderHandle 1]) of
           Some S \<Rightarrow> frees S = 0 \<and> length (droppers S) = 3 | None \<Rightarrow> False)
    | _ \<Rightarrow> False" by code_simp
  then show thesis using that s by (auto split: option.splits)
qed

lemma concurrent_drops_free_once_witness:
  "\<exists>s S :: nat drops. drops_run True both s = Some S \<and> frees S = 1 \<and> all_finished S"
proof -
  obtain s :: "nat area" and S S' where run: "at_rest 0 [WriterHandle, ReaderHandle 1] s"
      "drops_run True both (start_drops s [WriterHandle, ReaderHandle 1]) = Some S" "frees S = 1" "length (droppers S) = 3"
    by (rule both_run)
  have "list_all makes_no_reader both" by code_simp
  then have "all_finished S" using concurrent_drops_free_once [OF run(1) _ run(2)] run(3,4) by simp
  then show ?thesis using run by blast
qed

lemma concurrent_drops_never_stuck_witness:
  "\<exists>(s :: nat drops) ts S S'. drops_run True (take 4 both) s = Some S \<and> frees S = 0
     \<and> drops_run True (map Step ts) S = Some S' \<and> frees S' = 1 \<and> all_finished S'"
proof -
  obtain s :: "nat area" and S S' where run: "at_rest 0 [WriterHandle, ReaderHandle 1] s"
      "drops_run True (take 4 both) (start_drops s [WriterHandle, ReaderHandle 1]) = Some S'" "frees S' = 0" "length (droppers S') = 3"
    by (rule both_run)
  have "list_all makes_no_reader (take 4 both)" by code_simp
  then show ?thesis using concurrent_drops_never_stuck [OF run(1) _ run(2)] run(2,3,4) by simp blast
qed

end
