(* ===== verification/Area_Memory.thy ===== *)
theory Area_Memory
  imports Storage Drop_Machine
begin

text \<open>
  The memory of an area: how \<open>AreaInner::new\<close> and \<open>AreaInner::init\<close> lay out its parts in
  storages, that the result stands for the state the other theories start from, and that the
  deallocations of the last drop free every block of a boxed area exactly once and leave
  static memory alone.
\<close>

section \<open>The blocks\<close>

text \<open>\<open>AreaInner\<close> itself: the atomics that are stored in it, and the storages of the rest.\<close>

record ('t, 'b, 'c) inner =
  inner_write_gen :: gen
  inner_read_gen :: gen
  inner_last_valid_gen :: gen
  inner_free_gen :: gen
  inner_writers_count :: usize
  inner_mask :: usize
  inner_slots :: 't
  inner_buffer_capacity :: usize
  inner_buffer :: 'b
  inner_destroy_stages :: 'c
  inner_keep_alloc :: 'c
  inner_stage_tickets :: 'c

datatype ('t, 'b, 'c, 'a) stored =
    CounterV usize
  | SlotV "gen slot"
  | CellV "'a maybe_uninit"
  | InnerV "('t, 'b, 'c) inner"

type_synonym ('t, 'b, 'c, 'a) memory = "('t, 'b, 'c, 'a) stored heap"

type_synonym 'a boxed_memory =
  "(boxed_slice_storage, boxed_slice_storage, boxed_storage, 'a) memory"

definition inner_at :: "nat \<Rightarrow> ('t, 'b, 'c, 'a) memory \<Rightarrow> ('t, 'b, 'c) inner option" where
  "inner_at p h = (case block p h of Some [InnerV i] \<Rightarrow> Some i | _ \<Rightarrow> None)"

text \<open>\<open>AreaInner::new\<close>.\<close>

definition area_inner_new ::
  "usize \<Rightarrow> usize \<Rightarrow> 'a boxed_memory \<Rightarrow> (boxed_storage \<times> 'a boxed_memory) outcome" where
  "area_inner_new buffer_cap reader_cap h =
     (if \<not> buffer_cap > 0 then Panics
      else if \<not> is_power_of_two reader_cap then Panics
      else if \<not> reader_cap > 0 then Panics
      else Returns
        (let (buf, _, h1) = slice_with_capacity_and_init buffer_cap (\<lambda>st. (CellV Uninit, st)) () h;
             (stages, h2) = boxed_new (CounterV 2) h1;
             (keep, h3) = boxed_new (CounterV 0) h2;
             (stage, h4) = boxed_new (CounterV 0) h3;
             (table, _, h5) = slice_with_capacity_and_init reader_cap
               (\<lambda>st. (SlotV \<lparr>key = EMPTY, cell = SUSPENDED_BIT\<rparr>, st)) () h4
         in boxed_new (InnerV
              \<lparr>inner_write_gen = 0, inner_read_gen = 0, inner_last_valid_gen = 0, inner_free_gen = 0,
               inner_writers_count = 0, inner_mask = reader_cap - 1, inner_slots = table,
               inner_buffer_capacity = buffer_cap, inner_buffer = buf, inner_destroy_stages = stages,
               inner_keep_alloc = keep, inner_stage_tickets = stage\<rparr>) h5))"

text \<open>
  \<open>AreaInner::init\<close> writes the fields into memory the caller provides; \<open>cap_of\<close> is the
  method \<open>capacity\<close> of the storage of the buffer.
\<close>

definition area_inner_init ::
  "('b \<Rightarrow> usize) \<Rightarrow> nat \<Rightarrow> usize \<Rightarrow> 't \<Rightarrow> 'b \<Rightarrow> 'c \<Rightarrow> 'c \<Rightarrow> 'c \<Rightarrow> ('t, 'b, 'c, 'a) memory \<Rightarrow> ('t, 'b, 'c, 'a) memory" where
  "area_inner_init cap_of area_inner msk table buf stages keep stage h =
     h[area_inner := Some [InnerV
       \<lparr>inner_write_gen = 0, inner_read_gen = 0, inner_last_valid_gen = 0, inner_free_gen = 0,
        inner_writers_count = 0, inner_mask = msk, inner_slots = table,
        inner_buffer_capacity = cap_of buf, inner_buffer = buf, inner_destroy_stages = stages,
        inner_keep_alloc = keep, inner_stage_tickets = stage\<rparr>]]"

section \<open>The state a memory stands for\<close>

text \<open>The accessors of the storages are arguments, as the type parameters are in the source.\<close>

definition represents ::
  "('t \<Rightarrow> nat) \<Rightarrow> ('t \<Rightarrow> usize) \<Rightarrow> ('b \<Rightarrow> nat) \<Rightarrow> ('b \<Rightarrow> usize) \<Rightarrow> ('c \<Rightarrow> nat) \<Rightarrow>
   nat \<Rightarrow> ('t, 'b, 'c, 'a) memory \<Rightarrow> 'a area \<Rightarrow> bool" where
  "represents tptr tcap bptr bcap cptr p h s \<longleftrightarrow>
     (case inner_at p h of
        None \<Rightarrow> False
      | Some i \<Rightarrow>
          inner_write_gen i = write_gen s \<and> inner_read_gen i = read_gen s \<and>
          inner_last_valid_gen i = last_valid_gen s \<and> inner_free_gen i = free_gen s \<and>
          inner_writers_count i = writers_count s \<and> inner_mask i = mask_of (reader_gens s) \<and>
          inner_buffer_capacity i = buffer_capacity s \<and>
          from_raw_parts (tptr (inner_slots i)) (tcap (inner_slots i)) h = Some (map SlotV (slots (reader_gens s))) \<and>
          from_raw_parts (bptr (inner_buffer i)) (bcap (inner_buffer i)) h = Some (map CellV (buffer s)) \<and>
          ptr_as_ref (cptr (inner_destroy_stages i)) h = Some (CounterV (destroy_stages s)) \<and>
          ptr_as_ref (cptr (inner_keep_alloc i)) h = Some (CounterV (reader_keep_alloc_tickets s)) \<and>
          ptr_as_ref (cptr (inner_stage_tickets i)) h = Some (CounterV (reader_stage_tickets s)))"

section \<open>Deallocation\<close>

text \<open>Dropping an \<open>AreaInner\<close> drops its table, whose \<open>Drop\<close> deallocates the slots.\<close>

definition drop_stored :: "('t \<Rightarrow> ('t, 'b, 'c, 'a) memory \<Rightarrow> ('t, 'b, 'c, 'a) memory option) \<Rightarrow>
  ('t, 'b, 'c, 'a) stored \<Rightarrow> ('t, 'b, 'c, 'a) memory \<Rightarrow> ('t, 'b, 'c, 'a) memory option" where
  "drop_stored table_deallocate v h = (case v of InnerV i \<Rightarrow> table_deallocate (inner_slots i) h | _ \<Rightarrow> Some h)"

text \<open>The deallocations of the two \<open>drop\<close>s, one region after the other.\<close>

definition free_region ::
  "('s \<Rightarrow> nat) \<Rightarrow> ('s \<Rightarrow> ('t, 'b, 'c, 'a) memory \<Rightarrow> ('t, 'b, 'c, 'a) memory option) \<Rightarrow>
   ('b \<Rightarrow> ('t, 'b, 'c, 'a) memory \<Rightarrow> ('t, 'b, 'c, 'a) memory option) \<Rightarrow>
   ('c \<Rightarrow> ('t, 'b, 'c, 'a) memory \<Rightarrow> ('t, 'b, 'c, 'a) memory option) \<Rightarrow>
   's \<Rightarrow> region \<Rightarrow> ('t, 'b, 'c, 'a) memory \<Rightarrow> ('t, 'b, 'c, 'a) memory option" where
  "free_region aptr area_deallocate buffer_deallocate counter_deallocate st r h =
     (case inner_at (aptr st) h of
        None \<Rightarrow> None
      | Some i \<Rightarrow>
          (case r of
             DestroyStages \<Rightarrow> counter_deallocate (inner_destroy_stages i) h
           | ReaderKeepAllocTickets \<Rightarrow> counter_deallocate (inner_keep_alloc i) h
           | ReaderStageTickets \<Rightarrow> counter_deallocate (inner_stage_tickets i) h
           | Buffer \<Rightarrow> buffer_deallocate (inner_buffer i) h
           | Inner \<Rightarrow> area_deallocate st h))"

fun free_regions where
  "free_regions free [] h = Some h"
| "free_regions free (r # rs) h = (case free r h of None \<Rightarrow> None | Some h' \<Rightarrow> free_regions free rs h')"

abbreviation boxed_free_regions :: "boxed_storage \<Rightarrow> region list \<Rightarrow> 'a boxed_memory \<Rightarrow> 'a boxed_memory option" where
  "boxed_free_regions st \<equiv> free_regions
     (free_region boxed_ptr (boxed_deallocate (drop_stored (boxed_slice_deallocate no_drop)))
        (boxed_slice_deallocate no_drop) (boxed_deallocate no_drop) st)"

section \<open>Any storages\<close>

locale area_memory =
  table: fixed_storage_multiple tptr tdealloc tvalid tcap +
  buf: fixed_storage_multiple bptr bdealloc bvalid bcap +
  counter: fixed_storage cptr cdealloc cvalid
  for tptr :: "'t \<Rightarrow> nat" and tdealloc :: "'t \<Rightarrow> ('t, 'b, 'c, 'a) memory \<Rightarrow> ('t, 'b, 'c, 'a) memory option"
    and tvalid and tcap
    and bptr :: "'b \<Rightarrow> nat" and bdealloc :: "'b \<Rightarrow> ('t, 'b, 'c, 'a) memory \<Rightarrow> ('t, 'b, 'c, 'a) memory option"
    and bvalid and bcap
    and cptr :: "'c \<Rightarrow> nat" and cdealloc :: "'c \<Rightarrow> ('t, 'b, 'c, 'a) memory \<Rightarrow> ('t, 'b, 'c, 'a) memory option"
    and cvalid +
  fixes aptr :: "'s \<Rightarrow> nat" and adealloc :: "'s \<Rightarrow> ('t, 'b, 'c, 'a) memory \<Rightarrow> ('t, 'b, 'c, 'a) memory option"
  assumes area_deallocate: "inner_at (aptr st) h = Some i \<Longrightarrow> tvalid (inner_slots i) h \<Longrightarrow>
    tptr (inner_slots i) \<noteq> aptr st \<Longrightarrow>
    \<exists>h'. adealloc st h = Some h' \<and> same_outside {aptr st, tptr (inner_slots i)} h h'"
begin

lemma inner_frame: "inner_at p h = Some i \<Longrightarrow> same_outside A h h' \<Longrightarrow> p \<notin> A \<Longrightarrow> inner_at p h' = Some i"
  by (simp add: inner_at_def same_outside_def)

text \<open>Valid storages in different blocks.\<close>

definition laid_out :: "'s \<Rightarrow> ('t, 'b, 'c) inner \<Rightarrow> ('t, 'b, 'c, 'a) memory \<Rightarrow> bool" where
  "laid_out st i h \<longleftrightarrow> inner_at (aptr st) h = Some i \<and> tvalid (inner_slots i) h \<and> bvalid (inner_buffer i) h \<and>
     cvalid (inner_destroy_stages i) h \<and> cvalid (inner_keep_alloc i) h \<and> cvalid (inner_stage_tickets i) h \<and>
     distinct [aptr st, tptr (inner_slots i), bptr (inner_buffer i), cptr (inner_destroy_stages i),
       cptr (inner_keep_alloc i), cptr (inner_stage_tickets i)]"

lemma free_all_defined:
  assumes l: "laid_out st i h"
  shows "\<exists>h'. free_regions (free_region aptr adealloc bdealloc cdealloc st) free_all h = Some h' \<and>
    same_outside {aptr st, tptr (inner_slots i), bptr (inner_buffer i), cptr (inner_destroy_stages i),
      cptr (inner_keep_alloc i), cptr (inner_stage_tickets i)} h h'"
proof -
  let ?A = "aptr st" and ?T = "tptr (inner_slots i)" and ?B = "bptr (inner_buffer i)"
    and ?D = "cptr (inner_destroy_stages i)" and ?K = "cptr (inner_keep_alloc i)" and ?G = "cptr (inner_stage_tickets i)"
  note ds = l [unfolded laid_out_def]
  obtain h1 where h1: "cdealloc (inner_destroy_stages i) h = Some h1" "same_outside {?D} h h1"
    using counter.deallocate_valid ds by blast
  have "cvalid (inner_keep_alloc i) h1" using counter.valid_frame [OF _ h1(2)] ds by auto
  then obtain h2 where h2: "cdealloc (inner_keep_alloc i) h1 = Some h2" "same_outside {?K} h1 h2"
    using counter.deallocate_valid by blast
  note o2 = same_outside_trans [OF h1(2) h2(2)]
  have "cvalid (inner_stage_tickets i) h2" using counter.valid_frame [OF _ o2] ds by auto
  then obtain h3 where h3: "cdealloc (inner_stage_tickets i) h2 = Some h3" "same_outside {?G} h2 h3"
    using counter.deallocate_valid by blast
  note o3 = same_outside_trans [OF o2 h3(2)]
  have "bvalid (inner_buffer i) h3" using buf.valid_frame [OF _ o3] ds by auto
  then obtain h4 where h4: "bdealloc (inner_buffer i) h3 = Some h4" "same_outside {?B} h3 h4"
    using buf.deallocate_valid by blast
  note o4 = same_outside_trans [OF o3 h4(2)]
  have at: "inner_at ?A h1 = Some i" "inner_at ?A h2 = Some i" "inner_at ?A h3 = Some i" "inner_at ?A h4 = Some i"
    using inner_frame [OF _ h1(2)] inner_frame [OF _ o2] inner_frame [OF _ o3] inner_frame [OF _ o4] ds by auto
  have "tvalid (inner_slots i) h4" using table.valid_frame [OF _ o4] ds by auto
  then obtain h5 where h5: "adealloc st h4 = Some h5" "same_outside {?A, ?T} h4 h5"
    using area_deallocate [OF at(4)] ds by auto
  have "same_outside {?A, ?T, ?B, ?D, ?K, ?G} h h5"
    using same_outside_trans [OF o4 h5(2)] by (rule same_outside_mono) auto
  then show ?thesis using h1(1) h2(1) h3(1) h4(1) h5(1) at ds by (simp add: free_all_def free_region_def)
qed

end

section \<open>Boxed and static areas\<close>

lemma inner_at_block: "inner_at p h = Some i \<longleftrightarrow> block p h = Some [InnerV i]"
  by (auto simp: inner_at_def split: option.splits list.splits stored.splits)

text \<open>A boxed \<open>AreaInner\<close> is freed together with the slots of its table.\<close>

lemma boxed_area_frees:
  assumes "inner_at (boxed_ptr st) h = Some i" and "boxed_slice_valid (inner_slots i) h"
    and "slice_ptr (inner_slots i) \<noteq> boxed_ptr st"
  shows "boxed_deallocate (drop_stored (boxed_slice_deallocate no_drop)) st h =
    Some (h[slice_ptr (inner_slots i) := None, boxed_ptr st := None])"
  using assms boxed_slice_frees [OF assms(2)]
  by (simp add: boxed_deallocate_def drop_box_def drop_stored_def inner_at_block block_update)

interpretation boxed_memory: area_memory
  slice_ptr "boxed_slice_deallocate no_drop" boxed_slice_valid slice_capacity
  slice_ptr "boxed_slice_deallocate no_drop" boxed_slice_valid slice_capacity
  boxed_ptr "boxed_deallocate no_drop" boxed_valid
  boxed_ptr "boxed_deallocate (drop_stored (boxed_slice_deallocate no_drop))"
proof
  fix st :: boxed_storage and h :: "'a boxed_memory" and i
  assume "inner_at (boxed_ptr st) h = Some i" "boxed_slice_valid (inner_slots i) h"
    "slice_ptr (inner_slots i) \<noteq> boxed_ptr st"
  then show "\<exists>h'. boxed_deallocate (drop_stored (boxed_slice_deallocate no_drop)) st h = Some h' \<and>
      same_outside {boxed_ptr st, slice_ptr (inner_slots i)} h h'"
    by (simp add: boxed_area_frees same_outside_def block_update)
qed

interpretation static_memory: area_memory
  static_slice_ptr static_slice_deallocate static_slice_valid static_slice_capacity
  static_slice_ptr static_slice_deallocate static_slice_valid static_slice_capacity
  static_ptr static_deallocate static_valid static_ptr static_deallocate
  by unfold_locales (simp add: static_deallocate_def)

lemma others_update:
  "p \<noteq> q \<Longrightarrow> inner_at p (h[q := x]) = inner_at p h"
  "boxed_ptr c \<noteq> q \<Longrightarrow> boxed_valid c (h[q := x]) = boxed_valid c h"
  "slice_ptr b \<noteq> q \<Longrightarrow> boxed_slice_valid b (h[q := x]) = boxed_slice_valid b h"
  by (simp_all add: inner_at_def boxed_valid_def boxed_slice_valid_def block_update)

lemma block_free: "block q (h[p := None]) = (if q = p then None else block q h)"
  by (auto simp: block_def)

text \<open>The blocks of a boxed area, and what freeing all regions does to them.\<close>

definition own_blocks :: "boxed_storage \<Rightarrow> (boxed_slice_storage, boxed_slice_storage, boxed_storage) inner \<Rightarrow> nat set" where
  "own_blocks st i = {boxed_ptr st, slice_ptr (inner_slots i), slice_ptr (inner_buffer i),
     boxed_ptr (inner_destroy_stages i), boxed_ptr (inner_keep_alloc i), boxed_ptr (inner_stage_tickets i)}"

lemma boxed_free_all:
  assumes l: "boxed_memory.laid_out st i h"
  obtains h' where "boxed_free_regions st free_all h = Some h'" and "length h' = length h"
    and "\<And>p. block p h' = (if p \<in> own_blocks st i then None else block p h)"
proof -
  let ?D = "boxed_ptr (inner_destroy_stages i)" and ?K = "boxed_ptr (inner_keep_alloc i)"
    and ?G = "boxed_ptr (inner_stage_tickets i)" and ?B = "slice_ptr (inner_buffer i)" and ?T = "slice_ptr (inner_slots i)"
  let ?h1 = "h[?D := None]" and ?h2 = "h[?D := None, ?K := None]" and ?h3 = "h[?D := None, ?K := None, ?G := None]"
  let ?h4 = "h[?D := None, ?K := None, ?G := None, ?B := None]"
  let ?h5 = "?h4[?T := None, boxed_ptr st := None]"
  have v: "inner_at (boxed_ptr st) h = Some i" "boxed_slice_valid (inner_slots i) h" "boxed_slice_valid (inner_buffer i) h"
      "boxed_valid (inner_destroy_stages i) h" "boxed_valid (inner_keep_alloc i) h" "boxed_valid (inner_stage_tickets i) h"
    using l by (simp_all add: boxed_memory.laid_out_def)
  have "distinct [boxed_ptr st, ?T, ?B, ?D, ?K, ?G]" using l by (simp add: boxed_memory.laid_out_def)
  then have d: "boxed_ptr st \<noteq> ?D" "boxed_ptr st \<noteq> ?K" "boxed_ptr st \<noteq> ?G" "boxed_ptr st \<noteq> ?B" "?T \<noteq> boxed_ptr st"
      "?K \<noteq> ?D" "?G \<noteq> ?D" "?G \<noteq> ?K" "?B \<noteq> ?D" "?B \<noteq> ?K" "?B \<noteq> ?G" "?T \<noteq> ?D" "?T \<noteq> ?K" "?T \<noteq> ?G" "?T \<noteq> ?B"
    by auto
  have "boxed_deallocate no_drop (inner_destroy_stages i) h = Some ?h1" using v(4) by (rule boxed_frees)
  moreover have "boxed_deallocate no_drop (inner_keep_alloc i) ?h1 = Some ?h2"
    by (rule boxed_frees) (simp add: others_update v d)
  moreover have "boxed_deallocate no_drop (inner_stage_tickets i) ?h2 = Some ?h3"
    by (rule boxed_frees) (simp add: others_update v d)
  moreover have "boxed_slice_deallocate no_drop (inner_buffer i) ?h3 = Some ?h4"
    by (rule boxed_slice_frees) (simp add: others_update v d)
  moreover have "boxed_deallocate (drop_stored (boxed_slice_deallocate no_drop)) st ?h4 = Some ?h5"
    by (rule boxed_area_frees) (simp_all add: others_update v d)
  ultimately have "boxed_free_regions st free_all h = Some ?h5"
    by (simp add: free_all_def free_region_def others_update v(1) d)
  moreover have "block p ?h5 = (if p \<in> own_blocks st i then None else block p h)" for p
    unfolding block_free own_blocks_def by auto
  ultimately show thesis using that by simp
qed

text \<open>Static memory is left as it is.\<close>

lemma static_free_all:
  assumes "inner_at (static_ptr st) h = Some i"
  shows "free_regions (free_region static_ptr static_deallocate static_slice_deallocate static_deallocate st) free_all h = Some h"
  using assms by (simp add: free_all_def free_region_def static_deallocate_def static_slice_deallocate_def)

section \<open>Construction\<close>

lemma push_all_const: "push_all n (\<lambda>st. (x, st)) u v = (v @ replicate n x, u)"
  by (induction n arbitrary: v) (simp_all add: replicate_app_Cons_same)

lemma slice_of_const:
  "slice_with_capacity_and_init n (\<lambda>st. (x, st)) u h =
    (\<lparr>slice_ptr = length h, slice_capacity = n\<rparr>, u, h @ [Some (replicate (unat n) x)])"
  by (simp add: slice_with_capacity_and_init_def push_all_const allocate_def from_boxed_slice_def)

lemma area_inner_new_eq:
  assumes "area_inner_new bc rc h = Returns (st, h')"
  obtains i where "boxed_ptr st = length h + 5" and "inner_slots i = \<lparr>slice_ptr = length h + 4, slice_capacity = rc\<rparr>"
    and "inner_buffer i = \<lparr>slice_ptr = length h, slice_capacity = bc\<rparr>"
    and "boxed_ptr (inner_destroy_stages i) = length h + 1" and "boxed_ptr (inner_keep_alloc i) = length h + 2"
    and "boxed_ptr (inner_stage_tickets i) = length h + 3"
    and "h' = h @ [Some (replicate (unat bc) (CellV Uninit)), Some [CounterV 2], Some [CounterV 0], Some [CounterV 0],
       Some (replicate (unat rc) (SlotV \<lparr>key = EMPTY, cell = SUSPENDED_BIT\<rparr>)), Some [InnerV i]]"
    and "inner_write_gen i = 0" and "inner_read_gen i = 0" and "inner_last_valid_gen i = 0" and "inner_free_gen i = 0"
    and "inner_writers_count i = 0" and "inner_mask i = rc - 1" and "inner_buffer_capacity i = bc"
    and "block (length h) h' = Some (replicate (unat bc) (CellV Uninit))" and "block (length h + 1) h' = Some [CounterV 2]"
    and "block (length h + 2) h' = Some [CounterV 0]" and "block (length h + 3) h' = Some [CounterV 0]"
    and "block (length h + 4) h' = Some (replicate (unat rc) (SlotV \<lparr>key = EMPTY, cell = SUSPENDED_BIT\<rparr>))"
    and "block (length h + 5) h' = Some [InnerV i]"
    and "bc > 0" and "is_power_of_two rc"
proof -
  have c: "bc > 0" "is_power_of_two rc" "rc > 0" using assms by (auto simp: area_inner_new_def split: if_splits)
  let ?i = "\<lparr>inner_write_gen = 0, inner_read_gen = 0, inner_last_valid_gen = 0, inner_free_gen = 0,
      inner_writers_count = 0, inner_mask = rc - 1, inner_slots = \<lparr>slice_ptr = length h + 4, slice_capacity = rc\<rparr>,
      inner_buffer_capacity = bc, inner_buffer = \<lparr>slice_ptr = length h, slice_capacity = bc\<rparr>,
      inner_destroy_stages = \<lparr>boxed_ptr = length h + 1\<rparr>, inner_keep_alloc = \<lparr>boxed_ptr = length h + 2\<rparr>,
      inner_stage_tickets = \<lparr>boxed_ptr = length h + 3\<rparr>\<rparr>"
  have "st = \<lparr>boxed_ptr = length h + 5\<rparr> \<and>
      h' = h @ [Some (replicate (unat bc) (CellV Uninit)), Some [CounterV 2], Some [CounterV 0], Some [CounterV 0],
        Some (replicate (unat rc) (SlotV \<lparr>key = EMPTY, cell = SUSPENDED_BIT\<rparr>)), Some [InnerV ?i]]"
    using assms c by (auto simp: area_inner_new_def slice_of_const boxed_new_def allocate_def boxed_from_boxed_def eval_nat_numeral)
  then show thesis using c by (intro that [of ?i]) (simp_all add: block_def nth_append)
qed

text \<open>
  C30: \<open>AreaInner::new\<close> panics exactly where \<open>area_new\<close> does, and otherwise allocates six new
  blocks that stand for the state \<open>area_new\<close> returns; it touches no other block.
\<close>
theorem area_inner_new_represents:
  "case area_inner_new bc rc h of
     Panics \<Rightarrow> (area_new bc rc :: 'a area outcome) = Panics
   | Returns (st, h') \<Rightarrow>
       \<exists>s :: 'a area. area_new bc rc = Returns s
         \<and> represents slice_ptr slice_capacity slice_ptr slice_capacity boxed_ptr (boxed_ptr st) h' s
         \<and> length h' = length h + 6 \<and> take (length h) h' = h \<and> boxed_ptr st = length h + 5"
proof (cases "area_inner_new bc rc h")
  case Panics
  then show ?thesis by (auto simp: area_inner_new_def area_new_def split: if_splits)
next
  case (Returns r)
  obtain st h' where r: "r = (st, h')" by (cases r)
  from Returns [unfolded r] show ?thesis
  proof (cases rule: area_inner_new_eq)
    case (1 i)
    have "rc > 0" using Returns by (auto simp: area_inner_new_def split: if_splits)
    from 1(21,22) \<open>rc > 0\<close> have "(area_new bc rc :: 'a area outcome) = Returns \<lparr>write_gen = 0, read_gen = 0, last_valid_gen = 0, free_gen = 0, writers_count = 0,
         reader_gens = with_capacity_and_init rc (\<lambda>_. SUSPENDED_BIT), buffer_capacity = bc,
         buffer = replicate (unat bc) Uninit, destroy_stages = 2, reader_keep_alloc_tickets = 0, reader_stage_tickets = 0,
         dropped = []\<rparr>" by (simp add: area_new_def)
    moreover have "length h' = length h + 6" "take (length h) h' = h" using 1(7) by simp_all
    moreover have "inner_at (length h + 5) h' = Some i" using 1 by (simp add: inner_at_def)
    ultimately show ?thesis using 1(1-6,8-20) Returns r
      by (simp add: represents_def from_raw_parts_def ptr_as_ref_def with_capacity_and_init_def
          map_replicate_const comp_def del: One_nat_def)
  qed
qed

section \<open>From construction to the last drop\<close>

text \<open>
  What may happen to the memory of an area while it is used: the contents of its blocks change,
  their sizes and the storages written into the \<open>AreaInner\<close> do not; other blocks come and go.
\<close>

definition same_storages :: "('t, 'b, 'c) inner \<Rightarrow> ('t, 'b, 'c) inner \<Rightarrow> bool" where
  "same_storages i j \<longleftrightarrow> inner_slots j = inner_slots i \<and> inner_buffer j = inner_buffer i \<and>
     inner_destroy_stages j = inner_destroy_stages i \<and> inner_keep_alloc j = inner_keep_alloc i \<and>
     inner_stage_tickets j = inner_stage_tickets i"

definition area_used :: "boxed_storage \<Rightarrow> 'a boxed_memory \<Rightarrow> 'a boxed_memory \<Rightarrow> bool" where
  "area_used st h h' \<longleftrightarrow>
     (case (inner_at (boxed_ptr st) h, inner_at (boxed_ptr st) h') of
        (Some i, Some j) \<Rightarrow> same_storages i j \<and>
          (\<forall>p \<in> own_blocks st i. map_option length (block p h') = map_option length (block p h))
      | _ \<Rightarrow> False)"

lemma length_one: "map_option length x = Some 1 \<longleftrightarrow> (\<exists>v. x = Some [v])"
  by (cases x) (auto simp: length_Suc_conv)

lemma new_laid_out:
  assumes new: "area_inner_new bc rc h = Returns (st, h1)" and used: "area_used st h1 h2"
  obtains j where "boxed_memory.laid_out st j h2" and "own_blocks st j = {length h..<length h + 6}"
  using new
proof (cases rule: area_inner_new_eq)
  case (1 i)
  have "inner_at (boxed_ptr st) h1 = Some i" using 1(1,20) by (simp add: inner_at_block)
  then obtain j where j: "inner_at (boxed_ptr st) h2 = Some j" "same_storages i j"
      and len: "\<And>p. p \<in> own_blocks st i \<Longrightarrow> map_option length (block p h2) = map_option length (block p h1)"
    using used by (auto simp: area_used_def split: option.splits)
  have own: "own_blocks st j = own_blocks st i" using j(2) by (simp add: own_blocks_def same_storages_def)
  have six: "own_blocks st i = {length h..<length h + 6}"
    using 1(1-6) by (auto simp: own_blocks_def)
  have sizes: "map_option length (block (length h) h2) = Some (unat bc)" "map_option length (block (length h + 1) h2) = Some 1"
      "map_option length (block (length h + 2) h2) = Some 1" "map_option length (block (length h + 3) h2) = Some 1"
      "map_option length (block (length h + 4) h2) = Some (unat rc)"
    using 1(15-19) by (simp_all add: len six)
  have "boxed_memory.laid_out st j h2"
    unfolding boxed_memory.laid_out_def boxed_valid_def boxed_slice_valid_def
    using j 1(1-6) sizes unfolding same_storages_def length_one by auto
  then show thesis using that own six by simp
qed

lemma drop_all_handles:
  "at_rest g hs s \<Longrightarrow> hs \<noteq> [] \<Longrightarrow> \<exists>s'. drop_handles nd hs s = Some (s', free_all)"
proof (induction hs arbitrary: s)
  case (Cons h hs)
  show ?case
  proof (cases "hs = []")
    case True
    then show ?thesis using drop_last [of g h s nd] Cons.prems(1) by auto
  next
    case False
    from Teardown.drop_step [OF Cons.prems(1) False, of nd] Cons.IH [OF _ False] show ?thesis by fastforce
  qed
qed simp

text \<open>
  C29: the whole life of the memory.  \<open>AreaInner::new\<close> allocates six blocks; whatever happens to
  their contents, and to the rest of the memory, when all handles are dropped, in any order,
  the deallocations the drops perform are all defined, free exactly these six blocks, each
  once, and nothing else; doing them once more would be undefined behaviour.
\<close>
theorem dropping_handles_frees_memory:
  assumes new: "area_inner_new bc rc h0 = Returns (st, h1)" and used: "area_used st h1 h2"
    and rest: "at_rest g hs s" and ne: "hs \<noteq> []"
  shows "\<exists>s' freed h3. drop_handles nd hs s = Some (s', freed) \<and> boxed_free_regions st freed h2 = Some h3
    \<and> (\<forall>p. block p h3 = (if length h0 \<le> p \<and> p < length h0 + 6 then None else block p h2))
    \<and> boxed_free_regions st freed h3 = None"
proof -
  obtain s' where s': "drop_handles nd hs s = Some (s', free_all)" using drop_all_handles [OF rest ne] by blast
  obtain j where j: "boxed_memory.laid_out st j h2" "own_blocks st j = {length h0..<length h0 + 6}"
    using new used by (rule new_laid_out)
  obtain h3 where h3: "boxed_free_regions st free_all h2 = Some h3"
      "\<And>p. block p h3 = (if p \<in> own_blocks st j then None else block p h2)"
    using boxed_free_all [OF j(1)] by metis
  have "block (boxed_ptr st) h3 = None" using h3(2) by (simp add: own_blocks_def)
  then have "boxed_free_regions st free_all h3 = None" by (simp add: free_all_def free_region_def inner_at_def)
  then show ?thesis using s' h3 j(2) by auto
qed

section \<open>Areas in static memory\<close>

lemma from_raw_parts_update: "p \<noteq> q \<Longrightarrow> from_raw_parts p n (h[q := x]) = from_raw_parts p n h"
  and ptr_as_ref_update: "p \<noteq> q \<Longrightarrow> ptr_as_ref p (h[q := x]) = ptr_as_ref p h"
  by (simp_all add: from_raw_parts_def ptr_as_ref_def block_update)

text \<open>
  An area in memory of the caller.  \<open>AreaInner::init\<close> over static storages gives a memory
  that stands for the state \<open>area_init\<close> describes, with the table, the buffer and the counters
  the caller put there; and all deallocations of the last drop leave the memory as it is.
\<close>
theorem static_area_life:
  assumes p: "p < length h" and st: "static_ptr st = p"
    and table: "from_raw_parts (static_slice_ptr table) (static_slice_capacity table) h = Some (map SlotV sl)"
    and buf: "from_raw_parts (static_slice_ptr buf) (static_slice_capacity buf) h = Some (map CellV cells)"
    and counters: "ptr_as_ref (static_ptr stages) h = Some (CounterV a)" "ptr_as_ref (static_ptr keep) h = Some (CounterV b)"
      "ptr_as_ref (static_ptr stage) h = Some (CounterV c)"
    and apart: "p \<notin> {static_slice_ptr table, static_slice_ptr buf, static_ptr stages, static_ptr keep, static_ptr stage}"
    and init: "h' = area_inner_init static_slice_capacity p msk table buf stages keep stage h"
  shows "represents static_slice_ptr static_slice_capacity static_slice_ptr static_slice_capacity static_ptr p h'
      (area_init \<lparr>mask_of = msk, slots = sl\<rparr> cells a b c)
    \<and> free_regions (free_region static_ptr static_deallocate static_slice_deallocate static_deallocate st) free_all h' = Some h'"
proof
  obtain i where i: "h' = h[p := Some [InnerV i]]" "i = \<lparr>inner_write_gen = 0, inner_read_gen = 0, inner_last_valid_gen = 0,
      inner_free_gen = 0, inner_writers_count = 0, inner_mask = msk, inner_slots = table,
      inner_buffer_capacity = static_slice_capacity buf, inner_buffer = buf, inner_destroy_stages = stages,
      inner_keep_alloc = keep, inner_stage_tickets = stage\<rparr>"
    by (simp add: init area_inner_init_def)
  have at: "inner_at p h' = Some i" using p i(1) by (simp add: inner_at_block block_update)
  have "length cells = unat (static_slice_capacity buf)"
    using buf by (auto simp: from_raw_parts_def split: option.splits if_splits dest: arg_cong [where f = length])
  then have "of_nat (length cells) = static_slice_capacity buf" by simp
  then show "represents static_slice_ptr static_slice_capacity static_slice_ptr static_slice_capacity static_ptr p h'
      (area_init \<lparr>mask_of = msk, slots = sl\<rparr> cells a b c)"
    using at i table buf counters apart
    by (auto simp: represents_def area_init_def from_raw_parts_update ptr_as_ref_update)
  show "free_regions (free_region static_ptr static_deallocate static_slice_deallocate static_deallocate st) free_all h' = Some h'"
    using at st by (intro static_free_all [of _ _ i]) simp
qed

section \<open>Examples\<close>

text \<open>Two slots for readers, two for messages, three counters, and room for the area itself.\<close>

definition demo_static :: "(static_slice_storage, static_slice_storage, static_storage, nat) memory" where
  "demo_static = [Some [SlotV \<lparr>key = 0, cell = MSB\<rparr>, SlotV \<lparr>key = 0, cell = MSB\<rparr>], Some [CellV Uninit, CellV Uninit],
     Some [CounterV 2], Some [CounterV 0], Some [CounterV 0], None]"

lemma static_area_life_witness:
  "\<exists>h' :: (static_slice_storage, static_slice_storage, static_storage, nat) memory.
    represents static_slice_ptr static_slice_capacity static_slice_ptr static_slice_capacity static_ptr 5 h'
      (area_init \<lparr>mask_of = 1, slots = [\<lparr>key = 0, cell = MSB\<rparr>, \<lparr>key = 0, cell = MSB\<rparr>]\<rparr> [Uninit, Uninit :: nat maybe_uninit] 2 0 0)
    \<and> free_regions (free_region static_ptr static_deallocate static_slice_deallocate static_deallocate \<lparr>static_ptr = 5\<rparr>) free_all h' = Some h'"
proof -
  have "5 < length demo_static"
    "from_raw_parts (static_slice_ptr (from_static 0 demo_static)) (static_slice_capacity (from_static 0 demo_static)) demo_static
       = Some (map SlotV [\<lparr>key = 0, cell = MSB\<rparr>, \<lparr>key = 0, cell = MSB\<rparr>])"
    "from_raw_parts (static_slice_ptr (static_slice_from_raw 1 2)) (static_slice_capacity (static_slice_from_raw 1 2)) demo_static
       = Some (map CellV [Uninit, Uninit])"
    "ptr_as_ref (static_ptr (static_from_raw 2)) demo_static = Some (CounterV 2)"
    "ptr_as_ref (static_ptr (static_from_raw 3)) demo_static = Some (CounterV 0)"
    "ptr_as_ref (static_ptr (static_from_raw 4)) demo_static = Some (CounterV 0)"
    by code_simp+
  from static_area_life [OF this(1) _ this(2-) _ refl, of "\<lparr>static_ptr = 5\<rparr>" 1] show ?thesis
    by (auto simp: from_static_def static_slice_from_raw_def static_from_raw_def)
qed

definition demo_memory :: "boxed_storage \<times> nat boxed_memory" where
  "demo_memory = (case area_inner_new 2 2 [None, Some [CounterV 9]] of Returns r \<Rightarrow> r | Panics \<Rightarrow> (\<lparr>boxed_ptr = 0\<rparr>, []))"

lemma dropping_handles_frees_memory_witness:
  "\<exists>(s :: nat area) s' freed h3. drop_handles True [WriterHandle, ReaderHandle 1] s = Some (s', freed)
     \<and> boxed_free_regions (fst demo_memory) freed (snd demo_memory) = Some h3 \<and> block 1 h3 = Some [CounterV 9]
     \<and> block 7 h3 = None"
proof -
  have p: "is_power_of_two 2" by code_simp
  then obtain s :: "nat area" where s: "at_rest 0 [WriterHandle, ReaderHandle 1] s"
    using finish_init_start [of 2 2] by auto
  have "case area_inner_new 2 2 [None, Some [CounterV 9]] of Returns (st, h :: nat boxed_memory) \<Rightarrow> True | Panics \<Rightarrow> False"
    by code_simp
  then have new: "area_inner_new 2 2 [None, Some [CounterV 9]] = Returns (fst demo_memory, snd demo_memory)"
    by (auto simp: demo_memory_def split: outcome.splits)
  have b: "block 1 (snd demo_memory) = Some [CounterV 9]" by code_simp
  have "case inner_at (boxed_ptr (fst demo_memory)) (snd demo_memory) of None \<Rightarrow> False | Some i \<Rightarrow> True" by code_simp
  then have used: "area_used (fst demo_memory) (snd demo_memory) (snd demo_memory)"
    by (auto simp: area_used_def same_storages_def split: option.splits)
  let ?h = "[None, Some [CounterV 9]] :: nat boxed_memory"
  from dropping_handles_frees_memory [OF new used s, of True] obtain s' freed h3 where
    "drop_handles True [WriterHandle, ReaderHandle 1] s = Some (s', freed)"
    "boxed_free_regions (fst demo_memory) freed (snd demo_memory) = Some h3"
    "\<forall>p. block p h3 = (if length ?h \<le> p \<and> p < length ?h + 6 then None else block p (snd demo_memory))" by blast
  then show ?thesis using b by (intro exI [of _ s] exI [of _ s'] exI [of _ freed] exI [of _ h3]) (simp del: drop_handles.simps)
qed

end
