(* ===== verification/Memory_Orders.thy ===== *)
theory Memory_Orders
  imports Machine_Safety
begin

text \<open>
  The memory orders.  The slots of the ring are ordinary memory; writing, reading and dropping
  a message is safe only if any two accesses to a slot, unless both read, are ordered by the
  synchronisation of the atomics.  The machine runs here with the happens-before relation of its
  accesses: every thread has seen a set of accesses, a store with \<open>Release\<close> leaves what its
  thread has seen at the atomic, a load with \<open>Acquire\<close> takes what it finds there, and a
  successful compare-and-exchange with \<open>AcqRel\<close> does both and so continues the sequence of the
  store before.  The counters of the handles are no part of the machine; what they synchronise
  could only order more.  The values of the atomics are still those of one sequential order
  here; \<open>Weak_Memory\<close> lets loads find older ones.
\<close>

section \<open>Synchronisation\<close>

text \<open>The atomics: the four counters, and the cells and keys of the table by their index.\<close>

datatype loc = WriteGen | ReadGen | LastValidGen | FreeGen | Cell nat | Key nat

datatype atomic = Acquire loc | Release loc | AcqRel loc

text \<open>A compare-and-exchange with \<open>Ordering::AcqRel\<close>, and \<open>Ordering::Acquire\<close> when it fails.\<close>

definition exchange :: "loc \<Rightarrow> bool \<Rightarrow> atomic" where
  "exchange l success = (if success then AcqRel l else Acquire l)"

text \<open>The atomic access of an operation on a private generation, whose value loaded is \<open>current\<close>.\<close>

fun op_sync :: "usize \<Rightarrow> gen \<Rightarrow> reader_op \<Rightarrow> 'a area \<Rightarrow> atomic option" where
  "op_sync p current GetGen s = None"
| "op_sync p current (DropSlice st en) s = None"
| "op_sync p current (SetGen g) s =
     (if is_suspended current \<or> gen_lte_msb_masked g current then None else Some (Release (Cell (unat p))))"
| "op_sync p current Suspend s = (if is_suspended current then None else Some (Release (Cell (unat p))))"
| "op_sync p current Unregister s = (if is_suspended current then None else Some (Release (Cell (unat p))))"
| "op_sync p current Resume s =
     (if \<not> is_suspended current then None
      else Some (exchange (Cell (unat p)) (load_gen p s = current)))"
| "op_sync p current (ResumeAt g) s =
     (if \<not> is_suspended current \<or> gen_lt_msb_masked g (gen_without_suspended_bit current) then None
      else Some (exchange (Cell (unat p)) (load_gen p s = current)))"

text \<open>
  The atomic access of a step.  \<open>Finish\<close> is a load with \<open>Acquire\<close> and, when the key is in
  progress, a \<open>fetch_and\<close> with \<open>Release\<close> on the same key.
\<close>

fun step_sync :: "'a pc \<Rightarrow> 'a area \<Rightarrow> atomic option" where
  "step_sync (ReserveLoad be n cf) s = Some (Acquire WriteGen)"
| "step_sync (ReserveGrab be n cf cw) s =
     (let available = available_slots (buffer_capacity s) cf cw in
      if (if be then min n available = 0 else n > available) then None
      else Some (exchange WriteGen (write_gen s = cw)))"
| "step_sync (CleanLoad lv) s = Some (Acquire ReadGen)"
| "step_sync (CleanSlot lv m i) s =
     (if i < length (raw_slots (reader_gens s)) then Some (Acquire (Cell i)) else None)"
| "step_sync (CleanTurn lv m i rg) s =
     (if is_suspended rg \<and> gen_gt_msb_masked m (gen_without_suspended_bit rg)
      then Some (exchange (Cell i) (load_gen (of_nat i) s = rg)) else None)"
| "step_sync (CleanClaim lv new) s =
     (if gen_lte_msb_masked new lv then None else Some (exchange LastValidGen (last_valid_gen s = lv)))"
| "step_sync (CleanFree lv new) s = Some (exchange FreeGen (free_gen s = lv))"
| "step_sync (Probe ky i idx) s =
     (if i < capacity (reader_gens s) then Some (Acquire (Key (unat idx))) else None)"
| "step_sync (ProbeCas ky i idx k) s =
     (if k = EMPTY then Some (exchange (Key (unat idx)) (load_key idx (reader_gens s) = k)) else None)"
| "step_sync (Finish r p) s =
     Some (exchange (Key (unat p)) (is_in_progress (load_key p (reader_gens s))))"
| "step_sync (EnterLoad r p) s = Some (Acquire (Cell (unat p)))"
| "step_sync (EnterCas r p current) s = Some (exchange (Cell (unat p)) (load_gen p s = current))"
| "step_sync (OpLookup r oper) s = Some (Acquire (Key (unat (index_for r ZERO_OFFSET (reader_gens s)))))"
| "step_sync (OpLoad r p oper) s = Some (Acquire (Cell (unat p)))"
| "step_sync (OpAct r p current oper) s = op_sync p current oper s"
| "step_sync (RemoveLoad r) s = Some (Acquire (Key (unat (index_for r ZERO_OFFSET (reader_gens s)))))"
| "step_sync (RemoveCas r k) s =
     (let idx = index_for r ZERO_OFFSET (reader_gens s) in
      if key_bits k = r then Some (exchange (Key (unat idx)) (load_key idx (reader_gens s) = k)) else None)"
| "step_sync (ReadEnd r st) s = Some (Acquire ReadGen)"
| "step_sync x s = None"

definition call_sync :: "'a call \<Rightarrow> 'a pc \<Rightarrow> 'a area \<Rightarrow> atomic option" where
  "call_sync c x s =
     (case c of
        Reserve be n \<Rightarrow> if be \<and> n = 0 then None else Some (Acquire FreeGen)
      | Publish \<Rightarrow>
          (case x of
             Writing st en ms \<Rightarrow>
               if gen_gte_msb_masked st en then None else Some (exchange ReadGen (read_gen s = st))
           | _ \<Rightarrow> None)
      | Cleanup \<Rightarrow> Some (Acquire LastValidGen)
      | _ \<Rightarrow> None)"

text \<open>What it does to what the thread has seen and to what the atomics hold.\<close>

fun sync :: "atomic option \<Rightarrow> nat set \<Rightarrow> (loc \<Rightarrow> nat set) \<Rightarrow> nat set \<times> (loc \<Rightarrow> nat set)" where
  "sync None K R = (K, R)"
| "sync (Some (Acquire l)) K R = (K \<union> R l, R)"
| "sync (Some (Release l)) K R = (K, R(l := K))"
| "sync (Some (AcqRel l)) K R = (K \<union> R l, R(l := K \<union> R l))"

section \<open>Accesses to the slots\<close>

text \<open>
  \<open>ReadAt j v\<close> is a read by the reader whose private generation is in the slot \<open>j\<close> of the table.
\<close>

datatype access = WriteAt gen | ReadAt nat gen | DropAt gen

fun at :: "access \<Rightarrow> gen" where
  "at (WriteAt v) = v"
| "at (ReadAt j v) = v"
| "at (DropAt v) = v"

fun reads :: "access \<Rightarrow> bool" where
  "reads (ReadAt j v) = True"
| "reads e = False"

definition conflict :: "'a area \<Rightarrow> access \<Rightarrow> access \<Rightarrow> bool" where
  "conflict s e e' \<longleftrightarrow> slot_index (at e) s = slot_index (at e') s \<and> \<not> (reads e \<and> reads e')"

fun step_access :: "bool \<Rightarrow> 'a pc \<Rightarrow> access option" where
  "step_access nd (CleanDrop lv new k) =
     (if nd \<and> k < unat (gen_dist_msb_masked new lv)
      then Some (DropAt (gen_add_msb_masked lv (of_nat k))) else None)"
| "step_access nd x = None"

definition call_access :: "'a call \<Rightarrow> 'a pc \<Rightarrow> access option" where
  "call_access c x =
     (case (c, x) of
        (Write v, Writing st en ms) \<Rightarrow> Some (WriteAt (gen_add_msb_masked st (of_nat (length ms))))
      | _ \<Rightarrow> None)"

section \<open>The system\<close>

text \<open>
  \<open>hist\<close> lists the accesses; threads and atomics hold their numbers.  \<open>race\<close> is set by an access
  that conflicts with one its thread has not seen.  A \<open>Look\<close> is a read of one message of a slice.
\<close>

record 'a rsys = "'a sys" +
  hist :: "access list"
  seen :: "nat \<Rightarrow> nat set"
  released :: "loc \<Rightarrow> nat set"
  race :: bool

datatype 'a act = Step | Call "'a call" | Look nat

fun put_sync :: "nat \<Rightarrow> atomic option \<Rightarrow> 'a rsys \<Rightarrow> 'a rsys" where
  "put_sync t a X =
     (case sync a (seen X t) (released X) of
        (K, R) \<Rightarrow> X\<lparr>seen := (seen X)(t := K), released := R\<rparr>)"

fun put_access :: "nat \<Rightarrow> access option \<Rightarrow> 'a rsys \<Rightarrow> 'a rsys" where
  "put_access t None X = X"
| "put_access t (Some e) X =
     X\<lparr>hist := hist X @ [e], seen := (seen X)(t := insert (length (hist X)) (seen X t)),
       race := (race X \<or>
         list_ex (\<lambda>k. conflict (shared X) e (hist X ! k) \<and> k \<notin> seen X t) [0..<length (hist X)])\<rparr>"

text \<open>The step of the machine itself; bookkeeping as there.\<close>

fun put_pc :: "nat \<Rightarrow> 'a call option \<Rightarrow> 'a rsys \<Rightarrow> 'a pc \<times> 'a area \<Rightarrow> 'a rsys" where
  "put_pc t c X (x', s') =
     X\<lparr>shared := s', threads := (threads X)(t := x'),
       reserved := reserved X + unat (gen_dist_msb_masked (write_gen s') (write_gen (shared X))),
       log := log X @ published_by (threads X t) c x'\<rparr>"

definition look :: "nat \<Rightarrow> 'a pc \<Rightarrow> 'a area \<Rightarrow> access option" where
  "look k x s =
     (case x of
        Slice r st en \<Rightarrow>
          if k < unat (gen_dist_msb_masked en st)
          then Some (ReadAt (unat (slot_of r s)) (gen_add_msb_masked st (of_nat k))) else None
      | _ \<Rightarrow> None)"

fun race_exec :: "bool \<Rightarrow> nat \<times> 'a act \<Rightarrow> 'a rsys \<Rightarrow> 'a rsys option" where
  "race_exec nd (t, Step) X =
     Some (put_pc t None
       (put_sync t (step_sync (threads X t) (shared X)) (put_access t (step_access nd (threads X t)) X))
       (pc_step nd (threads X t) (shared X)))"
| "race_exec nd (t, Call c) X =
     (if call_allowed c (sys.truncate X)
      then map_option (put_pc t (Some c)
        (put_sync t (call_sync c (threads X t) (shared X)) (put_access t (call_access c (threads X t)) X)))
        (call_step c (threads X t) (shared X))
      else None)"
| "race_exec nd (t, Look k) X =
     (case look k (threads X t) (shared X) of None \<Rightarrow> None | Some e \<Rightarrow> Some (put_access t (Some e) X))"

fun race_run :: "bool \<Rightarrow> (nat \<times> 'a act) list \<Rightarrow> 'a rsys \<Rightarrow> 'a rsys option" where
  "race_run nd [] X = Some X"
| "race_run nd (e # es) X = (case race_exec nd e X of None \<Rightarrow> None | Some X' \<Rightarrow> race_run nd es X')"

definition race_start :: "gen \<Rightarrow> usize \<Rightarrow> usize \<Rightarrow> 'a rsys" where
  "race_start g bc rc =
     sys.extend (start_at g bc rc) \<lparr>hist = [], seen = (\<lambda>_. {}), released = (\<lambda>_. {}), race = False\<rparr>"

text \<open>Slices are looked at while their readers are active.\<close>

fun looks_ok :: "nat \<times> 'a act \<Rightarrow> 'a rsys \<Rightarrow> bool" where
  "looks_ok (t, Look k) X \<longleftrightarrow>
     (case threads X t of Slice r st en \<Rightarrow> \<not> is_suspended (gen_of r (shared X)) | _ \<Rightarrow> True)"
| "looks_ok e X \<longleftrightarrow> True"

fun active_looks :: "bool \<Rightarrow> (nat \<times> 'a act) list \<Rightarrow> 'a rsys \<Rightarrow> bool" where
  "active_looks nd [] X \<longleftrightarrow> True"
| "active_looks nd (e # es) X \<longleftrightarrow>
     looks_ok e X \<and> (case race_exec nd e X of None \<Rightarrow> True | Some X' \<Rightarrow> active_looks nd es X')"

end
