(* ===== verification/Machine_Races.thy ===== *)
theory Machine_Races
  imports Memory_Orders
begin

text \<open>
  The orderings of the atomics suffice.  \<open>race_inv\<close> says for every control point and for every
  atomic which accesses are known there: \<open>free_gen\<close> releases all accesses before it, \<open>read_gen\<close>
  the writes of what is published, the private generation of a reader the reads up to it.  It
  rests on the order of the counters (\<open>Machine_Order\<close>), the ownership of reader slots
  (\<open>Machine_Ownership\<close>) and of ranges of the ring (\<open>Machine_Ring\<close>).
\<close>

section \<open>Who has seen what\<close>

text \<open>All accesses with a property have been seen.\<close>

definition knows :: "nat set \<Rightarrow> access list \<Rightarrow> (access \<Rightarrow> bool) \<Rightarrow> bool" where
  "knows K h P \<longleftrightarrow> (\<forall>k < length h. P (h ! k) \<longrightarrow> k \<in> K)"

lemma knows_mono: "knows K h P \<Longrightarrow> K \<subseteq> K' \<Longrightarrow> (\<And>e. e \<in> set h \<Longrightarrow> P' e \<Longrightarrow> P e) \<Longrightarrow> knows K' h P'"
  by (auto simp: knows_def)

lemma knows_Un: "knows K h P \<Longrightarrow> knows (K \<union> L) h P" "knows L h P \<Longrightarrow> knows (K \<union> L) h P"
  by (auto simp: knows_def)

lemma knows_snoc: "knows K (h @ [e]) P \<longleftrightarrow> knows K h P \<and> (P e \<longrightarrow> length h \<in> K)"
  by (auto simp: knows_def nth_append less_Suc_eq)

lemma knows_insert: "knows K h P \<Longrightarrow> knows (insert k K) h P"
  by (auto simp: knows_def)

lemma knows_both: "knows K h P \<Longrightarrow> knows K h Q \<Longrightarrow> (\<And>e. e \<in> set h \<Longrightarrow> S e \<Longrightarrow> P e \<or> Q e) \<Longrightarrow> knows K h S"
  by (auto simp: knows_def) (metis nth_mem)

lemma knows_none: "(\<And>e. e \<in> set h \<Longrightarrow> \<not> P e) \<Longrightarrow> knows K h P"
  by (auto simp: knows_def)

text \<open>Accesses at positions before \<open>n\<close>, and the writes and the reads among them.\<close>

definition below :: "gen \<Rightarrow> nat \<Rightarrow> access \<Rightarrow> bool" where
  "below g n e \<longleftrightarrow> pos g (at e) < n"

fun written :: "gen \<Rightarrow> nat \<Rightarrow> access \<Rightarrow> bool" where
  "written g n (WriteAt v) \<longleftrightarrow> pos g v < n"
| "written g n e \<longleftrightarrow> False"

fun read_via :: "nat \<Rightarrow> access \<Rightarrow> bool" where
  "read_via j (ReadAt i v) \<longleftrightarrow> i = j"
| "read_via j e \<longleftrightarrow> False"

fun within :: "gen \<Rightarrow> gen \<Rightarrow> gen \<Rightarrow> access \<Rightarrow> bool" where
  "within g a b e \<longleftrightarrow> pos g a \<le> pos g (at e) \<and> pos g (at e) < pos g b"

definition cap :: "'a area \<Rightarrow> nat" where
  "cap s = unat (buffer_capacity s)"

text \<open>Everything a message at a position before \<open>m\<close> was preceded by in its slot, and its own write.\<close>

definition caught :: "gen \<Rightarrow> gen \<Rightarrow> 'a area \<Rightarrow> access list \<Rightarrow> nat set \<Rightarrow> bool" where
  "caught g m s h K \<longleftrightarrow> knows K h (written g (pos g m)) \<and> knows K h (below g (pos g m - cap s))"

definition saw_reads :: "gen \<Rightarrow> gen \<Rightarrow> nat \<Rightarrow> access list \<Rightarrow> nat set \<Rightarrow> bool" where
  "saw_reads g m j h K \<longleftrightarrow> knows K h (\<lambda>e. read_via j e \<and> below g (pos g m) e)"

fun know :: "gen \<Rightarrow> 'a pc \<Rightarrow> 'a area \<Rightarrow> access list \<Rightarrow> nat set \<Rightarrow> bool" where
  "know g (ReserveLoad be n cf) s h K \<longleftrightarrow> knows K h (below g (pos g cf))"
| "know g (ReserveGrab be n cf cw) s h K \<longleftrightarrow> knows K h (below g (pos g cf))"
| "know g (Writing st en ms) s h K \<longleftrightarrow> st = en \<or> knows K h (below g (pos g en - cap s)) \<and>
     knows K h (within g st en)"
| "know g (CleanSlot lv m i) s h K \<longleftrightarrow> caught g m s h K \<and> (\<forall>j < i. saw_reads g m j h K)"
| "know g (CleanTurn lv m i rg) s h K \<longleftrightarrow>
     caught g m s h K \<and> (\<forall>j < i. saw_reads g m j h K) \<and> saw_reads g rg i h K"
| "know g (CleanClaim lv m) s h K \<longleftrightarrow>
     caught g m s h K \<and> (\<forall>j < length (slots (reader_gens s)). saw_reads g m j h K)"
| "know g (CleanDrop lv new k) s h K \<longleftrightarrow> caught g new s h K \<and> knows K h (within g lv new)"
| "know g (CleanFree lv new) s h K \<longleftrightarrow> knows K h (within g lv new)"
| "know g (Slice r st en) s h K \<longleftrightarrow> is_suspended (gen_of r s) \<or> caught g en s h K"
| "know g x s h K \<longleftrightarrow> True"

text \<open>An active reader has seen all reads through its private generation.\<close>

definition owner_knows :: "'a pc \<Rightarrow> 'a area \<Rightarrow> access list \<Rightarrow> nat set \<Rightarrow> bool" where
  "owner_knows x s h K \<longleftrightarrow> (\<forall>r. owned x = Some r \<longrightarrow> \<not> is_suspended (gen_of r s) \<longrightarrow>
     knows K h (read_via (unat (slot_of r s))))"

definition released_ok :: "gen \<Rightarrow> 'a area \<Rightarrow> access list \<Rightarrow> (loc \<Rightarrow> nat set) \<Rightarrow> bool" where
  "released_ok g s h R \<longleftrightarrow>
     knows (R FreeGen) h (below g (pos g (free_gen s))) \<and>
     caught g (read_gen s) s h (R ReadGen) \<and>
     (\<forall>j < length (slots (reader_gens s)).
        saw_reads g (cell_at j s) j h (R (Cell j)) \<and>
        (is_suspended (cell_at j s) \<longrightarrow> knows (R (Cell j)) h (read_via j)))"

fun happened :: "gen \<Rightarrow> 'a area \<Rightarrow> access \<Rightarrow> bool" where
  "happened g s (WriteAt v) \<longleftrightarrow> masked v \<and> pos g v < pos g (write_gen s)"
| "happened g s (ReadAt j v) \<longleftrightarrow> masked v \<and> j < length (slots (reader_gens s)) \<and> pos g v < pos g (read_gen s)"
| "happened g s (DropAt v) \<longleftrightarrow> masked v \<and> pos g v < pos g (last_valid_gen s)"

definition race_inv :: "gen \<Rightarrow> 'a rsys \<Rightarrow> bool" where
  "race_inv g X \<longleftrightarrow> \<not> race X \<and> (\<forall>e \<in> set (hist X). happened g (shared X) e) \<and>
     released_ok g (shared X) (hist X) (released X) \<and>
     (\<forall>t. know g (threads X t) (shared X) (hist X) (seen X t) \<and>
          owner_knows (threads X t) (shared X) (hist X) (seen X t))"

lemma race_inv_start: "race_inv g (race_start g bc rc)"
  by (auto simp: race_inv_def race_start_def sys.defs start_at_def released_ok_def caught_def saw_reads_def
      knows_def owner_knows_def)

section \<open>Steps without an access to a slot\<close>

definition step_knows :: "gen \<Rightarrow> access list \<Rightarrow> 'a pc \<Rightarrow> 'a area \<Rightarrow> nat set \<times> (loc \<Rightarrow> nat set) \<Rightarrow> bool" where
  "step_knows g h x' s' = (\<lambda>(K', R'). know g x' s' h K' \<and> owner_knows x' s' h K' \<and> released_ok g s' h R')"

lemma written_le: "written g n e \<Longrightarrow> n \<le> n' \<Longrightarrow> written g n' e"
  by (cases e) auto

lemma below_le: "below g n e \<Longrightarrow> n \<le> n' \<Longrightarrow> below g n' e"
  by (simp add: below_def)

lemma caught_mono:
  assumes "caught g m s h K" and "K \<subseteq> K'" and "pos g m' \<le> pos g m" and "cap s' = cap s"
  shows "caught g m' s' h K'"
proof -
  have w: "knows K h (written g (pos g m))" "knows K h (below g (pos g m - cap s))"
    using assms(1) by (auto simp: caught_def)
  have "pos g m' - cap s' \<le> pos g m - cap s" using assms(3,4) by simp
  then show ?thesis unfolding caught_def
    using knows_mono [OF w(1) assms(2), of "written g (pos g m')"] knows_mono [OF w(2) assms(2), of "below g (pos g m' - cap s')"]
      written_le assms(3) below_le by blast
qed

lemma saw_mono: "saw_reads g m j h K \<Longrightarrow> K \<subseteq> K' \<Longrightarrow> pos g m' \<le> pos g m \<Longrightarrow> saw_reads g m' j h K'"
  unfolding saw_reads_def by (erule knows_mono) (auto elim: below_le)

lemma saw_all: "knows K h (read_via j) \<Longrightarrow> saw_reads g m j h K"
  unfolding saw_reads_def by (erule knows_mono) auto

lemma caught_Un: "caught g m s h K \<Longrightarrow> caught g m s h (K \<union> L)" "caught g m s h L \<Longrightarrow> caught g m s h (K \<union> L)"
  by (auto simp: caught_def intro: knows_Un)

lemma saw_Un: "saw_reads g m j h K \<Longrightarrow> saw_reads g m j h (K \<union> L)" "saw_reads g m j h L \<Longrightarrow> saw_reads g m j h (K \<union> L)"
  by (auto simp: saw_reads_def intro: knows_Un)

lemma released_same:
  assumes "released_ok g s h R" and "free_gen s' = free_gen s" "read_gen s' = read_gen s" "cap s' = cap s"
    and "length (slots (reader_gens s')) = length (slots (reader_gens s))"
    and "\<And>j. j < length (slots (reader_gens s)) \<Longrightarrow> cell_at j s' = cell_at j s"
    and "\<And>l. R l \<subseteq> R' l"
  shows "released_ok g s' h R'"
  unfolding released_ok_def
proof (intro conjI allI impI)
  have r: "knows (R FreeGen) h (below g (pos g (free_gen s)))" "caught g (read_gen s) s h (R ReadGen)"
    using assms(1) by (auto simp: released_ok_def)
  show "knows (R' FreeGen) h (below g (pos g (free_gen s')))" using knows_mono [OF r(1) assms(7)] assms(2) by simp
  show "caught g (read_gen s') s' h (R' ReadGen)" using caught_mono [OF r(2) assms(7) _ assms(4)] assms(3) by simp
  fix j assume "j < length (slots (reader_gens s'))"
  then have j: "j < length (slots (reader_gens s))" using assms(5) by simp
  have c: "saw_reads g (cell_at j s) j h (R (Cell j))" "is_suspended (cell_at j s) \<Longrightarrow> knows (R (Cell j)) h (read_via j)"
    using assms(1) j by (auto simp: released_ok_def)
  show "saw_reads g (cell_at j s') j h (R' (Cell j))" using saw_mono [OF c(1) assms(7)] assms(6) [OF j] by simp
  show "knows (R' (Cell j)) h (read_via j)" if "is_suspended (cell_at j s')"
    using knows_mono [OF c(2) assms(7)] that assms(6) [OF j] by simp
qed

lemma released_grows: "released_ok g s h R \<Longrightarrow> (\<And>l. R l \<subseteq> R' l) \<Longrightarrow> released_ok g s h R'"
  by (rule released_same) auto

lemma released_cell:
  assumes R: "released_ok g s h R" and p: "unat p < length (slots (reader_gens s))"
    and L: "knows L h (read_via (unat p))"
  shows "released_ok g (store_gen p v s) h (R(Cell (unat p) := L))"
  using R unfolding released_ok_def caught_def cap_def
  by (auto simp: cell_at_store [OF p] saw_all [OF L] L)

text \<open>The cell of a reader.\<close>

lemma own_cell:
  assumes "own_pre x s" and "owned x = Some r"
  shows "unat (slot_of r s) < length (slots (reader_gens s))" "load_gen (slot_of r s) s = gen_of r s"
    "cell_at (unat (slot_of r s)) s = gen_of r s"
  using pre_slot [OF assms(1)] by (simp_all add: gen_of_def load_cell_at)

lemma suspended_released:
  "released_ok g s h R \<Longrightarrow> j < length (slots (reader_gens s)) \<Longrightarrow> is_suspended (cell_at j s) \<Longrightarrow>
   knows (K \<union> R (Cell j)) h (read_via j)"
  by (auto simp: released_ok_def intro: knows_Un)

lemma owner_same:
  "owner_knows x s h K \<Longrightarrow> K \<subseteq> K' \<Longrightarrow> owned x' = owned x \<or> owned x' = None \<Longrightarrow>
   (\<And>r. owned x = Some r \<Longrightarrow> gen_of r s' = gen_of r s) \<Longrightarrow> (\<And>r. slot_of r s' = slot_of r s) \<Longrightarrow> owner_knows x' s' h K'"
  unfolding owner_knows_def by (auto elim!: knows_mono)

text \<open>The operations of a reader on its own cell.\<close>

lemma op_act_knows:
  assumes own: "own_pre (OpAct r p c oper) s" and R: "released_ok g s h R"
    and ok: "owner_knows (OpAct r p c oper) s h K"
    and step: "op_act r p c oper s = (x', s')" and own': "local_own x' s'"
  shows "step_knows g h x' s' (sync (op_sync p c oper s) K R)"
proof -
  have p: "p = slot_of r s" and c: "is_suspended c \<longleftrightarrow> is_suspended (gen_of r s)" "is_suspended c \<or> gen_of r s = c"
    using own by (auto simp: own_pre_def)
  have slot: "unat p < length (slots (reader_gens s))" "load_gen p s = gen_of r s" "cell_at (unat p) s = gen_of r s"
    using own_cell [OF own, of r] p by simp_all
  have active: "knows K h (read_via (unat p))" if "\<not> is_suspended c"
    using ok c(1) that p by (simp add: owner_knows_def)
  have stored: "released_ok g (store_gen p v s) h (R(Cell (unat p) := L))" if "knows L h (read_via (unat p))" for v L
    using released_cell [OF R slot(1) that] .
  have owner: "owner_knows y t h L" if "knows L h (read_via (unat p))" "owned y = Some r \<or> owned y = None" "slot_of r t = slot_of r s" for y t L
    using that p by (auto simp: owner_knows_def)
  have susp: "knows (K \<union> R (Cell (unat p))) h (read_via (unat p))" if "is_suspended c"
    using suspended_released [OF R slot(1)] slot(3) c(1) that by simp
  have same: "owner_knows y s h L" if "K \<subseteq> L" "owned y = Some r \<or> owned y = None" for y L
    using owner_same [OF ok that(1), of y s] that(2) by simp
  have grown: "released_ok g s h (R(Cell (unat p) := K \<union> R (Cell (unat p))))"
    by (rule released_grows [OF R]) auto
  show ?thesis
  proof (cases oper)
    case GetGen
    then show ?thesis using step R same [of K] by (auto simp: step_knows_def)
  next
    case (SetGen v)
    then show ?thesis using step R same [of K x'] active stored
      by (auto simp: step_knows_def set_gen_from_def split: if_splits intro: owner)
  next
    case (DropSlice st en)
    then show ?thesis using step R same [of K x'] by (auto simp: step_knows_def split: if_splits)
  next
    case Suspend
    then show ?thesis using step R same [of K x'] active stored
      by (auto simp: step_knows_def suspend_from_def split: if_splits intro: owner)
  next
    case Unregister
    then show ?thesis using step R same [of K x'] active stored
      by (auto simp: step_knows_def suspend_from_def split: if_splits intro: owner)
  next
    case Resume
    show ?thesis
    proof (cases "is_suspended c")
      case True
      then show ?thesis using Resume step susp stored same R grown
        by (cases rule: cas_gen_cases [of p s c "c AND NOT SUSPENDED_BIT"])
          (auto simp: step_knows_def resume_turn_def exchange_def intro: owner)
    next
      case False
      then show ?thesis using Resume step R same [of K x'] by (auto simp: step_knows_def resume_turn_def split: if_splits)
    qed
  next
    case (ResumeAt v)
    show ?thesis
    proof (cases "is_suspended c \<and> \<not> gen_lt_msb_masked v (gen_without_suspended_bit c)")
      case True
      then show ?thesis using ResumeAt step susp stored same R grown
        by (cases rule: cas_gen_cases [of p s c "v AND NOT SUSPENDED_BIT"])
          (auto simp: step_knows_def resume_at_turn_def exchange_def intro: owner)
    next
      case False
      then show ?thesis using ResumeAt step R same [of K x'] by (auto simp: step_knows_def resume_at_turn_def split: if_splits)
    qed
  qed
qed

lemma enter_knows:
  assumes own: "own_pre (EnterCas r p c) s" and R: "released_ok g s h R"
    and step: "pc_step nd (EnterCas r p c) s = (x', s')" and own': "local_own x' s'"
  shows "step_knows g h x' s' (sync (step_sync (EnterCas r p c) s) K R)"
proof -
  have p: "p = slot_of r s" and c: "is_suspended (gen_of r s)" using own by (auto simp: own_pre_def)
  have slot: "unat p < length (slots (reader_gens s))" "load_gen p s = gen_of r s" "cell_at (unat p) s = gen_of r s"
    using own_cell [OF own, of r] p by simp_all
  have susp: "knows (K \<union> R (Cell (unat p))) h (read_via (unat p))"
    using suspended_released [OF R slot(1)] slot(3) c by simp
  show ?thesis using step susp released_cell [OF R slot(1) susp] c p R own'
    by (cases rule: cas_gen_cases [of p s c "gen_without_suspended_bit c"])
      (auto simp: step_knows_def enter_turn_def exchange_def owner_knows_def)
qed

text \<open>The scan of a cleanup.\<close>

lemma turn_knows:
  fixes s :: "'a area"
  assumes pre: "ord_pre g (CleanTurn lv m i rg) s" and R: "released_ok g s h R"
    and ok: "know g (CleanTurn lv m i rg) s h K"
    and step: "pc_step nd (CleanTurn lv m i rg) s = (x', s')"
  shows "step_knows g h x' s' (sync (step_sync (CleanTurn lv m i rg) s) K R)"
proof -
  have own: "own_pre (CleanTurn lv m i rg) s" and i: "i < length (slots (reader_gens s))"
    and m: "masked m" "pos g m \<le> pos g (read_gen s)" and rg: "pos g rg \<le> pos g (cell_at i s)"
    using pre by (auto simp: ord_pre_def)
  have u: "unat (of_nat i :: usize) = i" by (rule unat_nat_slot [OF own i])
  have cell: "load_gen (of_nat i) s = cell_at i s" by (simp add: load_cell_at u)
  note bounds = ord_pre_bounds [OF pre]
  have small: "pos g m < 2 ^ 62" "pos g rg < 2 ^ 62" using m(2) bounds(3) rg bounds(5) [OF i] by linarith+
  have k: "caught g m s h K" "\<And>j. j < i \<Longrightarrow> saw_reads g m j h K" "saw_reads g rg i h K" using ok by auto
  have i': "unat (of_nat i :: usize) < length (slots (reader_gens s))" using i u by simp
  have slot: "know g (CleanSlot lv m' (Suc i)) t h L"
    if "K \<subseteq> L" "pos g m' \<le> pos g m" "cap t = cap s" "saw_reads g m' i h L" for m' t L
    using that k by (auto simp: less_Suc_eq intro: caught_mono saw_mono)
  have none: "owner_knows (CleanSlot lv m' j) t h L" "owner_knows (CleanTurn lv m' j v) t h L" for m' j v L and t :: "'a area"
    by (simp_all add: owner_knows_def)
  show ?thesis
  proof (cases "is_suspended rg")
    case False
    let ?m = "if gen_gte_msb_masked m rg then rg else m"
    have r: "x' = CleanSlot lv ?m (Suc i)" "s' = s" using step False by (auto simp: scan_turn_def)
    have le: "pos g ?m \<le> pos g m" "pos g ?m \<le> pos g rg" using small by (auto simp: gte_masked [of g])
    have "know g (CleanSlot lv ?m (Suc i)) s h K" using slot [OF _ le(1)] saw_mono [OF k(3) _ le(2)] by blast
    then show ?thesis using False R none by (simp add: step_knows_def r del: know.simps)
  next
    case True
    have strip: "pos g (gen_without_suspended_bit rg) = pos g rg" by (simp add: strip_eq pos_strip)
    show ?thesis
    proof (cases "gen_gt_msb_masked m (gen_without_suspended_bit rg)")
      case False
      then have r: "x' = CleanSlot lv m (Suc i)" "s' = s" using step True by (auto simp: scan_turn_def)
      have "masked (gen_without_suspended_bit rg)" by (simp add: strip_eq)
      then have "pos g m \<le> pos g rg" using False small strip m(1) gt_masked [of m "gen_without_suspended_bit rg" g] by simp
      then have "know g (CleanSlot lv m (Suc i)) s h K" using slot [of K m s] saw_mono [OF k(3), of K m] by blast
      then show ?thesis using True False R none by (simp add: step_knows_def r del: know.simps)
    next
      case gt: True
      show ?thesis
      proof (cases "cell_at i s = rg")
        case hit: True
        have r: "x' = CleanSlot lv m (Suc i)" "s' = store_gen (of_nat i) (m OR SUSPENDED_BIT) s"
          using step True gt hit by (auto simp: scan_turn_def cas_gen_hit cell)
        have all: "knows (K \<union> R (Cell i)) h (read_via i)" using suspended_released [OF R i] hit True by simp
        have "know g (CleanSlot lv m (Suc i)) s' h (K \<union> R (Cell i))"
          by (rule slot) (use saw_all [OF all] in \<open>auto simp: r cap_def\<close>)
        moreover have "released_ok g s' h (R(Cell i := K \<union> R (Cell i)))"
          using released_cell [OF R i', of "K \<union> R (Cell i)" "m OR SUSPENDED_BIT"] all by (simp add: u r)
        ultimately show ?thesis using True gt hit none by (simp add: step_knows_def exchange_def cell r del: know.simps)
      next
        case miss: False
        have r: "x' = CleanTurn lv m i (cell_at i s)" "s' = s"
          using step True gt miss by (auto simp: scan_turn_def cas_gen_miss cell)
        have "saw_reads g (cell_at i s) i h (K \<union> R (Cell i))"
          using R i by (auto simp: released_ok_def intro: saw_mono)
        then have "know g (CleanTurn lv m i (cell_at i s)) s h (K \<union> R (Cell i))"
          using k(1,2) by (auto intro: caught_mono saw_mono)
        then show ?thesis using True gt miss R none by (simp add: step_knows_def exchange_def cell r del: know.simps)
      qed
    qed
  qed
qed

text \<open>Reserving, claiming, handing back.\<close>

lemma released_other:
  assumes R: "released_ok g s h R" and l: "l = WriteGen \<or> l = LastValidGen"
    and "free_gen s' = free_gen s" "read_gen s' = read_gen s" "buffer_capacity s' = buffer_capacity s"
      "reader_gens s' = reader_gens s"
  shows "released_ok g s' h (R(l := L))"
  using R l assms(3-) unfolding released_ok_def caught_def cap_def cell_at_def by auto

lemma below_write: "happened g s e \<Longrightarrow> ord_inv g s \<Longrightarrow> pos g (at e) < pos g (write_gen s)"
  by (cases e) (auto simp: ord_inv_def)

lemma grab_knows:
  assumes pre: "ord_pre g (ReserveGrab be n cf cw) s" and R: "released_ok g s h R"
    and ok: "know g (ReserveGrab be n cf cw) s h K" and hist: "\<And>e. e \<in> set h \<Longrightarrow> happened g s e"
    and step: "pc_step nd (ReserveGrab be n cf cw) s = (x', s')"
  shows "step_knows g h x' s' (sync (step_sync (ReserveGrab be n cf cw) s) K R)"
proof -
  let ?a = "step_sync (ReserveGrab be n cf cw) s"
  have ord: "ord_inv g s" and loc: "pos g cf \<le> pos g cw" using pre by (auto simp: ord_pre_def)
  have "?a = None \<or> ?a = Some (AcqRel WriteGen) \<or> ?a = Some (Acquire WriteGen)"
    by (auto simp: Let_def exchange_def)
  then obtain K' R' where KR: "sync ?a K R = (K', R')" and grow: "K \<subseteq> K'" and R': "R' = R \<or> R' = R(WriteGen := K')"
    by auto
  have rel: "released_ok g t h R'" if "t = s \<or> (\<exists>w. t = s\<lparr>write_gen := w\<rparr>)" for t
  proof -
    have "released_ok g t h (R(WriteGen := L))" for L by (rule released_other [OF R]) (use that in auto)
    from this [of K'] this [of "R WriteGen"] show ?thesis using R' by auto
  qed
  from step show ?thesis
  proof (cases rule: reserve_grab_cases)
    case (grabs k en)
    note o = ord_grab [OF pre grabs(1,4)]
    note b = grab_bound [OF pre grabs(1) o(3)]
    have d: "unat (gen_dist_msb_masked cw cf) = pos g cw - pos g cf" using loc by (rule unat_dist_ge)
    have en: "pos g en = pos g cw + unat k" using b(2) o(4) by simp
    have "cw = en \<or> knows K' h (below g (pos g en - cap s'))"
    proof (cases "unat k = 0")
      case True
      have "pos g cw = pos g en" using en True by simp
      moreover have "masked cw" "masked en" using ord o(3,4) by (auto simp: ord_inv_def masked_def)
      ultimately show ?thesis by (auto simp: masked_def intro: pos_inj)
    next
      case False
      have "unat k + min (cap s) (pos g cw - pos g cf) \<le> cap s"
        using available_le [OF grabs(1)] d by (simp add: cap_def)
      then have le: "pos g en - cap s' \<le> pos g cf" using en False o(5) by (simp add: cap_def)
      have "knows K h (below g (pos g cf))" using ok by simp
      then have "knows K' h (below g (pos g en - cap s'))"
        by (rule knows_mono [OF _ grow]) (rule below_le [OF _ le])
      then show ?thesis ..
    qed
    moreover have "knows K' h (within g cw en)"
      by (rule knows_none) (use below_write [OF hist ord] o(3) in fastforce)
    ultimately show ?thesis using KR rel o(5) grabs(5) by (auto simp: step_knows_def owner_knows_def)
  qed (use KR rel in \<open>simp_all add: step_knows_def owner_knows_def\<close>)
qed

lemma claim_knows:
  assumes pre: "ord_pre g (CleanClaim lv new) s" and R: "released_ok g s h R"
    and ok: "know g (CleanClaim lv new) s h K" and hist: "\<And>e. e \<in> set h \<Longrightarrow> happened g s e"
    and step: "pc_step nd (CleanClaim lv new) s = (x', s')"
  shows "step_knows g h x' s' (sync (step_sync (CleanClaim lv new) s) K R)"
proof (cases "\<not> gen_lte_msb_masked new lv \<and> last_valid_gen s = lv")
  case True
  then have r: "x' = CleanDrop lv new 0" "s' = s\<lparr>last_valid_gen := new\<rparr>" using step by (auto simp: claim_turn_def)
  let ?K = "K \<union> R LastValidGen"
  have c: "caught g new s h K" and reads: "\<And>j. j < length (slots (reader_gens s)) \<Longrightarrow> saw_reads g new j h K"
    using ok by auto
  have "knows ?K h (within g lv new)" unfolding knows_def
  proof (intro allI impI)
    fix i assume i: "i < length h" "within g lv new (h ! i)"
    then have "happened g s (h ! i)" using hist by simp
    with i True c reads show "i \<in> ?K"
      by (cases "h ! i") (auto simp: caught_def saw_reads_def below_def knows_def)
  qed
  moreover have "caught g new s' h ?K" by (rule caught_mono [OF c]) (simp_all add: r cap_def)
  moreover have "released_ok g s' h (R(LastValidGen := ?K))" by (rule released_other [OF R]) (simp_all add: r)
  ultimately show ?thesis using True by (simp add: step_knows_def exchange_def r owner_knows_def)
next
  case False
  then have r: "x' = Idle \<or> (\<exists>l. x' = CleanClaim l new)" "s' = s"
    using step by (auto simp: claim_turn_def compare_exchange_def split: if_splits)
  show ?thesis using False R r ok
    by (auto simp: step_knows_def exchange_def owner_knows_def caught_Un(1) saw_Un(1))
qed

lemma free_knows:
  assumes pre: "ord_pre g (CleanFree lv new) s" and R: "released_ok g s h R"
    and ok: "know g (CleanFree lv new) s h K"
    and step: "pc_step nd (CleanFree lv new) s = (x', s')"
  shows "step_knows g h x' s' (sync (step_sync (CleanFree lv new) s) K R)"
proof (cases "free_gen s = lv")
  case True
  then have r: "x' = Idle" "s' = s\<lparr>free_gen := new\<rparr>" using step by (auto simp: free_turn_def)
  let ?K = "K \<union> R FreeGen"
  have "knows (R FreeGen) h (below g (pos g lv))" using R True by (simp add: released_ok_def)
  then have "knows ?K h (below g (pos g new))"
    by (rule knows_both [OF knows_Un(2) knows_Un(1)]) (use ok in \<open>auto simp: below_def\<close>)
  then have "released_ok g s' h (R(FreeGen := ?K))" using R
    by (simp add: released_ok_def caught_def cap_def cell_at_def r)
  then show ?thesis using True by (simp add: step_knows_def exchange_def r owner_knows_def)
next
  case False
  then have r: "x' = CleanFree lv new" "s' = s" using step by (auto simp: free_turn_def)
  show ?thesis using False R ok by (auto simp: step_knows_def exchange_def owner_knows_def r intro: knows_Un)
qed

text \<open>Steps on the keys of the table.\<close>

definition key_sync :: "atomic option \<Rightarrow> bool" where
  "key_sync a \<longleftrightarrow> a = None \<or> (\<exists>j. a = Some (Acquire (Key j)) \<or> a = Some (AcqRel (Key j)))"

lemma table_knows:
  assumes R: "released_ok g s h R" and p: "unat p < length (slots (reader_gens s))"
    and s': "s' = s \<or> (\<exists>k. s' = s\<lparr>reader_gens := store_key p k (reader_gens s)\<rparr>)"
    and a: "key_sync a"
    and "\<And>L. know g x' s' h L" and "\<And>r. owned x' = Some r \<Longrightarrow> is_suspended (gen_of r s')"
  shows "step_knows g h x' s' (sync a K R)"
proof -
  have "cell_at j s' = cell_at j s" for j using p s' by (auto simp: cell_at_def slot_store_key)
  then have same: "released_ok g s' h R" by (intro released_same [OF R]) (use s' in \<open>auto simp: cap_def\<close>)
  have "released_ok g s' h (R(Key j := L))" for j L using same by (simp add: released_ok_def)
  with same assms(5,6) a show ?thesis by (auto simp: step_knows_def owner_knows_def key_sync_def)
qed

lemma stay_knows:
  assumes R: "released_ok g s h R" and ok: "owner_knows x s h K"
    and "know g x' s h K" and "owned x' = owned x \<or> owned x' = None"
  shows "step_knows g h x' s (K, R)"
  using R owner_same [OF ok, of K x' s] assms(3,4) by (simp add: step_knows_def)

text \<open>All steps, and all calls.\<close>

lemma released_load: "released_ok g s h R \<Longrightarrow> j < length (slots (reader_gens s)) \<Longrightarrow>
  saw_reads g (cell_at j s) j h (K \<union> R (Cell j))"
  by (auto simp: released_ok_def intro: saw_Un)

text \<open>The steps on the keys, which leave the cells of the table alone.\<close>

fun on_keys :: "'a pc \<Rightarrow> bool" where
  "on_keys (ProbeCas ky i idx k) \<longleftrightarrow> True"
| "on_keys (Finish r p) \<longleftrightarrow> True"
| "on_keys (RemoveCas r k) \<longleftrightarrow> True"
| "on_keys x \<longleftrightarrow> False"

lemma on_keys_sync: "on_keys x \<Longrightarrow> key_sync (step_sync x s)"
  by (cases x) (auto simp: key_sync_def exchange_def Let_def)

lemma key_step_knows:
  assumes own: "own_pre x s" and x: "on_keys x" and R: "released_ok g s h R"
    and step: "pc_step nd x s = (x', s')"
  shows "step_knows g h x' s' (sync (step_sync x s) K R)"
proof -
  have own': "local_own x' s'" using pc_step_own [OF own, of nd] step by (simp add: own_step_def)
  note table = table_knows [OF R, where s' = s' and x' = x' and K = K, OF _ _ on_keys_sync [OF x, of s]]
  show ?thesis
  proof (cases x)
    case (ProbeCas ky i idx k)
    have p: "unat idx < length (slots (reader_gens s))"
      using own ProbeCas by (auto simp: own_pre_def reg_inv_def map_inv_def index_less)
    have "(\<exists>r p. x' = Finish r p) \<or> (\<exists>i idx. x' = Probe ky i idx)"
      "s' = s \<or> (\<exists>q. s' = s\<lparr>reader_gens := store_key idx q (reader_gens s)\<rparr>)"
      using step ProbeCas by (auto simp: goi_turn_def Let_def compare_exchange_def split: if_splits)
    then show ?thesis using ProbeCas table [OF p] own' by auto
  next
    case (Finish r p)
    have p: "unat p < length (slots (reader_gens s))" using own Finish pre_slot [OF own, of r] by (auto simp: own_pre_def)
    have "x' = EnterLoad r p" "s' = s \<or> (\<exists>q. s' = s\<lparr>reader_gens := store_key p q (reader_gens s)\<rparr>)"
      using step Finish by (auto simp: finish_init_at_eq split: if_splits)
    then show ?thesis using Finish table [OF p] own' by auto
  next
    case (RemoveCas r k)
    let ?i = "index_for r ZERO_OFFSET (reader_gens s)"
    have p: "unat ?i < length (slots (reader_gens s))"
      using own by (auto simp: own_pre_def reg_inv_def map_inv_def index_less index_for_def)
    have "x' = Idle" "s' = s \<or> (\<exists>q. s' = s\<lparr>reader_gens := store_key ?i q (reader_gens s)\<rparr>)"
      using step RemoveCas by (auto simp: remove_turn_def compare_exchange_def split: if_splits)
    then show ?thesis using RemoveCas table [OF p] by simp
  qed (use x in simp_all)
qed

text \<open>The steps that load a counter or a cell.\<close>

fun loading :: "'a pc \<Rightarrow> bool" where
  "loading (ReserveLoad be n cf) \<longleftrightarrow> True"
| "loading (CleanLoad lv) \<longleftrightarrow> True"
| "loading (CleanSlot lv m i) \<longleftrightarrow> True"
| "loading (Probe ky i idx) \<longleftrightarrow> True"
| "loading (OpLookup r oper) \<longleftrightarrow> True"
| "loading (RemoveLoad r) \<longleftrightarrow> True"
| "loading (EnterLoad r p) \<longleftrightarrow> True"
| "loading (OpLoad r p oper) \<longleftrightarrow> True"
| "loading (ReadEnd r st) \<longleftrightarrow> True"
| "loading x \<longleftrightarrow> False"

lemma load_step_knows:
  assumes pre: "ord_pre g x s" and x: "loading x" and R: "released_ok g s h R"
    and ok: "know g x s h K" "owner_knows x s h K" and step: "pc_step nd x s = (x', s')"
  shows "step_knows g h x' s' (sync (step_sync x s) K R)"
proof -
  have own: "own_pre x s" using pre by (simp add: ord_pre_def)
  have loads: "step_knows g h x' s (K \<union> R l, R)"
    if "know g x' s h (K \<union> R l)" "owned x' = owned x \<or> owned x' = None" for l
    using R owner_same [OF ok(2), of "K \<union> R l" x' s] that by (simp add: step_knows_def)
  have rd: "caught g (read_gen s) s h (K \<union> R ReadGen)" using R by (auto simp: released_ok_def intro: caught_Un)
  show ?thesis
  proof (cases x)
    case (ReserveLoad be n cf)
    then show ?thesis using step ok(1) loads [of WriteGen] by (auto simp: knows_Un(1))
  next
    case (CleanLoad lv)
    then show ?thesis using step rd loads [of ReadGen] by (auto split: if_splits)
  next
    case (CleanSlot lv m i)
    show ?thesis
    proof (cases "i < length (raw_slots (reader_gens s))")
      case True
      then have i: "i < length (slots (reader_gens s))" by (simp add: raw_slots_def)
      then have "unat (of_nat i :: usize) = i" using own by (intro unat_nat_slot)
      then have "x' = CleanTurn lv m i (cell_at i s)" "s' = s" using step True CleanSlot by (auto simp: load_cell_at)
      then show ?thesis using loads [of "Cell i"] CleanSlot True ok(1) released_load [OF R i]
        by (auto simp: caught_Un(1) saw_Un(1))
    next
      case False
      have "i \<le> length (slots (reader_gens s))" using pre CleanSlot by (auto simp: ord_pre_def)
      then have "x' = CleanClaim lv m" "s' = s" "i = length (slots (reader_gens s))"
        using step False CleanSlot by (auto simp: raw_slots_def)
      then show ?thesis using stay_knows [OF R ok(2)] CleanSlot False ok(1) by auto
    qed
  next
    case (ReadEnd r st)
    then show ?thesis using step rd loads [of ReadGen] by auto
  next
    case (EnterLoad r p)
    then show ?thesis using step loads [of "Cell (unat p)"] by auto
  next
    case (OpLoad r p oper)
    then show ?thesis using step loads [of "Cell (unat p)"] by auto
  next
    case (Probe ky i idx)
    then show ?thesis using step loads [of "Key (unat idx)"] stay_knows [OF R ok(2)] by auto
  next
    case (OpLookup r oper)
    then show ?thesis using step loads by (auto split: option.splits reader_op.splits)
  next
    case (RemoveLoad r)
    then show ?thesis using step loads by auto
  qed (use x in simp_all)
qed

lemma pc_step_knows:
  assumes pre: "ord_pre g x s" and R: "released_ok g s h R"
    and ok: "know g x s h K" "owner_knows x s h K" and hist: "\<And>e. e \<in> set h \<Longrightarrow> happened g s e"
    and step: "pc_step nd x s = (x', s')"
  shows "step_knows g h x' s' (sync (step_sync x s) K R)"
proof -
  have own: "own_pre x s" using pre by (simp add: ord_pre_def)
  have own': "local_own x' s'" using pc_step_own [OF own, of nd] step by (simp add: own_step_def)
  note stay = stay_knows [OF R ok(2)]
  consider (keys) "on_keys x" | (load) "loading x" | (other) "\<not> on_keys x" "\<not> loading x" by blast
  then show ?thesis
  proof cases
    case keys from key_step_knows [OF own keys R step] show ?thesis .
  next
    case load from load_step_knows [OF pre load R ok step] show ?thesis .
  next
    case other
    show ?thesis
    proof (cases x)
      case (ReserveGrab be n cf cw) with pre R ok hist step grab_knows show ?thesis by blast
    next
      case (CleanTurn lv m i rg) with pre R ok step turn_knows show ?thesis by blast
    next
      case (CleanClaim lv m) with pre R ok hist step claim_knows show ?thesis by blast
    next
      case (CleanFree lv m) with pre R ok step free_knows show ?thesis by blast
    next
      case (EnterCas r p c) with own R step own' enter_knows show ?thesis by blast
    next
      case (OpAct r p c oper)
      then show ?thesis using op_act_knows [of r p c oper s g h R K x' s'] own R ok(2) step own' by simp
    next
      case (CleanDrop lv new k)
      have "released_ok g (drop_slot v s) h R" "caught g new (drop_slot v s) h K" for v
        using ok(1) CleanDrop
        by (auto simp: drop_slot_def cap_def cell_at_def intro: released_same [OF R] caught_mono [of g new s])
      then show ?thesis using step CleanDrop ok(1) R
        by (auto simp: step_knows_def owner_knows_def split: if_splits)
    next
      case (Slice r st en)
      then show ?thesis using step stay ok(1) by auto
    next
      case (Writing st en ms)
      then show ?thesis using step stay ok(1) by auto
    qed (use other step stay in \<open>auto split: if_splits\<close>)
  qed
qed

lemma call_knows:
  assumes pre: "ord_pre g x s" and R: "released_ok g s h R"
    and ok: "know g x s h K" "owner_knows x s h K"
    and call: "call_step c x s = Some (x', s')"
  shows "step_knows g h x' s' (sync (call_sync c x s) K R)"
  using call
proof (cases rule: call_step_cases)
  case (reserving be n)
  have "knows (K \<union> R FreeGen) h (below g (pos g (free_gen s)))" using R by (auto simp: released_ok_def intro: knows_Un)
  moreover have "\<not> (be \<and> n = 0)" using call reserving by (auto simp: call_step_def split: if_splits)
  ultimately show ?thesis using reserving R by (auto simp: call_sync_def step_knows_def owner_knows_def)
next
  case (written v st en ms)
  have "released_ok g s' h R"
    by (rule released_same [OF R]) (simp_all add: written(5) write_slot_def cap_def cell_at_def)
  then show ?thesis using written ok(1) by (auto simp: call_sync_def step_knows_def owner_knows_def write_slot_def cap_def)
next
  case (published st en ms)
  show ?thesis
  proof (cases "gen_gte_msb_masked st en")
    case True
    then have "s' = s" using published(4) by (auto simp: publish_slots_def)
    then show ?thesis using published True R by (simp add: call_sync_def step_knows_def owner_knows_def)
  next
    case False
    then have s': "s' = s\<lparr>read_gen := en\<rparr>" and st: "read_gen s = st" using published(4) by (auto elim: publish_cases)
    let ?K = "K \<union> R ReadGen"
    have ne: "st \<noteq> en" using False by (auto simp: gen_gte_msb_masked_def)
    then have k: "knows K h (below g (pos g en - cap s))" "knows K h (within g st en)" using ok(1) published(2) by auto
    have "knows (R ReadGen) h (written g (pos g st))" using R st by (simp add: released_ok_def caught_def)
    then have "knows ?K h (written g (pos g en))"
    proof (rule knows_both [OF knows_Un(2) knows_Un(1) [OF k(2)]])
      show "written g (pos g st) e \<or> within g st en e" if "written g (pos g en) e" for e using that by (cases e) auto
    qed
    then have "caught g en s h ?K" using knows_Un(1) [OF k(1)] by (simp add: caught_def)
    then have "released_ok g s' h (R(ReadGen := ?K))" using R
      by (simp add: released_ok_def caught_def cap_def cell_at_def s')
    then show ?thesis using published(1,2,5) False st
      by (simp add: call_sync_def exchange_def step_knows_def owner_knows_def)
  qed
next
  case (publish_fails st en ms e)
  then have "s' = s" "\<not> gen_gte_msb_masked st en" "read_gen s \<noteq> st" by (auto elim: publish_cases)
  then show ?thesis using publish_fails R ok
    by (auto simp: call_sync_def exchange_def step_knows_def owner_knows_def intro: knows_Un)
qed (use stay_knows [OF R ok(2), of x'] R in \<open>auto simp: call_sync_def step_knows_def owner_knows_def\<close>)

section \<open>Accesses\<close>

text \<open>
  A new access is at a position no other thread or atomic has to know about.
\<close>

definition fresh :: "gen \<Rightarrow> 'a area \<Rightarrow> access \<Rightarrow> bool" where
  "fresh g s e \<longleftrightarrow> happened g s e \<and> pos g (free_gen s) \<le> pos g (at e) \<and>
     (case e of
        WriteAt v \<Rightarrow> pos g (read_gen s) \<le> pos g v
      | ReadAt j v \<Rightarrow> pos g (last_valid_gen s) \<le> pos g v \<and> pos g (cell_at j s) \<le> pos g v \<and> \<not> is_suspended (cell_at j s)
      | DropAt v \<Rightarrow> True)"

lemma knows_snoc_miss: "knows K h P \<Longrightarrow> \<not> P e \<Longrightarrow> knows K (h @ [e]) P"
  by (simp add: knows_snoc)

lemma caught_snoc:
  assumes "caught g m s h K" and "fresh g s e" and "ord_inv g s" and "pos g m \<le> pos g (read_gen s)"
  shows "caught g m s (h @ [e]) K"
  using assms by (cases e) (auto simp: caught_def knows_snoc fresh_def below_def ord_inv_def cap_def)

lemma saw_snoc:
  assumes "saw_reads g m j h K" and "fresh g s e" and "pos g m \<le> pos g (cell_at j s)"
  shows "saw_reads g m j (h @ [e]) K"
  using assms by (cases e) (auto simp: saw_reads_def knows_snoc fresh_def below_def)

lemma know_snoc:
  assumes ok: "know g x s h K" and e: "fresh g s e" and ord: "ord_inv g s" and loc: "local_ord g x s"
    and span: "pos g (at e) \<notin> wspan g x" "\<And>v. e = DropAt v \<Longrightarrow> pos g v \<notin> cspan g x"
    and w: "wspan g x \<subseteq> {pos g (read_gen s)..<pos g (write_gen s)}"
  shows "know g x s (h @ [e]) K"
proof -
  note c = caught_snoc [OF _ e ord] and r = saw_snoc [OF _ e]
  have f: "pos g (free_gen s) \<le> pos g (at e)" using e by (simp add: fresh_def)
  have below: "knows L (h @ [e]) (below g n)" if "knows L h (below g n)" "n \<le> pos g (free_gen s)" for L n
    using knows_snoc_miss [OF that(1)] f that(2) by (simp add: below_def)
  have claimed: "knows L (h @ [e]) (within g lv new)"
    if "knows L h (within g lv new)" "cspan g x = {pos g lv..<pos g new}" "pos g new \<le> pos g (last_valid_gen s)" for L lv new
    using knows_snoc_miss [OF that(1), of e] e span that(2,3) ord by (cases e) (auto simp: fresh_def ord_inv_def)
  show ?thesis
  proof (cases x)
    case (Writing st en ms)
    show ?thesis
    proof (cases "st = en")
      case False
      have en: "pos g en - cap s \<le> pos g (free_gen s)" using loc Writing False ord by (auto simp: ord_inv_def cap_def)
      have "\<not> within g st en e" using span(1) by (auto simp: Writing)
      with below [OF _ en] ok False Writing show ?thesis by (auto intro: knows_snoc_miss)
    qed (simp add: Writing)
  next
    case (CleanDrop lv new k)
    then show ?thesis using ok loc c claimed ord by (auto simp: ord_inv_def)
  next
    case (CleanFree lv new)
    then show ?thesis using ok loc claimed by auto
  next
    case (CleanSlot lv m i)
    then show ?thesis using ok loc c r by auto
  next
    case (CleanTurn lv m i rg)
    then show ?thesis using ok loc c r by auto
  next
    case (CleanClaim lv m)
    then show ?thesis using ok loc c r by auto
  next
    case (Slice r st en)
    then show ?thesis using ok loc c by auto
  qed (use ok loc below in auto)
qed

lemma released_snoc:
  assumes "released_ok g s h R" and e: "fresh g s e" and ord: "ord_inv g s"
  shows "released_ok g s (h @ [e]) R"
  unfolding released_ok_def
proof (intro conjI allI impI)
  have r: "knows (R FreeGen) h (below g (pos g (free_gen s)))" "caught g (read_gen s) s h (R ReadGen)"
    using assms(1) by (auto simp: released_ok_def)
  show "knows (R FreeGen) (h @ [e]) (below g (pos g (free_gen s)))"
    using knows_snoc_miss [OF r(1)] e by (simp add: fresh_def below_def)
  show "caught g (read_gen s) s (h @ [e]) (R ReadGen)" using caught_snoc [OF r(2) e ord] by simp
  fix j assume j: "j < length (slots (reader_gens s))"
  have c: "saw_reads g (cell_at j s) j h (R (Cell j))" "is_suspended (cell_at j s) \<Longrightarrow> knows (R (Cell j)) h (read_via j)"
    using assms(1) j by (auto simp: released_ok_def)
  show "saw_reads g (cell_at j s) j (h @ [e]) (R (Cell j))" using saw_snoc [OF c(1) e] by simp
  show "knows (R (Cell j)) (h @ [e]) (read_via j)" if "is_suspended (cell_at j s)"
    using knows_snoc_miss [OF c(2) [OF that], of e] e that by (cases e) (auto simp: fresh_def)
qed

lemma owner_snoc:
  assumes "owner_knows x s h K" and "\<And>r j v. owned x = Some r \<Longrightarrow> e = ReadAt j v \<Longrightarrow> j \<noteq> unat (slot_of r s)"
  shows "owner_knows x s (h @ [e]) K"
  unfolding owner_knows_def
proof (intro allI impI)
  fix r assume r: "owned x = Some r" "\<not> is_suspended (gen_of r s)"
  show "knows K (h @ [e]) (read_via (unat (slot_of r s)))"
    by (rule knows_snoc_miss) (use assms r in \<open>auto simp: owner_knows_def elim!: read_via.elims\<close>)
qed

text \<open>The thread of the access itself has seen it.\<close>

lemma knows_own: "knows K h P \<Longrightarrow> knows (insert (length h) K) (h @ [e]) P"
  by (auto simp: knows_def nth_append less_Suc_eq)

lemma know_own: "know g x s h K \<Longrightarrow> know g x s (h @ [e]) (insert (length h) K)"
  by (cases x) (auto simp: caught_def saw_reads_def intro: knows_own)

lemma owner_own: "owner_knows x s h K \<Longrightarrow> owner_knows x s (h @ [e]) (insert (length h) K)"
  by (auto simp: owner_knows_def intro: knows_own)

text \<open>
  Two accesses to one slot of the ring are at the same position, or the earlier one is at
  least one round behind.
\<close>

lemma same_slot:
  assumes ring: "ring_ok g (cap s)" and win: "window g s"
    and e: "masked (at e)" "pos g (free_gen s) \<le> pos g (at e)" "pos g (at e) < pos g (write_gen s)"
    and e': "masked (at e')" "pos g (at e') < pos g (write_gen s)"
    and eq: "slot_index (at e) s = slot_index (at e') s"
  shows "pos g (at e') = pos g (at e) \<or> pos g (at e') + cap s \<le> pos g (at e)"
proof (rule ccontr)
  assume n: "\<not> ?thesis"
  have "ix g (cap s) (pos g (at e)) \<noteq> ix g (cap s) (pos g (at e'))"
    by (rule ix_inj [OF ring]) (use n e e' win in \<open>auto simp: window_def cap_def\<close>)
  then show False using eq slot_index_at [OF e(1), of s g] slot_index_at [OF e'(1), of s g] by (simp add: cap_def)
qed

lemma happened_masked: "happened g s e \<Longrightarrow> masked (at e)"
  by (cases e) auto

lemma access_seen:
  assumes ring: "ring_ok g (cap s)" and win: "window g s" and ord: "ord_inv g s"
    and hist: "\<And>e. e \<in> set h \<Longrightarrow> happened g s e" and e: "fresh g s e"
    and past: "knows K h (below g (m - cap s))" "pos g (at e) < m" and same: "knows K h P"
    and P: "\<And>e'. e' \<in> set h \<Longrightarrow> pos g (at e') = pos g (at e) \<Longrightarrow> \<not> (reads e \<and> reads e') \<Longrightarrow> P e'"
    and k: "k < length h" "conflict s e (h ! k)"
  shows "k \<in> K"
proof -
  have h: "happened g s (h ! k)" "h ! k \<in> set h" and he: "happened g s e" "pos g (free_gen s) \<le> pos g (at e)"
    using hist k(1) e by (auto simp: fresh_def)
  have "pos g (at (h ! k)) = pos g (at e) \<or> pos g (at (h ! k)) + cap s \<le> pos g (at e)"
    using k(2) by (intro same_slot [OF ring win happened_masked [OF he(1)] he(2) below_write [OF he(1) ord]
      happened_masked [OF h(1)] below_write [OF h(1) ord]]) (simp add: conflict_def)
  then show ?thesis
  proof
    assume "pos g (at (h ! k)) = pos g (at e)"
    with P h(2) k same show ?thesis by (simp add: conflict_def knows_def)
  next
    assume "pos g (at (h ! k)) + cap s \<le> pos g (at e)"
    with past k(1) show ?thesis by (simp add: below_def knows_def)
  qed
qed

section \<open>The invariant\<close>

lemma truncate_simps [simp]:
  "shared (sys.truncate X) = shared X" "threads (sys.truncate X) = threads X" "base (sys.truncate X) = base X"
  "reserved (sys.truncate X) = reserved X" "log (sys.truncate X) = log X"
  by (simp_all add: sys.defs)

lemma put_access_simps [simp]:
  "shared (put_access t a X) = shared X" "threads (put_access t a X) = threads X" "base (put_access t a X) = base X"
  "reserved (put_access t a X) = reserved X" "log (put_access t a X) = log X" "released (put_access t a X) = released X"
  by (cases a; simp)+

definition whole_inv :: "bool \<Rightarrow> 'a rsys \<Rightarrow> bool" where
  "whole_inv nd X \<longleftrightarrow> order_inv (sys.truncate X) \<and> ring_inv nd (sys.truncate X) \<and> race_inv (base X) X"

lemma put_access_inv:
  assumes inv: "race_inv g X" and e: "fresh g (shared X) e" and ord: "ord_inv g (shared X)"
    and loc: "\<And>u. local_ord g (threads X u) (shared X)" and sp: "spans_ok g (shared X) (threads X)"
    and span: "\<And>u. u \<noteq> t \<Longrightarrow> pos g (at e) \<notin> wspan g (threads X u)"
      "\<And>u v. u \<noteq> t \<Longrightarrow> e = DropAt v \<Longrightarrow> pos g v \<notin> cspan g (threads X u)"
    and reader: "\<And>u r j v. u \<noteq> t \<Longrightarrow> owned (threads X u) = Some r \<Longrightarrow> e = ReadAt j v \<Longrightarrow> j \<noteq> unat (slot_of r (shared X))"
    and seen: "\<And>k. k < length (hist X) \<Longrightarrow> conflict (shared X) e (hist X ! k) \<Longrightarrow> k \<in> seen X t"
  shows "race_inv g (put_access t (Some e) X)"
proof -
  let ?X = "put_access t (Some e) X"
  have I: "\<not> race X" "\<forall>e \<in> set (hist X). happened g (shared X) e" "released_ok g (shared X) (hist X) (released X)"
      "\<And>u. know g (threads X u) (shared X) (hist X) (seen X u)"
      "\<And>u. owner_knows (threads X u) (shared X) (hist X) (seen X u)"
    using inv by (auto simp: race_inv_def)
  have "know g (threads X u) (shared X) (hist ?X) (seen ?X u) \<and> owner_knows (threads X u) (shared X) (hist ?X) (seen ?X u)" for u
  proof (cases "u = t")
    case True
    then show ?thesis using know_own [OF I(4)] owner_own [OF I(5)] by simp
  next
    case False
    have "wspan g (threads X u) \<subseteq> {pos g (read_gen (shared X))..<pos g (write_gen (shared X))}"
      using sp by (simp add: spans_ok_def)
    from know_snoc [OF I(4) e ord loc span(1) [OF False] span(2) [OF False] this]
      owner_snoc [OF I(5) reader [OF False]] False show ?thesis by auto
  qed
  moreover have "\<not> race ?X" using I(1) seen by (auto simp: list_ex_iff)
  moreover have "\<forall>e \<in> set (hist ?X). happened g (shared X) e" using I(2) e by (auto simp: fresh_def)
  moreover have "released_ok g (shared X) (hist ?X) (released X)" using released_snoc [OF I(3) e ord] by simp
  ultimately show ?thesis unfolding race_inv_def put_access_simps by blast
qed

text \<open>The three kinds of access.\<close>

lemma whole_facts:
  assumes inv: "whole_inv nd X" and r: "reserved X < 2 ^ 62"
  defines "g \<equiv> base X" and "s \<equiv> shared X"
  shows "race_inv g X" "ord_inv g s" "window g s" "ring_ok g (cap s)" "spans_ok g s (threads X)"
    "\<And>u. local_ord g (threads X u) s" "\<And>u. ord_pre g (threads X u) s" "own_inv (sys.truncate X)"
    "\<And>e. e \<in> set (hist X) \<Longrightarrow> happened g s e"
    "\<And>u. know g (threads X u) s (hist X) (seen X u)" "\<And>u. owner_knows (threads X u) s (hist X) (seen X u)"
    "released_ok g s (hist X) (released X)"
  using inv r order_window [of "sys.truncate X"] order_inv_pre [of "sys.truncate X"]
  by (auto simp: whole_inv_def order_inv_def ring_inv_def ring_at_def race_inv_def g_def s_def cap_def)

lemma write_fresh:
  assumes inv: "whole_inv nd X" and r: "reserved X < 2 ^ 62"
    and x: "threads X t = Writing st en ms" and room: "length ms < unat (gen_dist_msb_masked en st)"
  defines "v \<equiv> gen_add_msb_masked st (of_nat (length ms))"
  shows "fresh (base X) (shared X) (WriteAt v)" and "pos (base X) v \<in> wspan (base X) (threads X t)"
    and "st \<noteq> en"
proof -
  note F = whole_facts [OF inv r]
  let ?g = "base X" and ?s = "shared X"
  show ne: "st \<noteq> en" using room by (auto simp: gen_dist_msb_masked_def)
  then have l: "pos ?g st \<le> pos ?g en" "pos ?g en \<le> pos ?g (write_gen ?s)" using F(6) [of t] x by auto
  then have "pos ?g en < 2 ^ 62" using F(3) by (auto simp: window_def)
  note p = range_pos [OF l(1) this room, folded v_def]
  show span: "pos ?g v \<in> wspan ?g (threads X t)" using p x by simp
  note w = spans_at(1) [OF F(5) span]
  show "fresh ?g ?s (WriteAt v)" using p(3) w F(2) by (auto simp: fresh_def ord_inv_def)
qed

lemma write_inv:
  assumes inv: "whole_inv nd X" and r: "reserved X < 2 ^ 62"
    and x: "threads X t = Writing st en ms" and room: "length ms < unat (gen_dist_msb_masked en st)"
  shows "race_inv (base X) (put_access t (Some (WriteAt (gen_add_msb_masked st (of_nat (length ms))))) X)"
proof -
  note F = whole_facts [OF inv r] and e = write_fresh [OF inv r x room]
  let ?g = "base X" and ?s = "shared X" and ?v = "gen_add_msb_masked st (of_nat (length ms))"
  have k: "knows (seen X t) (hist X) (below ?g (pos ?g en - cap ?s))" "knows (seen X t) (hist X) (within ?g st en)"
    using F(10) [of t] x e(3) by auto
  show ?thesis
  proof (rule put_access_inv [OF F(1) e(1) F(2) F(6) F(5)])
    fix j assume "j < length (hist X)" "conflict ?s (WriteAt ?v) (hist X ! j)"
    from access_seen [OF F(4,3,2,9) e(1) k(1) _ k(2) _ this] show "j \<in> seen X t" using e(2) x by simp
  qed (use span_disjoint(1) [OF F(5) _ e(2)] in auto)
qed

lemma drop_fresh:
  assumes inv: "whole_inv nd X" and r: "reserved X < 2 ^ 62"
    and x: "threads X t = CleanDrop lv new k" and room: "k < unat (gen_dist_msb_masked new lv)"
  defines "v \<equiv> gen_add_msb_masked lv (of_nat k)"
  shows "fresh (base X) (shared X) (DropAt v)" and "pos (base X) v \<in> cspan (base X) (threads X t)"
proof -
  note F = whole_facts [OF inv r]
  let ?g = "base X" and ?s = "shared X"
  have l: "pos ?g lv \<le> pos ?g new" "pos ?g new \<le> pos ?g (last_valid_gen ?s)" using F(6) [of t] x by auto
  then have "pos ?g new < 2 ^ 62" using F(3) by (auto simp: window_def)
  note p = range_pos [OF l(1) this room, folded v_def]
  show span: "pos ?g v \<in> cspan ?g (threads X t)" using p x by simp
  note w = spans_at(2) [OF F(5) span]
  show "fresh ?g ?s (DropAt v)" using p(3) w by (auto simp: fresh_def)
qed

lemma drop_inv:
  assumes inv: "whole_inv nd X" and r: "reserved X < 2 ^ 62"
    and x: "threads X t = CleanDrop lv new k" and room: "k < unat (gen_dist_msb_masked new lv)"
  shows "race_inv (base X) (put_access t (Some (DropAt (gen_add_msb_masked lv (of_nat k)))) X)"
proof -
  note F = whole_facts [OF inv r] and e = drop_fresh [OF inv r x room]
  let ?g = "base X" and ?s = "shared X" and ?v = "gen_add_msb_masked lv (of_nat k)"
  have k: "knows (seen X t) (hist X) (below ?g (pos ?g new - cap ?s))" "knows (seen X t) (hist X) (within ?g lv new)"
    using F(10) [of t] x by (auto simp: caught_def)
  have "pos ?g ?v \<notin> wspan ?g (threads X u)" for u
    using spans_at(2) [OF F(5) e(2)] spans_at(1) [OF F(5), of "pos ?g ?v" u] F(2) by (auto simp: ord_inv_def)
  moreover have "j \<in> seen X t" if "j < length (hist X)" "conflict ?s (DropAt ?v) (hist X ! j)" for j
    using access_seen [OF F(4,3,2,9) e(1) k(1) _ k(2) _ that] e(2) x by simp
  ultimately show ?thesis
    by (intro put_access_inv [OF F(1) e(1) F(2) F(6) F(5)]) (use span_disjoint(2) [OF F(5) _ e(2)] in auto)
qed

lemma look_fresh:
  assumes inv: "whole_inv nd X" and r: "reserved X < 2 ^ 62"
    and x: "threads X t = Slice i st en" and room: "k < unat (gen_dist_msb_masked en st)"
    and active: "\<not> is_suspended (gen_of i (shared X))"
  defines "v \<equiv> gen_add_msb_masked st (of_nat k)" and "j \<equiv> unat (slot_of i (shared X))"
  shows "fresh (base X) (shared X) (ReadAt j v)" and "pos (base X) v < pos (base X) en"
    and "pos (base X) (last_valid_gen (shared X)) \<le> pos (base X) v"
    and "pos (base X) v < pos (base X) (read_gen (shared X))"
proof -
  note F = whole_facts [OF inv r]
  let ?g = "base X" and ?s = "shared X"
  have l: "pos ?g st \<le> pos ?g en" "pos ?g en \<le> pos ?g (read_gen ?s)" using F(6) [of t] x by auto
  then have "pos ?g en < 2 ^ 62" using F(3) by (auto simp: window_def)
  note p = range_pos [OF l(1) this room, folded v_def]
  have own: "own_pre (threads X t) ?s" using F(7) [of t] by (simp add: ord_pre_def)
  have c: "j < length (slots (reader_gens ?s))" "cell_at j ?s = gen_of i ?s"
    using own_cell [OF own, of i] x by (simp_all add: j_def)
  have st: "gen_of i ?s = st" using own x active by (auto simp: own_pre_def)
  have lo: "pos ?g (last_valid_gen ?s) \<le> pos ?g st" using F(2) c st by (auto simp: ord_inv_def)
  show "fresh ?g ?s (ReadAt j v)" using p l lo c st active F(2) by (auto simp: fresh_def ord_inv_def)
  show "pos ?g v < pos ?g en" "pos ?g (last_valid_gen ?s) \<le> pos ?g v" "pos ?g v < pos ?g (read_gen ?s)"
    using p l lo by simp_all
qed

lemma look_inv:
  assumes inv: "whole_inv nd X" and r: "reserved X < 2 ^ 62"
    and x: "threads X t = Slice i st en" and room: "k < unat (gen_dist_msb_masked en st)"
    and active: "\<not> is_suspended (gen_of i (shared X))"
  shows "race_inv (base X) (put_access t
    (Some (ReadAt (unat (slot_of i (shared X))) (gen_add_msb_masked st (of_nat k)))) X)"
proof -
  note F = whole_facts [OF inv r] and e = look_fresh [OF inv r x room active]
  let ?g = "base X" and ?s = "shared X" and ?v = "gen_add_msb_masked st (of_nat k)" and ?j = "unat (slot_of i (shared X))"
  have k: "knows (seen X t) (hist X) (below ?g (pos ?g en - cap ?s))" "knows (seen X t) (hist X) (written ?g (pos ?g en))"
    using F(10) [of t] x active by (auto simp: caught_def)
  have seen: "i \<in> seen X t" if "i < length (hist X)" "conflict ?s (ReadAt ?j ?v) (hist X ! i)" for i
  proof (rule access_seen [OF F(4,3,2,9) e(1) k(1) _ k(2) _ that])
    show "pos ?g (at (ReadAt ?j ?v)) < pos ?g en" using e(2) by simp
    show "written ?g (pos ?g en) e'" if "e' \<in> set (hist X)" "pos ?g (at e') = pos ?g (at (ReadAt ?j ?v))"
      "\<not> (reads (ReadAt ?j ?v) \<and> reads e')" for e'
      using that F(9) [OF that(1)] e(2,3) by (cases e' rule: access.exhaust) auto
  qed
  have "pos ?g ?v \<notin> wspan ?g (threads X u)" for u
    using e(4) spans_at(1) [OF F(5), of "pos ?g ?v" u] by auto
  moreover have "?j \<noteq> unat (slot_of q ?s)" if "u \<noteq> t" "owned (threads X u) = Some q" for u q
  proof -
    have "owned (threads X t) = Some i" using x by simp
    then have "holds q ?s" "holds i ?s" "q \<noteq> i" using F(8) that by (auto simp: own_inv_def)
    from slots_differ [OF this] show ?thesis by (metis word_unat_eq_iff)
  qed
  ultimately show ?thesis using seen by (intro put_access_inv [OF F(1) e(1) F(2) F(6) F(5)]) auto
qed

section \<open>Steps of the system\<close>

text \<open>The step of the machine proper, after the access.\<close>

lemma put_pc_shared [simp]: "shared (put_pc t c X (x', s')) = s'" "base (put_pc t c X (x', s')) = base X"
  "race (put_pc t c X (x', s')) = race X" "hist (put_pc t c X (x', s')) = hist X"
  "seen (put_pc t c X (x', s')) = seen X" "released (put_pc t c X (x', s')) = released X"
  "threads (put_pc t c X (x', s')) = (threads X)(t := x')"
  by simp_all

lemma put_sync_simps [simp]:
  "shared (put_sync t a X) = shared X" "threads (put_sync t a X) = threads X" "base (put_sync t a X) = base X"
  "reserved (put_sync t a X) = reserved X" "log (put_sync t a X) = log X" "race (put_sync t a X) = race X"
  "hist (put_sync t a X) = hist X"
  by (simp_all split: prod.splits)

lemma know_other:
  assumes ok: "know g x s h K" "owner_knows x s h K"
    and "cap s' = cap s" and "length (slots (reader_gens s')) = length (slots (reader_gens s))"
    and own: "\<And>r. owned x = Some r \<Longrightarrow> undisturbed r s s'"
  shows "know g x s' h K \<and> owner_knows x s' h K"
proof
  have c: "caught g m s' h K = caught g m s h K" for m using assms(3) by (simp add: caught_def)
  show "know g x s' h K" using ok(1) assms(3,4) own by (cases x) (auto simp: c undisturbed_def)
  show "owner_knows x s' h K" using ok(2) own by (auto simp: owner_knows_def undisturbed_def)
qed

lemma happened_grows: "happened g s e \<Longrightarrow> grows g s s' \<Longrightarrow> happened g s' e"
  by (cases e) (auto simp: grows_def)

lemma step_seen:
  assumes inv: "race_inv g X" and own: "own_inv (sys.truncate X)"
    and st: "own_step (threads X t) (shared X) (x', s')" and gr: "grows g (shared X) s'"
    and ok: "step_knows g (hist X) x' s' (K, R)"
  shows "race_inv g (put_pc t c (X\<lparr>seen := (seen X)(t := K), released := R\<rparr>) (x', s'))"
proof -
  let ?Y = "X\<lparr>seen := (seen X)(t := K), released := R\<rparr>"
  let ?X = "put_pc t c ?Y (x', s')"
  have X: "seen ?Y = (seen X)(t := K)" "released ?Y = R" by simp_all
  have "know g (threads ?X u) s' (hist X) (seen ?X u) \<and> owner_knows (threads ?X u) s' (hist X) (seen ?X u)" for u
  proof (cases "u = t")
    case True
    then show ?thesis using ok by (simp add: step_knows_def del: put_pc.simps)
  next
    case False
    have "undisturbed r (shared X) s'" if "owned (threads X u) = Some r" for r
    proof -
      have "holds r (shared X)" "owned (threads X t) \<noteq> Some r" using own that False by (auto simp: own_inv_def)
      with st show ?thesis by (simp add: own_step_def)
    qed
    moreover have "know g (threads X u) (shared X) (hist X) (seen X u)"
      "owner_knows (threads X u) (shared X) (hist X) (seen X u)" using inv by (auto simp: race_inv_def)
    ultimately show ?thesis using False gr know_other [of g "threads X u" "shared X" "hist X" "seen X u" s']
      by (simp add: grows_def cap_def del: put_pc.simps)
  qed
  then show ?thesis using inv ok gr
    by (auto simp: race_inv_def step_knows_def intro: happened_grows simp del: put_pc.simps)
qed

lemma step_inv:
  assumes inv: "race_inv g X" and own: "own_inv (sys.truncate X)"
    and st: "own_step (threads X t) (shared X) (x', s')" and gr: "grows g (shared X) s'"
    and ok: "step_knows g (hist X) x' s' (sync a (seen X t) (released X))"
  shows "race_inv g (put_pc t c (put_sync t a X) (x', s'))"
proof -
  obtain K R where KR: "sync a (seen X t) (released X) = (K, R)" by (metis surj_pair)
  show ?thesis using step_seen [OF inv own st gr ok [unfolded KR], of c] KR by (simp del: put_pc.simps)
qed

lemma access_step_inv:
  assumes "whole_inv nd X" and "reserved X < 2 ^ 62" and "step_access nd' (threads X t) = Some e"
  shows "race_inv (base X) (put_access t (Some e) X)"
  using assms(3) drop_inv [OF assms(1,2)] by (cases "threads X t") (auto split: if_splits)

lemma access_call_inv:
  assumes "whole_inv nd X" and "reserved X < 2 ^ 62" and "call_access c (threads X t) = Some e"
    and "call_step c (threads X t) (shared X) = Some y"
  shows "race_inv (base X) (put_access t (Some e) X)"
  using assms(3,4) write_inv [OF assms(1,2)]
  by (auto simp: call_access_def call_step_def split: call.splits pc.splits if_splits)

lemma put_access_whole:
  "whole_inv nd X \<Longrightarrow> (\<And>e. a = Some e \<Longrightarrow> race_inv (base X) (put_access t (Some e) X)) \<Longrightarrow>
   whole_inv nd (put_access t a X)"
proof (cases a)
  case (Some e)
  have t: "sys.truncate (put_access t a X) = sys.truncate X" by (simp add: sys.defs)
  show "whole_inv nd X \<Longrightarrow> (\<And>e. a = Some e \<Longrightarrow> race_inv (base X) (put_access t (Some e) X)) \<Longrightarrow>
    whole_inv nd (put_access t a X)"
    unfolding whole_inv_def t using Some by (simp del: put_access.simps)
qed simp

lemma sys_step:
  "pc_step nd (threads X t) (shared X) = y \<Longrightarrow>
   sys_exec nd (t, None) (sys.truncate X) = Some (sys.truncate (put_pc t None (put_sync t b (put_access t a X)) y))"
  "call_allowed c (sys.truncate X) \<Longrightarrow> call_step c (threads X t) (shared X) = Some y \<Longrightarrow>
   sys_exec nd (t, Some c) (sys.truncate X) = Some (sys.truncate (put_pc t (Some c) (put_sync t b (put_access t a X)) y))"
  by (cases y; cases a; simp add: sys_exec_eq sys.defs split: prod.splits)+

text \<open>The step proper, once its access is recorded.\<close>

lemma advance_inv:
  assumes inv: "whole_inv nd X" and r: "reserved X < 2 ^ 62" and Y: "whole_inv nd Y" "Y = put_access t acc X"
    and sys: "sys_exec nd (t, c) (sys.truncate X) = Some (sys.truncate X')"
    and X': "X' = put_pc t c (put_sync t b Y) (x', s')"
    and st: "own_pre (threads X t) (shared X) \<Longrightarrow> own_step (threads X t) (shared X) (x', s')"
    and ok: "step_knows (base X) (hist Y) x' s' (sync b (seen Y t) (released Y))"
  shows "whole_inv nd X' \<and> base X' = base X"
proof -
  note F = whole_facts [OF inv r]
  have ord: "order_inv (sys.truncate X)" and ring: "ring_inv nd (sys.truncate X)" using inv by (auto simp: whole_inv_def)
  note o = order_step [OF ord _ sys] and ri = ring_step [OF ord _ ring sys]
  have Y': "shared Y = shared X" "threads Y = threads X" "base Y = base X" "sys.truncate Y = sys.truncate X"
    using Y(2) by (simp_all add: sys.defs)
  have "race_inv (base X) X'" unfolding X'
  proof (rule step_inv)
    show "race_inv (base X) Y" using Y(1) Y' by (simp add: whole_inv_def)
    show "own_inv (sys.truncate Y)" using F(8) Y' by simp
    show "own_step (threads Y t) (shared Y) (x', s')" using F(7) [of t] st by (simp add: Y' ord_pre_def)
    show "grows (base X) (shared Y) s'" using o r by (simp add: Y' X' del: put_pc.simps put_sync.simps)
  qed (rule ok)
  moreover have "base X' = base X" using o r by simp
  ultimately show ?thesis using o ri r by (simp add: whole_inv_def)
qed

lemma whole_step:
  assumes inv: "whole_inv nd X" and r: "reserved X < 2 ^ 62" and look: "looks_ok e X"
    and exec: "race_exec nd e X = Some X'"
  shows "whole_inv nd X' \<and> base X' = base X"
proof -
  obtain t a where e: "e = (t, a)" by (cases e)
  show ?thesis
  proof (cases a)
    case Step
    obtain x' s' where y: "pc_step nd (threads X t) (shared X) = (x', s')" by (metis surj_pair)
    let ?acc = "step_access nd (threads X t)" and ?b = "step_sync (threads X t) (shared X)"
    let ?Y = "put_access t ?acc X"
    have X': "X' = put_pc t None (put_sync t ?b ?Y) (x', s')" using exec e Step y
      by (simp del: put_pc.simps put_sync.simps put_access.simps)
    have Y: "whole_inv nd ?Y" by (rule put_access_whole [OF inv access_step_inv [OF inv r]])
    note G = whole_facts [OF Y, simplified put_access_simps, OF r]
    show ?thesis
    proof (rule advance_inv [OF inv r Y refl _ X'])
      show "sys_exec nd (t, None) (sys.truncate X) = Some (sys.truncate X')" unfolding X' by (rule sys_step(1) [OF y])
      show "own_step (threads X t) (shared X) (x', s')" if "own_pre (threads X t) (shared X)"
        using pc_step_own [OF that, of nd] y by simp
      show "step_knows (base X) (hist ?Y) x' s' (sync ?b (seen ?Y t) (released ?Y))"
        using pc_step_knows [OF G(7) G(12) G(10) G(11) G(9) y] by simp
    qed
  next
    case (Call c)
    then obtain x' s' where y: "call_step c (threads X t) (shared X) = Some (x', s')" and al: "call_allowed c (sys.truncate X)"
      using exec e by (auto split: if_splits)
    let ?acc = "call_access c (threads X t)" and ?b = "call_sync c (threads X t) (shared X)"
    let ?Y = "put_access t ?acc X"
    have X': "X' = put_pc t (Some c) (put_sync t ?b ?Y) (x', s')" using exec e Call y al
      by (simp del: put_pc.simps put_sync.simps put_access.simps)
    have Y: "whole_inv nd ?Y" by (rule put_access_whole [OF inv access_call_inv [OF inv r _ y]])
    note G = whole_facts [OF Y, simplified put_access_simps, OF r]
    show ?thesis
    proof (rule advance_inv [OF inv r Y refl _ X'])
      show "sys_exec nd (t, Some c) (sys.truncate X) = Some (sys.truncate X')" unfolding X' by (rule sys_step(2) [OF al y])
      show "own_step (threads X t) (shared X) (x', s')" if "own_pre (threads X t) (shared X)"
        using own_step_call [OF that y] .
      show "step_knows (base X) (hist ?Y) x' s' (sync ?b (seen ?Y t) (released ?Y))"
        using call_knows [OF G(7) G(12) G(10) G(11) y] by simp
    qed
  next
    case (Look k)
    then obtain acc where l: "look k (threads X t) (shared X) = Some acc" and X': "X' = put_access t (Some acc) X"
      using exec e by (auto split: option.splits)
    obtain i st en where x: "threads X t = Slice i st en" using l by (cases "threads X t") (auto simp: look_def)
    have "race_inv (base X) (put_access t (Some acc) X)"
      using look_inv [OF inv r x] l look e Look by (auto simp: look_def x split: if_splits)
    then have "whole_inv nd X'" unfolding X' by (intro put_access_whole [OF inv]) simp
    then show ?thesis by (simp add: X')
  qed
qed

section \<open>No races\<close>

lemma put_pc_reserved: "reserved X \<le> reserved (put_pc t c X y)"
  by (cases y) simp

lemma act_reserved: "reserved X \<le> reserved (put_pc t c (put_sync t b (put_access t d X)) y)"
  using put_pc_reserved [of "put_sync t b (put_access t d X)" t c y] by (simp del: put_pc.simps put_sync.simps)

lemma race_reserved: "race_exec nd (t, a) X = Some X' \<Longrightarrow> reserved X \<le> reserved X'"
  by (cases a) (auto simp: act_reserved simp del: put_pc.simps put_sync.simps put_access.simps
      split: if_splits option.splits)

lemma whole_run:
  assumes "whole_inv nd X" and "race_run nd es X = Some X'" and "active_looks nd es X" and "reserved X' < 2 ^ 62"
  shows "whole_inv nd X' \<and> reserved X \<le> reserved X'"
  using assms
proof (induction es arbitrary: X)
  case (Cons e es)
  then obtain Y where Y: "race_exec nd e X = Some Y" "race_run nd es Y = Some X'" "looks_ok e X" "active_looks nd es Y"
    by (auto split: option.splits)
  obtain t a where e: "e = (t, a)" by (cases e)
  note grow = race_reserved [OF Y(1) [unfolded e]]
  have le: "reserved Y \<le> reserved X'" using Cons.prems(4) Y(2)
  proof (induction es arbitrary: Y)
    case (Cons d es)
    then show ?case by (cases d) (auto split: option.splits dest!: race_reserved intro: le_trans)
  qed simp
  have "reserved X < 2 ^ 62" using grow le Cons.prems(4) by linarith
  then have "whole_inv nd Y" using whole_step [OF Cons.prems(1) _ Y(3,1)] by simp
  from Cons.IH [OF this Y(2,4) Cons.prems(4)] grow show ?case by auto
qed simp

lemma truncate_start: "sys.truncate (race_start g bc rc) = start_at g bc rc"
  by (simp add: race_start_def sys.defs start_at_def)

lemma base_start [simp]: "base (race_start g bc rc) = g"
  by (simp add: race_start_def sys.defs start_at_def)

lemma whole_start: "start_ok g bc rc \<Longrightarrow> ring_ok g (unat bc) \<Longrightarrow> whole_inv nd (race_start g bc rc)"
  by (simp add: whole_inv_def truncate_start order_inv_start ring_inv_start race_inv_start)

text \<open>The accesses and the knowledge are bookkeeping: the machine below them is that of \<open>Machine\<close>.\<close>

lemma race_run_reachable:
  "race_run nd es X = Some X' \<Longrightarrow> reachable nd S0 (sys.truncate X) \<Longrightarrow> reachable nd S0 (sys.truncate X')"
proof (induction es arbitrary: X)
  case (Cons e es)
  then obtain Y where Y: "race_exec nd e X = Some Y" "race_run nd es Y = Some X'" by (auto split: option.splits)
  obtain t a where e: "e = (t, a)" by (cases e)
  have "reachable nd S0 (sys.truncate Y)"
  proof (cases a)
    case Step
    then have "sys_exec nd (t, None) (sys.truncate X) = Some (sys.truncate Y)"
      using Y(1) e sys_step(1) [OF refl] by (auto simp del: put_pc.simps put_sync.simps put_access.simps)
    with Cons.prems(2) show ?thesis by (rule reachable.step)
  next
    case (Call c)
    then have "sys_exec nd (t, Some c) (sys.truncate X) = Some (sys.truncate Y)"
      using Y(1) e sys_step(2) by (auto simp del: put_pc.simps put_sync.simps put_access.simps split: if_splits)
    with Cons.prems(2) show ?thesis by (rule reachable.step)
  next
    case (Look k)
    then have "sys.truncate Y = sys.truncate X" using Y(1) e by (auto simp: sys.defs split: option.splits)
    with Cons.prems(2) show ?thesis by simp
  qed
  from Cons.IH [OF Y(2) this] show ?case .
qed simp

text \<open>
  The orderings of the atomics are strong enough: under every interleaving of writers,
  readers and cleanups, with slices looked at only while their readers are active, any two
  accesses to a slot of the ring of which one writes or drops a message are ordered by
  the release and acquire operations of the source.  There is no data race.
\<close>
theorem no_data_races:
  assumes "start_ok g bc rc" and "ring_ok g (unat bc)"
    and "race_run nd es (race_start g bc rc) = Some X" and "active_looks nd es (race_start g bc rc)"
    and "reserved X < 2 ^ 62"
  shows "\<not> race X \<and> reachable nd (start_at g bc rc) (sys.truncate X)"
proof -
  have "whole_inv nd X" using whole_run [OF whole_start [OF assms(1,2)] assms(3,4,5)] by simp
  moreover have "reachable nd (start_at g bc rc) (sys.truncate X)"
    by (rule race_run_reachable [OF assms(3), unfolded truncate_start, OF reachable.start])
  ultimately show ?thesis by (simp add: whole_inv_def race_inv_def)
qed

text \<open>
  One slot: a message is written, read, dropped by a cleanup of another thread, and its slot
  written again by a third.
\<close>

definition run_steps :: "nat \<Rightarrow> nat \<Rightarrow> (nat \<times> 'a act) list" where
  "run_steps t n = replicate n (t, Step)"

definition demo_slot :: "(nat \<times> nat act) list" where
  "demo_slot = [(1, Call (Register 1))] @ run_steps 1 5 @
     [(0, Call (Reserve False 1))] @ run_steps 0 2 @ [(0, Call (Write 7)), (0, Call Publish),
      (1, Call (Operate GetGen))] @ run_steps 1 4 @ [(1, Look 0), (1, Call (EndSlice True))] @ run_steps 1 6 @
     [(2, Call Cleanup)] @ run_steps 2 8 @
     [(3, Call (Reserve False 1))] @ run_steps 3 2 @ [(3, Call (Write 8))]"

lemma no_data_races_witness:
  "\<exists>X. race_run True demo_slot (race_start 0 1 1) = Some X \<and>
     hist X = [WriteAt 0, ReadAt 0 0, DropAt 0, WriteAt 1] \<and> \<not> race X"
proof -
  have "case race_run True demo_slot (race_start 0 1 1) of
      Some X \<Rightarrow> hist X = [WriteAt 0, ReadAt 0 0, DropAt 0, WriteAt 1] \<and> reserved X = 2 | None \<Rightarrow> False"
    by code_simp
  then obtain X where X: "race_run True demo_slot (race_start 0 1 1) = Some X"
      "hist X = [WriteAt 0, ReadAt 0 0, DropAt 0, WriteAt 1]" "reserved X = 2" by (auto split: option.splits)
  have "active_looks True demo_slot (race_start 0 1 1)" "start_ok 0 1 1" by (code_simp, simp add: start_ok_def, code_simp)
  moreover have "ring_ok 0 (unat (1 :: usize))" by (simp add: ring_ok_def)
  ultimately show ?thesis using no_data_races [of 0 1 1 True demo_slot X] X by simp
qed

text \<open>
  A slice taken by a suspended reader is another matter: a cleanup passes the reader and drops
  the message while the reader looks at it.
\<close>

definition demo_race :: "(nat \<times> nat act) list" where
  "demo_race = [(1, Call (Register 1))] @ run_steps 1 5 @ [(1, Call (Operate Suspend))] @ run_steps 1 3 @
     [(0, Call (Reserve False 1))] @ run_steps 0 2 @ [(0, Call (Write 7)), (0, Call Publish),
      (1, Call (Operate GetGen))] @ run_steps 1 4 @ [(2, Call Cleanup)] @ run_steps 2 6 @ [(1, Look 0)]"

lemma suspended_looks_race:
  "\<not> active_looks True demo_race (race_start 0 1 1)"
  "\<exists>X. race_run True demo_race (race_start 0 1 1) = Some X \<and> race X"
proof -
  show "\<not> active_looks True demo_race (race_start 0 1 1)" by code_simp
  have "case race_run True demo_race (race_start 0 1 1) of Some X \<Rightarrow> race X | None \<Rightarrow> False" by code_simp
  then show "\<exists>X. race_run True demo_race (race_start 0 1 1) = Some X \<and> race X" by (auto split: option.splits)
qed

end
