(* ===== verification/Weak_Memory.thy ===== *)
theory Weak_Memory
  imports Machine_Races
begin

text \<open>
  The machine over a memory that keeps old values.  Every atomic is the list of the messages
  stored to it, in the order of the stores; a message holds its value, the accesses it releases,
  and for every atomic the position its writer had seen.  A thread has a view, the position from
  which on it may read at every atomic.  A load finds any message from its view on, a
  compare-and-exchange that succeeds takes the last one and adds its own, one that fails is a
  load of another value; what they find moves the view up to that of the message.  This is the
  release and acquire fragment of the memory model that Rust shares with C and C++: all accesses
  of the machine to its atomics are \<open>Acquire\<close> loads, \<open>Release\<close> stores and exchanges that are both.

  New messages come last, which loses no behaviour.  The counters and the keys are only
  exchanged, and an exchange comes right after the message it took.  A plain store goes to
  the private generation of an active reader, by its owner, whose view is at the last message
  (\<open>owner_at_last\<close> in \<open>Weak_Safety\<close>); and it follows an active value, which no exchange expects.

  The slots of the ring are no atomics; that their reads are not stale is that there are no races.
\<close>

section \<open>Messages\<close>

fun value_at :: "loc \<Rightarrow> 'a area \<Rightarrow> gen" where
  "value_at WriteGen s = write_gen s"
| "value_at ReadGen s = read_gen s"
| "value_at LastValidGen s = last_valid_gen s"
| "value_at FreeGen s = free_gen s"
| "value_at (Cell j) s = cell (slots (reader_gens s) ! j)"
| "value_at (Key j) s = key (slots (reader_gens s) ! j)"

text \<open>The area a load finds when the atomic \<open>l\<close> shows it the value \<open>v\<close>.\<close>

fun with_value :: "loc \<Rightarrow> gen \<Rightarrow> 'a area \<Rightarrow> 'a area" where
  "with_value WriteGen v s = s\<lparr>write_gen := v\<rparr>"
| "with_value ReadGen v s = s\<lparr>read_gen := v\<rparr>"
| "with_value LastValidGen v s = s\<lparr>last_valid_gen := v\<rparr>"
| "with_value FreeGen v s = s\<lparr>free_gen := v\<rparr>"
| "with_value (Cell j) v s = store_gen (of_nat j) v s"
| "with_value (Key j) v s = s\<lparr>reader_gens := store_key (of_nat j) v (reader_gens s)\<rparr>"

record message =
  content :: gen
  carried :: "nat set"
  sees :: "loc \<Rightarrow> nat"

record 'a wsys =
  core :: "'a rsys"
  msgs :: "loc \<Rightarrow> message list"
  view :: "nat \<Rightarrow> loc \<Rightarrow> nat"

definition join :: "(loc \<Rightarrow> nat) \<Rightarrow> (loc \<Rightarrow> nat) \<Rightarrow> loc \<Rightarrow> nat" where
  "join V V' = (\<lambda>l. max (V l) (V' l))"

section \<open>Steps\<close>

fun act_sync :: "'a act \<Rightarrow> 'a pc \<Rightarrow> 'a area \<Rightarrow> atomic option" where
  "act_sync Step x s = step_sync x s"
| "act_sync (Call c) x s = call_sync c x s"
| "act_sync (Look k) x s = None"

fun act_result :: "bool \<Rightarrow> 'a act \<Rightarrow> 'a pc \<Rightarrow> 'a area \<Rightarrow> ('a pc \<times> 'a area) option" where
  "act_result nd Step x s = Some (pc_step nd x s)"
| "act_result nd (Call c) x s = call_step c x s"
| "act_result nd (Look k) x s = None"

fun act_call :: "'a act \<Rightarrow> 'a call option" where
  "act_call (Call c) = Some c"
| "act_call a = None"

text \<open>
  A caller of \<open>resume_at\<close> knows that the generation is published: its thread has seen a value
  of \<open>read_gen\<close> that reaches it.
\<close>

fun act_allowed :: "'a act \<Rightarrow> nat \<Rightarrow> 'a wsys \<Rightarrow> bool" where
  "act_allowed (Call (Operate (ResumeAt g))) t W \<longleftrightarrow>
     pos (base (core W)) g \<le> pos (base (core W)) (content (msgs W ReadGen ! view W t ReadGen))"
| "act_allowed a t W \<longleftrightarrow> True"

text \<open>The message a store leaves; \<open>V\<close> is what its thread sees.\<close>

definition leave :: "nat \<Rightarrow> loc \<Rightarrow> (loc \<Rightarrow> nat) \<Rightarrow> 'a rsys \<Rightarrow> 'a wsys \<Rightarrow> 'a wsys" where
  "leave t l V X W =
     (let V' = V(l := length (msgs W l)) in
      W\<lparr>core := X,
        msgs := (msgs W)(l := msgs W l @ [\<lparr>content = value_at l (shared X), carried = released X l, sees = V'\<rparr>]),
        view := (view W)(t := V')\<rparr>)"

fun weak_store :: "nat \<Rightarrow> atomic option \<Rightarrow> 'a rsys \<Rightarrow> 'a wsys \<Rightarrow> 'a wsys option" where
  "weak_store t None X W = Some (W\<lparr>core := X\<rparr>)"
| "weak_store t (Some (Release l)) X W = Some (leave t l (view W t) X W)"
| "weak_store t (Some (AcqRel l)) X W = Some (leave t l (join (view W t) (sees (last (msgs W l)))) X W)"
| "weak_store t (Some (Acquire l)) X W = None"

text \<open>What a load that finds the message \<open>m\<close> does to its thread.\<close>

fun weak_load :: "nat \<Rightarrow> 'a call option \<Rightarrow> message \<Rightarrow> 'a pc \<Rightarrow> 'a wsys \<Rightarrow> 'a wsys" where
  "weak_load t c m x' W =
     W\<lparr>core := put_pc t c ((core W)\<lparr>seen := (seen (core W))(t := seen (core W) t \<union> carried m)\<rparr>)
                 (x', shared (core W)),
       view := (view W)(t := join (view W t) (sees m))\<rparr>"

text \<open>
  An action of a thread: with \<open>Some (l, k)\<close> its atomic access only loads, at \<open>l\<close>, and
  finds the message \<open>k\<close>; with \<open>None\<close> it stores, or there is no atomic access.
\<close>

fun weak_exec :: "bool \<Rightarrow> nat \<times> 'a act \<times> (loc \<times> nat) option \<Rightarrow> 'a wsys \<Rightarrow> 'a wsys option" where
  "weak_exec nd (t, a, None) W =
     (if act_allowed a t W
      then (case race_exec nd (t, a) (core W) of
              None \<Rightarrow> None
            | Some X \<Rightarrow> weak_store t (act_sync a (threads (core W) t) (shared (core W))) X W)
      else None)"
| "weak_exec nd (t, a, Some (l, k)) W =
     (let s = with_value l (content (msgs W l ! k)) (shared (core W)) in
      if k < length (msgs W l) \<and> view W t l \<le> k \<and> act_sync a (threads (core W) t) s = Some (Acquire l)
      then map_option (\<lambda>y. weak_load t (act_call a) (msgs W l ! k) (fst y) W)
             (act_result nd a (threads (core W) t) s)
      else None)"

fun weak_run :: "bool \<Rightarrow> (nat \<times> 'a act \<times> (loc \<times> nat) option) list \<Rightarrow> 'a wsys \<Rightarrow> 'a wsys option" where
  "weak_run nd [] W = Some W"
| "weak_run nd (e # es) W = (case weak_exec nd e W of None \<Rightarrow> None | Some W' \<Rightarrow> weak_run nd es W')"

definition weak_start :: "gen \<Rightarrow> usize \<Rightarrow> usize \<Rightarrow> 'a wsys" where
  "weak_start g bc rc =
     \<lparr>core = race_start g bc rc,
      msgs = (\<lambda>l. [\<lparr>content = value_at l (area_at g bc rc :: 'a area), carried = {}, sees = (\<lambda>_. 0)\<rparr>]),
      view = (\<lambda>_ _. 0)\<rparr>"

text \<open>Slices are looked at while their readers are active.\<close>

fun weak_looks :: "bool \<Rightarrow> (nat \<times> 'a act \<times> (loc \<times> nat) option) list \<Rightarrow> 'a wsys \<Rightarrow> bool" where
  "weak_looks nd [] W \<longleftrightarrow> True"
| "weak_looks nd (e # es) W \<longleftrightarrow>
     looks_ok (fst e, fst (snd e)) (core W) \<and>
     (case weak_exec nd e W of None \<Rightarrow> True | Some W' \<Rightarrow> weak_looks nd es W')"

end
