(* ===== verification/Weak_Order.thy ===== *)
theory Weak_Order
  imports Weak_Memory
begin

text \<open>
  The invariant of the machine with old values.  The shared area holds the last values, and for
  it the invariants of the other machines are kept: a load that finds an old value leads to local
  variables that are still in order (\<open>finds_own\<close>, \<open>finds_ord\<close>, \<open>finds_know\<close>).  That needs
  three facts on messages and views: the values of an atomic rise; what a thread has seen of
  one counter is in order with what it has seen of the others (\<open>ordered\<close>); and an owner is up to
  date with the cell of its reader (\<open>owners_ok\<close>), which a new owner is by the key it claimed
  (\<open>free_ok\<close>).
\<close>

section \<open>What a load can find\<close>

text \<open>
  \<open>finds s x l v x'\<close>: a thread at \<open>x\<close> whose atomic access is a load of \<open>l\<close>, or a
  compare-and-exchange there that fails, goes to \<open>x'\<close> when it finds the value \<open>v\<close>.
\<close>

inductive finds :: "'a area \<Rightarrow> 'a pc \<Rightarrow> loc \<Rightarrow> gen \<Rightarrow> 'a pc \<Rightarrow> bool" for s where
  reserve: "finds s Idle FreeGen v (ReserveLoad be n v)"
| cleanup: "finds s Idle LastValidGen v (CleanLoad v)"
| publish_fails: "finds s (Writing st en ms) ReadGen v (Writing st en ms)"
| reserve_load: "finds s (ReserveLoad be n cf) WriteGen v (ReserveGrab be n cf v)"
| grab_fails: "finds s (ReserveGrab be n cf cw) WriteGen v Idle"
| clean_done: "finds s (CleanLoad lv) ReadGen v Idle"
| clean_load: "finds s (CleanLoad lv) ReadGen v (CleanSlot lv v 0)"
| clean_slot: "i < length (slots (reader_gens s)) \<Longrightarrow> finds s (CleanSlot lv m i) (Cell i) v (CleanTurn lv m i v)"
| clean_turn: "finds s (CleanTurn lv m i rg) (Cell i) v (CleanTurn lv m i v)"
| claim_again: "finds s (CleanClaim lv new) LastValidGen v (CleanClaim v new)"
| free_again: "finds s (CleanFree lv new) FreeGen v (CleanFree lv new)"
| probe: "i < capacity (reader_gens s) \<Longrightarrow> finds s (Probe ky i idx) (Key (unat idx)) v (ProbeCas ky i idx v)"
| probe_next: "finds s (ProbeCas ky i idx k) (Key (unat idx)) v (Probe ky (i + 1) (next_index idx (reader_gens s)))"
| finish: "finds s (Finish r p) (Key (unat p)) v (EnterLoad r p)"
| enter_load: "finds s (EnterLoad r p) (Cell (unat p)) v (EnterCas r p v)"
| enter_again: "finds s (EnterCas r p c) (Cell (unat p)) v (EnterLoad r p)"
| lookup: "finds s (OpLookup r oper) (Key (unat (slot_of r s))) v (OpLoad r (slot_of r s) oper)"
| lookup_panics: "finds s (OpLookup r oper) (Key (unat (slot_of r s))) v Panicked"
| lookup_fails: "finds s (OpLookup r oper) (Key (unat (slot_of r s))) v (Reader r)"
| op_load: "finds s (OpLoad r p oper) (Cell (unat p)) v (OpAct r p v oper)"
| op_again: "finds s (OpAct r p c oper) (Cell (unat p)) v (OpLoad r p oper)"
| remove_load: "finds s (RemoveLoad r) (Key (unat (slot_of r s))) v (RemoveCas r v)"
| remove_fails: "finds s (RemoveCas r k) (Key (unat (slot_of r s))) v Idle"
| read_end: "finds s (ReadEnd r st) ReadGen v (Slice r st v)"

inductive_cases findsE: "finds s x l v x'"

definition in_range :: "nat \<Rightarrow> loc \<Rightarrow> bool" where
  "in_range n l \<longleftrightarrow> (case l of Cell j \<Rightarrow> j < n | Key j \<Rightarrow> j < n | _ \<Rightarrow> True)"

text \<open>The atomics that hold generations, which only grow.\<close>

definition rises :: "nat \<Rightarrow> loc \<Rightarrow> bool" where
  "rises n l \<longleftrightarrow> (case l of Cell j \<Rightarrow> j < n | Key j \<Rightarrow> False | _ \<Rightarrow> True)"

lemma with_value_table [simp]:
  "mask_of (reader_gens (with_value l v s)) = mask_of (reader_gens s)"
  "length (slots (reader_gens (with_value l v s))) = length (slots (reader_gens s))"
  "buffer_capacity (with_value l v s) = buffer_capacity s"
  by (cases l; simp add: store_gen_def store_cell_def store_key_def)+

lemma with_value_cell: "unat p < length (slots (reader_gens s)) \<Longrightarrow> load_gen p (with_value (Cell (unat p)) v s) = v"
  by (simp add: load_store_gen)

lemma with_value_key:
  "unat p < length (slots (reader_gens s)) \<Longrightarrow> load_key p (reader_gens (with_value (Key (unat p)) v s)) = v"
  by (simp add: load_store_key)

lemma index_slot: "index_for r ZERO_OFFSET (reader_gens s) = slot_of r s" "index_for r 0 (reader_gens s) = slot_of r s"
  by (simp_all add: index_for_def slot_of_def)

lemma slot_of_with [simp]: "slot_of r (with_value l v s) = slot_of r s"
  by (simp add: slot_of_def)

lemma exchange_Acquire: "exchange l b = Acquire l' \<longleftrightarrow> l' = l \<and> \<not> b"
  by (auto simp: exchange_def)

lemma ptr_slot: "get_reader_ptr r s = None \<or> get_reader_ptr r s = Some (slot_of r s)"
  by (auto simp: get_reader_ptr_find find_id_eq slot_of_def Let_def)

lemma finds_step:
  assumes own: "own_pre x s" and sync: "step_sync x (with_value l v s) = Some (Acquire l)"
    and step: "pc_step nd x (with_value l v s) = (x', s')"
  shows "finds s x l v x'"
proof (cases x)
  case (ReserveLoad be n cf)
  then show ?thesis using sync step by (auto intro: finds.intros)
next
  case (ReserveGrab be n cf cw)
  then have l: "l = WriteGen" "v \<noteq> cw" using sync by (auto simp: Let_def exchange_Acquire split: if_splits)
  from step ReserveGrab have "x' = Idle"
    using sync by (auto simp: l best_effort_from_def reserve_from_def grab_Cas Let_def split: if_splits)
  then show ?thesis using l ReserveGrab by (auto intro: finds.intros)
next
  case (CleanLoad lv)
  then show ?thesis using sync step by (auto intro: finds.intros split: if_splits)
next
  case (CleanSlot lv m i)
  then have i: "i < length (slots (reader_gens s))" and l: "l = Cell i"
    using sync by (auto simp: raw_slots_def split: if_splits)
  have "unat (of_nat i :: usize) = i" using own i by (rule unat_nat_slot)
  then have "load_gen (of_nat i) (with_value (Cell i) v s) = v" using i by (simp add: load_store_gen)
  then show ?thesis using step i l CleanSlot by (auto simp: raw_slots_def intro: finds.intros)
next
  case (CleanTurn lv m i rg)
  then have i: "i < length (slots (reader_gens s))" using own by (auto simp: own_pre_def)
  have "unat (of_nat i :: usize) = i" using own i by (rule unat_nat_slot)
  then have "load_gen (of_nat i) (with_value (Cell i) v s) = v" using i by (simp add: load_store_gen)
  then show ?thesis using step sync CleanTurn
    by (auto simp: scan_turn_def cas_gen_miss exchange_Acquire intro: finds.intros split: if_splits)
next
  case (CleanClaim lv new)
  then show ?thesis using sync step
    by (auto simp: claim_turn_def exchange_Acquire intro: finds.intros split: if_splits)
next
  case (CleanFree lv new)
  then show ?thesis using sync step
    by (auto simp: free_turn_def exchange_Acquire intro: finds.intros split: if_splits)
next
  case (Probe ky i idx)
  then have l: "l = Key (unat idx)" "i < capacity (reader_gens s)"
    using sync by (auto simp: capacity_def split: if_splits)
  then have i: "unat i < length (slots (reader_gens s))"
    using length_slots [of "reader_gens s"] pre_inv [OF own] by (simp add: map_inv_def word_less_nat_alt)
  have "idx = (ky + i) AND mask_of (reader_gens s)" using own Probe by (simp add: own_pre_def)
  then have "unat idx < length (slots (reader_gens s))" using pre_inv [OF own] by (simp add: map_inv_def index_less)
  then have "load_key idx (reader_gens (with_value (Key (unat idx)) v s)) = v" by (rule with_value_key)
  then show ?thesis using step Probe l by (auto simp: capacity_def intro: finds.intros)
next
  case (ProbeCas ky i idx k)
  then have l: "l = Key (unat idx)" "k = EMPTY" "load_key idx (reader_gens (with_value l v s)) \<noteq> k"
    using sync by (auto simp: exchange_Acquire split: if_splits)
  then have "x' = Probe ky (i + 1) (next_index idx (reader_gens s))" using step ProbeCas
    by (auto simp: goi_turn_def Let_def compare_exchange_def next_index_def)
  then show ?thesis using l ProbeCas by (auto intro: finds.intros)
next
  case (Finish r p)
  then show ?thesis using sync step by (auto simp: exchange_Acquire intro: finds.intros)
next
  case (EnterLoad r p)
  then have "unat p < length (slots (reader_gens s))" using own pre_slot [OF own, of r] by (auto simp: own_pre_def)
  then show ?thesis using sync step EnterLoad with_value_cell [of p s v] by (auto intro: finds.intros)
next
  case (EnterCas r p c)
  then show ?thesis using sync step
    by (auto simp: enter_turn_def exchange_Acquire cas_gen_miss intro: finds.intros)
next
  case (OpLookup r oper)
  then have l: "l = Key (unat (slot_of r s))" using sync index_slot(1) [of r "with_value l v s"] by simp
  from ptr_slot [of r "with_value l v s"] show ?thesis
  proof
    assume "get_reader_ptr r (with_value l v s) = None"
    then have "x' = Panicked \<or> x' = Reader r" using step OpLookup by (auto split: reader_op.splits)
    then show ?thesis using OpLookup l by (auto intro: finds.intros)
  next
    assume "get_reader_ptr r (with_value l v s) = Some (slot_of r (with_value l v s))"
    then have "x' = OpLoad r (slot_of r s) oper" using step OpLookup unfolding slot_of_with by simp
    then show ?thesis using OpLookup l by (auto intro: finds.intros)
  qed
next
  case (OpLoad r p oper)
  then have "unat p < length (slots (reader_gens s))" using own pre_slot [OF own, of r] by (auto simp: own_pre_def)
  then show ?thesis using sync step OpLoad with_value_cell [of p s v] by (auto intro: finds.intros)
next
  case (OpAct r p c oper)
  then show ?thesis using sync step
    by (cases oper) (auto simp: resume_turn_def resume_at_turn_def exchange_Acquire cas_gen_miss
        intro: finds.intros split: if_splits)
next
  case (RemoveLoad r)
  then have "unat (slot_of r s) < length (slots (reader_gens s))" using pre_slot [OF own] by simp
  moreover have "l = Key (unat (slot_of r s))"
    using sync RemoveLoad index_slot(1) [of r "with_value l v s"] by simp
  moreover have "x' = RemoveCas r (load_key (slot_of r s) (reader_gens (with_value l v s)))"
    using step unfolding RemoveLoad pc_step.simps index_slot slot_of_with by blast
  ultimately have "x' = RemoveCas r v" using with_value_key by simp
  then show ?thesis using RemoveLoad \<open>l = _\<close> by (auto intro: finds.intros)
next
  case (RemoveCas r k)
  then have "l = Key (unat (slot_of r s))" "x' = Idle"
    using sync step index_slot(1) [of r "with_value l v s"]
    by (auto simp: exchange_Acquire Let_def split: if_splits)
  then show ?thesis using RemoveCas by (auto intro: finds.intros)
next
  case (ReadEnd r st)
  then show ?thesis using sync step by (auto intro: finds.intros)
qed (use sync in simp_all)

lemma finds_call:
  assumes sync: "call_sync c x (with_value l v s) = Some (Acquire l)"
    and call: "call_step c x (with_value l v s) = Some (x', s')"
  shows "finds s x l v x'"
  using call
proof (cases rule: call_step_cases)
  case (published st en ms)
  then show ?thesis using sync
    by (auto simp: call_sync_def exchange_Acquire publish_slots_def split: if_splits)
qed (use sync in \<open>auto simp: call_sync_def exchange_Acquire intro: finds.intros split: if_splits\<close>)

lemma act_finds:
  assumes "own_pre x s" and "act_sync a x (with_value l v s) = Some (Acquire l)"
    and "act_result nd a x (with_value l v s) = Some (x', s')"
  shows "finds s x l v x'"
  using assms finds_step [of x s l v nd x' s'] finds_call [of _ x l v s x' s'] by (cases a) auto


section \<open>Views\<close>

text \<open>What a message holds, as it was when it was stored.\<close>

fun message_ok :: "gen \<Rightarrow> 'a area \<Rightarrow> access list \<Rightarrow> loc \<Rightarrow> message \<Rightarrow> bool" where
  "message_ok g s h WriteGen m \<longleftrightarrow> masked (content m) \<and> pos g (content m) \<le> pos g (write_gen s)"
| "message_ok g s h ReadGen m \<longleftrightarrow> masked (content m) \<and> pos g (content m) \<le> pos g (read_gen s) \<and>
     caught g (content m) s h (carried m)"
| "message_ok g s h LastValidGen m \<longleftrightarrow> masked (content m) \<and> pos g (content m) \<le> pos g (last_valid_gen s)"
| "message_ok g s h FreeGen m \<longleftrightarrow> masked (content m) \<and> pos g (content m) \<le> pos g (free_gen s) \<and>
     knows (carried m) h (below g (pos g (content m)))"
| "message_ok g s h (Cell j) m \<longleftrightarrow> j < length (slots (reader_gens s)) \<longrightarrow>
     pos g (content m) \<le> pos g (cell_at j s) \<and> saw_reads g (content m) j h (carried m)"
| "message_ok g s h (Key j) m \<longleftrightarrow> True"

lemma message_grows: "message_ok g s h l m \<Longrightarrow> grows g s s' \<Longrightarrow> message_ok g s' h l m"
  by (cases l) (auto simp: grows_def caught_def cap_def elim: le_trans)

lemma message_snoc:
  assumes "message_ok g s h l m" and e: "fresh g s e" and ord: "ord_inv g s"
  shows "message_ok g s (h @ [e]) l m"
proof (cases l)
  case ReadGen
  then show ?thesis using assms(1) caught_snoc [OF _ e ord] by simp
next
  case FreeGen
  then have "knows (carried m) h (below g (pos g (content m)))" "pos g (content m) \<le> pos g (free_gen s)"
    using assms(1) by simp_all
  moreover then have "\<not> below g (pos g (content m)) e" using e by (auto simp: fresh_def below_def)
  ultimately show ?thesis using FreeGen assms(1) knows_snoc_miss by simp
next
  case (Cell j)
  then show ?thesis using assms(1) saw_snoc [OF _ e] by simp
qed (use assms(1) in simp_all)

text \<open>
  The position a view has reached at an atomic, and how the positions of a view are related: what a
  thread knows to be free it knows to be published, what is published to be reserved, and the
  private generations it knows are published.
\<close>

definition reached :: "gen \<Rightarrow> (loc \<Rightarrow> message list) \<Rightarrow> (loc \<Rightarrow> nat) \<Rightarrow> loc \<Rightarrow> nat" where
  "reached g M V l = pos g (content (M l ! V l))"

definition ordered :: "nat \<Rightarrow> (loc \<Rightarrow> nat) \<Rightarrow> bool" where
  "ordered n P \<longleftrightarrow> P FreeGen \<le> P ReadGen \<and> P ReadGen \<le> P WriteGen \<and> (\<forall>j < n. P (Cell j) \<le> P ReadGen)"

text \<open>The local variables of a thread are within what it has seen.\<close>

fun op_seen :: "gen \<Rightarrow> reader_op \<Rightarrow> (loc \<Rightarrow> nat) \<Rightarrow> bool" where
  "op_seen g (SetGen v) P \<longleftrightarrow> pos g v \<le> P ReadGen"
| "op_seen g (DropSlice st v) P \<longleftrightarrow> pos g v \<le> P ReadGen"
| "op_seen g (ResumeAt v) P \<longleftrightarrow> pos g v \<le> P ReadGen"
| "op_seen g oper P \<longleftrightarrow> True"

fun local_seen :: "gen \<Rightarrow> 'a pc \<Rightarrow> (loc \<Rightarrow> nat) \<Rightarrow> bool" where
  "local_seen g (ReserveLoad be n cf) P \<longleftrightarrow> pos g cf \<le> P FreeGen"
| "local_seen g (Writing st en ms) P \<longleftrightarrow> st = en \<or> pos g en \<le> P WriteGen"
| "local_seen g (CleanSlot lv m i) P \<longleftrightarrow> pos g m \<le> P ReadGen"
| "local_seen g (CleanTurn lv m i rg) P \<longleftrightarrow> pos g m \<le> P ReadGen \<and> pos g rg \<le> P ReadGen"
| "local_seen g (CleanClaim lv m) P \<longleftrightarrow> pos g m \<le> P ReadGen"
| "local_seen g (CleanDrop lv new k) P \<longleftrightarrow> pos g new \<le> P ReadGen"
| "local_seen g (CleanFree lv new) P \<longleftrightarrow> pos g new \<le> P ReadGen"
| "local_seen g (EnterCas r p c) P \<longleftrightarrow> pos g c \<le> P ReadGen"
| "local_seen g (OpLookup r oper) P \<longleftrightarrow> op_seen g oper P"
| "local_seen g (OpLoad r p oper) P \<longleftrightarrow> op_seen g oper P"
| "local_seen g (OpAct r p c oper) P \<longleftrightarrow> op_seen g oper P \<and> pos g c \<le> P ReadGen"
| "local_seen g (ReadEnd r st) P \<longleftrightarrow> pos g st \<le> P ReadGen"
| "local_seen g (Slice r st en) P \<longleftrightarrow> pos g en \<le> P ReadGen"
| "local_seen g x P \<longleftrightarrow> True"

definition later :: "(loc \<Rightarrow> nat) \<Rightarrow> (loc \<Rightarrow> nat) \<Rightarrow> bool" where
  "later P P' \<longleftrightarrow> P FreeGen \<le> P' FreeGen \<and> P ReadGen \<le> P' ReadGen \<and> P WriteGen \<le> P' WriteGen"

lemma op_seen_later: "op_seen g oper P \<Longrightarrow> later P P' \<Longrightarrow> op_seen g oper P'"
  by (cases oper) (auto simp: later_def)

lemma local_seen_later: "local_seen g x P \<Longrightarrow> later P P' \<Longrightarrow> local_seen g x P'"
  by (cases x) (auto simp: op_seen_later, auto simp: later_def)

section \<open>Loads\<close>

text \<open>A thread that finds the value \<open>v\<close> of the message \<open>m\<close> at \<open>l\<close>, and the cell of its own reader up to date.\<close>

definition tracks :: "gen \<Rightarrow> gen \<Rightarrow> bool" where
  "tracks c v \<longleftrightarrow> (is_suspended v \<longleftrightarrow> is_suspended c) \<and> (is_suspended v \<or> v = c)"

lemma finds_own:
  assumes f: "finds s x l v x'" and pre: "own_pre x s"
    and own: "\<And>r. owned x = Some r \<Longrightarrow> l = Cell (unat (slot_of r s)) \<Longrightarrow> tracks (gen_of r s) v"
  shows "(owned x' = owned x \<or> owned x' = None) \<and> local_own x' s"
  using f
proof cases
  case (probe i ky idx)
  have "unat i < length (slots (reader_gens s))"
    using probe(4) length_slots [of "reader_gens s"] pre_inv [OF pre] by (simp add: map_inv_def word_less_nat_alt)
  then show ?thesis using pre probe by (auto simp: own_pre_def)
next
  case (probe_next ky i idx k)
  have "map_wf (reader_gens s)" using pre_inv [OF pre] by (simp add: map_inv_def)
  from next_index_eq [OF this, of ky i] show ?thesis using pre probe_next by (auto simp: own_pre_def)
qed (use pre own in \<open>auto simp: own_pre_def tracks_def\<close>)

lemma finds_ord:
  assumes f: "finds s x l v x'" and pre: "ord_pre g x s" and m: "message_ok g s h l m" and v: "v = content m"
    and seen: "local_seen g x P" and P: "ordered (length (slots (reader_gens s))) P"
    and lo: "rises (length (slots (reader_gens s))) l \<Longrightarrow> P l \<le> pos g v"
  shows "local_ord g x' s"
proof -
  have own: "own_pre x s" and ord: "ord_inv g s" and loc: "local_ord g x s" using pre by (auto simp: ord_pre_def)
  show ?thesis using f
  proof cases
    case (clean_slot i lv mi)
    then show ?thesis using m v loc by auto
  next
    case (op_load r p oper)
    then have "unat p < length (slots (reader_gens s))" using own pre_slot [OF own, of r] by (auto simp: own_pre_def)
    moreover then have "pos g (cell_at (unat p) s) \<le> pos g (read_gen s)" using ord by (simp add: ord_inv_def)
    ultimately show ?thesis using op_load m v loc by auto
  next
    case (reserve_load be n cf)
    then show ?thesis using m v loc seen P lo by (auto simp: ordered_def rises_def)
  next
    case (read_end r st)
    then show ?thesis using m v loc seen lo by (auto simp: rises_def)
  qed (use m v loc in auto)
qed

lemma finds_know:
  assumes f: "finds s x l v x'" and pre: "ord_pre g x s" and m: "message_ok g s h l m" and v: "v = content m"
    and ok: "know g x s h K"
  shows "know g x' s h (K \<union> carried m)"
  using f
proof cases
  case (clean_turn lv mi i rg)
  then have "i < length (slots (reader_gens s))" using pre by (auto simp: ord_pre_def)
  then show ?thesis using clean_turn m v ok by (auto simp: caught_Un saw_Un)
qed (use m v ok in \<open>auto simp: caught_Un saw_Un knows_Un\<close>)

lemma finds_seen:
  assumes f: "finds s x l v x'" and pre: "own_pre x s" and seen: "local_seen g x P" and le: "later P P'"
    and P': "ordered (length (slots (reader_gens s))) P'"
    and hi: "rises (length (slots (reader_gens s))) l \<Longrightarrow> pos g v \<le> P' l"
  shows "local_seen g x' P'"
proof -
  have seen': "local_seen g x P'" using seen le by (rule local_seen_later)
  have cell: "pos g v \<le> P' ReadGen" if "l = Cell j" "j < length (slots (reader_gens s))" for j
    using P' hi that by (auto simp: ordered_def rises_def intro: le_trans)
  have slot: "unat p < length (slots (reader_gens s))" if "p = slot_of r s" for p r
    using pre_slot [OF pre] that by simp
  show ?thesis using f
  proof cases
    case (clean_turn lv mi i rg)
    then show ?thesis using pre seen' cell by (auto simp: own_pre_def)
  qed (use pre seen' cell slot hi in \<open>auto simp: own_pre_def rises_def\<close>)
qed

text \<open>The machine below a load keeps its invariants.\<close>

lemma finds_idle: "finds s x l v x' \<Longrightarrow> x' = x \<or> (idle_ring x \<and> idle_ring x')"
  by (cases rule: finds.cases) auto

lemma finds_silent: "finds s x l v x' \<Longrightarrow> published_by x c x' = []"
  by (cases rule: finds.cases) (auto simp: published_by_def split: option.splits call.splits)

lemma load_core:
  assumes inv: "whole_inv nd X" and r: "reserved X < 2 ^ 62" and f: "finds (shared X) (threads X t) l v x'"
    and own: "\<And>r. owned (threads X t) = Some r \<Longrightarrow> l = Cell (unat (slot_of r (shared X))) \<Longrightarrow>
      tracks (gen_of r (shared X)) v"
    and ord: "local_ord (base X) x' (shared X)" and know: "know (base X) x' (shared X) (hist X) (seen X t \<union> L)"
    and X': "X' = put_pc t c (X\<lparr>seen := (seen X)(t := seen X t \<union> L)\<rparr>) (x', shared X)"
  shows "whole_inv nd X'" and "base X' = base X" and "reserved X' = reserved X" and "shared X' = shared X"
    and "threads X' = (threads X)(t := x')" and "hist X' = hist X" and "released X' = released X"
proof -
  let ?g = "base X" and ?s = "shared X" and ?x = "threads X t"
  note F = whole_facts [OF inv r]
  show base: "base X' = base X" and res: "reserved X' = reserved X" and sh: "shared X' = ?s"
    and th: "threads X' = (threads X)(t := x')" and "hist X' = hist X" "released X' = released X"
    by (simp_all add: X' gen_dist_msb_masked_def)
  have lg: "log X' = log X" using finds_silent [OF f] by (simp add: X')
  have pre: "own_pre ?x ?s" using F(7) [of t] by (simp add: ord_pre_def)
  note o = finds_own [OF f pre own]
  have st: "own_step ?x ?s (x', ?s)" using own_step_keep [OF pre, of ?s x'] o by simp
  have own': "own_inv (sys.truncate X')" by (rule own_inv_upd [OF F(8), of t x' ?s]) (use st sh th in simp_all)
  have "\<And>u. local_ord ?g (threads X' u) ?s" using F(6) ord th by simp
  then have "order_inv (sys.truncate X')" using inv own' base res sh lg by (simp add: whole_inv_def order_inv_def)
  moreover have "ring_at nd ?g ?s (threads X') (log X)"
  proof -
    have ring: "ring_at nd ?g ?s (threads X) (log X)" using inv by (simp add: whole_inv_def ring_inv_def)
    from finds_idle [OF f] show ?thesis
    proof
      assume "x' = ?x" then show ?thesis using ring th by simp
    next
      assume "idle_ring ?x \<and> idle_ring x'"
      then show ?thesis using ring_idle_step [OF ring F(3), of ?s t x'] th by simp
    qed
  qed
  moreover have "race_inv ?g X'"
  proof -
    have "owner_knows x' ?s (hist X) (seen X t \<union> L)"
      using o by (intro owner_same [OF F(11)]) auto
    then have "step_knows ?g (hist X) x' ?s (seen X t \<union> L, released X)"
      using know F(12) by (simp add: step_knows_def)
    from step_seen [OF F(1,8) st grows_refl this, of c] show ?thesis by (simp add: X' del: put_pc.simps)
  qed
  ultimately show "whole_inv nd X'" using base sh lg by (simp add: whole_inv_def ring_inv_def)
qed

section \<open>The invariant\<close>

definition cells :: "'a area \<Rightarrow> nat" where
  "cells s = length (slots (reader_gens s))"

definition view_ok :: "gen \<Rightarrow> nat \<Rightarrow> (loc \<Rightarrow> message list) \<Rightarrow> (loc \<Rightarrow> nat) \<Rightarrow> bool" where
  "view_ok g n M V \<longleftrightarrow> (\<forall>l. V l < length (M l)) \<and> ordered n (reached g M V)"

definition rising :: "gen \<Rightarrow> nat \<Rightarrow> (loc \<Rightarrow> message list) \<Rightarrow> bool" where
  "rising g n M \<longleftrightarrow> (\<forall>l. rises n l \<longrightarrow> sorted (map (\<lambda>m. pos g (content m)) (M l)))"

definition latest :: "'a rsys \<Rightarrow> (loc \<Rightarrow> message list) \<Rightarrow> bool" where
  "latest X M \<longleftrightarrow> (\<forall>l. M l \<noteq> [] \<and> carried (last (M l)) = released X l \<and>
     (in_range (cells (shared X)) l \<longrightarrow> content (last (M l)) = value_at l (shared X)))"

definition messages_ok :: "'a rsys \<Rightarrow> (loc \<Rightarrow> message list) \<Rightarrow> bool" where
  "messages_ok X M \<longleftrightarrow> (\<forall>l k. k < length (M l) \<longrightarrow>
     message_ok (base X) (shared X) (hist X) l (M l ! k) \<and> sees (M l ! k) l = k \<and>
     view_ok (base X) (cells (shared X)) M (sees (M l ! k)))"

text \<open>
  From \<open>n\<close> on, the messages of a cell agree with its value \<open>c\<close>: all are suspended, or there is
  only the last.
\<close>

definition settled :: "gen \<Rightarrow> nat \<Rightarrow> message list \<Rightarrow> bool" where
  "settled c n ms \<longleftrightarrow> (\<forall>k. n \<le> k \<longrightarrow> k < length ms \<longrightarrow>
     (is_suspended (content (ms ! k)) \<longleftrightarrow> is_suspended c) \<and> (is_suspended c \<or> Suc k = length ms))"

definition threads_ok :: "'a wsys \<Rightarrow> bool" where
  "threads_ok W \<longleftrightarrow> (\<forall>t.
     view_ok (base (core W)) (cells (shared (core W))) (msgs W) (view W t) \<and>
     local_seen (base (core W)) (threads (core W) t) (reached (base (core W)) (msgs W) (view W t)))"

text \<open>An owner is up to date with its own cell, and the key of a free slot with the cell beside it.\<close>

definition owners_ok :: "'a wsys \<Rightarrow> bool" where
  "owners_ok W \<longleftrightarrow> (\<forall>t r. owned (threads (core W) t) = Some r \<longrightarrow>
     settled (gen_of r (shared (core W))) (view W t (Cell (unat (slot_of r (shared (core W))))))
       (msgs W (Cell (unat (slot_of r (shared (core W)))))))"

definition free_ok :: "'a area \<Rightarrow> (loc \<Rightarrow> message list) \<Rightarrow> bool" where
  "free_ok s M \<longleftrightarrow> (\<forall>j < cells s. value_at (Key j) s = EMPTY \<longrightarrow>
     settled (cell_at j s) (sees (last (M (Key j))) (Cell j)) (M (Cell j)))"

definition weak_inv :: "bool \<Rightarrow> 'a wsys \<Rightarrow> bool" where
  "weak_inv nd W \<longleftrightarrow> whole_inv nd (core W) \<and> rising (base (core W)) (cells (shared (core W))) (msgs W) \<and>
     latest (core W) (msgs W) \<and> messages_ok (core W) (msgs W) \<and> threads_ok W \<and> owners_ok W \<and>
     free_ok (shared (core W)) (msgs W)"

lemma settled_mono: "settled c n ms \<Longrightarrow> n \<le> n' \<Longrightarrow> settled c n' ms"
  by (simp add: settled_def)

lemma join_ge [simp]: "V l \<le> join V V' l" "V' l \<le> join V V' l"
  by (simp_all add: join_def)

lemma reached_mono:
  assumes "rising g n M" and "rises n l" and "V l \<le> V' l" and "V' l < length (M l)"
  shows "reached g M V l \<le> reached g M V' l"
proof -
  have "sorted (map (\<lambda>m. pos g (content m)) (M l))" using assms(1,2) by (simp add: rising_def)
  from sorted_nth_mono [OF this assms(3)] assms(3,4) show ?thesis by (simp add: reached_def)
qed

lemma view_join:
  assumes r: "rising g n M" and V: "view_ok g n M V" and V': "view_ok g n M V'"
  shows "view_ok g n M (join V V')" and "later (reached g M V) (reached g M (join V V'))"
proof -
  have in_M: "join V V' l < length (M l)" for l using V V' by (simp add: view_ok_def join_def)
  have up: "reached g M V l \<le> reached g M (join V V') l" "reached g M V' l \<le> reached g M (join V V') l"
    if "rises n l" for l
    using reached_mono [OF r that, of _ "join V V'"] in_M by simp_all
  have one: "reached g M (join V V') l = reached g M V l \<or> reached g M (join V V') l = reached g M V' l" for l
    by (auto simp: reached_def join_def max_def)
  show "later (reached g M V) (reached g M (join V V'))" using up(1) by (simp add: later_def rises_def)
  have "ordered n (reached g M (join V V'))" unfolding ordered_def
  proof (intro conjI allI impI)
    show "reached g M (join V V') FreeGen \<le> reached g M (join V V') ReadGen"
      using one [of FreeGen] up [of ReadGen] V V' by (auto simp: view_ok_def ordered_def rises_def)
    show "reached g M (join V V') ReadGen \<le> reached g M (join V V') WriteGen"
      using one [of ReadGen] up [of WriteGen] V V' by (auto simp: view_ok_def ordered_def rises_def)
    fix j assume "j < n"
    then show "reached g M (join V V') (Cell j) \<le> reached g M (join V V') ReadGen"
      using one [of "Cell j"] up [of ReadGen] V V' by (fastforce simp: view_ok_def ordered_def rises_def)
  qed
  with in_M show "view_ok g n M (join V V')" by (simp add: view_ok_def)
qed

lemma own_tracks:
  assumes "settled c n ms" and "n \<le> k" and "k < length ms" and "content (last ms) = c"
  shows "tracks c (content (ms ! k))"
proof -
  have s: "is_suspended (content (ms ! k)) \<longleftrightarrow> is_suspended c" "is_suspended c \<or> Suc k = length ms"
    using assms(1-3) by (auto simp: settled_def)
  have "content (ms ! k) = c" if "Suc k = length ms"
    using assms(4) that by (metis Suc_less_eq diff_Suc_1 last_conv_nth length_0_conv nat.simps(3))
  with s show ?thesis by (auto simp: tracks_def)
qed

lemma load_inv:
  assumes inv: "weak_inv nd W" and r: "reserved (core W) < 2 ^ 62"
    and exec: "weak_exec nd (t, a, Some (l, k)) W = Some W'"
  shows "weak_inv nd W'" and "base (core W') = base (core W)" and "reserved (core W') = reserved (core W)"
proof -
  let ?X = "core W" and ?M = "msgs W"
  let ?g = "base ?X" and ?s = "shared ?X" and ?x = "threads ?X t" and ?m = "?M l ! k"
  let ?n = "cells ?s"
  from exec obtain x' s' where k: "k < length (?M l)" "view W t l \<le> k"
    and sync: "act_sync a ?x (with_value l (content ?m) ?s) = Some (Acquire l)"
    and res: "act_result nd a ?x (with_value l (content ?m) ?s) = Some (x', s')"
    and W': "W' = weak_load t (act_call a) ?m x' W"
    by (auto simp: Let_def split: if_splits)
  have I: "whole_inv nd ?X" "rising ?g ?n ?M" "latest ?X ?M" "messages_ok ?X ?M" "threads_ok W" "owners_ok W"
      "free_ok ?s ?M" using inv by (simp_all add: weak_inv_def)
  note F = whole_facts [OF I(1) r]
  have pre: "own_pre ?x ?s" using F(7) [of t] by (simp add: ord_pre_def)
  note f = act_finds [OF pre sync res]
  have m: "message_ok ?g ?s (hist ?X) l ?m" "sees ?m l = k" "view_ok ?g ?n ?M (sees ?m)"
    using I(4) k(1) by (simp_all add: messages_ok_def)
  let ?V = "view W t" and ?V' = "join (view W t) (sees ?m)"
  have V: "view_ok ?g ?n ?M ?V" "local_seen ?g ?x (reached ?g ?M ?V)" using I(5) by (simp_all add: threads_ok_def)
  note V' = view_join [OF I(2) V(1) m(3)]
  have own: "tracks (gen_of r ?s) (content ?m)" if "owned ?x = Some r" "l = Cell (unat (slot_of r ?s))" for r
  proof (rule own_tracks)
    show "settled (gen_of r ?s) (?V l) (?M l)" using I(6) that by (simp add: owners_ok_def)
    have "unat (slot_of r ?s) < ?n" "cell_at (unat (slot_of r ?s)) ?s = gen_of r ?s"
      using own_cell [OF pre that(1)] by (simp_all add: cells_def)
    then show "content (last (?M l)) = gen_of r ?s" using I(3) that(2)
      by (simp add: latest_def in_range_def cell_at_def)
  qed (use k in simp_all)
  have lo: "reached ?g ?M ?V l \<le> pos ?g (content ?m)" if "rises ?n l"
    using reached_mono [OF I(2) that, of ?V "sees ?m"] m(2) k by (simp add: reached_def)
  have hi: "pos ?g (content ?m) \<le> reached ?g ?M ?V' l" if "rises ?n l"
    using reached_mono [OF I(2) that, of "sees ?m" ?V'] m(2) k by (simp add: reached_def join_def max_def)
  note o = finds_own [OF f pre own]
  have ord': "local_ord ?g x' ?s"
    by (rule finds_ord [OF f F(7) m(1) refl V(2)]) (use V(1) lo in \<open>simp_all add: view_ok_def cells_def\<close>)
  have core: "core W' = put_pc t (act_call a) (?X\<lparr>seen := (seen ?X)(t := seen ?X t \<union> carried ?m)\<rparr>) (x', ?s)"
    and mem: "msgs W' = ?M" "view W' = (view W)(t := ?V')" by (simp_all add: W' del: put_pc.simps)
  note C = load_core [OF I(1) r f _ ord' finds_know [OF f F(7) m(1) refl F(10)] core, OF own]
  show "base (core W') = base (core W)" "reserved (core W') = reserved (core W)" using C by simp_all
  have "local_seen ?g x' (reached ?g ?M ?V')"
    by (rule finds_seen [OF f pre V(2) V'(2)]) (use V'(1) hi in \<open>simp_all add: view_ok_def cells_def\<close>)
  then have "threads_ok W'" using I(5) V'(1) C mem by (simp add: threads_ok_def)
  moreover have "owners_ok W'" unfolding owners_ok_def
  proof (intro allI impI)
    fix u r assume u: "owned (threads (core W') u) = Some r"
    then have "owned (threads ?X u) = Some r" using o C(5) by (cases "u = t") auto
    then have "settled (gen_of r ?s) (view W u (Cell (unat (slot_of r ?s)))) (?M (Cell (unat (slot_of r ?s))))"
      using I(6) by (simp add: owners_ok_def)
    then show "settled (gen_of r (shared (core W'))) (view W' u (Cell (unat (slot_of r (shared (core W'))))))
        (msgs W' (Cell (unat (slot_of r (shared (core W'))))))"
      using mem C(4) by (cases "u = t") (auto intro: settled_mono)
  qed
  ultimately show "weak_inv nd W'" using I C mem
    by (simp add: weak_inv_def latest_def messages_ok_def)
qed

section \<open>Stores\<close>

definition writes :: "atomic option \<Rightarrow> loc \<Rightarrow> bool" where
  "writes b l \<longleftrightarrow> b = Some (Release l) \<or> b = Some (AcqRel l)"

lemma writes_simps [simp]:
  "\<not> writes None l" "\<not> writes (Some (Acquire l')) l" "writes (Some (Release l')) l \<longleftrightarrow> l' = l"
  "writes (Some (AcqRel l')) l \<longleftrightarrow> l' = l" "writes (Some (exchange l' c)) l \<longleftrightarrow> l' = l \<and> c"
  by (auto simp: writes_def exchange_def)

text \<open>Only the atomic of the store changes.\<close>

lemma value_table:
  "reader_gens s' = reader_gens s \<Longrightarrow> value_at (Cell j) s' = value_at (Cell j) s"
  "reader_gens s' = reader_gens s \<Longrightarrow> value_at (Key j) s' = value_at (Key j) s"
  by simp_all

lemma value_store_gen:
  "unat p < cells s \<Longrightarrow> value_at l (store_gen p v s) = (if l = Cell (unat p) then v else value_at l s)"
  by (cases l) (auto simp: cells_def slot_store_cell store_gen_def)

lemma value_store_key:
  "unat p < cells s \<Longrightarrow> value_at l (s\<lparr>reader_gens := store_key p k (reader_gens s)\<rparr>) =
    (if l = Key (unat p) then k else value_at l s)"
  by (cases l) (auto simp: cells_def slot_store_key)

lemma step_value:
  assumes pre: "own_pre x s" and step: "pc_step nd x s = (x', s')" and l: "\<not> writes (step_sync x s) l"
  shows "value_at l s' = value_at l s"
proof -
  have slot: "unat (slot_of r s) < cells s" for r using pre_slot [OF pre] by (simp add: cells_def)
  show ?thesis
  proof (cases x)
    case (ReserveGrab be n cf cw)
    show ?thesis using step l unfolding ReserveGrab
    proof (cases rule: reserve_grab_cases)
      case (grabs k en)
      then show ?thesis using l ReserveGrab step
        by (cases l) (auto simp: grab_Cas Let_def best_effort_from_def reserve_from_def split: if_splits)
    qed simp_all
  next
    case (CleanTurn lv m i rg)
    then have i: "i < cells s" using pre by (auto simp: own_pre_def cells_def)
    then have u: "unat (of_nat i :: usize) = i" using unat_nat_slot [OF pre] by (simp add: cells_def)
    then have "unat (of_nat i :: usize) < cells s" using i by simp
    from value_store_gen [OF this] show ?thesis using step l u CleanTurn
      by (cases rule: cas_gen_cases [of "of_nat i" s rg "m OR SUSPENDED_BIT"])
        (auto simp: scan_turn_def split: if_splits)
  next
    case (CleanClaim lv new)
    then show ?thesis using step l
      by (cases l) (auto simp: claim_turn_def compare_exchange_def split: if_splits)
  next
    case (CleanFree lv new)
    then show ?thesis using step l by (cases l) (auto simp: free_turn_def compare_exchange_def split: if_splits)
  next
    case (CleanDrop lv new k)
    then show ?thesis using step by (cases l) (auto simp: drop_slot_def split: if_splits)
  next
    case (ProbeCas ky i idx k)
    then have "unat idx < cells s" using pre by (auto simp: own_pre_def reg_inv_def map_inv_def index_less cells_def)
    from value_store_key [OF this] show ?thesis using step l ProbeCas
      by (auto simp: goi_turn_def Let_def compare_exchange_def split: if_splits)
  next
    case (Finish r p)
    then have "unat p < cells s" using pre slot [of r] by (auto simp: own_pre_def)
    from value_store_key [OF this] show ?thesis using step l Finish
      by (auto simp: finish_init_at_eq split: if_splits)
  next
    case (EnterCas r p c)
    then have "unat p < cells s" using pre slot [of r] by (auto simp: own_pre_def)
    from value_store_gen [OF this] show ?thesis using step l EnterCas
      by (cases rule: cas_gen_cases [of p s c "gen_without_suspended_bit c"]) (auto simp: enter_turn_def)
  next
    case (OpAct r p c oper)
    then have p: "unat p < cells s" using pre slot [of r] by (auto simp: own_pre_def)
    note store = value_store_gen [OF p]
    show ?thesis
    proof (cases oper)
      case Resume
      then show ?thesis using store step l OpAct
        by (cases rule: cas_gen_cases [of p s c "c AND NOT SUSPENDED_BIT"])
          (auto simp: resume_turn_def split: if_splits)
    next
      case (ResumeAt v)
      then show ?thesis using store step l OpAct
        by (cases rule: cas_gen_cases [of p s c "v AND NOT SUSPENDED_BIT"])
          (auto simp: resume_at_turn_def split: if_splits)
    qed (use store step l OpAct in \<open>auto simp: set_gen_from_def suspend_from_def split: if_splits\<close>)
  next
    case (RemoveCas r k)
    have "unat (index_for r ZERO_OFFSET (reader_gens s)) < cells s" using slot [of r] by (simp add: index_slot)
    from value_store_key [OF this] show ?thesis using step l RemoveCas
      by (auto simp: remove_turn_def compare_exchange_def Let_def split: if_splits)
  qed (use step in \<open>auto split: if_splits option.splits reader_op.splits\<close>)
qed

lemma call_value:
  assumes call: "call_step c x s = Some (x', s')" and l: "\<not> writes (call_sync c x s) l"
  shows "value_at l s' = value_at l s"
  using call
proof (cases rule: call_step_cases)
  case (written v st en ms)
  then show ?thesis by (cases l) (simp_all add: write_slot_def)
next
  case (published st en ms)
  show ?thesis using published(4)
  proof (cases rule: publish_cases)
    case ok
    then show ?thesis using l published(1,2) by (cases l) (simp_all add: call_sync_def)
  qed simp_all
next
  case (publish_fails st en ms e)
  show ?thesis using publish_fails(4) by (cases rule: publish_cases) simp_all
qed simp_all

lemma act_value:
  assumes "own_pre x s" and "act_result nd a x s = Some (x', s')" and "\<not> writes (act_sync a x s) l"
  shows "value_at l s' = value_at l s"
  using assms step_value [of x s nd x' s' l] call_value [of _ x s x' s' l] by (cases a) auto

text \<open>What is stored is within what its thread has seen.\<close>

definition store_seen :: "gen \<Rightarrow> nat \<Rightarrow> loc \<Rightarrow> gen \<Rightarrow> (loc \<Rightarrow> nat) \<Rightarrow> bool" where
  "store_seen g n l v P \<longleftrightarrow> in_range n l \<and>
     (case l of FreeGen \<Rightarrow> pos g v \<le> P ReadGen | ReadGen \<Rightarrow> pos g v \<le> P WriteGen
      | Cell j \<Rightarrow> pos g v \<le> P ReadGen | _ \<Rightarrow> True)"

lemma op_act_seen:
  assumes "op_act r p c oper s = (x', s')" and "writes (op_sync p c oper s) l" and "unat p < cells s"
    and "op_seen g oper P" and "pos g c \<le> P ReadGen"
  shows "store_seen g (cells s) l (value_at l s') P"
proof -
  have stored: "store_seen g (cells s) (Cell (unat p)) (value_at (Cell (unat p)) (store_gen p v s)) P"
    if "pos g v \<le> P ReadGen" for v
    using that assms(3) value_store_gen [OF assms(3)] by (simp add: store_seen_def in_range_def)
  show ?thesis
  proof (cases oper)
    case Resume
    then have "l = Cell (unat p)" "load_gen p s = c" "is_suspended c" using assms(2) by (auto split: if_splits)
    then show ?thesis using assms(1,5) Resume stored [of "c AND NOT MSB"]
      by (simp add: resume_turn_def cas_gen_hit SUSPENDED_BIT_eq)
  next
    case (ResumeAt v)
    then have "l = Cell (unat p)" "load_gen p s = c" "is_suspended c" "\<not> gen_lt_msb_masked v (gen_without_suspended_bit c)"
      using assms(2) by (auto split: if_splits)
    then show ?thesis using assms(1,4) ResumeAt stored [of "v AND NOT MSB"]
      by (simp add: resume_at_turn_def cas_gen_hit SUSPENDED_BIT_eq)
  next
    case (SetGen v)
    then show ?thesis using assms(1,2,4) stored [of v] by (auto simp: set_gen_from_def split: if_splits)
  qed (use assms(1,2,5) stored [of "c OR MSB"] in \<open>auto simp: suspend_from_def SUSPENDED_BIT_eq split: if_splits\<close>)
qed

lemma step_store_seen:
  assumes pre: "own_pre x s" and seen: "local_seen g x P" and step: "pc_step nd x s = (x', s')"
    and l: "writes (step_sync x s) l"
  shows "store_seen g (cells s) l (value_at l s') P"
proof -
  have slot: "unat (slot_of r s) < cells s" for r using pre_slot [OF pre] by (simp add: cells_def)
  show ?thesis
  proof (cases x)
    case (CleanTurn lv m i rg)
    then have i: "i < cells s" using pre by (auto simp: own_pre_def cells_def)
    then have u: "unat (of_nat i :: usize) = i" using unat_nat_slot [OF pre] by (simp add: cells_def)
    then have "unat (of_nat i :: usize) < cells s" using i by simp
    from value_store_gen [OF this] show ?thesis using step l u CleanTurn seen i
      by (cases rule: cas_gen_cases [of "of_nat i" s rg "m OR SUSPENDED_BIT"])
        (auto simp: scan_turn_def store_seen_def in_range_def SUSPENDED_BIT_eq split: if_splits)
  next
    case (EnterCas r p c)
    then have p: "unat p < cells s" using pre slot [of r] by (auto simp: own_pre_def)
    from value_store_gen [OF p] show ?thesis using step l EnterCas seen p
      by (cases rule: cas_gen_cases [of p s c "gen_without_suspended_bit c"])
        (auto simp: enter_turn_def store_seen_def in_range_def strip_eq)
  next
    case (OpAct r p c oper)
    then have p: "unat p < cells s" using pre slot [of r] by (auto simp: own_pre_def)
    from op_act_seen [OF _ _ p] show ?thesis using step l OpAct seen by simp
  next
    case (ProbeCas ky i idx k)
    then have "unat idx < cells s" using pre by (auto simp: own_pre_def reg_inv_def map_inv_def index_less cells_def)
    then show ?thesis using l ProbeCas by (auto simp: store_seen_def in_range_def split: if_splits)
  next
    case (Finish r p)
    then show ?thesis using l pre slot [of r] by (auto simp: store_seen_def in_range_def own_pre_def)
  next
    case (RemoveCas r k)
    then show ?thesis using l slot [of r]
      by (auto simp: store_seen_def in_range_def index_slot Let_def split: if_splits)
  next
    case (CleanFree lv new)
    then show ?thesis using l step seen
      by (auto simp: store_seen_def in_range_def free_turn_def split: if_splits)
  qed (use l in \<open>auto simp: store_seen_def in_range_def Let_def split: if_splits\<close>)
qed

lemma call_store_seen:
  assumes seen: "local_seen g x P" and call: "call_step c x s = Some (x', s')"
    and l: "writes (call_sync c x s) l"
  shows "store_seen g (cells s) l (value_at l s') P"
  using call
proof (cases rule: call_step_cases)
  case (published st en ms)
  then have *: "\<not> gen_gte_msb_masked st en" "read_gen s = st" "l = ReadGen"
    using l by (auto simp: call_sync_def split: if_splits)
  from published(4,2) seen * show ?thesis
    by (cases rule: publish_cases) (auto simp: store_seen_def in_range_def gen_gte_msb_masked_def)
qed (use l in \<open>auto simp: call_sync_def split: if_splits elim: publish_cases\<close>)

lemma act_store_seen:
  assumes "own_pre x s" and "local_seen g x P" and "act_result nd a x s = Some (x', s')"
    and "writes (act_sync a x s) l"
  shows "store_seen g (cells s) l (value_at l s') P"
  using assms step_store_seen [of x s g P nd x' s' l] call_store_seen [of g x P _ s x' s' l] by (cases a) auto

text \<open>The local variables after a step that does not load.\<close>

lemma step_seen_local:
  assumes pre: "own_pre x s" and seen: "local_seen g x P" and step: "pc_step nd x s = (x', s')"
    and sync: "\<And>l. step_sync x s \<noteq> Some (Acquire l)" and le: "later P P'"
    and wr: "writes (step_sync x s) WriteGen \<Longrightarrow> P' WriteGen = pos g (write_gen s')"
  shows "local_seen g x' P'"
proof -
  note seen' = local_seen_later [OF seen le]
  show ?thesis
  proof (cases x)
    case (ReserveGrab be n cf cw)
    show ?thesis using step unfolding ReserveGrab
    proof (cases rule: reserve_grab_cases)
      case (grabs k en)
      then have s': "write_gen s = cw" "write_gen s' = en" by (auto simp: grab_Cas split: if_splits)
      have "step_sync x s = None \<or> writes (step_sync x s) WriteGen"
        using s' by (auto simp: ReserveGrab Let_def exchange_def)
      moreover have "x' = Writing 0 0 [] \<or> x' = Idle" if "step_sync x s = None"
        using that step s' by (auto simp: ReserveGrab Let_def exchange_def best_effort_from_def reserve_from_def split: if_splits)
      ultimately show ?thesis using wr grabs(5) s' by auto
    qed simp_all
  next
    case (CleanTurn lv m i rg)
    then show ?thesis using step seen' sync
      by (cases rule: cas_gen_cases [of "of_nat i" s rg "m OR SUSPENDED_BIT"])
        (auto simp: scan_turn_def exchange_def split: if_splits)
  next
    case (OpAct r p c oper)
    note step = step [unfolded OpAct pc_step.simps]
    show ?thesis
    proof (cases oper)
      case Resume
      then show ?thesis using step seen' OpAct
        by (cases rule: cas_gen_cases [of p s c "c AND NOT SUSPENDED_BIT"]) (auto simp: resume_turn_def split: if_splits)
    next
      case (ResumeAt v)
      then show ?thesis using step seen' OpAct
        by (cases rule: cas_gen_cases [of p s c "v AND NOT SUSPENDED_BIT"]) (auto simp: resume_at_turn_def split: if_splits)
    qed (use step seen' OpAct in \<open>auto simp: strip_eq split: if_splits\<close>)
  next
    case (CleanClaim lv new)
    then show ?thesis using step seen' by (auto simp: claim_turn_def compare_exchange_def split: if_splits)
  next
    case (CleanFree lv new)
    then show ?thesis using step seen' by (auto simp: free_turn_def compare_exchange_def split: if_splits)
  next
    case (ProbeCas ky i idx k)
    then show ?thesis using step by (auto simp: goi_turn_def Let_def compare_exchange_def split: if_splits)
  next
    case (EnterCas r p c)
    then show ?thesis using step by (auto simp: enter_turn_def cas_gen_def split: sum.splits prod.splits)
  qed (use step seen' sync in \<open>auto split: if_splits\<close>)
qed

lemma call_seen_local:
  assumes seen: "local_seen g x P" and call: "call_step c x s = Some (x', s')"
    and sync: "\<And>l. call_sync c x s \<noteq> Some (Acquire l)" and le: "later P P'"
    and resume: "\<And>v. c = Operate (ResumeAt v) \<Longrightarrow> pos g v \<le> P ReadGen"
  shows "local_seen g x' P'"
proof -
  note seen' = local_seen_later [OF seen le]
  from call show ?thesis
  proof (cases rule: call_step_cases)
    case (operating r oper)
    then have "op_seen g oper P" using resume by (cases oper) auto
    then show ?thesis using operating op_seen_later [OF _ le] by simp
  next
    case (reserving be n)
    then show ?thesis using call sync by (auto simp: call_sync_def call_step_def split: if_splits)
  qed (use seen' in simp_all)
qed

lemma act_seen_local:
  assumes "own_pre x s" and "local_seen g x P" and "act_result nd a x s = Some (x', s')"
    and "\<And>l. act_sync a x s \<noteq> Some (Acquire l)" and "later P P'"
    and "writes (act_sync a x s) WriteGen \<Longrightarrow> P' WriteGen = pos g (write_gen s')"
    and "\<And>v. a = Call (Operate (ResumeAt v)) \<Longrightarrow> pos g v \<le> P ReadGen"
  shows "local_seen g x' P'"
  using assms step_seen_local [of x s g P nd x' s' P'] call_seen_local [of g x P _ s x' s' P'] by (cases a) auto

text \<open>Who stores to the table.\<close>

lemma cell_store:
  assumes pre: "own_pre x s" and res: "act_result nd a x s = Some (x', s')" and l: "writes (act_sync a x s) (Cell j)"
  shows "(\<exists>r. owned x = Some r \<and> j = unat (slot_of r s)) \<or> is_suspended (value_at (Cell j) s)"
proof (cases a)
  case Step
  show ?thesis
  proof (cases x)
    case (CleanTurn lv m i rg)
    then have i: "i < length (slots (reader_gens s))" using pre by (auto simp: own_pre_def)
    have "load_gen (of_nat i) s = value_at (Cell i) s" using unat_nat_slot [OF pre i] by (simp add: load_cell_at cell_at_def)
    then show ?thesis using Step CleanTurn l by (auto split: if_splits)
  next
    case (OpAct r p c oper)
    then show ?thesis using Step l pre by (cases oper) (auto simp: own_pre_def split: if_splits)
  qed (use Step l pre in \<open>auto simp: own_pre_def Let_def split: if_splits\<close>)
next
  case (Call c)
  then show ?thesis using l by (auto simp: call_sync_def split: call.splits pc.splits if_splits)
next
  case (Look k)
  then show ?thesis using l by simp
qed

lemma key_store:
  assumes pre: "own_pre x s" and res: "act_result nd a x s = Some (x', s')" and l: "writes (act_sync a x s) (Key j)"
    and empty: "value_at (Key j) s' = EMPTY"
  obtains r where "owned x = Some r" and "j = unat (slot_of r s)" and "is_suspended (gen_of r s)"
proof (cases a)
  case Step
  show thesis
  proof (cases x)
    case (ProbeCas ky i idx k)
    have step: "own_step x s (x', s')" using pc_step_own [OF pre, of nd] res Step by simp
    have j: "j = unat idx" "k = EMPTY" "load_key idx (reader_gens s) = EMPTY"
      using Step l ProbeCas by (auto split: if_splits)
    then obtain r p where x': "x' = Finish r p" "p = idx" using res Step ProbeCas by (auto simp: goi_turn_def Let_def)
    then have "holds r s'" "idx = slot_of r s'" using step by (auto simp: own_step_def)
    moreover have "map_inv (reader_gens s')" using step by (simp add: own_step_def reg_inv_def)
    ultimately show thesis using holds_key [of s' r] empty j by simp
  next
    case (Finish r p)
    have step: "own_step x s (x', s')" using pc_step_own [OF pre, of nd] res Step by simp
    have "x' = EnterLoad r p" using res Step Finish by simp
    then have "holds r s'" "p = slot_of r s'" using step by (auto simp: own_step_def)
    moreover have "map_inv (reader_gens s')" using step by (simp add: own_step_def reg_inv_def)
    moreover have "j = unat p" using Step l Finish by simp
    ultimately show thesis using holds_key [of s' r] empty by simp
  next
    case (RemoveCas r k)
    then have "j = unat (slot_of r s)" using Step l by (simp add: index_slot Let_def split: if_splits)
    then show thesis using that [of r] RemoveCas pre by (simp add: own_pre_def)
  next
    case (OpAct r p c oper)
    then show thesis using Step l by (cases oper) (auto split: if_splits)
  qed (use Step l in \<open>auto simp: Let_def split: if_splits\<close>)
next
  case (Call c)
  then show thesis using l by (auto simp: call_sync_def split: call.splits pc.splits if_splits)
next
  case (Look k)
  then show thesis using l by simp
qed

lemma unowned_step:
  assumes "owned x = None" and "\<And>ky i idx k. x \<noteq> ProbeCas ky i idx k" and step: "pc_step nd x s = (x', s')"
  shows "owned x' = None"
proof (cases x)
  case (ReserveGrab be n cf cw)
  show ?thesis using step unfolding ReserveGrab by (cases rule: reserve_grab_cases) simp_all
next
  case (CleanTurn lv m i rg)
  then show ?thesis using step
    by (cases rule: cas_gen_cases [of "of_nat i" s rg "m OR SUSPENDED_BIT"]) (auto simp: scan_turn_def split: if_splits)
next
  case (CleanClaim lv new)
  then show ?thesis using step by (auto simp: claim_turn_def compare_exchange_def split: if_splits)
next
  case (CleanFree lv new)
  then show ?thesis using step by (auto simp: free_turn_def compare_exchange_def split: if_splits)
qed (use assms in \<open>auto split: if_splits\<close>)

lemma owned_step:
  assumes "owned x = Some q" and step: "pc_step nd x s = (x', s')"
  shows "owned x' = Some q \<or> owned x' = None"
proof (cases x)
  case (EnterCas r p c)
  then show ?thesis using assms
    by (cases rule: cas_gen_cases [of p s c "gen_without_suspended_bit c"]) (auto simp: enter_turn_def)
next
  case (OpAct r p c oper)
  show ?thesis
  proof (cases oper)
    case Resume
    then show ?thesis using assms OpAct
      by (cases rule: cas_gen_cases [of p s c "c AND NOT SUSPENDED_BIT"]) (auto simp: resume_turn_def split: if_splits)
  next
    case (ResumeAt v)
    then show ?thesis using assms OpAct
      by (cases rule: cas_gen_cases [of p s c "v AND NOT SUSPENDED_BIT"]) (auto simp: resume_at_turn_def split: if_splits)
  qed (use assms OpAct in \<open>auto split: if_splits\<close>)
qed (use assms in \<open>auto split: option.splits reader_op.splits\<close>)

lemma new_owner:
  assumes pre: "own_pre x s" and res: "act_result nd a x s = Some (x', s')" and r: "owned x' = Some r"
  shows "owned x = Some r \<or>
    act_sync a x s = Some (AcqRel (Key (unat (slot_of r s)))) \<and> unat (slot_of r s) < cells s \<and>
    value_at (Key (unat (slot_of r s))) s = EMPTY"
proof (cases a)
  case Step
  show ?thesis
  proof (cases "owned x")
    case None
    then obtain ky i idx k where x: "x = ProbeCas ky i idx k"
      using r res Step unowned_step [of x nd s x' s'] by auto
    have step: "own_step x s (x', s')" using pc_step_own [OF pre, of nd] res Step by simp
    have idx: "unat idx < cells s" using pre x by (auto simp: own_pre_def reg_inv_def map_inv_def index_less cells_def)
    have k: "k = EMPTY" "load_key idx (reader_gens s) = EMPTY" "x' = Finish r idx"
      using res r Step x by (auto simp: goi_turn_def Let_def compare_exchange_def split: if_splits)
    then have "idx = slot_of r s'" using step by (auto simp: own_step_def)
    then have "idx = slot_of r s" using step by (simp add: own_step_def same_table_def slot_of_def)
    then show ?thesis using k idx Step x by (simp add: exchange_def load_key_def slot_at_def)
  next
    case (Some q)
    then have "owned x' = Some q \<or> owned x' = None" using owned_step [of x q nd s x' s'] res Step by simp
    then show ?thesis using Some r by simp
  qed
next
  case (Call c)
  then have "call_step c x s = Some (x', s')" using res by simp
  then show ?thesis using r by (cases rule: call_step_cases) auto
qed (use res in simp)

section \<open>Steps\<close>

text \<open>What a step of the machine with accesses does, as far as messages and views depend on it.\<close>

lemma sync_released: "\<not> writes b l \<Longrightarrow> snd (sync b K R) l = R l"
  by (cases b rule: sync.cases [of "(b, K, R)" for b]) auto

definition advances :: "bool \<Rightarrow> nat \<Rightarrow> 'a act \<Rightarrow> 'a rsys \<Rightarrow> 'a rsys \<Rightarrow> 'a pc \<Rightarrow> bool" where
  "advances nd t a X X' x' \<longleftrightarrow>
     (act_result nd a (threads X t) (shared X) = Some (x', shared X') \<and>
        own_step (threads X t) (shared X) (x', shared X') \<or>
      act_sync a (threads X t) (shared X) = None \<and> x' = threads X t \<and> shared X' = shared X) \<and>
     threads X' = (threads X)(t := x') \<and> grows (base X) (shared X) (shared X') \<and>
     (\<forall>l. \<not> writes (act_sync a (threads X t) (shared X)) l \<longrightarrow> released X' l = released X l) \<and>
     (hist X' = hist X \<or> (\<exists>e. hist X' = hist X @ [e] \<and> fresh (base X) (shared X) e))"

lemma access_hist:
  assumes "whole_inv nd X" and "reserved X < 2 ^ 62"
  shows "hist (put_access t (step_access nd' (threads X t)) X) = hist X \<or>
      (\<exists>e. hist (put_access t (step_access nd' (threads X t)) X) = hist X @ [e] \<and> fresh (base X) (shared X) e)"
    and "call_step c (threads X t) (shared X) = Some y \<Longrightarrow>
      hist (put_access t (call_access c (threads X t)) X) = hist X \<or>
      (\<exists>e. hist (put_access t (call_access c (threads X t)) X) = hist X @ [e] \<and> fresh (base X) (shared X) e)"
proof -
  show "hist (put_access t (step_access nd' (threads X t)) X) = hist X \<or>
      (\<exists>e. hist (put_access t (step_access nd' (threads X t)) X) = hist X @ [e] \<and> fresh (base X) (shared X) e)"
    using drop_fresh(1) [OF assms] by (cases "threads X t") auto
  show "hist (put_access t (call_access c (threads X t)) X) = hist X \<or>
      (\<exists>e. hist (put_access t (call_access c (threads X t)) X) = hist X @ [e] \<and> fresh (base X) (shared X) e)"
    if call: "call_step c (threads X t) (shared X) = Some y"
  proof -
    obtain x' s' where "y = (x', s')" by (cases y)
    from call [unfolded this] show ?thesis
      by (cases rule: call_step_cases) (use write_fresh(1) [OF assms] in \<open>auto simp: call_access_def\<close>)
  qed
qed

lemma released_after:
  "\<not> writes b l \<Longrightarrow> released (put_pc t c (put_sync t b (put_access t acc X)) y) l = released X l"
  using sync_released [of b l "seen (put_access t acc X) t" "released X"]
  by (cases y; cases "sync b (seen (put_access t acc X) t) (released X)") (simp del: put_access.simps)

lemma exec_advances:
  assumes inv: "whole_inv nd X" and r: "reserved X < 2 ^ 62" and look: "looks_ok (t, a) X"
    and exec: "race_exec nd (t, a) X = Some X'"
  shows "\<exists>x'. advances nd t a X X' x'"
proof -
  note F = whole_facts [OF inv r]
  have pre: "own_pre (threads X t) (shared X)" using F(7) [of t] by (simp add: ord_pre_def)
  have ord: "order_inv (sys.truncate X)" using inv by (simp add: whole_inv_def)
  show ?thesis
  proof (cases a)
    case Step
    obtain x' s' where y: "pc_step nd (threads X t) (shared X) = (x', s')" by (metis surj_pair)
    let ?Y = "put_access t (step_access nd (threads X t)) X" and ?b = "step_sync (threads X t) (shared X)"
    have X': "X' = put_pc t None (put_sync t ?b ?Y) (x', s')" using exec Step y
      by (simp del: put_pc.simps put_sync.simps put_access.simps)
    have "sys_exec nd (t, None) (sys.truncate X) = Some (sys.truncate X')" unfolding X' by (rule sys_step(1) [OF y])
    from order_step [OF ord _ this] r have "grows (base X) (shared X) (shared X')" by simp
    moreover have "own_step (threads X t) (shared X) (x', s')" using pc_step_own [OF pre, of nd] y by simp
    moreover have "released X' l = released X l" if "\<not> writes ?b l" for l
      unfolding X' by (rule released_after [OF that])
    ultimately show ?thesis using y Step access_hist(1) [OF inv r, of t nd]
      by (intro exI [of _ x']) (simp add: advances_def X' del: put_pc.simps put_sync.simps put_access.simps)
  next
    case (Call c)
    then obtain x' s' where y: "call_step c (threads X t) (shared X) = Some (x', s')" and al: "call_allowed c (sys.truncate X)"
      using exec by (auto split: if_splits)
    let ?Y = "put_access t (call_access c (threads X t)) X" and ?b = "call_sync c (threads X t) (shared X)"
    have X': "X' = put_pc t (Some c) (put_sync t ?b ?Y) (x', s')" using exec Call y al
      by (simp del: put_pc.simps put_sync.simps put_access.simps)
    have "sys_exec nd (t, Some c) (sys.truncate X) = Some (sys.truncate X')" unfolding X' by (rule sys_step(2) [OF al y])
    from order_step [OF ord _ this] r have "grows (base X) (shared X) (shared X')" by simp
    moreover have "own_step (threads X t) (shared X) (x', s')" by (rule own_step_call [OF pre y])
    moreover have "released X' l = released X l" if "\<not> writes ?b l" for l
      unfolding X' by (rule released_after [OF that])
    ultimately show ?thesis using y Call access_hist(2) [OF inv r y]
      by (intro exI [of _ x']) (simp add: advances_def X' del: put_pc.simps put_sync.simps put_access.simps)
  next
    case (Look k)
    then obtain e where l: "look k (threads X t) (shared X) = Some e" and X': "X' = put_access t (Some e) X"
      using exec by (auto split: option.splits)
    obtain i st en where x: "threads X t = Slice i st en" using l by (cases "threads X t") (auto simp: look_def)
    have "fresh (base X) (shared X) e"
      using look_fresh(1) [OF inv r x] l look Look by (auto simp: look_def x split: if_splits)
    then show ?thesis using Look by (intro exI [of _ "threads X t"]) (simp add: advances_def X')
  qed
qed

text \<open>More messages change nothing for the views of before.\<close>

definition extends :: "(loc \<Rightarrow> message list) \<Rightarrow> (loc \<Rightarrow> message list) \<Rightarrow> bool" where
  "extends M M' \<longleftrightarrow> (\<forall>l. \<exists>ms. M' l = M l @ ms)"

lemma extends_nth: "extends M M' \<Longrightarrow> k < length (M l) \<Longrightarrow> M' l ! k = M l ! k \<and> k < length (M' l)"
  by (metis extends_def length_append nth_append trans_less_add1)

lemma view_extends: "view_ok g n M V \<Longrightarrow> extends M M' \<Longrightarrow> view_ok g n M' V \<and> reached g M' V = reached g M V"
proof
  assume V: "view_ok g n M V" and e: "extends M M'"
  show r: "reached g M' V = reached g M V"
    by (rule ext) (use V extends_nth [OF e] in \<open>simp add: reached_def view_ok_def\<close>)
  show "view_ok g n M' V" using V extends_nth [OF e] r by (simp add: view_ok_def)
qed

lemma store_view:
  assumes V: "view_ok g n M V" and v: "store_seen g n l v (reached g M V)"
    and up: "rises n l \<Longrightarrow> reached g M V l \<le> pos g v" and M': "M' = M(l := M l @ [m])" "content m = v"
  shows "view_ok g n M' (V(l := length (M l)))"
    and "later (reached g M V) (reached g M' (V(l := length (M l))))"
    and "reached g M' (V(l := length (M l))) l = pos g v"
proof -
  let ?V = "V(l := length (M l))"
  have in_M: "?V l' < length (M' l')" for l' using V by (simp add: view_ok_def M')
  show at: "reached g M' ?V l = pos g v" by (simp add: reached_def M')
  have val: "reached g M' ?V = (reached g M V)(l := pos g v)" by (rule ext) (simp add: reached_def M')
  show "later (reached g M V) (reached g M' ?V)"
    unfolding val using up by (cases l) (simp_all add: later_def rises_def)
  have "ordered n (reached g M' ?V)"
    unfolding val using V v up by (cases l) (auto simp: view_ok_def ordered_def store_seen_def rises_def intro: le_trans)
  then show "view_ok g n M' ?V" using in_M by (simp add: view_ok_def)
qed

lemma last_message:
  assumes "latest X M" and "messages_ok X M" and "rising (base X) (cells (shared X)) M" and "rises (cells (shared X)) l"
    and "V l < length (M l)"
  shows "reached (base X) M V l \<le> pos (base X) (value_at l (shared X))"
proof -
  have r: "in_range (cells (shared X)) l" using assms(4) by (cases l) (auto simp: rises_def in_range_def)
  have ne: "M l \<noteq> []" and last: "content (last (M l)) = value_at l (shared X)" using assms(1) r by (auto simp: latest_def)
  have "reached (base X) M V l \<le> reached (base X) M (\<lambda>_. length (M l) - 1) l"
    by (rule reached_mono [OF assms(3,4)]) (use assms(5) ne in simp_all)
  then show ?thesis using last ne by (simp add: reached_def last_conv_nth)
qed

lemma stored_value_rises:
  "grows g s s' \<Longrightarrow> rises (cells s) l \<Longrightarrow> pos g (value_at l s) \<le> pos g (value_at l s')"
  by (cases l) (auto simp: grows_def rises_def cells_def cell_at_def)

text \<open>What a store does to messages and views.\<close>

lemma store_facts:
  assumes inv: "weak_inv nd W" and r: "reserved (core W) < 2 ^ 62"
    and adv: "advances nd t a (core W) X' x'"
    and st: "weak_store t (act_sync a (threads (core W) t) (shared (core W))) X' W = Some W'"
  defines "g \<equiv> base (core W)" and "b \<equiv> act_sync a (threads (core W) t) (shared (core W))"
    and "n \<equiv> cells (shared (core W))"
  shows "core W' = X'" and "\<And>u. u \<noteq> t \<Longrightarrow> view W' u = view W u" and "extends (msgs W) (msgs W')"
    and "\<And>l. \<not> writes b l \<Longrightarrow> msgs W' l = msgs W l"
    and "\<And>l. writes b l \<Longrightarrow> in_range n l \<and> view W' t l = length (msgs W l) \<and> msgs W' l = msgs W l @
      [\<lparr>content = value_at l (shared X'), carried = released X' l, sees = view W' t\<rparr>]"
    and "view_ok g n (msgs W') (view W' t)" and "later (reached g (msgs W) (view W t)) (reached g (msgs W') (view W' t))"
    and "\<And>l. view W t l \<le> view W' t l" and "writes b l \<Longrightarrow> reached g (msgs W') (view W' t) l = pos g (value_at l (shared X'))"
    and "\<And>j l. b = Some (AcqRel (Key j)) \<Longrightarrow> l \<noteq> Key j \<Longrightarrow> sees (last (msgs W (Key j))) l \<le> view W' t l"
proof -
  let ?X = "core W" and ?M = "msgs W" and ?V = "view W t"
  have I: "whole_inv nd ?X" "rising g n ?M" "latest ?X ?M" "messages_ok ?X ?M" "threads_ok W"
    using inv by (simp_all add: weak_inv_def g_def n_def)
  note F = whole_facts [OF I(1) r]
  have pre: "own_pre (threads ?X t) (shared ?X)" using F(7) [of t] by (simp add: ord_pre_def)
  have V: "view_ok g n ?M ?V" "local_seen g (threads ?X t) (reached g ?M ?V)" using I(5) by (simp_all add: threads_ok_def g_def n_def)
  have grow: "grows g (shared ?X) (shared X')" using adv by (simp add: advances_def g_def)
  have stored: "view_ok g n (msgs W') (view W' t) \<and> later (reached g ?M ?V) (reached g (msgs W') (view W' t)) \<and>
      reached g (msgs W') (view W' t) l = pos g (value_at l (shared X')) \<and> in_range n l"
    if W': "W' = leave t l V0 X' W" and V0: "view_ok g n ?M V0" "later (reached g ?M ?V) (reached g ?M V0)"
      and l: "writes b l" for l V0
  proof -
    have m: "msgs W' = ?M(l := ?M l @ [\<lparr>content = value_at l (shared X'), carried = released X' l, sees = V0(l := length (?M l))\<rparr>])"
      "view W' t = V0(l := length (?M l))" by (simp_all add: W' leave_def Let_def)
    have "act_result nd a (threads ?X t) (shared ?X) = Some (x', shared X')" using adv l by (auto simp: advances_def b_def)
    from act_store_seen [OF pre local_seen_later [OF V(2) V0(2)] this] l
    have s: "store_seen g n l (value_at l (shared X')) (reached g ?M V0)" by (simp add: b_def n_def)
    have "reached g ?M V0 l \<le> pos g (value_at l (shared X'))" if "rises n l"
    proof -
      have "V0 l < length (?M l)" using V0(1) by (simp add: view_ok_def)
      from last_message [OF I(3,4), of l V0] this that I(2) have "reached g ?M V0 l \<le> pos g (value_at l (shared ?X))"
        by (simp add: g_def n_def)
      with stored_value_rises [OF grow] that show ?thesis by (fastforce simp: n_def)
    qed
    note sv = store_view [OF V0(1) s this m(1)]
    show ?thesis using sv V0(2) s m(2) by (auto simp: later_def store_seen_def)
  qed
  show "core W' = X'" "\<And>u. u \<noteq> t \<Longrightarrow> view W' u = view W u"
    using st by (auto simp: leave_def Let_def elim!: weak_store.elims)
  consider (none) "b = None" "W' = W\<lparr>core := X'\<rparr>"
    | (store) l V0 where "writes b l" "W' = leave t l V0 X' W" "view_ok g n ?M V0"
      "later (reached g ?M ?V) (reached g ?M V0)" "\<And>l'. ?V l' \<le> V0 l'"
      "\<And>j l'. b = Some (AcqRel (Key j)) \<Longrightarrow> sees (last (?M (Key j))) l' \<le> V0 l'"
  proof -
    show thesis
    proof (cases b)
      case None
      then show thesis using st that(1) by (simp add: b_def [symmetric])
    next
      case (Some y)
      show thesis
      proof (cases y)
        case (Acquire l)
        then show thesis using st Some by (simp add: b_def [symmetric])
      next
        case (Release l)
        show thesis by (rule that(2) [of l ?V]) (use st Some Release V(1) in \<open>auto simp: b_def [symmetric] later_def\<close>)
      next
        case (AcqRel l)
        have ne: "?M l \<noteq> []" using I(3) by (simp add: latest_def)
        then have "view_ok g n ?M (sees (last (?M l)))"
          using I(4) by (simp add: messages_ok_def last_conv_nth g_def n_def)
        from view_join [OF I(2) V(1) this] show thesis
          by (intro that(2) [of l "join ?V (sees (last (?M l)))"])
            (use st Some AcqRel in \<open>auto simp: b_def [symmetric]\<close>)
      qed
    qed
  qed
  note how = this
  show "extends ?M (msgs W')" and "\<And>l. \<not> writes b l \<Longrightarrow> msgs W' l = ?M l"
    and "\<And>l. writes b l \<Longrightarrow> in_range n l \<and> view W' t l = length (msgs W l) \<and> msgs W' l = msgs W l @
      [\<lparr>content = value_at l (shared X'), carried = released X' l, sees = view W' t\<rparr>]"
    and "view_ok g n (msgs W') (view W' t)" and "later (reached g ?M ?V) (reached g (msgs W') (view W' t))"
    and "\<And>l. ?V l \<le> view W' t l" and "writes b l \<Longrightarrow> reached g (msgs W') (view W' t) l = pos g (value_at l (shared X'))"
    and "\<And>j l. b = Some (AcqRel (Key j)) \<Longrightarrow> l \<noteq> Key j \<Longrightarrow> sees (last (?M (Key j))) l \<le> view W' t l"
    subgoal by (cases rule: how) (auto simp: extends_def leave_def Let_def)
    subgoal for l by (cases rule: how) (auto simp: leave_def Let_def)
    subgoal for l' using stored by (cases rule: how) (auto simp: leave_def Let_def writes_def)
    subgoal using V(1) stored by (cases rule: how) auto
    subgoal using stored by (cases rule: how) (auto simp: later_def)
    subgoal for l' using V(1) by (cases rule: how) (auto simp: leave_def Let_def view_ok_def less_imp_le)
    subgoal using stored by (cases rule: how) (auto simp: writes_def)
    subgoal for j l' by (cases rule: how) (auto simp: leave_def Let_def writes_def)
    done
qed

lemma advances_same:
  assumes "advances nd t a X X' x'" and "own_pre (threads X t) (shared X)"
  shows "cells (shared X') = cells (shared X)" and "slot_of r (shared X') = slot_of r (shared X)"
    and "\<And>l. \<not> writes (act_sync a (threads X t) (shared X)) l \<Longrightarrow> value_at l (shared X') = value_at l (shared X)"
  using assms act_value [OF assms(2)]
  by (auto simp: advances_def grows_def cells_def own_step_def same_table_def slot_of_def)

lemma gen_value: "gen_of r s = value_at (Cell (unat (slot_of r s))) s"
  by (simp add: gen_of_def load_gen_def slot_at_def)

lemma settled_snoc:
  "settled c n ms \<Longrightarrow> is_suspended c \<Longrightarrow> is_suspended c' \<Longrightarrow> is_suspended (content m) \<Longrightarrow> settled c' n (ms @ [m])"
  by (auto simp: settled_def nth_append)

lemma settled_suspended: "settled c n ms \<Longrightarrow> is_suspended c \<Longrightarrow> is_suspended c' \<Longrightarrow> settled c' n ms"
  by (auto simp: settled_def)

lemma settled_new: "content m = c \<Longrightarrow> settled c (length ms) (ms @ [m])"
  by (auto simp: settled_def nth_append)

lemma stored_ok:
  assumes "whole_inv nd X'" and "reserved X' < 2 ^ 62" and "in_range (cells (shared X')) l"
    and "content m = value_at l (shared X')" and "carried m = released X' l"
  shows "message_ok (base X') (shared X') (hist X') l m"
  using whole_facts(2,12) [OF assms(1,2)] assms(3-)
  by (cases l) (simp_all add: ord_inv_def released_ok_def in_range_def cells_def cell_at_def)

text \<open>The messages and views after a store.\<close>

lemma store_messages:
  assumes inv: "weak_inv nd W" and r: "reserved (core W) < 2 ^ 62"
    and adv: "advances nd t a (core W) X' x'" and inv': "whole_inv nd X'" "base X' = base (core W)" "reserved X' < 2 ^ 62"
    and st: "weak_store t (act_sync a (threads (core W) t) (shared (core W))) X' W = Some W'"
  shows "messages_ok X' (msgs W')" and "latest X' (msgs W')"
    and "rising (base X') (cells (shared X')) (msgs W')"
proof -
  let ?X = "core W" and ?M = "msgs W" and ?M' = "msgs W'"
  let ?s = "shared ?X" and ?s' = "shared X'" and ?b = "act_sync a (threads (core W) t) (shared (core W))"
  have I: "whole_inv nd ?X" "rising (base ?X) (cells ?s) ?M" "latest ?X ?M" "messages_ok ?X ?M"
    using inv by (simp_all add: weak_inv_def)
  note F = whole_facts [OF I(1) r] and S = store_facts [OF inv r adv st]
  have pre: "own_pre (threads ?X t) ?s" using F(7) [of t] by (simp add: ord_pre_def)
  note same = advances_same [OF adv pre]
  have grow: "grows (base ?X) ?s ?s'" and rel: "\<And>l. \<not> writes ?b l \<Longrightarrow> released X' l = released ?X l"
    and h: "hist X' = hist ?X \<or> (\<exists>e. hist X' = hist ?X @ [e] \<and> fresh (base ?X) ?s e)"
    using adv by (auto simp: advances_def)
  have kept: "message_ok (base ?X) ?s' (hist X') l (?M l ! k) \<and> sees (?M l ! k) l = k \<and>
      view_ok (base ?X) (cells ?s) ?M' (sees (?M l ! k))" if "k < length (?M l)" for l k
  proof -
    have m: "message_ok (base ?X) ?s (hist ?X) l (?M l ! k)" "sees (?M l ! k) l = k"
        "view_ok (base ?X) (cells ?s) ?M (sees (?M l ! k))" using I(4) that by (simp_all add: messages_ok_def)
    have "message_ok (base ?X) ?s (hist X') l (?M l ! k)" using h m(1) message_snoc [OF m(1) _ F(2)] by auto
    then show ?thesis using message_grows [OF _ grow] view_extends [OF m(3) S(3)] m(2) by simp
  qed
  show "messages_ok X' ?M'" unfolding messages_ok_def
  proof (intro allI impI)
    fix l k assume k: "k < length (?M' l)"
    have "\<not> k < length (?M l) \<Longrightarrow> writes ?b l \<and> k = length (?M l)" using k S(4,5) by (cases "writes ?b l") auto
    then consider (old) "k < length (?M l)" | (new) "writes ?b l" "k = length (?M l)" by blast
    then show "message_ok (base X') ?s' (hist X') l (?M' l ! k) \<and> sees (?M' l ! k) l = k \<and>
        view_ok (base X') (cells ?s') ?M' (sees (?M' l ! k))"
    proof cases
      case old
      then show ?thesis using kept [OF old] extends_nth [OF S(3) old] same(1) inv'(2) by simp
    next
      case new
      note m = S(5) [OF new(1)]
      have "message_ok (base X') ?s' (hist X') l (?M' l ! k)"
        by (rule stored_ok [OF inv'(1,3)]) (use m same(1) new(2) in simp_all)
      then show ?thesis using m S(6) new(2) same(1) inv'(2) by simp
    qed
  qed
  show "latest X' ?M'" unfolding latest_def
  proof (intro allI)
    fix l
    show "?M' l \<noteq> [] \<and> carried (last (?M' l)) = released X' l \<and>
        (in_range (cells ?s') l \<longrightarrow> content (last (?M' l)) = value_at l ?s')"
      using I(3) S(4,5) [of l] same(1,3) rel by (cases "writes ?b l") (auto simp: latest_def)
  qed
  show "rising (base X') (cells ?s') ?M'" unfolding rising_def
  proof (intro allI impI)
    fix l assume "rises (cells ?s') l"
    then have l: "rises (cells ?s) l" using same(1) by simp
    then have s: "sorted (map (\<lambda>m. pos (base ?X) (content m)) (?M l))" using I(2) by (simp add: rising_def)
    show "sorted (map (\<lambda>m. pos (base X') (content m)) (?M' l))"
    proof (cases "writes ?b l")
      case True
      have "pos (base ?X) (content m) \<le> pos (base ?X) (value_at l ?s')" if "m \<in> set (?M l)" for m
      proof -
        have "\<exists>k < length (?M l). ?M l ! k = m" using that by (simp only: in_set_conv_nth)
        then obtain k where k: "k < length (?M l)" "?M l ! k = m" by blast
        have "reached (base ?X) ?M (\<lambda>_. k) l \<le> pos (base ?X) (value_at l ?s)"
          by (rule last_message [OF I(3,4,2) l k(1)])
        then show ?thesis using stored_value_rises [OF grow l] k(2) by (simp add: reached_def)
      qed
      then show ?thesis using s S(5) [OF True] inv'(2) by (auto simp: sorted_append)
    qed (use s S(4) inv'(2) in simp)
  qed
qed

lemma store_owners:
  assumes inv: "weak_inv nd W" and r: "reserved (core W) < 2 ^ 62"
    and adv: "advances nd t a (core W) X' x'" and inv': "whole_inv nd X'" "base X' = base (core W)" "reserved X' < 2 ^ 62"
    and st: "weak_store t (act_sync a (threads (core W) t) (shared (core W))) X' W = Some W'"
  shows "owners_ok W'" and "free_ok (shared X') (msgs W')"
proof -
  let ?X = "core W" and ?M = "msgs W" and ?M' = "msgs W'"
  let ?s = "shared ?X" and ?s' = "shared X'" and ?x = "threads (core W) t"
  let ?b = "act_sync a ?x ?s"
  have I: "whole_inv nd ?X" "owners_ok W" "free_ok ?s ?M" using inv by (simp_all add: weak_inv_def)
  note F = whole_facts [OF I(1) r] and F' = whole_facts [OF inv'(1,3)] and S = store_facts [OF inv r adv st]
  have pre: "own_pre ?x ?s" using F(7) [of t] by (simp add: ord_pre_def)
  note same = advances_same [OF adv pre]
  have th: "threads X' = (threads ?X)(t := x')" using adv by (simp add: advances_def)
  have res: "act_result nd a ?x ?s = Some (x', ?s') \<and> own_step ?x ?s (x', ?s')" if "writes ?b l" for l
    using adv that by (auto simp: advances_def)
  have free: "is_suspended (value_at (Cell j) v)" if "reg_inv v" "j < cells v" "value_at (Key j) v = EMPTY" for j and v :: "'a area"
    using that by (auto simp: reg_inv_def free_suspended_def cells_def)
  have reg: "reg_inv ?s" "reg_inv ?s'" using F(8) F'(8) by (simp_all add: own_inv_def)
  have own: "settled (gen_of q ?s) (view W u (Cell (unat (slot_of q ?s)))) (?M (Cell (unat (slot_of q ?s))))"
    if "owned (threads ?X u) = Some q" for u q using I(2) that by (simp add: owners_ok_def)
  show "owners_ok W'" unfolding owners_ok_def S(1)
  proof (intro allI impI)
    fix u q assume q: "owned (threads X' u) = Some q"
    let ?j = "unat (slot_of q ?s)"
    have j: "gen_of q ?s' = value_at (Cell ?j) ?s'" "gen_of q ?s = value_at (Cell ?j) ?s"
      by (simp_all add: gen_value same(2) del: value_at.simps)
    have "settled (gen_of q ?s') (view W' u (Cell ?j)) (?M' (Cell ?j))"
    proof (cases "u = t")
      case False
      then have u: "owned (threads ?X u) = Some q" "view W' u = view W u" using q th S(2) by simp_all
      show ?thesis
      proof (cases "writes ?b (Cell ?j)")
        case True
        note rs = res [OF True]
        have hq: "holds q ?s" "owned ?x \<noteq> Some q" using F(8) u(1) False by (auto simp: own_inv_def)
        then have und: "undisturbed q ?s ?s'" using rs by (auto simp: own_step_def)
        have "\<exists>r. owned ?x = Some r \<and> ?j = unat (slot_of r ?s) \<Longrightarrow> False"
        proof -
          assume "\<exists>r. owned ?x = Some r \<and> ?j = unat (slot_of r ?s)"
          then obtain r where r: "owned ?x = Some r" "slot_of q ?s = slot_of r ?s" by (auto simp: word_unat_eq_iff)
          then have "holds r ?s" "r \<noteq> q" using F(8) hq(2) by (auto simp: own_inv_def)
          with slots_differ hq(1) r(2) show False by metis
        qed
        then have susp: "is_suspended (gen_of q ?s)" using cell_store [OF pre _ True] rs j by auto
        then have "is_suspended (gen_of q ?s')" using und by (simp add: undisturbed_def)
        then show ?thesis using settled_snoc [OF own [OF u(1)] susp] S(5) [OF True] u(2) j(1)
          by (simp del: value_at.simps)
      next
        case False
        then show ?thesis using own [OF u(1)] u(2) S(4) [OF False] same(3) [OF False] j by simp
      qed
    next
      case True
      then have q: "owned x' = Some q" using q th by simp
      show ?thesis
      proof (cases "writes ?b (Cell ?j)")
        case wr: True
        from S(5) [OF wr] show ?thesis using settled_new j(1) True by simp
      next
        case not: False
        have keep: ?thesis if "settled (gen_of q ?s) n (?M (Cell ?j))" "n \<le> view W' t (Cell ?j)" for n
          using settled_mono [OF that] True S(4) [OF not] same(3) [OF not] j by simp
        have "owned ?x = Some q \<or> (act_result nd a ?x ?s = Some (x', ?s') \<and> owned ?x \<noteq> Some q)"
          using adv q by (auto simp: advances_def)
        then show ?thesis
        proof
          assume "owned ?x = Some q"
          from keep [OF own [OF this]] S(8) True show ?thesis by simp
        next
          assume a: "act_result nd a ?x ?s = Some (x', ?s') \<and> owned ?x \<noteq> Some q"
          with new_owner [OF pre _ q] have n: "?b = Some (AcqRel (Key ?j))" "?j < cells ?s" "value_at (Key ?j) ?s = EMPTY"
            by auto
          then have "settled (cell_at ?j ?s) (sees (last (?M (Key ?j))) (Cell ?j)) (?M (Cell ?j))"
            using I(3) by (simp add: free_ok_def)
          from keep [of "sees (last (?M (Key ?j))) (Cell ?j)"] this S(10) [OF n(1), of "Cell ?j"] j(2)
          show ?thesis by (simp add: cell_at_def)
        qed
      qed
    qed
    then show "settled (gen_of q ?s') (view W' u (Cell (unat (slot_of q ?s')))) (?M' (Cell (unat (slot_of q ?s'))))"
      using same(2) by simp
  qed
  show "free_ok ?s' ?M'" unfolding free_ok_def
  proof (intro allI impI)
    fix j assume j': "j < cells ?s'" and k: "value_at (Key j) ?s' = EMPTY"
    then have j: "j < cells ?s" using same(1) by simp
    have c': "is_suspended (cell_at j ?s')" using free [OF reg(2) j' k] by (simp add: cell_at_def)
    show "settled (cell_at j ?s') (sees (last (?M' (Key j))) (Cell j)) (?M' (Cell j))"
    proof (cases "writes ?b (Key j)")
      case True
      then obtain r where r: "owned ?x = Some r" "j = unat (slot_of r ?s)" "is_suspended (gen_of r ?s)"
        using key_store [OF pre _ True k] res by blast
      have "\<not> writes ?b (Cell j)" using True by (auto simp: writes_def)
      then have m: "?M' (Cell j) = ?M (Cell j)" "sees (last (?M' (Key j))) = view W' t" using S(4,5) True by simp_all
      from settled_mono [OF own [OF r(1)]] S(8) r(2)
      have "settled (gen_of r ?s) (view W' t (Cell j)) (?M (Cell j))" by simp
      from settled_suspended [OF this r(3) c'] show ?thesis by (simp add: m)
    next
      case False
      then have k0: "value_at (Key j) ?s = EMPTY" using k same(3) [OF False] by simp
      have c: "is_suspended (cell_at j ?s)" using free [OF reg(1) j k0] by (simp add: cell_at_def)
      have s: "settled (cell_at j ?s) (sees (last (?M (Key j))) (Cell j)) (?M (Cell j))" using I(3) j k0 by (simp add: free_ok_def)
      show ?thesis
      proof (cases "writes ?b (Cell j)")
        case wr: True
        then show ?thesis using settled_snoc [OF s c c'] c' S(4) [OF False] S(5) [OF wr] by (simp add: cell_at_def)
      next
        case not: False
        then show ?thesis using settled_suspended [OF s c c'] S(4) [OF False] S(4) [OF not] by simp
      qed
    qed
  qed
qed

lemma store_inv:
  assumes inv: "weak_inv nd W" and r: "reserved (core W) < 2 ^ 62" and look: "looks_ok (t, a) (core W)"
    and exec: "weak_exec nd (t, a, None) W = Some W'" and r': "reserved (core W') < 2 ^ 62"
  shows "weak_inv nd W'" and "base (core W') = base (core W)"
proof -
  let ?X = "core W" and ?x = "threads (core W) t" and ?b = "act_sync a (threads (core W) t) (shared (core W))"
  obtain X' where al: "act_allowed a t W" and ex: "race_exec nd (t, a) ?X = Some X'" and st: "weak_store t ?b X' W = Some W'"
    using exec by (auto split: if_splits option.splits)
  have I: "whole_inv nd ?X" "threads_ok W" using inv by (simp_all add: weak_inv_def)
  obtain x' where adv: "advances nd t a ?X X' x'" using exec_advances [OF I(1) r look ex] by blast
  note S = store_facts [OF inv r adv st] and F = whole_facts [OF I(1) r]
  have pre: "own_pre ?x (shared ?X)" using F(7) [of t] by (simp add: ord_pre_def)
  have w: "whole_inv nd X'" "base X' = base ?X" using whole_step [OF I(1) r look ex] by simp_all
  show "base (core W') = base ?X" using w S(1) by simp
  have r'': "reserved X' < 2 ^ 62" using r' S(1) by simp
  note same = advances_same [OF adv pre]
  have th: "threads X' = (threads ?X)(t := x')" using adv by (simp add: advances_def)
  have V: "view_ok (base ?X) (cells (shared ?X)) (msgs W) (view W u)"
    "local_seen (base ?X) (threads ?X u) (reached (base ?X) (msgs W) (view W u))" for u
    using I(2) by (simp_all add: threads_ok_def)
  have mine: "local_seen (base ?X) x' (reached (base ?X) (msgs W') (view W' t))"
  proof (cases "act_result nd a ?x (shared ?X) = Some (x', shared X')")
    case True
    show ?thesis
    proof (rule act_seen_local [OF pre V(2) True _ S(7)])
      show "?b \<noteq> Some (Acquire l)" for l using st by auto
      show "reached (base ?X) (msgs W') (view W' t) WriteGen = pos (base ?X) (write_gen (shared X'))"
        if "writes ?b WriteGen" using S(9) [OF that] by simp
      show "pos (base ?X) v \<le> reached (base ?X) (msgs W) (view W t) ReadGen" if "a = Call (Operate (ResumeAt v))" for v
        using al that by (simp add: reached_def)
    qed
  next
    case False
    then have "x' = ?x" using adv by (auto simp: advances_def)
    then show ?thesis using local_seen_later [OF V(2) S(7)] by simp
  qed
  have "threads_ok W'" unfolding threads_ok_def
  proof
    fix u
    show "view_ok (base (core W')) (cells (shared (core W'))) (msgs W') (view W' u) \<and>
        local_seen (base (core W')) (threads (core W') u) (reached (base (core W')) (msgs W') (view W' u))"
      using S(1,2,6) w th same(1) mine V [of u] view_extends [OF V(1) S(3), of u] by (cases "u = t") simp_all
  qed
  then show "weak_inv nd W'"
    using store_messages [OF inv r adv w r'' st] store_owners [OF inv r adv w r'' st] w S(1)
    by (simp add: weak_inv_def)
qed

end
