(* ===== verification/Weak_Safety.thy ===== *)
theory Weak_Safety
  imports Weak_Order
begin

text \<open>
  What the invariant of \<open>Weak_Order\<close> gives a user of the ring, however old the values are that
  loads find.  The lemmas of \<open>Machine_Safety\<close> ask for the invariants of a state only
  (\<open>safe_state\<close>), not for the machine that reached it, and hold here too.
\<close>

section \<open>Runs\<close>

lemma weak_start_inv:
  assumes s: "start_ok g bc rc" and ring: "ring_ok g (unat bc)"
  shows "weak_inv nd (weak_start g bc rc)"
proof -
  let ?W = "weak_start g bc rc :: 'a wsys" and ?s = "area_at g bc rc :: 'a area"
  have core: "core ?W = race_start g bc rc" and sh: "shared (core ?W) = ?s" and b: "base (core ?W) = g"
    and th: "threads (core ?W) = (\<lambda>_. Idle)" and h: "hist (core ?W) = []" "released (core ?W) = (\<lambda>_. {})"
    by (simp_all add: weak_start_def race_start_def sys.defs start_at_def)
  have m: "msgs ?W l = [\<lparr>content = value_at l ?s, carried = {}, sees = (\<lambda>_. 0)\<rparr>]" "view ?W t l = 0" for l t
    by (simp_all add: weak_start_def)
  have at: "pos g (value_at l ?s) = 0" if "rises (cells ?s) l" for l
    using that by (cases l) (simp_all add: area_at_def rises_def cells_def with_capacity_and_init_def SUSPENDED_BIT_eq)
  have at0: "reached g (msgs ?W) (\<lambda>_. 0) l = 0" if "rises (cells ?s) l" for l
    using at [OF that] by (simp add: reached_def m(1))
  have ord: "ordered (cells ?s) (reached g (msgs ?W) (\<lambda>_. 0))" by (simp add: ordered_def at0 rises_def)
  have view: "view_ok g (cells ?s) (msgs ?W) (\<lambda>_. 0)" using ord by (simp add: view_ok_def m(1))
  have "message_ok g ?s [] l (msgs ?W l ! 0)" for l
  proof -
    have "masked g" using s by (simp add: start_ok_def masked_def)
    then show ?thesis using m(1) [of l]
      by (cases l) (simp_all add: caught_def saw_reads_def knows_def, simp_all add: area_at_def cell_at_def)
  qed
  then have "messages_ok (core ?W) (msgs ?W)" using view by (simp add: messages_ok_def sh b h m(1))
  moreover have "rising g (cells ?s) (msgs ?W)" by (simp add: rising_def m(1))
  moreover have "latest (core ?W) (msgs ?W)" by (simp add: latest_def sh h m(1))
  moreover have "threads_ok ?W"
  proof -
    have "view ?W t = (\<lambda>_. 0)" for t using m(2) by (simp add: fun_eq_iff)
    then show ?thesis using view by (simp add: threads_ok_def sh b th)
  qed
  moreover have "owners_ok ?W" by (simp add: owners_ok_def th)
  moreover have "free_ok ?s (msgs ?W)" by (simp add: free_ok_def settled_def m(1) cell_at_def)
  moreover have "whole_inv nd (core ?W)" unfolding core by (rule whole_start [OF s ring])
  ultimately show ?thesis by (simp add: weak_inv_def sh b)
qed

lemma weak_exec_reserved:
  assumes "weak_exec nd (t, a, c) W = Some W'"
  shows "reserved (core W) \<le> reserved (core W')"
proof (cases c)
  case None
  then obtain X where X: "race_exec nd (t, a) (core W) = Some X"
      "weak_store t (act_sync a (threads (core W) t) (shared (core W))) X W = Some W'"
    using assms by (auto split: if_splits option.splits)
  then have "core W' = X" by (auto simp: leave_def Let_def elim!: weak_store.elims)
  with race_reserved [OF X(1)] show ?thesis by simp
next
  case (Some lk)
  then show ?thesis using assms by (cases lk) (auto simp: Let_def split: if_splits)
qed

lemma weak_exec_inv:
  assumes "weak_inv nd W" and "looks_ok (t, a) (core W)" and "weak_exec nd (t, a, c) W = Some W'"
    and "reserved (core W') < 2 ^ 62"
  shows "weak_inv nd W' \<and> base (core W') = base (core W)"
proof -
  have r: "reserved (core W) < 2 ^ 62" using weak_exec_reserved [OF assms(3)] assms(4) by simp
  show ?thesis
  proof (cases c)
    case None
    then show ?thesis using store_inv [OF assms(1) r assms(2) _ assms(4)] assms(3) by simp
  next
    case (Some lk)
    then show ?thesis using load_inv [OF assms(1) r] assms(3) by (cases lk) blast
  qed
qed

lemma weak_run_reserved: "weak_run nd es W = Some W' \<Longrightarrow> reserved (core W) \<le> reserved (core W')"
proof (induction es arbitrary: W)
  case (Cons e es)
  obtain t a c where e: "e = (t, a, c)" by (cases e)
  from Cons.prems e obtain V where V: "weak_exec nd (t, a, c) W = Some V" "weak_run nd es V = Some W'"
    by (auto simp del: weak_exec.simps split: option.splits)
  from weak_exec_reserved [OF V(1)] Cons.IH [OF V(2)] show ?case by simp
qed simp

lemma weak_run_inv:
  assumes "weak_inv nd W" and "weak_run nd es W = Some W'" and "weak_looks nd es W" and "reserved (core W') < 2 ^ 62"
  shows "weak_inv nd W' \<and> base (core W') = base (core W)"
  using assms
proof (induction es arbitrary: W)
  case (Cons e es)
  obtain t a c where e: "e = (t, a, c)" by (cases e)
  from Cons.prems(2,3) e obtain V where V: "weak_exec nd (t, a, c) W = Some V" "weak_run nd es V = Some W'"
      "looks_ok (t, a) (core W)" "weak_looks nd es V"
    by (auto simp del: weak_exec.simps looks_ok.simps split: option.splits)
  have "reserved (core V) < 2 ^ 62" using weak_run_reserved [OF V(2)] Cons.prems(4) by simp
  note i = weak_exec_inv [OF Cons.prems(1) V(3,1) this]
  from Cons.IH [OF _ V(2,4) Cons.prems(4)] i show ?case by simp
qed simp

lemma no_looks: "\<forall>e \<in> set es. \<forall>k. fst (snd e) \<noteq> Look k \<Longrightarrow> weak_looks nd es W"
proof (induction es arbitrary: W)
  case (Cons e es W)
  obtain t a c where e: "e = (t, a, c)" by (cases e)
  have "looks_ok (t, a) (core W)" using Cons.prems e by (cases a) auto
  moreover have "weak_looks nd es V" for V using Cons by simp
  ultimately show ?case using e by (simp del: weak_exec.simps split: option.splits)
qed simp

text \<open>A state of a run, as \<open>run_of\<close>.\<close>

definition weak_run_of :: "bool \<Rightarrow> gen \<Rightarrow> usize \<Rightarrow> usize \<Rightarrow> 'a wsys \<Rightarrow> bool" where
  "weak_run_of nd g bc rc W \<longleftrightarrow> start_ok g bc rc \<and> ring_ok g (unat bc) \<and> reserved (core W) < 2 ^ 62 \<and>
     (\<exists>es. weak_run nd es (weak_start g bc rc) = Some W \<and> weak_looks nd es (weak_start g bc rc))"

lemma weak_run_ofD:
  assumes "weak_run_of nd g bc rc W"
  shows "weak_inv nd W" and "base (core W) = g" and "safe_state nd g (buffer_capacity (shared (core W))) (sys.truncate (core W))"
proof -
  from assms obtain es where s: "start_ok g bc rc" "ring_ok g (unat bc)" and r: "reserved (core W) < 2 ^ 62"
    and es: "weak_run nd es (weak_start g bc rc) = Some W" "weak_looks nd es (weak_start g bc rc)"
    by (auto simp: weak_run_of_def)
  have b: "base (core (weak_start g bc rc)) = g" by (simp add: weak_start_def)
  show "weak_inv nd W" and "base (core W) = g" using weak_run_inv [OF weak_start_inv [OF s] es r] b by simp_all
  then show "safe_state nd g (buffer_capacity (shared (core W))) (sys.truncate (core W))"
    using r by (simp add: weak_inv_def whole_inv_def safe_state_def)
qed

text \<open>
  A plain store to a private generation is made by an active owner, who has seen the last
  message there: no other place in the order of the messages is open to it.
\<close>

lemma owner_at_last:
  assumes "weak_inv nd W" and "owned (threads (core W) t) = Some r" and "\<not> is_suspended (gen_of r (shared (core W)))"
  defines "l \<equiv> Cell (unat (slot_of r (shared (core W))))"
  shows "Suc (view W t l) = length (msgs W l)"
proof -
  have "settled (gen_of r (shared (core W))) (view W t l) (msgs W l)" and "view W t l < length (msgs W l)"
    using assms(1,2) by (simp_all add: weak_inv_def owners_ok_def threads_ok_def view_ok_def l_def)
  then show ?thesis using assms(3) by (auto simp: settled_def)
qed

section \<open>Safety\<close>

text \<open>
  C3: under the release and acquire memory model, where every load may find any value that is
  not older than what its thread has seen, there is no data race on the slots of the ring: any two
  accesses to a slot of which one writes or drops a message are ordered by the
  synchronisation of the atomics.
\<close>
theorem weak_no_data_races:
  assumes "weak_run_of nd g bc rc W"
  shows "\<not> race (core W)"
  using weak_run_ofD(1) [OF assms] by (simp add: weak_inv_def whole_inv_def race_inv_def)

text \<open>
  One slot: cleanup 2 finds an old \<open>read_gen\<close> and does nothing, then the new one and drops the
  message; writer 3 finds an old \<open>free_gen\<close> and no room, then the new one.
\<close>

definition demo_old :: "(nat \<times> nat act \<times> (loc \<times> nat) option) list" where
  "demo_old =
    [(0, Call (Reserve False 1), Some (FreeGen, 0)), (0, Step, Some (WriteGen, 0)), (0, Step, None),
       (0, Call (Write 7), None), (0, Call Publish, None),
     (2, Call Cleanup, Some (LastValidGen, 0)), (2, Step, Some (ReadGen, 0)),
     (2, Call Cleanup, Some (LastValidGen, 0)), (2, Step, Some (ReadGen, 1)), (2, Step, Some (Cell 0, 0)),
       (2, Step, None), (2, Step, None), (2, Step, None), (2, Step, None), (2, Step, None), (2, Step, None),
     (3, Call (Reserve False 1), Some (FreeGen, 0)), (3, Step, Some (WriteGen, 1)), (3, Step, None),
     (3, Call (Reserve False 1), Some (FreeGen, 1)), (3, Step, Some (WriteGen, 1)), (3, Step, None),
       (3, Call (Write 8), None)]"

lemma weak_no_data_races_witness:
  "\<exists>W. weak_run True demo_old (weak_start 0 1 1) = Some W \<and> hist (core W) = [WriteAt 0, DropAt 0, WriteAt 1] \<and>
     \<not> race (core W)"
proof -
  have "case weak_run True demo_old (weak_start 0 1 1) of
      Some W \<Rightarrow> hist (core W) = [WriteAt 0, DropAt 0, WriteAt 1] \<and> reserved (core W) = 2 | None \<Rightarrow> False"
    by code_simp
  then obtain W where W: "weak_run True demo_old (weak_start 0 1 1) = Some W"
      "hist (core W) = [WriteAt 0, DropAt 0, WriteAt 1]" "reserved (core W) = 2" by (auto split: option.splits)
  have "weak_looks True demo_old (weak_start 0 1 1)" by (rule no_looks) (simp add: demo_old_def)
  moreover have "start_ok 0 1 1" by (simp add: start_ok_def, code_simp)
  moreover have "ring_ok 0 (unat (1 :: usize))" by (simp add: ring_ok_def)
  ultimately have "weak_run_of True 0 1 1 W" using W by (auto simp: weak_run_of_def)
  from weak_no_data_races [OF this] W show ?thesis by blast
qed

text \<open>
  C4: under that memory model a slice held by an active reader shows the messages published at
  its positions, every slot initialised, even when the loads of the reader, of the writers and
  of the cleanups found old values.
\<close>
theorem weak_slices_are_live:
  assumes run: "weak_run_of nd g bc rc W" and x: "threads (core W) t = Slice r st en"
    and c: "get_reader_gen r (shared (core W)) = Some c" "\<not> is_suspended c"
    and k: "k < unat (gen_dist_msb_masked en st)"
  shows "get_slot (gen_add_msb_masked st (of_nat k)) (shared (core W)) = Init (log (core W) ! (pos g st + k))
    \<and> pos g st + k < length (log (core W))"
  using safe_slice_is_live [OF weak_run_ofD(3) [OF run], of t r st en c k] x c k by simp

text \<open>
  Two messages are published; the reader finds an old \<open>read_gen\<close>, so that its slice covers only the
  first.
\<close>

definition demo_short :: "(nat \<times> nat act \<times> (loc \<times> nat) option) list" where
  "demo_short =
    [(1, Call (Register 1), None), (1, Step, Some (Key 1, 0)), (1, Step, None), (1, Step, None),
       (1, Step, Some (Cell 1, 0)), (1, Step, None),
     (0, Call (Reserve False 1), Some (FreeGen, 0)), (0, Step, Some (WriteGen, 0)), (0, Step, None),
       (0, Call (Write 7), None), (0, Call Publish, None),
     (0, Call (Reserve False 1), Some (FreeGen, 0)), (0, Step, Some (WriteGen, 1)), (0, Step, None),
       (0, Call (Write 8), None), (0, Call Publish, None),
     (1, Call (Operate GetGen), None), (1, Step, Some (Key 1, 2)), (1, Step, Some (Cell 1, 1)), (1, Step, None),
       (1, Step, Some (ReadGen, 1))]"

lemma weak_slices_are_live_witness:
  "\<exists>W :: nat wsys. weak_run_of True (2 ^ 63 - 1) 2 2 W \<and> threads (core W) 1 = Slice 1 (2 ^ 63 - 1) 0 \<and>
     get_slot (gen_add_msb_masked (2 ^ 63 - 1) (of_nat 0)) (shared (core W)) = Init (log (core W) ! 0) \<and>
     log (core W) = [7, 8]"
proof -
  have "case weak_run True demo_short (weak_start (2 ^ 63 - 1) 2 2) of
      Some W \<Rightarrow> threads (core W) 1 = Slice 1 (2 ^ 63 - 1) 0 \<and>
        get_reader_gen 1 (shared (core W)) = Some (2 ^ 63 - 1) \<and> log (core W) = [7, 8] \<and> reserved (core W) = 2
    | None \<Rightarrow> False" by code_simp
  then obtain W :: "nat wsys" where W: "weak_run True demo_short (weak_start (2 ^ 63 - 1) 2 2) = Some W"
      "threads (core W) 1 = Slice 1 (2 ^ 63 - 1) 0" "get_reader_gen 1 (shared (core W)) = Some (2 ^ 63 - 1)"
      "log (core W) = [7, 8]" "reserved (core W) = 2" by (auto split: option.splits)
  have "weak_looks True demo_short (weak_start (2 ^ 63 - 1) 2 2)" by (rule no_looks) (simp add: demo_short_def)
  then have run: "weak_run_of True (2 ^ 63 - 1) 2 2 W" using W demo_start by (auto simp: weak_run_of_def)
  have "\<not> is_suspended (2 ^ 63 - 1 :: gen)" "0 < unat (gen_dist_msb_masked 0 (2 ^ 63 - 1 :: gen))" by code_simp+
  from weak_slices_are_live [OF run W(2,3) this] run W(2,4) show ?thesis
    by (intro exI [of _ W]) (simp del: of_nat_0)
qed

text \<open>
  C10: under that memory model two reservations held at the same time share no slot of the ring, and
  every message dropped is a published one below \<open>last_valid_gen\<close>, dropped at most once.
\<close>
theorem weak_slots_are_exclusive:
  assumes run: "weak_run_of nd g bc rc W" and ne: "t \<noteq> u"
    and x: "threads (core W) t = Writing st en ms" "threads (core W) u = Writing st' en' ms'"
    and i: "i < unat (gen_dist_msb_masked en st)" and j: "j < unat (gen_dist_msb_masked en' st')"
  shows "slot_index (gen_add_msb_masked st (of_nat i)) (shared (core W))
      \<noteq> slot_index (gen_add_msb_masked st' (of_nat j)) (shared (core W))
    \<and> mset (dropped (shared (core W)))
      \<subseteq># mset (map Init (take (pos g (last_valid_gen (shared (core W)))) (log (core W))))"
proof -
  note safe = weak_run_ofD(3) [OF run]
  show ?thesis
    using safe_reservations_disjoint [OF safe ne, of st en ms st' en' ms' i j] safe_drops_at_most_once [OF safe] x i j
    by simp
qed

text \<open>
  Cleanup 2 drops the first message; then writers 0 and 3 reserve one slot each, of which the first is that
  of the dropped message.
\<close>

definition demo_two :: "(nat \<times> nat act \<times> (loc \<times> nat) option) list" where
  "demo_two = take 16 demo_old @
    [(0, Call (Reserve False 1), Some (FreeGen, 1)), (0, Step, Some (WriteGen, 1)), (0, Step, None),
     (3, Call (Reserve False 1), Some (FreeGen, 1)), (3, Step, Some (WriteGen, 2)), (3, Step, None)]"

lemma weak_slots_are_exclusive_witness:
  "\<exists>W :: nat wsys. weak_run_of True 0 2 1 W \<and> threads (core W) 0 = Writing 1 2 [] \<and>
     threads (core W) 3 = Writing 2 3 [] \<and> dropped (shared (core W)) = [Init 7] \<and>
     slot_index (gen_add_msb_masked 1 (of_nat 0)) (shared (core W))
       \<noteq> slot_index (gen_add_msb_masked 2 (of_nat 0)) (shared (core W))"
proof -
  have "case weak_run True demo_two (weak_start 0 2 1) of
      Some W \<Rightarrow> threads (core W) 0 = Writing 1 2 [] \<and> threads (core W) 3 = Writing 2 3 [] \<and>
        dropped (shared (core W)) = [Init 7] \<and> reserved (core W) = 3
    | None \<Rightarrow> False" by code_simp
  then obtain W :: "nat wsys" where W: "weak_run True demo_two (weak_start 0 2 1) = Some W"
      "threads (core W) 0 = Writing 1 2 []" "threads (core W) 3 = Writing 2 3 []"
      "dropped (shared (core W)) = [Init 7]" "reserved (core W) = 3" by (auto split: option.splits)
  have "weak_looks True demo_two (weak_start 0 2 1)" by (rule no_looks) (simp add: demo_two_def demo_old_def)
  moreover have "start_ok 0 2 1" by (simp add: start_ok_def, code_simp)
  moreover have "ring_ok 0 (unat (2 :: usize))" by (simp add: ring_ok_def)
  ultimately have run: "weak_run_of True 0 2 1 W" using W by (auto simp: weak_run_of_def)
  have "0 < unat (gen_dist_msb_masked 2 (1 :: gen))" "0 < unat (gen_dist_msb_masked 3 (2 :: gen))" by code_simp+
  from weak_slots_are_exclusive [OF run _ W(2,3) this] run W show ?thesis
    by (intro exI [of _ W]) (simp del: of_nat_0)
qed

text \<open>
  The debug assertions of reserving and registering hold under that memory model: the \<open>free_gen\<close> a
  writer found never exceeds the \<open>write_gen\<close> it found afterwards, and a reader on its way in only
  ever finds suspended values in its cell.
\<close>
theorem weak_assertions_hold:
  assumes run: "weak_run_of nd g bc rc W"
  shows "(threads (core W) t = ReserveGrab be n cf cw \<longrightarrow> gen_lte_msb_masked cf cw)
    \<and> (threads (core W) t = EnterCas r p c \<longrightarrow> is_suspended c)"
proof -
  note safe = weak_run_ofD(3) [OF run]
  have "window g (shared (core W))" using safeD(5) [OF safe] by simp
  moreover have "local_ord g (threads (core W) t) (shared (core W))" using safe_local [OF safe, of t] by simp
  moreover have "local_own (threads (core W) t) (shared (core W))" using safeD(4) [OF safe] by (simp add: own_inv_def)
  ultimately show ?thesis by (auto simp: window_def lte_pos64 [of g])
qed

text \<open>
  Writer 0 finds an old \<open>write_gen\<close> after the new \<open>free_gen\<close>, and reader 1 is about to enter.
\<close>

definition demo_stale :: "(nat \<times> nat act \<times> (loc \<times> nat) option) list" where
  "demo_stale = take 16 demo_old @
    [(0, Call (Reserve False 1), Some (FreeGen, 1)), (0, Step, Some (WriteGen, 1)), (0, Step, None),
     (3, Call (Reserve False 1), Some (FreeGen, 1)), (3, Step, Some (WriteGen, 1)),
     (1, Call (Register 1), None), (1, Step, Some (Key 0, 0)), (1, Step, None), (1, Step, None),
       (1, Step, Some (Cell 0, 0))]"

lemma weak_assertions_hold_witness:
  "\<exists>W :: nat wsys. weak_run_of True 0 2 1 W \<and> threads (core W) 3 = ReserveGrab False 1 1 1 \<and>
     write_gen (shared (core W)) = 2 \<and> gen_lte_msb_masked (1 :: gen) 1 \<and>
     threads (core W) 1 = EnterCas 1 0 MSB \<and> cell_at 0 (shared (core W)) \<noteq> MSB"
proof -
  have "case weak_run True demo_stale (weak_start 0 2 1) of
      Some W \<Rightarrow> threads (core W) 3 = ReserveGrab False 1 1 1 \<and> write_gen (shared (core W)) = 2 \<and>
        threads (core W) 1 = EnterCas 1 0 MSB \<and> cell_at 0 (shared (core W)) = 1 OR MSB \<and> reserved (core W) = 2
    | None \<Rightarrow> False" by code_simp
  then obtain W :: "nat wsys" where W: "weak_run True demo_stale (weak_start 0 2 1) = Some W"
      "threads (core W) 3 = ReserveGrab False 1 1 1" "write_gen (shared (core W)) = 2"
      "threads (core W) 1 = EnterCas 1 0 MSB" "cell_at 0 (shared (core W)) = 1 OR MSB" "reserved (core W) = 2"
    by (auto split: option.splits)
  have "weak_looks True demo_stale (weak_start 0 2 1)" by (rule no_looks) (simp add: demo_stale_def demo_old_def)
  moreover have "start_ok 0 2 1" by (simp add: start_ok_def, code_simp)
  moreover have "ring_ok 0 (unat (2 :: usize))" by (simp add: ring_ok_def)
  ultimately have run: "weak_run_of True 0 2 1 W" using W by (auto simp: weak_run_of_def)
  have "(1 :: gen) OR MSB \<noteq> MSB" by code_simp
  with weak_assertions_hold [OF run, of 3 False 1 1 1] run W show ?thesis by (intro exI [of _ W]) simp
qed

text \<open>
  A publish in turn may fail, when its exchange finds an old \<open>read_gen\<close>; the caller tries again.
\<close>

definition demo_publish :: "(nat \<times> nat act \<times> (loc \<times> nat) option) list" where
  "demo_publish =
    [(0, Call (Reserve False 1), Some (FreeGen, 0)), (0, Step, Some (WriteGen, 0)), (0, Step, None),
     (3, Call (Reserve False 1), Some (FreeGen, 0)), (3, Step, Some (WriteGen, 1)), (3, Step, None),
     (0, Call (Write 7), None), (0, Call Publish, None), (3, Call (Write 8), None),
     (3, Call Publish, Some (ReadGen, 0))]"

lemma publish_in_turn_can_fail:
  "case weak_run True demo_publish (weak_start 0 2 1) of
     Some W \<Rightarrow> threads (core W) 3 = Writing 1 2 [8] \<and> read_gen (shared (core W)) = 1 \<and> log (core W) = [7]
   | None \<Rightarrow> False"
  by code_simp

end
