(* ===== verification/Weak_Coverage.thy ===== *)
theory Weak_Coverage
  imports Weak_Safety
begin

text \<open>
  The machine with old values has all the runs of the one without: a load may always find the
  last message, and is then the load of \<open>Memory_Orders\<close>.
\<close>

section \<open>Loads of the last message\<close>

lemma acquire_in_range:
  assumes pre: "own_pre x s" and l: "act_sync a x s = Some (Acquire l)"
  shows "in_range (cells s) l"
proof -
  have slot: "unat (slot_of r s) < cells s" for r using pre_slot [OF pre] by (simp add: cells_def)
  show ?thesis
  proof (cases a)
    case Step
    have idx: "unat ((ky + i) AND mask_of (reader_gens s)) < cells s" for ky i
      using pre_inv [OF pre] by (auto simp: map_inv_def index_less cells_def)
    show ?thesis
    proof (cases x)
      case (OpAct r p c oper)
      then show ?thesis using l Step pre slot [of r]
        by (cases oper) (auto simp: own_pre_def in_range_def exchange_Acquire split: if_splits)
    qed (use l Step pre slot idx in \<open>auto simp: own_pre_def in_range_def raw_slots_def cells_def index_slot
        exchange_Acquire Let_def split: if_splits\<close>)
  next
    case (Call c)
    then show ?thesis using l
      by (auto simp: call_sync_def in_range_def exchange_Acquire split: call.splits pc.splits if_splits)
  qed (use l in simp)
qed

lemma acquire_same:
  assumes l: "act_sync a x s = Some (Acquire l)" and res: "act_result nd a x s = Some (x', s')"
  shows "s' = s"
proof (cases a)
  case Step
  show ?thesis
  proof (cases x)
    case (ReserveGrab be n cf cw)
    then show ?thesis using Step l res
      by (auto simp: best_effort_from_def reserve_from_def grab_Cas Let_def exchange_Acquire split: if_splits)
  next
    case (OpAct r p c oper)
    then show ?thesis using Step l res
      by (cases oper) (auto simp: resume_turn_def resume_at_turn_def exchange_Acquire cas_gen_miss split: if_splits)
  next
    case (OpLookup r oper)
    then show ?thesis using Step res by (auto split: option.splits reader_op.splits)
  next
    case (ProbeCas ky i idx k)
    then show ?thesis using Step l res
      by (auto simp: goi_turn_def compare_exchange_def exchange_Acquire Let_def split: if_splits)
  next
    case (RemoveCas r k)
    then show ?thesis using Step l res
      by (auto simp: remove_turn_def compare_exchange_def exchange_Acquire Let_def split: if_splits)
  next
    case (Finish r p)
    then show ?thesis using Step l res by (auto simp: finish_init_at_eq exchange_Acquire)
  qed (use Step l res in \<open>auto simp: scan_turn_def enter_turn_def claim_turn_def free_turn_def cas_gen_miss
      exchange_Acquire split: if_splits\<close>)
next
  case (Call c)
  then have "call_step c x s = Some (x', s')" using res by simp
  then show ?thesis using l Call
    by (cases rule: call_step_cases) (auto simp: call_sync_def exchange_Acquire split: if_splits elim: publish_cases)
qed (use l in simp)

lemma acquire_no_access:
  assumes "act_sync a x s = Some (Acquire l)"
  shows "a = Step \<longrightarrow> step_access nd x = None" and "a = Call c \<longrightarrow> call_access c x = None"
proof -
  show "a = Step \<longrightarrow> step_access nd x = None" using assms by (cases x) auto
  show "a = Call c \<longrightarrow> call_access c x = None"
    using assms by (auto simp: call_sync_def call_access_def split: call.splits pc.splits)
qed

lemma with_same:
  assumes "in_range (cells s) l" and "map_inv (reader_gens s)"
  shows "with_value l (value_at l s) s = s"
proof (cases l)
  case (Cell j)
  then have "unat (of_nat j :: usize) = j" using assms unat_of_nat_slot by (simp add: in_range_def cells_def)
  then show ?thesis using store_gen_same [of "of_nat j" s] Cell by (simp add: load_gen_def slot_at_def)
next
  case (Key j)
  then have "unat (of_nat j :: usize) = j" using assms unat_of_nat_slot by (simp add: in_range_def cells_def)
  moreover have "(slots m)[j := (slots m ! j)\<lparr>key := key (slots m ! j)\<rparr>] = slots m" for m :: "gen lpmap"
    by (cases "slots m ! j") (metis list_update_id slot.update_convs(1) slot.select_convs(1))
  ultimately show ?thesis using Key by (simp add: store_key_def slot_at_def)
qed simp_all

lemma last_load:
  assumes inv: "weak_inv nd W" and r: "reserved (core W) < 2 ^ 62"
    and al: "act_allowed a t W" and exec: "race_exec nd (t, a) (core W) = Some X'"
  shows "\<exists>c W'. weak_exec nd (t, a, c) W = Some W' \<and> core W' = X'"
proof (cases "\<exists>l. act_sync a (threads (core W) t) (shared (core W)) = Some (Acquire l)")
  case False
  let ?b = "act_sync a (threads (core W) t) (shared (core W))"
  have "\<exists>W'. weak_store t ?b X' W = Some W' \<and> core W' = X'"
    using False by (cases "(t, ?b, X', W)" rule: weak_store.cases) (auto simp: leave_def Let_def)
  then show ?thesis using al exec by (intro exI [of _ None]) simp
next
  case True
  then obtain l where l: "act_sync a (threads (core W) t) (shared (core W)) = Some (Acquire l)" ..
  let ?X = "core W" and ?ms = "msgs W l" and ?k = "length (msgs W l) - 1"
  note F = whole_facts [OF conjunct1 [OF inv [unfolded weak_inv_def]] r]
  have pre: "own_pre (threads ?X t) (shared ?X)" using F(7) [of t] by (simp add: ord_pre_def)
  have I: "latest ?X (msgs W)" "threads_ok W" using inv by (simp_all add: weak_inv_def)
  note rng = acquire_in_range [OF pre l]
  have ne: "?ms \<noteq> []" and m: "content (?ms ! ?k) = value_at l (shared ?X)" "carried (?ms ! ?k) = released ?X l"
    using I(1) rng by (auto simp: latest_def last_conv_nth)
  have same: "with_value l (content (?ms ! ?k)) (shared ?X) = shared ?X"
    using with_same [OF rng pre_inv [OF pre]] m(1) by simp
  have v: "view W t l \<le> ?k" "?k < length ?ms" using I(2) ne by (auto simp: threads_ok_def view_ok_def)
      (metis Suc_pred length_greater_0_conv less_Suc_eq_le)
  have "\<exists>x'. act_result nd a (threads ?X t) (shared ?X) = Some (x', shared ?X) \<and>
      X' = put_pc t (act_call a) (?X\<lparr>seen := (seen ?X)(t := seen ?X t \<union> released ?X l)\<rparr>) (x', shared ?X)"
  proof (cases a)
    case Step
    obtain x' s' where y: "pc_step nd (threads ?X t) (shared ?X) = (x', s')" by (metis surj_pair)
    have "s' = shared ?X" using acquire_same [OF l, of nd x' s'] y Step by simp
    then show ?thesis using exec y Step l acquire_no_access(1) [OF l, of nd] by (simp del: put_pc.simps)
  next
    case (Call c)
    then obtain y where y: "call_step c (threads ?X t) (shared ?X) = Some y" using exec by (auto split: if_splits)
    have "snd y = shared ?X" using acquire_same [OF l, of nd "fst y" "snd y"] y Call by simp
    then show ?thesis using exec y Call l acquire_no_access(2) [OF l, of c]
      by (cases y) (auto split: if_splits simp del: put_pc.simps)
  qed (use l in simp)
  then obtain x' where x': "act_result nd a (threads ?X t) (shared ?X) = Some (x', shared ?X)"
    and X': "X' = put_pc t (act_call a) (?X\<lparr>seen := (seen ?X)(t := seen ?X t \<union> released ?X l)\<rparr>) (x', shared ?X)" by blast
  have "weak_exec nd (t, a, Some (l, ?k)) W = Some (weak_load t (act_call a) (?ms ! ?k) x' W)"
    using v l x' same by (simp add: Let_def del: weak_load.simps)
  moreover have "core (weak_load t (act_call a) (?ms ! ?k) x' W) = X'" using X' m(2) by (simp del: put_pc.simps)
  ultimately show ?thesis by blast
qed

lemma race_run_reserved: "race_run nd es X = Some X' \<Longrightarrow> reserved X \<le> reserved X'"
proof (induction es arbitrary: X)
  case (Cons e es)
  then show ?case by (cases e) (auto split: option.splits dest!: race_reserved intro: le_trans)
qed simp

text \<open>
  Old values are allowed, not imposed: a schedule of the machine whose loads find the last
  values, without a call of \<open>resume_at\<close>, is a schedule of the machine with old values, with the same
  accesses and the same states.
\<close>
theorem weak_covers_last_values:
  assumes "start_ok g bc rc" and "ring_ok g (unat bc)"
    and "race_run nd es (race_start g bc rc) = Some X" and "active_looks nd es (race_start g bc rc)"
    and "reserved X < 2 ^ 62" and "\<forall>(t, a) \<in> set es. \<forall>v. a \<noteq> Call (Operate (ResumeAt v))"
  shows "\<exists>W. weak_run_of nd g bc rc W \<and> core W = X"
proof -
  have "\<exists>cs W'. weak_run nd cs W = Some W' \<and> weak_looks nd cs W \<and> core W' = X"
    if "weak_inv nd W" "race_run nd es (core W) = Some X" "active_looks nd es (core W)"
      "\<forall>(t, a) \<in> set es. \<forall>v. a \<noteq> Call (Operate (ResumeAt v))" for es and W
    using that
  proof (induction es arbitrary: W)
    case Nil
    then show ?case by (intro exI [of _ "[]"]) simp
  next
    case (Cons e es W)
    obtain t a where e: "e = (t, a)" by (cases e)
    obtain Y where Y: "race_exec nd (t, a) (core W) = Some Y" "race_run nd es Y = Some X"
        "looks_ok (t, a) (core W)" "active_looks nd es Y"
      using Cons.prems(2,3) e by (auto simp del: race_exec.simps looks_ok.simps split: option.splits)
    have r: "reserved Y < 2 ^ 62" using race_run_reserved [OF Y(2)] assms(5) by simp
    then have r0: "reserved (core W) < 2 ^ 62" using race_reserved [OF Y(1)] by simp
    have "act_allowed a t W" using Cons.prems(4) e by (cases "(a, t, W)" rule: act_allowed.cases) auto
    from last_load [OF Cons.prems(1) r0 this Y(1)] obtain c V
      where V: "weak_exec nd (t, a, c) W = Some V" "core V = Y" by blast
    have "weak_inv nd V" using weak_exec_inv [OF Cons.prems(1) Y(3) V(1)] r V(2) by simp
    from Cons.IH [OF this] Y V(2) Cons.prems(4) obtain cs W'
      where W': "weak_run nd cs V = Some W'" "weak_looks nd cs V" "core W' = X" by auto
    have "weak_run nd ((t, a, c) # cs) W = Some W' \<and> weak_looks nd ((t, a, c) # cs) W"
      using V(1) W'(1,2) Y(3) by (simp del: weak_exec.simps looks_ok.simps)
    then show ?case using W'(3) by blast
  qed
  from this [OF weak_start_inv [OF assms(1,2)], of es] assms(3,4,6)
  obtain cs W where "weak_run nd cs (weak_start g bc rc) = Some W" "weak_looks nd cs (weak_start g bc rc)" "core W = X"
    by (auto simp: weak_start_def)
  then show ?thesis using assms(1,2,5) by (auto simp: weak_run_of_def)
qed

lemma weak_covers_last_values_witness:
  "\<exists>W :: nat wsys. weak_run_of True 0 1 1 W \<and> hist (core W) = [WriteAt 0, ReadAt 0 0, DropAt 0, WriteAt 1]"
proof -
  have "case race_run True demo_slot (race_start 0 1 1) of
      Some X \<Rightarrow> hist X = [WriteAt 0, ReadAt 0 0, DropAt 0, WriteAt 1] \<and> reserved X = 2 | None \<Rightarrow> False"
    by code_simp
  then obtain X where X: "race_run True demo_slot (race_start 0 1 1) = Some X"
      "hist X = [WriteAt 0, ReadAt 0 0, DropAt 0, WriteAt 1]" "reserved X = 2" by (auto split: option.splits)
  have "active_looks True demo_slot (race_start 0 1 1)" "start_ok 0 1 1" by (code_simp, simp add: start_ok_def, code_simp)
  moreover have "ring_ok 0 (unat (1 :: usize))" by (simp add: ring_ok_def)
  moreover have "\<forall>(t, a) \<in> set demo_slot. \<forall>v. a \<noteq> Call (Operate (ResumeAt v))"
    by (simp add: demo_slot_def run_steps_def)
  ultimately show ?thesis using weak_covers_last_values [of 0 1 1 True demo_slot X] X by auto
qed

end
