(* ===== verification/Machine_Delivery.thy ===== *)
theory Machine_Delivery
  imports Machine_Safety
begin

text \<open>
  What one reader receives while everybody else does what they like: as long as the reader
  just reads - any number of \<open>read\<close>s whose slices are dropped, armed or not - the slices it
  drops armed, put one after the other, are exactly the messages published from its position
  on, each once and in the order in which they were published.
\<close>

section \<open>What a reader consumes\<close>

text \<open>The contents of a slice at the moment it is dropped armed.\<close>

definition slice_contents :: "gen \<Rightarrow> gen \<Rightarrow> 'a area \<Rightarrow> 'a maybe_uninit list" where
  "slice_contents st en s =
     map (\<lambda>k. get_slot (gen_add_msb_masked st (of_nat k)) s) [0..<unat (gen_dist_msb_masked en st)]"

definition taken :: "nat \<Rightarrow> nat \<times> 'a call option \<Rightarrow> 'a sys \<Rightarrow> 'a maybe_uninit list" where
  "taken t e S =
     (case e of
        (u, Some (EndSlice True)) \<Rightarrow>
          (case threads S t of Slice r st en \<Rightarrow> if u = t then slice_contents st en (shared S) else [] | _ \<Rightarrow> [])
      | _ \<Rightarrow> [])"

fun consumed :: "bool \<Rightarrow> nat \<Rightarrow> (nat \<times> 'a call option) list \<Rightarrow> 'a sys \<Rightarrow> 'a maybe_uninit list" where
  "consumed nd t [] S = []"
| "consumed nd t (e # es) S =
     (case free_exec nd e S of None \<Rightarrow> [] | Some S' \<Rightarrow> taken t e S @ consumed nd t es S')"

text \<open>The calls of thread \<open>t\<close> are reads and drops of slices; the others are free.\<close>

fun just_reads :: "nat \<Rightarrow> nat \<times> 'a call option \<Rightarrow> bool" where
  "just_reads t (u, None) = True"
| "just_reads t (u, Some (Operate oper)) = (u = t \<longrightarrow> oper = GetGen)"
| "just_reads t (u, Some c) = True"

section \<open>The position of a reader\<close>

text \<open>Up to where the reader has consumed, at each of its control points; \<open>c\<close> is its cell.\<close>

fun mark_of_op :: "gen \<Rightarrow> reader_op \<Rightarrow> gen option" where
  "mark_of_op c GetGen = Some c"
| "mark_of_op c (DropSlice st en) = (if st = c then Some en else None)"
| "mark_of_op c (SetGen en) = Some en"
| "mark_of_op c oper = None"

fun mark :: "gen \<Rightarrow> 'a pc \<Rightarrow> gen option" where
  "mark c (Reader r) = Some c"
| "mark c (OpLookup r oper) = mark_of_op c oper"
| "mark c (OpLoad r p oper) = mark_of_op c oper"
| "mark c (OpAct r p d oper) = mark_of_op c oper"
| "mark c (ReadEnd r st) = Some c"
| "mark c (Slice r st en) = Some c"
| "mark c x = None"

text \<open>The reader in thread \<open>t\<close> is active and has consumed up to \<open>q\<close>, which is not behind its cell.\<close>

definition reading :: "gen \<Rightarrow> nat \<Rightarrow> gen \<Rightarrow> gen \<Rightarrow> 'a sys \<Rightarrow> bool" where
  "reading g t r q S \<longleftrightarrow> owned (threads S t) = Some r \<and> \<not> is_suspended (gen_of r (shared S)) \<and>
     mark (gen_of r (shared S)) (threads S t) = Some q \<and>
     pos g (gen_of r (shared S)) \<le> pos g q \<and> pos g q \<le> pos g (read_gen (shared S)) \<and> masked q"

lemma other_keeps_reading:
  assumes run: "run_of nd g bc rc S" and rd: "reading g t r q S" and step: "sys_exec nd (u, c) S = Some S'" and u: "u \<noteq> t"
  shows "reading g t r q S'"
  using step
proof (cases rule: sys_execE)
  case (1 x' s')
  note R = run_ofD [OF run]
  have pre: "own_pre (threads S u) (shared S)" using R(4) by (auto simp: own_inv_def own_pre_def)
  have "own_step (threads S u) (shared S) (x', s')"
    using 1(1) pc_step_own [OF pre, of nd] own_step_call [OF pre] by auto
  moreover have "holds r (shared S)" "owned (threads S u) \<noteq> Some r"
    using R(4) rd u by (auto simp: own_inv_def reading_def)
  ultimately have "undisturbed r (shared S) s'" by (auto simp: own_step_def)
  then have "gen_of r s' = gen_of r (shared S)" using rd by (auto simp: undisturbed_def reading_def)
  moreover have "pos g (read_gen (shared S)) \<le> pos g (read_gen s')"
    using order_step [OF R(1,7) step] R(3) 1(2) by (simp add: grows_def)
  ultimately show ?thesis using rd u 1(2,3) by (auto simp: reading_def)
qed

lemma reading_call:
  assumes "call_step d x s = Some (x', s')" and "mark v x = Some q" and "just_reads t (t, Some d)"
  shows "(\<exists>r. x = Reader r \<and> x' = OpLookup r GetGen \<and> s' = s) \<or>
    (\<exists>r st en b. x = Slice r st en \<and> d = EndSlice b \<and> s' = s \<and>
       x' = (if b then OpLookup r (DropSlice st en) else Reader r))"
  using assms(1) by (cases rule: call_step_cases) (use assms(2,3) in auto)

lemma contents_live:
  assumes run: "run_of nd g bc rc S" and x: "threads S t = Slice r st en" and c: "\<not> is_suspended (gen_of r (shared S))"
  shows "slice_contents st en (shared S) = map Init (drop (pos g st) (take (pos g en) (log S)))"
    and "gen_of r (shared S) = st" and "pos g st \<le> pos g en" and "pos g en \<le> pos g (read_gen (shared S))" and "masked en"
proof -
  note R = run_ofD [OF run]
  have own: "owned (threads S t) = Some r" using x by simp
  have "local_own (Slice r st en) (shared S)" using R(4) x by (metis own_inv_def)
  then show "gen_of r (shared S) = st" using c by simp
  show loc: "pos g st \<le> pos g en" "pos g en \<le> pos g (read_gen (shared S))" "masked en"
    using run_local [OF run, of t] x by auto
  have len: "length (log S) = pos g (read_gen (shared S))" using R(1,3) by (simp add: order_inv_def)
  have dist: "unat (gen_dist_msb_masked en st) = pos g en - pos g st" by (rule unat_dist_ge [OF loc(1)])
  show "slice_contents st en (shared S) = map Init (drop (pos g st) (take (pos g en) (log S)))"
  proof (rule nth_equalityI)
    show "length (slice_contents st en (shared S)) = length (map Init (drop (pos g st) (take (pos g en) (log S))))"
      using loc len dist by (simp add: slice_contents_def)
    show "slice_contents st en (shared S) ! k = map Init (drop (pos g st) (take (pos g en) (log S))) ! k"
      if "k < length (slice_contents st en (shared S))" for k
      using slice_is_live [OF run x owned_gen(1) [OF run own] c, of k] that loc len dist
      by (simp add: slice_contents_def)
  qed
qed

lemma reading_step:
  assumes step: "pc_step nd x s = (x', s')" and own: "owned x = Some r" and loc: "local_own x s" "local_ord g x s"
    and q: "mark (gen_of r s) x = Some q" and active: "\<not> is_suspended (gen_of r s)"
    and ord: "pos g (gen_of r s) \<le> pos g q" "pos g q \<le> pos g (read_gen s)" "masked q" "pos g (read_gen s) < 2 ^ 62"
    and found: "get_reader_ptr r s = Some (slot_of r s)" "unat (slot_of r s) < length (slots (reader_gens s))"
  shows "\<exists>q'. owned x' = Some r \<and> \<not> is_suspended (gen_of r s') \<and> mark (gen_of r s') x' = Some q' \<and>
    pos g (gen_of r s') \<le> pos g q' \<and> pos g q' = pos g q \<and> masked q' \<and> read_gen s' = read_gen s"
proof (cases x)
  case (OpLookup r' oper)
  then show ?thesis using assms by (cases oper) auto
next
  case (OpLoad r' p oper)
  then show ?thesis using assms by (cases oper) auto
next
  case (OpAct r' p d oper)
  then have x: "r' = r" "p = slot_of r s" "d = gen_of r s" using own loc(1) active by auto
  have le: "gen_lte_msb_masked q (gen_of r s) \<longleftrightarrow> pos g q \<le> pos g (gen_of r s)"
    using ord by (intro lte_pos64) linarith+
  have cell: "masked (gen_of r s)" using active by (simp add: masked_active)
  show ?thesis
  proof (cases oper)
    case (SetGen en)
    then have "en = q" using q OpAct by simp
    then have "x' = Reader r \<and> s' = (if pos g q \<le> pos g (gen_of r s) then s else store_gen (slot_of r s) q s)"
      using step OpAct SetGen x active le by (simp add: set_gen_from_def split: if_splits)
    moreover have "gen_of r (store_gen (slot_of r s) q s) = q" using found(2) by (simp add: gen_of_def load_store_gen)
    ultimately show ?thesis using active ord cell masked_active [of q] by auto
  next
    case (DropSlice st en)
    then have "st = gen_of r s" "en = q" using q OpAct by (auto split: if_splits)
    then show ?thesis using step OpAct DropSlice x active ord by (auto simp: strip_active)
  next
    case GetGen
    then show ?thesis using step OpAct x active ord q by (auto simp: strip_active)
  qed (use q OpAct in auto)
next
  case (ReadEnd r' st)
  then show ?thesis using assms by auto
next
  case (Slice r' st en)
  then show ?thesis using assms by auto
next
  case (Reader r')
  then show ?thesis using assms by auto
qed (use q in auto)

lemma own_keeps_reading:
  assumes run: "run_of nd g bc rc S" and rd: "reading g t r q S" and step: "sys_exec nd (t, c) S = Some S'"
    and just: "just_reads t (t, c)"
  shows "\<exists>q'. reading g t r q' S' \<and> log S' = log S \<and> pos g q \<le> pos g q' \<and>
    taken t (t, c) S = map Init (drop (pos g q) (take (pos g q') (log S)))"
  using step
proof (cases rule: sys_execE)
  case (1 x' s')
  note R = run_ofD [OF run]
  let ?x = "threads S t" and ?s = "shared S"
  have own: "local_own ?x ?s" and h: "holds r ?s" using R(4) rd by (auto simp: own_inv_def reading_def)
  have found: "get_reader_ptr r ?s = Some (slot_of r ?s)"
    using h by (simp add: get_reader_ptr_find find_id_Some slot_of_def holds_def)
  have loc: "local_ord g ?x ?s" by (rule run_local [OF run])
  have cell: "masked (gen_of r ?s)" using rd by (simp add: reading_def masked_active)
  show ?thesis
  proof (cases c)
    case None
    then have st: "pc_step nd ?x ?s = (x', s')" using 1(1) by simp
    have "unat (slot_of r ?s) < length (slots (reader_gens ?s))" using R(4) by (intro slot_less) (simp add: own_inv_def reg_inv_def)
    from reading_step [OF st _ own loc _ _ _ _ _ _ found this, of q] rd R(5)
    obtain q' where "owned x' = Some r" "\<not> is_suspended (gen_of r s')" "mark (gen_of r s') x' = Some q'"
        "pos g (gen_of r s') \<le> pos g q'" "pos g q' = pos g q" "masked q'" "read_gen s' = read_gen ?s"
      by (auto simp: reading_def window_def)
    then show ?thesis using rd 1(2,3,6) None by (intro exI [of _ q']) (auto simp: reading_def taken_def)
  next
    case (Some d)
    then have "call_step d ?x ?s = Some (x', s')" using 1(1) by auto
    from reading_call [OF this _ just [unfolded Some]] rd
    consider (reads) "?x = Reader r" "x' = OpLookup r GetGen" "s' = ?s"
      | (ends) st en b where "?x = Slice r st en" "d = EndSlice b" "s' = ?s"
          "x' = (if b then OpLookup r (DropSlice st en) else Reader r)"
      by (fastforce simp: reading_def)
    then show ?thesis
    proof cases
      case reads
      then have "taken t (t, c) S = []" by (simp add: taken_def split: option.split call.split bool.split)
      then show ?thesis using reads rd 1(2,3,6) by (intro exI [of _ q]) (auto simp: reading_def published_by_def)
    next
      case (ends st en b)
      note live = contents_live [OF run ends(1)]
      show ?thesis using rd 1(2,3,6) Some ends live
        by (intro exI [of _ "if b then en else st"]) (auto simp: reading_def taken_def published_by_def)
    qed
  qed
qed

section \<open>Runs\<close>

lemma run_of_exec: "run_of nd g bc rc S \<Longrightarrow> sys_exec nd e S = Some S' \<Longrightarrow> reserved S' < 2 ^ 62 \<Longrightarrow> run_of nd g bc rc S'"
  by (auto simp: run_of_def intro: reachable.step)

lemma reserved_run: "sys_run nd es S = Some S' \<Longrightarrow> reserved S \<le> reserved S'"
  by (induction nd es S rule: sys_run.induct) (auto split: option.splits dest!: reserved_mono)

lemma log_grows: "sys_exec nd e S = Some S' \<Longrightarrow> \<exists>ms. log S' = log S @ ms"
  by (cases e) (auto elim!: sys_execE)

lemma log_run: "sys_run nd es S = Some S' \<Longrightarrow> \<exists>ms. log S' = log S @ ms"
proof (induction nd es S rule: sys_run.induct)
  case (2 nd e es S)
  then obtain S1 where "sys_exec nd e S = Some S1" "sys_run nd es S1 = Some S'" by (auto split: option.splits)
  with 2(1) log_grows [of nd e S S1] show ?case by fastforce
qed simp

text \<open>One event, of this reader or of anybody else.\<close>

lemma reading_exec:
  assumes run: "run_of nd g bc rc S" and rd: "reading g t r q S" and step: "sys_exec nd e S = Some S'" and just: "just_reads t e"
  shows "\<exists>q'. reading g t r q' S' \<and> pos g q \<le> pos g q' \<and> pos g q' \<le> length (log S') \<and>
    taken t e S = map Init (drop (pos g q) (take (pos g q') (log S')))"
proof -
  note R = run_ofD [OF run]
  obtain u c where e: "e = (u, c)" by (cases e)
  have o: "order_inv S'" "base S' = g" using order_step [OF R(1,7) step [unfolded e]] R(3) by auto
  then have len: "pos g (read_gen (shared S')) = length (log S')" by (simp add: order_inv_def)
  show ?thesis
  proof (cases "u = t")
    case True
    from own_keeps_reading [OF run rd step [unfolded e True] just [unfolded e True]] e True len
    show ?thesis by (auto simp: reading_def)
  next
    case False
    then have "taken t e S = []" using e by (auto simp: taken_def split: option.split call.split bool.split pc.split)
    then show ?thesis using other_keeps_reading [OF run rd step [unfolded e] False] len by (auto simp: reading_def)
  qed
qed

lemma drop_take_split:
  "a \<le> b \<Longrightarrow> b \<le> c \<Longrightarrow> drop a (take b l) @ drop b (take c l) = drop a (take c l)"
proof -
  assume "a \<le> b" "b \<le> c"
  then have "take c l = take b l @ drop b (take c l)" by (metis append_take_drop_id take_take min.absorb1)
  from arg_cong [OF this, of "drop a"] show ?thesis using \<open>a \<le> b\<close> by (cases "b \<le> length l") simp_all
qed

lemma reading_run:
  assumes "run_of nd g bc rc S" and "reading g t r q S" and "sys_run nd es S = Some S'"
    and "list_all (just_reads t) es" and "reserved S' < 2 ^ 62"
  shows "\<exists>q'. reading g t r q' S' \<and> pos g q \<le> pos g q' \<and> pos g q' \<le> length (log S') \<and>
    consumed nd t es S = map Init (drop (pos g q) (take (pos g q') (log S')))"
  using assms
proof (induction nd es S arbitrary: q rule: sys_run.induct)
  case (1 nd S)
  then show ?case using run_ofD(1,3) [OF 1(1)] by (auto simp: reading_def order_inv_def intro!: exI [of _ q])
next
  case (2 nd e es S)
  then obtain S1 where S1: "sys_exec nd e S = Some S1" "sys_run nd es S1 = Some S'" by (auto split: option.splits)
  have run1: "run_of nd g bc rc S1"
    using run_of_exec [OF 2(2) S1(1)] reserved_run [OF S1(2)] 2(6) by linarith
  from 2(5) have just: "just_reads t e" "list_all (just_reads t) es" by simp_all
  obtain q1 where q1: "reading g t r q1 S1" "pos g q \<le> pos g q1" "pos g q1 \<le> length (log S1)"
      "taken t e S = map Init (drop (pos g q) (take (pos g q1) (log S1)))"
    using reading_exec [OF 2(2,3) S1(1) just(1)] by blast
  obtain q2 where q2: "reading g t r q2 S'" "pos g q1 \<le> pos g q2" "pos g q2 \<le> length (log S')"
      "consumed nd t es S1 = map Init (drop (pos g q1) (take (pos g q2) (log S')))"
    using 2(1) [OF S1(1) run1 q1(1) S1(2) just(2) 2(6)] by blast
  obtain ms where ms: "log S' = log S1 @ ms" using log_run [OF S1(2)] by blast
  have "take (pos g q1) (log S1) = take (pos g q1) (log S')" using q1(3) ms by simp
  then have "consumed nd t (e # es) S =
      map Init (drop (pos g q) (take (pos g q1) (log S')) @ drop (pos g q1) (take (pos g q2) (log S')))"
    using S1(1) q1(4) q2(4) by (simp add: sys_exec_free)
  then show ?case using q1 q2 by (intro exI [of _ q2]) (simp add: drop_take_split)
qed

text \<open>
  C5: every message exactly once, in order.  Take any run of the operations in which
  \<open>resume_at\<close> is not called with a generation ahead of \<open>read_gen\<close> (the source would accept it).
  A reader that is active at a position and from then on only reads receives, whatever the
  schedule of all other writers, readers and cleanups, in the slices it drops armed, one after
  the other, exactly the messages published from that position up to the position where it
  arrives; none is lost, none is seen twice, none is seen uninitialised or overwritten.
\<close>
theorem reader_misses_nothing:
  assumes start: "start_ok g bc rc" "ring_ok g (unat bc)"
    and before: "free_run nd es0 (start_at g bc rc) = Some S" and es: "free_run nd es S = Some S'"
    and resumes: "resumes_published nd (es0 @ es) (start_at g bc rc)" and bound: "reserved S' < 2 ^ 62"
    and x: "threads S t = Reader r" and c: "get_reader_gen r (shared S) = Some c" "\<not> is_suspended c"
    and just: "list_all (just_reads t) es" and x': "threads S' t = Reader r"
  shows "\<exists>c'. get_reader_gen r (shared S') = Some c' \<and> \<not> is_suspended c'
    \<and> pos g c \<le> pos g c' \<and> pos g c' \<le> length (log S')
    \<and> consumed nd t es S = map Init (drop (pos g c) (take (pos g c') (log S')))"
proof -
  have r: "resumes_published nd es0 (start_at g bc rc)" "resumes_published nd es S"
    using resumes before by (simp_all add: resumes_published_append)
  have run2: "sys_run nd es S = Some S'" using es r(2) by (simp add: sys_run_free)
  have run: "run_of nd g bc rc S"
    using reserved_run [OF run2] bound by (intro run_of_free [OF start before r(1)]) simp
  have run': "run_of nd g bc rc S'"
    using start before es by (intro run_of_free [OF start _ resumes bound]) (simp add: free_run_append)
  have own: "owned (threads S t) = Some r" "owned (threads S' t) = Some r" using x x' by simp_all
  note o = owned_gen [OF run own(1)]
  have "reading g t r c S" using o c x by (simp add: reading_def masked_active)
  from reading_run [OF run this run2 just bound] obtain q where q: "reading g t r q S'" "pos g c \<le> pos g q" "pos g q \<le> length (log S')"
      "consumed nd t es S = map Init (drop (pos g c) (take (pos g q) (log S')))" by blast
  from owned_gen(1) [OF run' own(2)] q x' show ?thesis by (intro exI [of _ q]) (auto simp: reading_def)
qed

text \<open>
  Reader 1 reads while thread 0 publishes twice around the wrap-around and thread 2 cleans up.
\<close>

definition demo_join :: "(nat \<times> nat call option) list" where
  "demo_join = [(1, Some (Register 1))] @ steps 1 5"

definition demo_follow :: "(nat \<times> nat call option) list" where
  "demo_follow = drop 6 demo_clean @ [(1, Some (Operate GetGen))] @ steps 1 4 @ [(1, Some (EndSlice False)),
     (1, Some (Operate GetGen))] @ steps 1 4 @ [(1, Some (EndSlice True))] @ steps 1 6"

lemma reader_misses_nothing_witness:
  "\<exists>S S' :: nat sys. free_run True demo_join (start_at (2 ^ 63 - 1) 2 2) = Some S \<and> free_run True demo_follow S = Some S' \<and>
     log S' = [7, 8] \<and> consumed True 1 demo_follow S = map Init (drop 0 (take 2 (log S')))"
proof -
  let ?S0 = "start_at (2 ^ 63 - 1) 2 2 :: nat sys"
  have "case free_run True demo_join ?S0 of
      Some S \<Rightarrow> threads S 1 = Reader 1 \<and> get_reader_gen 1 (shared S) = Some (2 ^ 63 - 1) \<and>
        (case free_run True demo_follow S of
           Some S' \<Rightarrow> threads S' 1 = Reader 1 \<and> reserved S' = 2 \<and> log S' = [7, 8] \<and>
             get_reader_gen 1 (shared S') = Some 1
         | None \<Rightarrow> False)
    | None \<Rightarrow> False" by code_simp
  then obtain S S' :: "nat sys" where S: "free_run True demo_join ?S0 = Some S" "free_run True demo_follow S = Some S'"
      "reserved S' = 2" "threads S 1 = Reader 1" "get_reader_gen 1 (shared S) = Some (2 ^ 63 - 1)"
      "threads S' 1 = Reader 1" "log S' = [7, 8]" "get_reader_gen 1 (shared S') = Some 1"
    by (auto split: option.splits)
  have ok: "resumes_published True (demo_join @ demo_follow) ?S0" by code_simp
  have "\<not> is_suspended (2 ^ 63 - 1 :: gen)" "list_all (just_reads 1) demo_follow" by code_simp+
  moreover have p: "pos (2 ^ 63 - 1) (2 ^ 63 - 1 :: gen) = 0" "pos (2 ^ 63 - 1) (1 :: gen) = 2" by code_simp+
  ultimately show ?thesis using reader_misses_nothing [OF demo_start S(1,2) ok _ S(4,5)] S by fastforce
qed

end
