(* ===== verification/Machine_Panics.thy ===== *)
theory Machine_Panics
  imports Machine_Delivery
begin

text \<open>
  The panics a reader can run into: \<open>get_gen\<close> when the reader is not found, and the check in the
  drop of a slice.  No schedule reaches them as long as \<open>read\<close> is called on active readers only.
\<close>

section \<open>Reads in progress\<close>

text \<open>The points between the start of \<open>read\<close> and the end of the drop of its slice.\<close>

fun read_op :: "reader_op \<Rightarrow> bool" where
  "read_op GetGen = True"
| "read_op (DropSlice st en) = True"
| "read_op oper = False"

fun in_read :: "'a pc \<Rightarrow> bool" where
  "in_read (OpLookup r oper) = read_op oper"
| "in_read (OpLoad r p oper) = read_op oper"
| "in_read (OpAct r p c oper) = read_op oper"
| "in_read (ReadEnd r st) = True"
| "in_read (Slice r st en) = True"
| "in_read x = False"

text \<open>Reads begin on active readers only.\<close>

definition reads_when_active :: "nat \<times> 'a call option \<Rightarrow> 'a sys \<Rightarrow> bool" where
  "reads_when_active e S =
     (case e of
        (t, Some (Operate GetGen)) \<Rightarrow>
          (case threads S t of
             Reader r \<Rightarrow> (case get_reader_gen r (shared S) of Some c \<Rightarrow> \<not> is_suspended c | None \<Rightarrow> False)
           | _ \<Rightarrow> True)
      | _ \<Rightarrow> True)"

fun active_reads :: "bool \<Rightarrow> (nat \<times> 'a call option) list \<Rightarrow> 'a sys \<Rightarrow> bool" where
  "active_reads nd [] S \<longleftrightarrow> True"
| "active_reads nd (e # es) S \<longleftrightarrow>
     reads_when_active e S \<and> (case free_exec nd e S of None \<Rightarrow> True | Some S' \<Rightarrow> active_reads nd es S')"

section \<open>The invariant\<close>

definition calm :: "gen \<Rightarrow> 'a sys \<Rightarrow> bool" where
  "calm g S \<longleftrightarrow> (\<forall>t. threads S t \<noteq> Panicked \<and> (in_read (threads S t) \<longrightarrow> (\<exists>r q. reading g t r q S)))"

lemma pc_step_calm:
  assumes "pc_step nd x s = (x', s')" and "\<not> in_read x" and "x \<noteq> Panicked"
  shows "x' \<noteq> Panicked \<and> \<not> in_read x'"
proof (cases x)
  case (OpLookup r oper)
  then show ?thesis using assms by (cases oper) (auto split: option.splits)
next
  case (OpAct r p c oper)
  then show ?thesis using assms by (cases oper) (auto split: flow.splits prod.splits)
next
  case (ReserveGrab be n cf cw)
  from assms(1) [unfolded ReserveGrab] show ?thesis by (cases rule: reserve_grab_cases) simp_all
qed (use assms in \<open>auto split: option.splits flow.splits prod.splits if_splits claim_range.splits\<close>)

lemma call_step_calm:
  assumes "call_step d x s = Some (x', s')" and "\<not> in_read x"
  shows "x' \<noteq> Panicked \<and> (in_read x' \<longrightarrow> d = Operate GetGen \<and> (\<exists>r. x = Reader r \<and> x' = OpLookup r GetGen) \<and> s' = s)"
  using assms(1)
proof (cases rule: call_step_cases)
  case (operating r oper)
  then show ?thesis by (cases oper) auto
qed (use assms(2) in simp_all)

lemma read_calls: "call_step d x s = Some (x', s') \<Longrightarrow> in_read x \<Longrightarrow> just_reads t (t, Some d)"
  by (cases rule: call_step_cases, assumption) simp_all

lemma calm_exec:
  assumes run: "run_of nd g bc rc S" and calm: "calm g S" and ok: "reads_when_active e S"
    and step: "sys_exec nd e S = Some S'"
  shows "calm g S'"
  unfolding calm_def
proof
  fix t
  obtain u c where e: "e = (u, c)" by (cases e)
  note step' = step [unfolded e]
  have t: "threads S t \<noteq> Panicked" "in_read (threads S t) \<Longrightarrow> \<exists>r q. reading g t r q S"
    using calm by (auto simp: calm_def)
  show "threads S' t \<noteq> Panicked \<and> (in_read (threads S' t) \<longrightarrow> (\<exists>r q. reading g t r q S'))"
  proof (cases "u = t")
    case False
    then have "threads S' t = threads S t" using step' by (auto elim!: sys_execE)
    then show ?thesis using t other_keeps_reading [OF run _ step' False] by auto
  next
    case True
    show ?thesis
    proof (cases "in_read (threads S t)")
      case True
      then obtain r q where rd: "reading g t r q S" using t(2) by blast
      have "just_reads t (t, c)"
      proof (cases c)
        case (Some d)
        obtain x' s' where "call_step d (threads S t) (shared S) = Some (x', s')"
          using step' [unfolded \<open>u = t\<close> Some] by (cases rule: sys_execE) auto
        from read_calls [OF this True] show ?thesis by (simp add: Some)
      qed simp
      from own_keeps_reading [OF run rd step' [unfolded \<open>u = t\<close>] this] obtain q' where "reading g t r q' S'" by blast
      then show ?thesis by (auto simp: reading_def)
    next
      case False
      from step' [unfolded \<open>u = t\<close>] show ?thesis
      proof (cases rule: sys_execE)
        case (1 x' s')
        note R = run_ofD [OF run]
        from 1(1) show ?thesis
        proof
          assume "c = None \<and> pc_step nd (threads S t) (shared S) = (x', s')"
          then show ?thesis using pc_step_calm [OF _ False t(1), of nd "shared S" x' s'] 1(3) by simp
        next
          assume "\<exists>d. c = Some d \<and> call_allowed d S \<and> call_step d (threads S t) (shared S) = Some (x', s')"
          then obtain d where d: "c = Some d" "call_step d (threads S t) (shared S) = Some (x', s')" by blast
          note k = call_step_calm [OF d(2) False]
          have "\<exists>r q. reading g t r q S'" if "in_read x'"
          proof -
            from k that obtain r where r: "d = Operate GetGen" "threads S t = Reader r" "x' = OpLookup r GetGen" "s' = shared S"
              by blast
            have own: "owned (threads S t) = Some r" using r(2) by simp
            note o = owned_gen [OF run own]
            have "\<not> is_suspended (gen_of r (shared S))"
              using ok o(1) r(2) by (simp add: reads_when_active_def e d(1) r(1) \<open>u = t\<close>)
            then have "reading g t r (gen_of r (shared S)) S'"
              using o 1(2,3) r by (simp add: reading_def masked_active)
            then show ?thesis by blast
          qed
          then show ?thesis using k 1(3) by simp
        qed
      qed
    qed
  qed
qed

lemma calm_run:
  "run_of nd g bc rc S \<Longrightarrow> calm g S \<Longrightarrow> active_reads nd es S \<Longrightarrow> sys_run nd es S = Some S' \<Longrightarrow>
   reserved S' < 2 ^ 62 \<Longrightarrow> calm g S'"
proof (induction es arbitrary: S)
  case (Cons e es)
  then obtain S1 where S1: "sys_exec nd e S = Some S1" "sys_run nd es S1 = Some S'" "reads_when_active e S"
      "active_reads nd es S1" by (auto simp: sys_exec_free split: option.splits)
  have "reserved S1 < 2 ^ 62" using reserved_run [OF S1(2)] Cons.prems(5) by simp
  then have "run_of nd g bc rc S1" using run_of_exec [OF Cons.prems(1) S1(1)] by simp
  then show ?case using Cons.IH calm_exec [OF Cons.prems(1,2) S1(3,1)] S1 Cons.prems(5) by blast
qed simp

text \<open>
  C14: as long as \<open>read\<close> is called on active readers only, and \<open>resume_at\<close> not with a generation
  ahead of \<open>read_gen\<close>, no schedule makes a reader panic: the lookup of \<open>get_gen\<close> always finds it,
  and the check in the drop of a slice, that the reader still is where the slice begins, never
  fails.  The panics of writers, that publish before every slot is written or drop a reservation
  they have not published, are not steps of the machine.
\<close>
theorem active_reads_never_panic:
  assumes "start_ok g bc rc" and "ring_ok g (unat bc)"
    and "free_run nd es (start_at g bc rc) = Some S" and "reserved S < 2 ^ 62"
    and "resumes_published nd es (start_at g bc rc)" and "active_reads nd es (start_at g bc rc)"
  shows "threads S t \<noteq> Panicked"
proof -
  have "run_of nd g bc rc (start_at g bc rc)"
    using assms(1,2) by (simp add: run_of_def reachable.start start_at_def)
  moreover have "calm g (start_at g bc rc)" by (simp add: calm_def start_at_def)
  moreover have "sys_run nd es (start_at g bc rc) = Some S" using assms(3,5) by (simp add: sys_run_free)
  ultimately have "calm g S" using calm_run assms(4,6) by blast
  then show ?thesis by (simp add: calm_def)
qed

lemma active_reads_never_panic_witness:
  "\<exists>S :: nat sys. free_run True (demo_join @ demo_follow) (start_at (2 ^ 63 - 1) 2 2) = Some S \<and> log S = [7, 8] \<and>
     threads S 1 \<noteq> Panicked"
proof -
  have "case sys_run True (demo_join @ demo_follow) (start_at (2 ^ 63 - 1) 2 2) of
      Some S \<Rightarrow> log S = [7, 8 :: nat] \<and> reserved S = 2 | None \<Rightarrow> False" by code_simp
  from demo_free [OF this] obtain S where S:
      "free_run True (demo_join @ demo_follow) (start_at (2 ^ 63 - 1) 2 2) = Some S" "reserved S < 2 ^ 62"
      "resumes_published True (demo_join @ demo_follow) (start_at (2 ^ 63 - 1) 2 2 :: nat sys)"
      "log S = [7, 8]" by auto
  have "active_reads True (demo_join @ demo_follow) (start_at (2 ^ 63 - 1) 2 2)" by code_simp
  from active_reads_never_panic [OF demo_start S(1-3) this] S show ?thesis by auto
qed

text \<open>
  The condition is needed: a slice that was read while its reader was suspended panics when it
  is dropped after a cleanup has dragged the reader forward.
\<close>

definition suspended_read :: "(nat \<times> nat call option) list" where
  "suspended_read = [(1, Some (Register 1))] @ steps 1 5 @ [(1, Some (Operate Suspend))] @ steps 1 3 @
     [(1, Some (Operate GetGen))] @ steps 1 4 @
     [(0, Some (Reserve False 1))] @ steps 0 2 @ [(0, Some (Write 7)), (0, Some Publish), (2, Some Cleanup)] @ steps 2 10 @
     [(1, Some (EndSlice True))] @ steps 1 3"

lemma suspended_read_panics:
  "case sys_run True suspended_read (start_at 0 2 2) of Some S \<Rightarrow> threads S 1 = Panicked | None \<Rightarrow> False"
  by code_simp

end
