(* ===== verification/Machine_Progress.thy ===== *)
theory Machine_Progress
  imports Machine_Safety
begin

text \<open>
  Waiting ends.  A cleanup that has dropped its messages waits until the cleanups before it
  have handed back their slots, and a writer that has filled its reservation waits until those
  before it have published.  The ranges that are claimed, and those that are reserved, have no
  gaps, so there is always a first one whose owner waits for nobody; running the owners one after
  the other lets everybody finish.
\<close>

section \<open>No gaps\<close>

text \<open>Every position between the counters belongs to the range of some thread.\<close>

definition covered :: "gen \<Rightarrow> 'a area \<Rightarrow> (nat \<Rightarrow> 'a pc) \<Rightarrow> bool" where
  "covered b s th \<longleftrightarrow>
     (\<forall>off. pos b (read_gen s) \<le> off \<longrightarrow> off < pos b (write_gen s) \<longrightarrow> (\<exists>t. off \<in> wspan b (th t))) \<and>
     (\<forall>off. pos b (free_gen s) \<le> off \<longrightarrow> off < pos b (last_valid_gen s) \<longrightarrow> (\<exists>t. off \<in> cspan b (th t)))"

lemma covered_upd:
  assumes cov: "covered b s th"
    and w: "\<And>off. pos b (read_gen s') \<le> off \<Longrightarrow> off < pos b (write_gen s') \<Longrightarrow> off \<notin> wspan b x' \<Longrightarrow>
      pos b (read_gen s) \<le> off \<and> off < pos b (write_gen s) \<and> off \<notin> wspan b (th t)"
    and c: "\<And>off. pos b (free_gen s') \<le> off \<Longrightarrow> off < pos b (last_valid_gen s') \<Longrightarrow> off \<notin> cspan b x' \<Longrightarrow>
      pos b (free_gen s) \<le> off \<and> off < pos b (last_valid_gen s) \<and> off \<notin> cspan b (th t)"
  shows "covered b s' (th(t := x'))"
proof -
  have "\<exists>u. off \<in> wspan b ((th(t := x')) u)"
    if r: "pos b (read_gen s') \<le> off" "off < pos b (write_gen s')" for off
  proof (cases "off \<in> wspan b x'")
    case False
    from w [OF r False] cov obtain u where "off \<in> wspan b (th u)" "u \<noteq> t" by (auto simp: covered_def)
    then show ?thesis by (intro exI [of _ u]) simp
  qed (auto intro: exI [of _ t])
  moreover have "\<exists>u. off \<in> cspan b ((th(t := x')) u)"
    if r: "pos b (free_gen s') \<le> off" "off < pos b (last_valid_gen s')" for off
  proof (cases "off \<in> cspan b x'")
    case False
    from c [OF r False] cov obtain u where "off \<in> cspan b (th u)" "u \<noteq> t" by (auto simp: covered_def)
    then show ?thesis by (intro exI [of _ u]) simp
  qed (auto intro: exI [of _ t])
  ultimately show ?thesis by (simp add: covered_def)
qed

text \<open>The counters the ranges lie between do not move.\<close>

lemma covered_same:
  assumes "covered b s th" and "ring_same s s'"
    and "wspan b (th t) \<subseteq> wspan b x'" "cspan b (th t) \<subseteq> cspan b x'"
  shows "covered b s' (th(t := x'))"
  by (rule covered_upd [OF assms(1)]) (use assms(2-4) in \<open>auto simp: ring_same_def\<close>)

lemma covered_pc_step:
  assumes cov: "covered b s th" and pre: "ord_pre b (th t) s" and step: "pc_step nd (th t) s = (x', s')"
  shows "covered b s' (th(t := x'))"
proof (cases "off_ring (th t)")
  case True
  have "ring_same s s'" using pc_step_off_ring [OF True, of s nd] step by simp
  then show ?thesis using idle_ringD [OF off_ring_idle [OF True], of b] by (intro covered_same [OF cov]) simp_all
next
  case False
  have ord: "local_ord b (th t) s" using pre by (simp add: ord_pre_def)
  show ?thesis
  proof (cases "th t")
    case (ReserveGrab be n cf cw)
    from step [unfolded ReserveGrab] show ?thesis
    proof (cases rule: reserve_grab_cases)
      case (grabs k en)
      then have w: "write_gen s = cw" "s' = s\<lparr>write_gen := en\<rparr>" by (auto simp: grab_Cas split: if_splits)
      show ?thesis
        by (rule covered_upd [OF cov]) (use w grabs(5) ReserveGrab in \<open>auto simp: not_le\<close>)
    qed (use cov ReserveGrab in \<open>auto intro!: covered_same [OF cov]\<close>)
  next
    case (CleanClaim lv new)
    show ?thesis
    proof (cases "gen_lte_msb_masked new lv \<or> last_valid_gen s \<noteq> lv")
      case True
      then have "s' = s" using step by (auto simp: CleanClaim claim_turn_def compare_exchange_def split: if_splits)
      then show ?thesis using CleanClaim by (intro covered_same [OF cov]) simp_all
    next
      case False
      then have s': "x' = CleanDrop lv new 0" "s' = s\<lparr>last_valid_gen := new\<rparr>" "last_valid_gen s = lv"
        using step by (auto simp: CleanClaim claim_turn_def)
      show ?thesis by (rule covered_upd [OF cov]) (use s' CleanClaim in \<open>auto simp: not_le\<close>)
    qed
  next
    case (CleanDrop lv new k)
    then show ?thesis using step
      by (intro covered_upd [OF cov]) (auto simp: drop_slot_def split: if_splits)
  next
    case (CleanFree lv new)
    show ?thesis
    proof (cases "free_gen s = lv")
      case True
      then have s': "s' = s\<lparr>free_gen := new\<rparr>" using step by (auto simp: CleanFree free_turn_def)
      show ?thesis by (rule covered_upd [OF cov]) (use s' CleanFree ord True in auto)
    next
      case False
      then have "s' = s" "x' = th t" using step by (auto simp: CleanFree free_turn_def)
      then show ?thesis using cov by simp
    qed
  qed (use False step cov in auto)
qed

lemma covered_call:
  assumes cov: "covered b s th" and pre: "ord_pre b (th t) s" and call: "call_step c (th t) s = Some (x', s')"
  shows "covered b s' (th(t := x'))"
  using call
proof (cases rule: call_step_cases)
  case (written v st en ms)
  then show ?thesis by (intro covered_upd [OF cov]) (auto simp: write_slot_def)
next
  case (published st en ms)
  have l: "st = en \<or> pos b st < pos b en \<and> pos b en \<le> pos b (write_gen s)"
    using pre published(2) by (auto simp: ord_pre_def)
  consider "gen_gte_msb_masked st en" "s' = s" | "read_gen s = st" "s' = s\<lparr>read_gen := en\<rparr>"
    using published(4) by (auto elim: publish_cases)
  then show ?thesis
  proof cases
    case 1
    have "pos b en \<le> pos b st"
    proof (cases "st = en")
      case False
      then have "pos b st < 2 ^ 62" "pos b en < 2 ^ 62" using l ord_pre_bounds(4) [OF pre] by linarith+
      then show ?thesis using 1(1) by (simp add: gte_masked [of b])
    qed simp
    then show ?thesis using 1 published by (intro covered_upd [OF cov]) auto
  next
    case 2
    then show ?thesis using published l by (intro covered_upd [OF cov]) auto
  qed
next
  case (publish_fails st en ms e)
  then have "s' = s" by (auto elim: publish_cases)
  then show ?thesis using publish_fails cov by (simp add: fun_upd_idem)
qed (auto intro!: covered_same [OF cov])

lemma covered_reachable:
  assumes "reachable nd (start_at g bc rc) S" and "start_ok g bc rc" and "reserved S < 2 ^ 62"
  shows "covered (base S) (shared S) (threads S)"
  using assms(1,3)
proof (induction rule: reachable.induct)
  case start
  show ?case by (simp add: covered_def start_at_def area_at_def)
next
  case (step S e S')
  obtain t c where e: "e = (t, c)" by (cases e)
  have r: "reserved S < 2 ^ 62" using step reserved_mono by fastforce
  have ord: "order_inv S" using order_inv_reachable [OF step.hyps(1) order_inv_start [OF assms(2)] r] by simp
  note pre = order_inv_pre [OF ord r, of t]
  note cov = step.IH [OF r]
  from step.hyps(2) [unfolded e] show ?case
  proof (cases rule: sys_execE)
    case (1 x' s')
    have "covered (base S) s' ((threads S)(t := x'))"
      using 1(1) covered_pc_step [OF cov pre] covered_call [OF cov pre] by blast
    then show ?thesis unfolding 1(2-4) .
  qed
qed

lemma run_covered: "run_of nd g bc rc S \<Longrightarrow> covered g (shared S) (threads S)"
  using covered_reachable [of nd g bc rc S] run_ofD(3) [of nd g bc rc S] by (auto simp: run_of_def)

section \<open>Cleanups\<close>

text \<open>The range a cleanup has claimed and not yet handed back.\<close>

fun claim_of :: "'a pc \<Rightarrow> (gen \<times> gen) option" where
  "claim_of (CleanDrop lv new k) = Some (lv, new)"
| "claim_of (CleanFree lv new) = Some (lv, new)"
| "claim_of x = None"

lemma claim_span: "claim_of x = Some (lv, new) \<Longrightarrow> cspan b x = {pos b lv..<pos b new}"
  by (cases x) auto

lemma span_claim: "off \<in> cspan b x \<Longrightarrow> \<exists>lv new. claim_of x = Some (lv, new)"
  by (cases x) auto

lemma claim_ord: "claim_of x = Some (lv, new) \<Longrightarrow> local_ord b x s \<Longrightarrow> masked lv \<and> masked new \<and> pos b lv < pos b new"
  by (cases x) auto

lemma exec_quiet:
  "pc_step nd (threads S t) (shared S) = (x', s') \<Longrightarrow> write_gen s' = write_gen (shared S) \<Longrightarrow>
   sys_exec nd (t, None) S = Some (S\<lparr>shared := s', threads := (threads S)(t := x')\<rparr>)"
  by (simp add: sys_exec_eq gen_dist_msb_masked_def)

lemma sys_run_append:
  "sys_run nd es S = Some S1 \<Longrightarrow> sys_run nd es' S1 = sys_run nd (es @ es') S"
  by (induction es arbitrary: S) (auto split: option.splits)

lemma steps_Suc: "steps t (Suc n) = (t, None) # steps t n"
  by (simp add: steps_def)

text \<open>The cleanup whose range comes first waits for nobody.\<close>

definition hands_back :: "bool \<Rightarrow> nat \<Rightarrow> gen \<Rightarrow> 'a sys \<Rightarrow> bool" where
  "hands_back nd t new S \<longleftrightarrow>
     (\<exists>n S'. sys_run nd (steps t n) S = Some S' \<and> threads S' t = Idle \<and> free_gen (shared S') = new
        \<and> reserved S' = reserved S)"

lemma hands_back_step:
  assumes "pc_step nd (threads S t) (shared S) = (x', s')" "write_gen s' = write_gen (shared S)"
    and "hands_back nd t new (S\<lparr>shared := s', threads := (threads S)(t := x')\<rparr>)"
  shows "hands_back nd t new S"
proof -
  obtain n S' where "sys_run nd (steps t n) (S\<lparr>shared := s', threads := (threads S)(t := x')\<rparr>) = Some S'"
      "threads S' t = Idle" "free_gen (shared S') = new" "reserved S' = reserved S"
    using assms(3) by (auto simp: hands_back_def)
  then show ?thesis unfolding hands_back_def using exec_quiet [OF assms(1,2)]
    by (intro exI [of _ "Suc n"] exI [of _ S']) (simp add: steps_Suc)
qed

lemma hands_back_done: "threads S t = Idle \<Longrightarrow> free_gen (shared S) = new \<Longrightarrow> hands_back nd t new S"
  by (auto simp: hands_back_def steps_def intro!: exI [of _ 0])

lemma free_hands_back:
  assumes "threads S t = CleanFree lv new" and "free_gen (shared S) = lv"
  shows "hands_back nd t new S"
  by (rule hands_back_step [where x' = Idle and s' = "(shared S)\<lparr>free_gen := new\<rparr>"])
    (use assms in \<open>auto simp: free_turn_def intro: hands_back_done\<close>)

lemma drop_hands_back:
  "threads S t = CleanDrop lv new k \<Longrightarrow> free_gen (shared S) = lv \<Longrightarrow> hands_back nd t new S"
proof (induction "unat (gen_dist_msb_masked new lv) - k" arbitrary: S k rule: less_induct)
  case less
  show ?case
  proof (cases "nd \<and> k < unat (gen_dist_msb_masked new lv)")
    case True
    let ?s' = "drop_slot (gen_add_msb_masked lv (of_nat k)) (shared S)"
    have step: "pc_step nd (threads S t) (shared S) = (CleanDrop lv new (Suc k), ?s')"
      using True less.prems(1) by simp
    have "unat (gen_dist_msb_masked new lv) - Suc k < unat (gen_dist_msb_masked new lv) - k"
      using True by linarith
    then have "hands_back nd t new (S\<lparr>shared := ?s', threads := (threads S)(t := CleanDrop lv new (Suc k))\<rparr>)"
      by (rule less.hyps [of "Suc k"]) (use less.prems(2) in \<open>simp_all add: drop_slot_def\<close>)
    then show ?thesis by (rule hands_back_step [OF step, rotated]) (simp add: drop_slot_def)
  next
    case False
    then have "pc_step nd (threads S t) (shared S) = (CleanFree lv new, shared S)"
      using less.prems(1) by (auto split: if_splits)
    then show ?thesis
      by (rule hands_back_step) (use less.prems(2) in \<open>auto intro: free_hands_back [of _ _ lv]\<close>)
  qed
qed

lemma claim_hands_back:
  assumes "claim_of (threads S t) = Some (lv, new)" and "free_gen (shared S) = lv"
  shows "hands_back nd t new S"
proof (cases "threads S t")
  case (CleanDrop lv' new' k)
  then show ?thesis using assms drop_hands_back [of S t lv new k] by simp
next
  case (CleanFree lv' new')
  then show ?thesis using assms free_hands_back [of S t lv new] by simp
qed (use assms(1) in simp_all)

text \<open>The first range: it starts at \<open>free_gen\<close>.\<close>

lemma first_claim:
  assumes run: "run_of nd g bc rc S" and cl: "claim_of (threads S t) = Some (lv, new)"
    and not_first: "free_gen (shared S) \<noteq> lv"
  shows "\<exists>u new'. u \<noteq> t \<and> claim_of (threads S u) = Some (free_gen (shared S), new')
    \<and> pos g (free_gen (shared S)) < pos g new' \<and> pos g (free_gen (shared S)) < pos g lv"
proof -
  let ?f = "free_gen (shared S)"
  have sp: "spans_ok g (shared S) (threads S)" using run_ring [OF run] by (simp add: ring_at_def)
  have o: "ord_inv g (shared S)" using run_ofD(1,3) [OF run] by (auto simp: order_inv_def)
  have start: "masked l \<and> pos g l < pos g n \<and> pos g ?f \<le> pos g l \<and> pos g l < pos g (last_valid_gen (shared S))"
    if "claim_of (threads S v) = Some (l, n)" for v l n
    using claim_ord [OF that run_local [OF run]] spans_at(2) [OF sp, of "pos g l" v] claim_span [OF that, of g] by auto
  note t = start [OF cl]
  have lt: "pos g ?f < pos g lv"
    using t not_first pos_inj [of ?f lv g] o by (fastforce simp: ord_inv_def masked_def)
  then obtain u where u: "pos g ?f \<in> cspan g (threads S u)"
    using run_covered [OF run] t by (auto simp: covered_def)
  then obtain l n where ln: "claim_of (threads S u) = Some (l, n)" using span_claim by blast
  have "pos g l \<le> pos g ?f" "pos g ?f < pos g n" using u claim_span [OF ln] by auto
  moreover have "l = ?f" using start [OF ln] \<open>pos g l \<le> pos g ?f\<close> o pos_inj [of l ?f g]
    by (auto simp: ord_inv_def masked_def)
  moreover have "u \<noteq> t" using ln cl \<open>l = ?f\<close> not_first by auto
  ultimately show ?thesis using ln lt by blast
qed

text \<open>
  C12: cleanups wait for each other without deadlock.  In every state of every run, a cleanup that
  has claimed its range can be brought to its end by steps of cleanups that have claimed theirs,
  of nobody else; its slots are then free.
\<close>
theorem waiting_cleanup_finishes:
  assumes "run_of nd g bc rc S" and "claim_of (threads S t) = Some (lv, new)"
  shows "\<exists>es S'. sys_run nd es S = Some S' \<and> threads S' t = Idle \<and> free_gen (shared S') = new
    \<and> list_all (\<lambda>(u, c). c = None \<and> claim_of (threads S u) \<noteq> None) es"
  using assms
proof (induction "pos g lv - pos g (free_gen (shared S))" arbitrary: S rule: less_induct)
  case less
  note run = less.prems(1)
  show ?case
  proof (cases "free_gen (shared S) = lv")
    case True
    from claim_hands_back [OF less.prems(2) this, of nd] obtain n S' where
        "sys_run nd (steps t n) S = Some S'" "threads S' t = Idle" "free_gen (shared S') = new"
      by (auto simp: hands_back_def)
    moreover have "list_all (\<lambda>(u, c). c = None \<and> claim_of (threads S u) \<noteq> None) (steps t n)"
      using less.prems(2) by (auto simp: steps_def list_all_iff)
    ultimately show ?thesis by blast
  next
    case False
    from first_claim [OF run less.prems(2) this] obtain u new' where
      u: "u \<noteq> t" "claim_of (threads S u) = Some (free_gen (shared S), new')"
        "pos g (free_gen (shared S)) < pos g new'" "pos g (free_gen (shared S)) < pos g lv" by blast
    from claim_hands_back [OF u(2) refl, of nd] obtain n S1 where
      S1: "sys_run nd (steps u n) S = Some S1" "threads S1 u = Idle" "free_gen (shared S1) = new'" "reserved S1 = reserved S"
      by (auto simp: hands_back_def)
    have run1: "run_of nd g bc rc S1"
      using run reachable_sys_run [OF _ S1(1)] S1(4) by (auto simp: run_of_def)
    have others: "threads S1 v = threads S v" if "v \<noteq> u" for v
      using sys_run_threads [OF S1(1), of v] that by (auto simp: steps_def)
    have "claim_of (threads S1 t) = Some (lv, new)" using others [of t] u(1) less.prems(2) by simp
    moreover have "pos g lv - pos g (free_gen (shared S1)) < pos g lv - pos g (free_gen (shared S))"
      using S1(3) u(3,4) by simp
    ultimately obtain es S' where es: "sys_run nd es S1 = Some S'" "threads S' t = Idle" "free_gen (shared S') = new"
        "list_all (\<lambda>(u, c). c = None \<and> claim_of (threads S1 u) \<noteq> None) es"
      using less.hyps [OF _ run1] by blast
    have "list_all (\<lambda>(v, c). c = None \<and> claim_of (threads S v) \<noteq> None) (steps u n @ es)"
      using es(4) u(2) others S1(2) by (auto simp: steps_def list_all_iff split: prod.splits) (metis claim_of.simps(3) others)
    moreover have "sys_run nd (steps u n @ es) S = Some S'"
      using sys_run_append [OF S1(1), of es] es(1) by simp
    ultimately show ?thesis using es(2,3) by blast
  qed
qed

section \<open>Writers\<close>

fun reservation_of :: "'a pc \<Rightarrow> (gen \<times> gen) option" where
  "reservation_of (Writing st en ms) = Some (st, en)"
| "reservation_of x = None"

lemma reservation_span: "reservation_of x = Some (st, en) \<Longrightarrow> wspan b x = {pos b st..<pos b en}"
  by (cases x) auto

lemma span_reservation: "off \<in> wspan b x \<Longrightarrow> \<exists>st en. reservation_of x = Some (st, en)"
  by (cases x) auto

text \<open>The writer whose range comes first fills the rest of it with \<open>v\<close> and publishes.\<close>

definition fills :: "'a \<Rightarrow> 'a call option \<Rightarrow> bool" where
  "fills v c \<longleftrightarrow> c = Some (Write v) \<or> c = Some Publish"

definition gets_through :: "bool \<Rightarrow> 'a \<Rightarrow> nat \<Rightarrow> gen \<Rightarrow> 'a sys \<Rightarrow> bool" where
  "gets_through nd v t rd S \<longleftrightarrow>
     (\<exists>es S'. sys_run nd es S = Some S' \<and> threads S' t = Idle \<and> read_gen (shared S') = rd
        \<and> reserved S' = reserved S \<and> list_all (\<lambda>(u, c). u = t \<and> fills v c) es)"

lemma gets_through_step:
  assumes "call_step c (threads S t) (shared S) = Some (x', s')" "fills v (Some c)"
    and "write_gen s' = write_gen (shared S)"
    and "gets_through nd v t rd (S\<lparr>shared := s', threads := (threads S)(t := x'),
           log := log S @ published_by (threads S t) (Some c) x'\<rparr>)"
  shows "gets_through nd v t rd S"
proof -
  let ?S = "S\<lparr>shared := s', threads := (threads S)(t := x'), log := log S @ published_by (threads S t) (Some c) x'\<rparr>"
  obtain es S' where "sys_run nd es ?S = Some S'" "threads S' t = Idle" "read_gen (shared S') = rd"
      "reserved S' = reserved S" "list_all (\<lambda>(u, c). u = t \<and> fills v c) es"
    using assms(4) by (auto simp: gets_through_def)
  moreover have "call_allowed c S" using assms(2) by (auto simp: fills_def call_allowed_def)
  then have "sys_exec nd (t, Some c) S = Some ?S"
    using assms(1,3) by (simp add: sys_exec_eq gen_dist_msb_masked_def)
  ultimately show ?thesis unfolding gets_through_def using assms(2)
    by (intro exI [of _ "(t, Some c) # es"] exI [of _ S']) simp
qed

lemma gets_through_done: "threads S t = Idle \<Longrightarrow> gets_through nd v t (read_gen (shared S)) S"
  by (auto simp: gets_through_def intro!: exI [of _ "[]"])

lemma first_gets_through:
  assumes "threads S t = Writing st en ms" "length ms \<le> unat (gen_dist_msb_masked en st)"
    and "st = en \<or> \<not> gen_gte_msb_masked st en \<and> read_gen (shared S) = st"
  shows "gets_through nd v t (if st = en then read_gen (shared S) else en) S"
  using assms
proof (induction "unat (gen_dist_msb_masked en st) - length ms" arbitrary: S ms rule: less_induct)
  case less
  show ?case
  proof (cases "length ms < unat (gen_dist_msb_masked en st)")
    case True
    let ?s' = "write_slot (gen_add_msb_masked st (of_nat (length ms))) v (shared S)"
    have step: "call_step (Write v) (threads S t) (shared S) = Some (Writing st en (ms @ [v]), ?s')"
      using True less.prems(1) by (simp add: call_step_def)
    let ?S = "S\<lparr>shared := ?s', threads := (threads S)(t := Writing st en (ms @ [v])), log := log S @ []\<rparr>"
    have rd: "read_gen (shared ?S) = read_gen (shared S)" by (simp add: write_slot_def)
    have "gets_through nd v t (if st = en then read_gen (shared ?S) else en) ?S"
      by (rule less.hyps [of "ms @ [v]"]) (use True less.prems(3) rd in auto)
    then have "gets_through nd v t (if st = en then read_gen (shared S) else en) ?S" unfolding rd .
    then show ?thesis
      by (intro gets_through_step [OF step]) (simp_all add: fills_def write_slot_def published_by_def less.prems(1))
  next
    case False
    then have full: "length ms = unat (gen_dist_msb_masked en st)" using less.prems(2) by simp
    let ?s' = "(shared S)\<lparr>read_gen := if st = en then read_gen (shared S) else en\<rparr>"
    have "publish_slots Cas st en (shared S) = (Inr (), ?s')"
      using less.prems(3) by (auto simp: publish_slots_def gen_gte_msb_masked_def)
    then have step: "call_step Publish (threads S t) (shared S) = Some (Idle, ?s')"
      using less.prems(1) full by (simp add: call_step_def)
    have "gets_through nd v t (read_gen ?s') (S\<lparr>shared := ?s', threads := (threads S)(t := Idle), log := l\<rparr>)" for l
      using gets_through_done [of "S\<lparr>shared := ?s', threads := (threads S)(t := Idle), log := l\<rparr>" t nd v] by simp
    then show ?thesis by (intro gets_through_step [OF step]) (simp_all add: fills_def)
  qed
qed

lemma first_reservation:
  assumes run: "run_of nd g bc rc S" and r: "reservation_of (threads S t) = Some (st, en)" and ne: "st \<noteq> en"
    and not_first: "read_gen (shared S) \<noteq> st"
  shows "\<exists>u en'. u \<noteq> t \<and> reservation_of (threads S u) = Some (read_gen (shared S), en')
    \<and> pos g (read_gen (shared S)) < pos g en' \<and> pos g (read_gen (shared S)) < pos g st"
proof -
  let ?f = "read_gen (shared S)"
  have sp: "spans_ok g (shared S) (threads S)" using run_ring [OF run] by (simp add: ring_at_def)
  have o: "ord_inv g (shared S)" using run_ofD(1,3) [OF run] by (auto simp: order_inv_def)
  have start: "masked a \<and> pos g a < pos g n \<and> pos g ?f \<le> pos g a \<and> pos g a < pos g (write_gen (shared S))"
    if a: "reservation_of (threads S v) = Some (a, n)" and "a \<noteq> n" for v a n
  proof -
    obtain ms where "threads S v = Writing a n ms" using a by (cases "threads S v") auto
    then have "masked a \<and> pos g a < pos g n" using run_local [OF run, of v] \<open>a \<noteq> n\<close> by simp
    then show ?thesis using spans_at(1) [OF sp, of "pos g a" v] reservation_span [OF a, of g] by auto
  qed
  note t = start [OF r ne]
  have lt: "pos g ?f < pos g st"
    using t not_first pos_inj [of ?f st g] o by (fastforce simp: ord_inv_def masked_def)
  then obtain u where u: "pos g ?f \<in> wspan g (threads S u)"
    using run_covered [OF run] t by (auto simp: covered_def)
  then obtain a n where ln: "reservation_of (threads S u) = Some (a, n)" using span_reservation by blast
  have an: "pos g a \<le> pos g ?f" "pos g ?f < pos g n" using u reservation_span [OF ln] by auto
  then have "a = ?f" using start [OF ln] o pos_inj [of a ?f g]
    by (fastforce simp: ord_inv_def masked_def)
  moreover have "u \<noteq> t" using ln r \<open>a = ?f\<close> not_first by auto
  ultimately show ?thesis using ln lt an by blast
qed

lemma reservation_gets_through:
  assumes run: "run_of nd g bc rc S" and x: "threads S u = Writing a n l" and a: "a = n \<or> read_gen (shared S) = a"
  shows "gets_through nd v u (if a = n then read_gen (shared S) else n) S"
proof (rule first_gets_through [OF x])
  have o: "length l \<le> unat (gen_dist_msb_masked n a)" "a = n \<or> pos g a < pos g n \<and> pos g n \<le> pos g (write_gen (shared S))"
    using run_local [OF run, of u] x by auto
  then show "length l \<le> unat (gen_dist_msb_masked n a)" by simp
  have "pos g (write_gen (shared S)) < 2 ^ 62" using run_ofD(1,3,7) [OF run] by (auto simp: order_inv_def)
  then have "a \<noteq> n \<Longrightarrow> pos g a < 2 ^ 62 \<and> pos g n < 2 ^ 62" using o(2) by linarith
  then show "a = n \<or> \<not> gen_gte_msb_masked a n \<and> read_gen (shared S) = a"
    using o(2) a by (auto simp: gte_masked [of g])
qed

text \<open>
  C13: writers wait for each other without deadlock.  In every state of every run, every
  reservation can be published by calls of the writers that hold reservations, of nobody else,
  and without any reader or cleanup moving.
\<close>
theorem reservation_gets_published:
  assumes "run_of nd g bc rc S" and "threads S t = Writing st en ms"
  shows "\<exists>es S'. sys_run nd es S = Some S' \<and> threads S' t = Idle \<and> (st = en \<or> read_gen (shared S') = en)
    \<and> list_all (\<lambda>(u, c). reservation_of (threads S u) \<noteq> None \<and> fills v c) es"
  using assms
proof (induction "pos g st - pos g (read_gen (shared S))" arbitrary: S rule: less_induct)
  case less
  note run = less.prems(1)
  note through = reservation_gets_through [where v = v, OF run]
  show ?case
  proof (cases "st = en \<or> read_gen (shared S) = st")
    case True
    from through [OF less.prems(2) this] obtain es S' where "sys_run nd es S = Some S'" "threads S' t = Idle"
        "read_gen (shared S') = (if st = en then read_gen (shared S) else en)"
        "list_all (\<lambda>(u, c). u = t \<and> fills v c) es" by (auto simp: gets_through_def)
    then show ?thesis using less.prems(2) by (intro exI [of _ es] exI [of _ S']) (auto simp: list_all_iff)
  next
    case False
    from first_reservation [OF run, of t st en] less.prems(2) False obtain u en' where
      u: "u \<noteq> t" "reservation_of (threads S u) = Some (read_gen (shared S), en')"
        "pos g (read_gen (shared S)) < pos g en'" "pos g (read_gen (shared S)) < pos g st" by auto
    then obtain l where l: "threads S u = Writing (read_gen (shared S)) en' l" by (cases "threads S u") auto
    have "read_gen (shared S) \<noteq> en'" using u(3) by auto
    with through [OF l] obtain es1 S1 where
      S1: "sys_run nd es1 S = Some S1" "threads S1 u = Idle" "read_gen (shared S1) = en'" "reserved S1 = reserved S"
        "list_all (\<lambda>(w, c). w = u \<and> fills v c) es1"
      by (auto simp: gets_through_def)
    have run1: "run_of nd g bc rc S1"
      using run reachable_sys_run [OF _ S1(1)] S1(4) by (auto simp: run_of_def)
    have others: "threads S1 w = threads S w" if "w \<noteq> u" for w
      using sys_run_threads [OF S1(1), of w] that S1(5) by (fastforce simp: list_all_iff)
    have "pos g st - pos g (read_gen (shared S1)) < pos g st - pos g (read_gen (shared S))"
      using S1(3) u(3,4) by simp
    moreover have "threads S1 t = Writing st en ms" using others [of t] u(1) less.prems(2) by simp
    ultimately obtain es S' where es: "sys_run nd es S1 = Some S'" "threads S' t = Idle" "st = en \<or> read_gen (shared S') = en"
        "list_all (\<lambda>(w, c). reservation_of (threads S1 w) \<noteq> None \<and> fills v c) es"
      using less.hyps [OF _ run1] by blast
    have "reservation_of (threads S w) \<noteq> None" if "reservation_of (threads S1 w) \<noteq> None" for w
      using that others [of w] S1(2) by (cases "w = u") auto
    then have "list_all (\<lambda>(w, c). reservation_of (threads S w) \<noteq> None \<and> fills v c) (es1 @ es)"
      using es(4) S1(5) u(2) by (auto simp: list_all_iff)
    moreover have "sys_run nd (es1 @ es) S = Some S'"
      using sys_run_append [OF S1(1), of es] es(1) by simp
    ultimately show ?thesis using es(2,3) by blast
  qed
qed

section \<open>Examples\<close>

text \<open>Cleanup 2 stops before it drops its message, cleanup 3 has dropped its own and waits for it.\<close>

definition demo_wait :: "(nat \<times> nat call option) list" where
  "demo_wait = [(0, Some (Reserve False 1))] @ steps 0 2 @ [(0, Some (Write 7)), (0, Some Publish)] @
     [(2, Some Cleanup)] @ steps 2 7 @
     [(0, Some (Reserve False 1))] @ steps 0 2 @ [(0, Some (Write 8)), (0, Some Publish)] @
     [(3, Some Cleanup)] @ steps 3 9"

lemma waiting_cleanup_finishes_witness:
  "\<exists>S :: nat sys. run_of True (2 ^ 63 - 1) 2 2 S \<and> threads S 3 = CleanFree 0 1 \<and> free_gen (shared S) \<noteq> 0 \<and>
     (\<exists>es S'. sys_run True es S = Some S' \<and> threads S' 3 = Idle \<and> free_gen (shared S') = 1
        \<and> list_all (\<lambda>(u, c). c = None \<and> claim_of (threads S u) \<noteq> None) es)"
proof -
  have "case sys_run True demo_wait (start_at (2 ^ 63 - 1) 2 2) of
      Some S \<Rightarrow> (threads S 3 = CleanFree 0 1 \<and> free_gen (shared S) \<noteq> 0) \<and> reserved S = 2 | None \<Rightarrow> False" by code_simp
  from demo_run [OF this] obtain S :: "nat sys" where S: "run_of True (2 ^ 63 - 1) 2 2 S"
      "threads S 3 = CleanFree 0 1" "free_gen (shared S) \<noteq> 0" by auto
  have "claim_of (threads S 3) = Some (0, 1)" using S(2) by simp
  from waiting_cleanup_finishes [OF S(1) this] S show ?thesis by blast
qed

text \<open>Writer 1 has reserved after writer 0, which has written nothing yet.\<close>

definition demo_second :: "(nat \<times> nat call option) list" where
  "demo_second = [(0, Some (Reserve False 1))] @ steps 0 2 @ [(1, Some (Reserve False 1))] @ steps 1 2"

lemma reservation_gets_published_witness:
  "\<exists>S :: nat sys. run_of True (2 ^ 63 - 1) 2 2 S \<and> threads S 1 = Writing 0 1 [] \<and> read_gen (shared S) \<noteq> 0 \<and>
     (\<exists>es S'. sys_run True es S = Some S' \<and> threads S' 1 = Idle \<and> (0 = (1 :: gen) \<or> read_gen (shared S') = 1)
        \<and> list_all (\<lambda>(u, c). reservation_of (threads S u) \<noteq> None \<and> fills 5 c) es)"
proof -
  have "case sys_run True demo_second (start_at (2 ^ 63 - 1) 2 2) of
      Some S \<Rightarrow> (threads S 1 = Writing 0 1 [] \<and> read_gen (shared S) \<noteq> 0) \<and> reserved S = 2 | None \<Rightarrow> False" by code_simp
  from demo_run [OF this] obtain S :: "nat sys" where S: "run_of True (2 ^ 63 - 1) 2 2 S"
      "threads S 1 = Writing 0 1 []" "read_gen (shared S) \<noteq> 0" by auto
  from reservation_gets_published [OF S(1,2), of 5] S show ?thesis by blast
qed

end
