(* ===== verification/Broadcast.thy ===== *)
theory Broadcast
  imports Machine_Safety
begin

text \<open>
  What the ring is for, without the ring: a board on which messages are posted one after the
  other, the oldest of them expired, and readers that have a place on it.  Every step of the
  interleaved operations of \<open>Machine\<close> is one step of the board, or none.
\<close>

section \<open>The board\<close>

text \<open>A reader's place is a number of messages, and whether it is active.\<close>

record 'a board =
  posted :: "'a list"
  expired :: nat
  places :: "gen \<Rightarrow> (nat \<times> bool) option"

text \<open>
  \<open>who\<close> is the reader that takes the step, if it is a reader.  An active reader moves only by
  itself; a suspended one may be dragged forward by anybody; nothing expires that a reader,
  active or suspended, has still before it.
\<close>

inductive board_step :: "gen option \<Rightarrow> 'a board \<Rightarrow> 'a board \<Rightarrow> bool" for who B where
  stutter: "board_step who B B"
| post: "board_step who B (B\<lparr>posted := posted B @ ms\<rparr>)"
| expire: "expired B \<le> n \<Longrightarrow> n \<le> length (posted B) \<Longrightarrow> (\<And>r q a. places B r = Some (q, a) \<Longrightarrow> n \<le> q) \<Longrightarrow>
    board_step who B (B\<lparr>expired := n\<rparr>)"
| join: "who = None \<Longrightarrow> places B r = None \<Longrightarrow> expired B \<le> q \<Longrightarrow> q \<le> length (posted B) \<Longrightarrow>
    board_step who B (B\<lparr>places := (places B)(r \<mapsto> (q, False))\<rparr>)"
| wake: "who = Some r \<Longrightarrow> places B r = Some (q, False) \<Longrightarrow> q \<le> q' \<Longrightarrow> q' \<le> length (posted B) \<Longrightarrow>
    board_step who B (B\<lparr>places := (places B)(r \<mapsto> (q', True))\<rparr>)"
| go: "who = Some r \<Longrightarrow> places B r = Some (q, True) \<Longrightarrow> q \<le> q' \<Longrightarrow> q' \<le> length (posted B) \<Longrightarrow>
    board_step who B (B\<lparr>places := (places B)(r \<mapsto> (q', True))\<rparr>)"
| rest: "who = Some r \<Longrightarrow> places B r = Some (q, True) \<Longrightarrow>
    board_step who B (B\<lparr>places := (places B)(r \<mapsto> (q, False))\<rparr>)"
| drag: "places B r = Some (q, False) \<Longrightarrow> q \<le> q' \<Longrightarrow> q' \<le> length (posted B) \<Longrightarrow>
    board_step who B (B\<lparr>places := (places B)(r \<mapsto> (q', False))\<rparr>)"
| leave: "who = Some r \<Longrightarrow> places B r = Some (q, False) \<Longrightarrow>
    board_step who B (B\<lparr>places := (places B)(r := None)\<rparr>)"

inductive_cases board_stepE: "board_step who B B'"

definition empty_board :: "'a board" where
  "empty_board = \<lparr>posted = [], expired = 0, places = (\<lambda>_. None)\<rparr>"

text \<open>What every user of the board can rely on.\<close>

definition board_ok :: "'a board \<Rightarrow> bool" where
  "board_ok B \<longleftrightarrow> expired B \<le> length (posted B) \<and>
     (\<forall>r q a. places B r = Some (q, a) \<longrightarrow> expired B \<le> q \<and> q \<le> length (posted B))"

lemma board_ok_empty: "board_ok empty_board"
  by (simp add: board_ok_def empty_board_def)

lemma board_ok_step: "board_step who B B' \<Longrightarrow> board_ok B \<Longrightarrow> board_ok B'"
  by (erule board_stepE) (auto simp: board_ok_def split: if_splits, (meson le_trans trans_le_add1)+)

lemma active_place_stays:
  "board_step who B B' \<Longrightarrow> places B r = Some (q, True) \<Longrightarrow> who \<noteq> Some r \<Longrightarrow> places B' r = Some (q, True)"
  by (erule board_stepE) auto

section \<open>The board an area stands for\<close>

definition place :: "gen \<Rightarrow> 'a area \<Rightarrow> gen \<Rightarrow> (nat \<times> bool) option" where
  "place b s r =
     (if id_ok r
      then map_option (\<lambda>p. (pos b (load_gen p s), \<not> is_suspended (load_gen p s))) (get_reader_ptr r s)
      else None)"

definition board :: "'a sys \<Rightarrow> 'a board" where
  "board S = \<lparr>posted = log S, expired = pos (base S) (last_valid_gen (shared S)),
              places = place (base S) (shared S)\<rparr>"

lemma place_cong: "reader_gens s' = reader_gens s \<Longrightarrow> place b s' = place b s"
  by (simp add: fun_eq_iff place_def get_reader_ptr_find load_gen_def)

lemma place_store:
  assumes "unat p < length (slots (reader_gens s))"
  shows "place b (store_gen p v s) q =
    (if id_ok q \<and> get_reader_ptr q s = Some p then Some (pos b v, \<not> is_suspended v) else place b s q)"
proof -
  have "get_reader_ptr q (store_gen p v s) = get_reader_ptr q s" by (simp add: get_reader_ptr_find find_id_eq)
  then show ?thesis using assms by (cases "get_reader_ptr q s") (auto simp: place_def load_store_gen)
qed

lemma place_cell:
  assumes p: "unat p < length (slots (reader_gens s))"
  shows "place b (store_gen p v s) = place b s \<or>
    (\<exists>r. id_ok r \<and> get_reader_ptr r s = Some p \<and>
       place b (store_gen p v s) = (place b s)(r \<mapsto> (pos b v, \<not> is_suspended v)))"
proof (cases "\<exists>r. id_ok r \<and> get_reader_ptr r s = Some p")
  case True
  then obtain r where r: "id_ok r" "get_reader_ptr r s = Some p" by blast
  have "key_bits (load_key p (reader_gens s)) = q" if "get_reader_ptr q s = Some p" for q
    using that unfolding get_reader_ptr_find find_id_Some by metis
  then have "get_reader_ptr q s = Some p \<longleftrightarrow> q = r" for q using r(2) by metis
  then have "place b (store_gen p v s) = (place b s)(r \<mapsto> (pos b v, \<not> is_suspended v))"
    using r by (intro ext) (auto simp: place_store [OF p])
  then show ?thesis using r by blast
next
  case False
  then show ?thesis by (intro disjI1 ext) (auto simp: place_store [OF p])
qed

lemma place_key:
  assumes m: "map_inv (reader_gens s)" and p: "unat p < length (slots (reader_gens s))"
  shows "place b (s\<lparr>reader_gens := store_key p k (reader_gens s)\<rparr>) q =
    (if id_ok q \<and> q AND mask_of (reader_gens s) = p
     then (if key_bits k = q then Some (pos b (load_gen p s), \<not> is_suspended (load_gen p s)) else None)
     else place b s q)"
  using m p by (auto simp: place_def get_reader_ptr_find find_store)

section \<open>What a step does to the table\<close>

text \<open>
  A step touches one cell or one key at most.  A cell is touched by its own reader, or was
  and stays suspended; a key is claimed in an empty slot, loses its mark, or is removed by its
  reader.
\<close>

definition cell_effect :: "gen option \<Rightarrow> 'a area \<Rightarrow> 'a area \<Rightarrow> bool" where
  "cell_effect who s s' \<longleftrightarrow> (\<exists>p v. unat p < length (slots (reader_gens s)) \<and>
     reader_gens s' = reader_gens (store_gen p v s) \<and>
     ((\<exists>r. who = Some r \<and> p = slot_of r s \<and>
         (is_suspended v \<longrightarrow> is_suspended (load_gen p s) \<or> v = load_gen p s OR MSB)) \<or>
      is_suspended (load_gen p s) \<and> is_suspended v))"

definition key_effect :: "gen option \<Rightarrow> 'a area \<Rightarrow> 'a area \<Rightarrow> bool" where
  "key_effect who s s' \<longleftrightarrow> (\<exists>p k. unat p < length (slots (reader_gens s)) \<and> is_suspended (load_gen p s) \<and>
     reader_gens s' = store_key p k (reader_gens s) \<and>
     (who = None \<and> load_key p (reader_gens s) = EMPTY \<and> k \<noteq> 0 \<or>
      key_bits k = key_bits (load_key p (reader_gens s)) \<or>
      (\<exists>r. who = Some r \<and> p = slot_of r s \<and> k = 0)))"

definition effect :: "gen option \<Rightarrow> 'a area \<Rightarrow> 'a area \<Rightarrow> bool" where
  "effect who s s' \<longleftrightarrow> reader_gens s' = reader_gens s \<or>
     last_valid_gen s' = last_valid_gen s \<and> (cell_effect who s s' \<or> key_effect who s s')"

lemma effect_store:
  assumes "unat (slot_of r s) < length (slots (reader_gens s))"
    and "is_suspended v \<longrightarrow> is_suspended (load_gen (slot_of r s) s) \<or> v = load_gen (slot_of r s) s OR MSB"
  shows "effect (Some r) s (store_gen (slot_of r s) v s)"
proof -
  have "cell_effect (Some r) s (store_gen (slot_of r s) v s)"
    unfolding cell_effect_def using assms by (intro exI [of _ "slot_of r s"] exI [of _ v]) auto
  then show ?thesis by (simp add: effect_def)
qed

lemma effect_refl [simp]: "effect who s s"
  by (simp add: effect_def)

lemma effect_cell:
  assumes "unat p < length (slots (reader_gens s))" "is_suspended (load_gen p s)" "is_suspended v"
  shows "effect who s (store_gen p v s)"
proof -
  have "cell_effect who s (store_gen p v s)"
    unfolding cell_effect_def using assms by (intro exI [of _ p] exI [of _ v]) simp
  then show ?thesis by (simp add: effect_def)
qed

lemma effect_key:
  assumes "unat p < length (slots (reader_gens s))" "is_suspended (load_gen p s)"
    and "who = None \<and> load_key p (reader_gens s) = EMPTY \<and> k \<noteq> 0 \<or>
      key_bits k = key_bits (load_key p (reader_gens s)) \<or> (\<exists>r. who = Some r \<and> p = slot_of r s \<and> k = 0)"
  shows "effect who s (s\<lparr>reader_gens := store_key p k (reader_gens s)\<rparr>)"
proof -
  have "key_effect who s (s\<lparr>reader_gens := store_key p k (reader_gens s)\<rparr>)"
    unfolding key_effect_def using assms by (intro exI [of _ p] exI [of _ k]) simp
  then show ?thesis by (simp add: effect_def)
qed

lemma op_act_effect:
  assumes pre: "own_pre (OpAct r p c oper) s" and bound: "op_bound b oper s"
  shows "effect (Some r) s (snd (op_act r p c oper s))"
proof -
  have p: "p = slot_of r s" and c: "is_suspended c \<or> load_gen p s = c" and less: "unat (slot_of r s) < length (slots (reader_gens s))"
    using pre slot_less [OF pre_inv [OF pre]] by (auto simp: own_pre_def gen_of_def)
  show ?thesis
  proof (cases oper)
    case (SetGen g)
    then have "\<not> is_suspended g" using bound by (simp add: masked_active)
    then show ?thesis using SetGen less by (auto intro!: effect_store simp: set_gen_from_def p)
  next
    case (Resume)
    then show ?thesis using less by (cases rule: cas_gen_cases [of p s c "c AND NOT MSB"])
        (auto intro!: effect_store simp: resume_turn_def p SUSPENDED_BIT_eq)
  next
    case (ResumeAt e)
    then show ?thesis using less by (cases rule: cas_gen_cases [of p s c "e AND NOT MSB"])
        (auto intro!: effect_store simp: resume_at_turn_def p SUSPENDED_BIT_eq)
  qed (use c less in \<open>auto intro!: effect_store simp: suspend_from_def p SUSPENDED_BIT_eq\<close>)
qed

lemma scan_effect:
  assumes pre: "own_pre (CleanTurn lv mh i rg) s" and m: "masked mh"
  shows "effect None s (snd (pc_step nd (CleanTurn lv mh i rg) s))"
proof -
  have i: "i < length (slots (reader_gens s))" using pre by (simp add: own_pre_def)
  then have "unat (of_nat i :: usize) < length (slots (reader_gens s))"
    using pre_inv [OF pre] by (simp add: unat_of_nat_slot)
  then show ?thesis
    by (cases rule: cas_gen_cases [of "of_nat i" s rg "mh OR SUSPENDED_BIT"])
      (auto intro!: effect_cell simp: scan_turn_def SUSPENDED_BIT_eq)
qed

lemma key_effects:
  assumes pre: "own_pre x s" and x: "x = ProbeCas ky i idx k \<or> x = Finish r p \<or> x = RemoveCas r k"
  shows "effect (owned x) s (snd (pc_step nd x s))"
proof -
  let ?m = "reader_gens s"
  have m: "map_inv ?m" and fs: "free_suspended s" and loc: "local_own x s"
    using pre by (auto simp: own_pre_def reg_inv_def)
  have wf: "map_wf ?m" using m by (simp add: map_inv_def)
  note less = slot_less [OF m]
  from x show ?thesis
  proof (elim disjE)
    assume x: "x = ProbeCas ky i idx k"
    then have ky: "id_ok ky" and idx: "idx = (ky + i) AND mask_of ?m" and i: "unat i < length (slots ?m)" using loc by auto
    have l: "unat idx < length (slots ?m)" unfolding idx by (rule index_less [OF wf])
    show ?thesis
    proof (cases "k = EMPTY \<and> load_key idx ?m = EMPTY")
      case True
      have "key_bits (fold_key ky 0 i (mask_of ?m)) \<noteq> 0"
        using unat_fold [OF id_okD(1) [OF ky] id_okD(2) [OF ky] wf i] by simp
      then have "fold_key ky 0 i (mask_of ?m) \<noteq> 0" by auto
      moreover have "is_suspended (load_gen idx s)" using fs l True
        by (auto simp: free_suspended_def load_gen_def load_key_def slot_at_def)
      ultimately show ?thesis using True x l
        by (auto intro!: effect_key simp: goi_turn_def value_ptr_def Let_def)
    qed (use x in \<open>auto simp: goi_turn_def Let_def compare_exchange_def\<close>)
  next
    assume x: "x = Finish r p"
    have "key_bits (key_bits v) = key_bits v" for v by (simp add: key_bits_def IN_PROGRESS_def)
    then show ?thesis using x loc less [of r] by (auto intro!: effect_key simp: finish_init_at_eq gen_of_def)
  next
    assume x: "x = RemoveCas r k"
    then show ?thesis using loc less [of r]
      by (auto intro!: effect_key simp: remove_turn_def index_for_def slot_of_def gen_of_def compare_exchange_def)
  qed
qed

lemma pc_step_effect:
  assumes pre: "ord_pre b x s"
  shows "effect (owned x) s (snd (pc_step nd x s))"
proof -
  have own: "own_pre x s" and loc: "local_own x s" "local_ord b x s" using pre by (auto simp: ord_pre_def own_pre_def)
  note less = slot_less [OF pre_inv [OF own]]
  show ?thesis
  proof (cases x)
    case (CleanTurn lv mh i rg)
    then show ?thesis using scan_effect [of lv mh i rg s nd] own loc by simp
  next
    case (EnterCas r p c)
    then show ?thesis using loc less by (cases rule: cas_gen_cases [of p s c "gen_without_suspended_bit c"])
      (auto intro!: effect_store simp: enter_turn_def strip_eq)
  next
    case (OpAct r p c oper)
    then show ?thesis using op_act_effect [of r p c oper s b] own loc by simp
  next
    case (ReserveGrab be n cf cw)
    obtain x' s' where r: "pc_step nd (ReserveGrab be n cf cw) s = (x', s')" by (metis surj_pair)
    then have "reader_gens s' = reader_gens s"
      by (cases rule: reserve_grab_cases) (auto simp: grab_Cas split: if_splits)
    then show ?thesis using r ReserveGrab by (simp add: effect_def)
  next
    case (ProbeCas ky i idx k)
    then show ?thesis using key_effects [OF own] by blast
  next
    case (Finish r p)
    then show ?thesis using key_effects [OF own] by blast
  next
    case (RemoveCas r k)
    then show ?thesis using key_effects [OF own] by blast
  qed (auto simp: effect_def compare_exchange_def claim_turn_def free_turn_def drop_slot_def Let_def
      split: option.splits reader_op.splits sum.splits if_splits)
qed

section \<open>The simulation\<close>

lemma holds_found: "holds r s \<Longrightarrow> id_ok r \<and> get_reader_ptr r s = Some (slot_of r s)"
  by (simp add: get_reader_ptr_find find_id_Some slot_of_def holds_def)

lemma found_inj: "get_reader_ptr q s = Some p \<Longrightarrow> get_reader_ptr r s = Some p \<Longrightarrow> q = r"
  unfolding get_reader_ptr_find find_id_Some by metis

text \<open>\<open>step_frame\<close> is what a step that only touches the table keeps.\<close>

definition step_frame :: "gen option \<Rightarrow> 'a sys \<Rightarrow> 'a sys \<Rightarrow> bool" where
  "step_frame who S S' \<longleftrightarrow> map_inv (reader_gens (shared S)) \<and> (\<forall>r. who = Some r \<longrightarrow> holds r (shared S)) \<and>
     log S' = log S \<and> base S' = base S \<and> last_valid_gen (shared S') = last_valid_gen (shared S) \<and>
     order_inv S \<and> order_inv S' \<and> grows (base S) (shared S) (shared S')"

lemma board_cell:
  assumes fr: "step_frame who S S'" and ef: "cell_effect who (shared S) (shared S')"
  shows "board_step who (board S) (board S')"
proof -
  let ?s = "shared S" and ?s' = "shared S'" and ?b = "base S"
  obtain p v where p: "unat p < length (slots (reader_gens ?s))" "reader_gens ?s' = reader_gens (store_gen p v ?s)"
    and who: "(\<exists>r. who = Some r \<and> p = slot_of r ?s \<and>
         (is_suspended v \<longrightarrow> is_suspended (load_gen p ?s) \<or> v = load_gen p ?s OR MSB)) \<or>
      is_suspended (load_gen p ?s) \<and> is_suspended v"
    using ef by (auto simp: cell_effect_def)
  have pl: "place ?b ?s' = place ?b (store_gen p v ?s)" by (rule place_cong [OF p(2)])
  have len: "length (slots (reader_gens ?s')) = length (slots (reader_gens ?s))" "base S' = ?b"
    using fr by (simp_all add: step_frame_def grows_def)
  have cell: "cell_at (unat p) ?s' = v" using p by (simp add: cell_at_def slot_store_cell)
  have q': "pos ?b (load_gen p ?s) \<le> pos ?b v"
    using fr p(1) cell unfolding step_frame_def grows_def load_cell_at by metis
  have end': "pos ?b v \<le> length (log S)"
    using fr p(1) cell len by (auto simp: step_frame_def order_inv_def ord_inv_def)
  show ?thesis
  proof (cases "place ?b ?s' = place ?b ?s")
    case True
    then have "board S' = board S" using fr by (simp add: board_def step_frame_def)
    then show ?thesis by (simp add: stutter)
  next
    case False
    then obtain r where r: "id_ok r" "get_reader_ptr r ?s = Some p"
        "place ?b ?s' = (place ?b ?s)(r \<mapsto> (pos ?b v, \<not> is_suspended v))"
      using place_cell [OF p(1), of ?b v] pl by auto
    then have B: "board S' = (board S)\<lparr>places := (places (board S))(r \<mapsto> (pos ?b v, \<not> is_suspended v))\<rparr>"
        "places (board S) r = Some (pos ?b (load_gen p ?s), \<not> is_suspended (load_gen p ?s))"
      using fr by (simp_all add: board_def step_frame_def place_def)
    have me: "r' = r" if "who = Some r'" "p = slot_of r' ?s" for r'
      using fr that holds_found [of r' ?s] found_inj r(2) by (auto simp: step_frame_def)
    have posted: "posted (board S) = log S" by (simp add: board_def)
    show ?thesis
    proof (cases "is_suspended (load_gen p ?s)")
      case True
      then show ?thesis using B who me q' end' posted
        by (cases "is_suspended v") (auto intro: drag wake)
    next
      case False
      then have w: "who = Some r" "is_suspended v \<Longrightarrow> v = load_gen p ?s OR MSB" using who me by auto
      then show ?thesis using B False q' end' posted
        by (cases "is_suspended v") (auto intro: go rest)
    qed
  qed
qed

lemma board_key:
  assumes fr: "step_frame who S S'" and ef: "key_effect who (shared S) (shared S')"
  shows "board_step who (board S) (board S')"
proof -
  let ?s = "shared S" and ?s' = "shared S'" and ?b = "base S" and ?m = "reader_gens (shared S)"
  obtain p k where p: "unat p < length (slots ?m)" "is_suspended (load_gen p ?s)" "reader_gens ?s' = store_key p k ?m"
    and who: "who = None \<and> load_key p ?m = EMPTY \<and> k \<noteq> 0 \<or> key_bits k = key_bits (load_key p ?m) \<or>
      (\<exists>r. who = Some r \<and> p = slot_of r ?s \<and> k = 0)"
    using ef by (auto simp: key_effect_def)
  have m: "map_inv ?m" using fr by (simp add: step_frame_def)
  have "reader_gens ?s' = reader_gens (?s\<lparr>reader_gens := store_key p k ?m\<rparr>)" using p(3) by simp
  note pl = place_cong [OF this, of ?b] place_key [OF m p(1), of ?b k]
  have before: "place ?b ?s q = (if key_bits (load_key p ?m) = q then Some (pos ?b (load_gen p ?s), False) else None)"
    if "id_ok q" "q AND mask_of ?m = p" for q
    using that p(2) by (simp add: place_def get_reader_ptr_find find_id_eq Let_def)
  have B: "board S' = (board S)\<lparr>places := place ?b ?s'\<rparr>" "places (board S) = place ?b ?s"
    using fr by (simp_all add: board_def step_frame_def)
  from who show ?thesis
  proof (elim disjE exE conjE)
    assume j: "who = None" "load_key p ?m = EMPTY" "k \<noteq> 0"
    let ?r = "key_bits k"
    show ?thesis
    proof (cases "id_ok ?r \<and> ?r AND mask_of ?m = p")
      case True
      then have new: "place ?b ?s' = (place ?b ?s)(?r \<mapsto> (pos ?b (load_gen p ?s), False))"
        using p(2) j(2) before by (intro ext) (auto simp: pl id_okD)
      have "place ?b ?s ?r = None" using before True j(2) id_okD(1) [of ?r] by auto
      moreover have "pos ?b (last_valid_gen ?s) \<le> pos ?b (load_gen p ?s)" "pos ?b (load_gen p ?s) \<le> length (log S)"
        using fr p(1) by (auto simp: step_frame_def order_inv_def ord_inv_def load_cell_at)
      ultimately have "board_step who (board S)
          ((board S)\<lparr>places := (places (board S))(?r \<mapsto> (pos ?b (load_gen p ?s), False))\<rparr>)"
        using j(1) by (intro join) (simp_all add: board_def)
      then show ?thesis using B new by simp
    next
      case False
      then have "place ?b ?s' = place ?b ?s" using j(2) before by (intro ext) (auto simp: pl id_okD)
      then have "board S' = board S" using fr by (simp add: board_def step_frame_def)
      then show ?thesis by (simp add: stutter)
    qed
  next
    assume "key_bits k = key_bits (load_key p ?m)"
    then have "place ?b ?s' = place ?b ?s" using p(2) before by (intro ext) (auto simp: pl)
    then have "board S' = board S" using fr by (simp add: board_def step_frame_def)
    then show ?thesis by (simp add: stutter)
  next
    fix r assume l: "who = Some r" "p = slot_of r ?s" "k = 0"
    then have h: "holds r ?s" using fr by (simp add: step_frame_def)
    then have r: "id_ok r" "key_bits (load_key p ?m) = r" "r AND mask_of ?m = p" using l(2) by (auto simp: holds_def slot_of_def)
    have kb: "key_bits k = 0" using l(3) by simp
    have "place ?b ?s' = (place ?b ?s)(r := None)"
    proof (rule ext)
      show "place ?b ?s' q = ((place ?b ?s)(r := None)) q" for q
        using pl(1) pl(2) [of q] before [of q] r kb id_okD(1) [of q] by (auto split: if_splits)
    qed
    then have "board S' = (board S)\<lparr>places := (places (board S))(r := None)\<rparr>" using B by simp
    moreover have "places (board S) r = Some (pos ?b (load_gen p ?s), False)" using before [OF r(1,3)] r(2) B(2) by simp
    ultimately show ?thesis using leave [OF l(1)] by simp
  qed
qed

text \<open>Any step.\<close>

lemma call_frame:
  assumes "call_step d x s = Some (x', s')"
  shows "reader_gens s' = reader_gens s" and "last_valid_gen s' = last_valid_gen s"
proof -
  from assms have "reader_gens s' = reader_gens s \<and> last_valid_gen s' = last_valid_gen s"
  proof (cases rule: call_step_cases)
    case (published st en ms)
    then show ?thesis using publish_frame [OF published(4)] by simp
  next
    case (publish_fails st en ms e)
    then show ?thesis using publish_frame [OF publish_fails(4)] by simp
  qed (simp_all add: write_slot_def)
  then show "reader_gens s' = reader_gens s" "last_valid_gen s' = last_valid_gen s" by simp_all
qed

lemma board_exec:
  assumes run: "run_of nd g bc rc S" and exec: "sys_exec nd (t, c) S = Some S'"
  shows "board_step (owned (threads S t)) (board S) (board S')"
  using exec
proof (cases rule: sys_execE)
  case (1 x' s')
  note R = run_ofD [OF run]
  let ?s = "shared S" and ?x = "threads S t" and ?b = "base S"
  note o = order_step [OF R(1,7) exec]
  note pre = order_inv_pre [OF R(1,7), of t]
  have m: "map_inv (reader_gens ?s)" and h: "\<forall>r. owned ?x = Some r \<longrightarrow> holds r ?s"
    using R(4) by (auto simp: own_inv_def reg_inv_def)
  show ?thesis
  proof (cases c)
    case (Some d)
    then have "reader_gens s' = reader_gens ?s" "last_valid_gen s' = last_valid_gen ?s"
      using 1(1) call_frame by blast+
    then have "board S' = (board S)\<lparr>posted := posted (board S) @ published_by ?x c x'\<rparr>"
      using 1(2,4,6) place_cong [of s' ?s ?b] by (simp add: board_def)
    then show ?thesis by (simp add: post)
  next
    case None
    then have step: "pc_step nd ?x ?s = (x', s')" and log: "log S' = log S" using 1(1,6) by auto
    have "effect (owned ?x) ?s s'" using pc_step_effect [OF pre, of nd] step by simp
    then consider (ring) "reader_gens s' = reader_gens ?s"
      | (table) "last_valid_gen s' = last_valid_gen ?s" "cell_effect (owned ?x) ?s s' \<or> key_effect (owned ?x) ?s s'"
      by (auto simp: effect_def)
    then show ?thesis
    proof cases
      case ring
      let ?n = "pos ?b (last_valid_gen s')"
      have B: "board S' = (board S)\<lparr>expired := ?n\<rparr>"
        using 1(2,4) log place_cong [OF ring, of ?b] by (simp add: board_def)
      have "expired (board S) \<le> ?n" "?n \<le> length (posted (board S))"
        using o 1(2) log by (auto simp: board_def grows_def order_inv_def ord_inv_def)
      moreover have "?n \<le> q" if "places (board S) r = Some (q, a)" for r q a
      proof -
        from that obtain p where p: "get_reader_ptr r ?s = Some p" "q = pos ?b (load_gen p ?s)"
          by (auto simp: board_def place_def split: if_splits)
        have "unat p < length (slots (reader_gens s'))"
          using p(1) find_id_less [OF m] ring by (simp add: get_reader_ptr_find)
        then have "?n \<le> pos ?b (cell_at (unat p) s')" using o 1(2) by (auto simp: order_inv_def ord_inv_def)
        then show ?thesis using p(2) ring by (simp add: load_cell_at cell_at_def)
      qed
      ultimately show ?thesis unfolding B by (rule expire)
    next
      case table
      have "step_frame (owned ?x) S S'" using m h log 1(2,4) table(1) o R(1) by (simp add: step_frame_def)
      then show ?thesis using table(2) 1(2) board_cell board_key by blast
    qed
  qed
qed

lemma board_start:
  assumes ok: "start_ok g bc rc"
  shows "board (start_at g bc rc :: 'a sys) = empty_board"
proof -
  let ?s = "area_at g bc rc :: 'a area"
  have m: "map_inv (reader_gens ?s)" using own_inv_start [of rc g bc, where 'a = 'a] ok
    by (simp add: own_inv_def reg_inv_def start_at_def start_ok_def)
  have "load_key (slot_of r ?s) (reader_gens ?s) = EMPTY" for r
    using slot_less [OF m, of r] by (simp add: load_key_def slot_at_def area_at_def with_capacity_and_init_def)
  then have "place g ?s r = None" for r
    by (auto simp: place_def get_reader_ptr_find find_id_eq slot_of_def Let_def dest: id_okD)
  then show ?thesis by (simp add: board_def start_at_def empty_board_def fun_eq_iff) (simp add: area_at_def)
qed

text \<open>
  C2: refinement.  Every step of the interleaved operations, whoever takes it, is a step of
  the board or leaves it as it is: messages are only appended; what expires is behind every
  registered reader; an active reader is moved forward only by its own thread; readers come
  and go suspended.
\<close>
theorem machine_refines_board:
  fixes S :: "'a sys"
  assumes "run_of nd g bc rc S" and "sys_exec nd (t, c) S = Some S'"
  shows "board_step (owned (threads S t)) (board S) (board S')
    \<and> posted (board S') = posted (board S) @ published_by (threads S t) c (threads S' t)
    \<and> board (start_at g bc rc :: 'a sys) = empty_board"
proof -
  have "posted (board S') = posted (board S) @ published_by (threads S t) c (threads S' t)"
    using assms(2) by (auto simp: board_def elim!: sys_execE)
  moreover have "board (start_at g bc rc :: 'a sys) = empty_board"
    using assms(1) by (simp add: run_of_def board_start)
  ultimately show ?thesis using board_exec [OF assms] by blast
qed

text \<open>The publication of the first message of \<open>demo_read\<close>.\<close>

lemma machine_refines_board_witness:
  "\<exists>S S' :: nat sys. run_of True (2 ^ 63 - 1) 2 2 S \<and> sys_exec True (0, Some Publish) S = Some S' \<and>
     board_step None (board S) (board S') \<and> posted (board S) = [] \<and> posted (board S') = [7]"
proof -
  have "case sys_run True (take 10 demo_read) (start_at (2 ^ 63 - 1) 2 2) of
      Some S \<Rightarrow> (log S = [] \<and> threads S 0 = Writing (2 ^ 63 - 1) 0 [7] \<and>
         (case sys_exec True (0, Some Publish) S of Some S' \<Rightarrow> log S' = [7] | None \<Rightarrow> False)) \<and> reserved S = 1
    | None \<Rightarrow> False" by code_simp
  from demo_run [OF this] obtain S S' :: "nat sys" where S: "run_of True (2 ^ 63 - 1) 2 2 S"
      "sys_exec True (0, Some Publish) S = Some S'" "log S = []" "log S' = [7]"
      "threads S 0 = Writing (2 ^ 63 - 1) 0 [7]"
    by (auto split: option.splits)
  from machine_refines_board [OF S(1,2)] S show ?thesis by (auto simp: board_def)
qed

end
