(* ===== verification/Exclusive_Machine.thy ===== *)
theory Exclusive_Machine
  imports Machine_Safety
begin

text \<open>
  The exclusive mode: a type argument that is not \<open>()\<close> makes \<open>try_reserve_slots\<close>,
  \<open>publish_slots\<close> and \<open>try_cleanup_old_slots\<close> of \<open>src/area.rs\<close> use a load, a comparison and a
  plain store where the other mode has a CAS.  The same threads as in \<open>Machine\<close>, with a control
  point between the comparison and the store.  As long as writer operations do not overlap each
  other and cleanups do not overlap each other, which the documentation asks for, every run is
  a run of \<open>Machine\<close> and so all theorems about its runs apply; otherwise it is not.
\<close>

section \<open>Steps\<close>

text \<open>
  A control point is one of \<open>Machine\<close> with a flag: set when the thread has compared the
  counter (\<open>read_gen\<close> at \<open>Writing\<close>, \<open>last_valid_gen\<close> at \<open>CleanClaim\<close>, \<open>free_gen\<close> at
  \<open>CleanFree\<close>) and has only the store left to do.
\<close>

fun excl_step :: "bool \<Rightarrow> bool \<Rightarrow> 'a pc \<Rightarrow> 'a area \<Rightarrow> 'a pc \<times> bool \<times> 'a area" where
  "excl_step nd True (Writing st en ms) s = (Idle, False, s\<lparr>read_gen := en\<rparr>)"
| "excl_step nd True (CleanClaim lv new) s = (CleanDrop lv new 0, False, s\<lparr>last_valid_gen := new\<rparr>)"
| "excl_step nd True (CleanFree lv new) s = (Idle, False, s\<lparr>free_gen := new\<rparr>)"
| "excl_step nd False (ReserveGrab be n cf cw) s =
     (if be then
        (case best_effort_from Exclusive n cf cw s of
           (Inr (st, en, _), s') \<Rightarrow> (Writing st en [], False, s') | (Inl _, s') \<Rightarrow> (Idle, False, s'))
      else
        (case reserve_from Exclusive n cf cw s of
           (Inr (st, en), s') \<Rightarrow> (Writing st en [], False, s') | (Inl _, s') \<Rightarrow> (Idle, False, s')))"
| "excl_step nd False (CleanClaim lv new) s =
     (if gen_lte_msb_masked new lv then (Idle, False, s)
      else if last_valid_gen s \<noteq> lv then (Panicked, False, s)
      else (CleanClaim lv new, True, s))"
| "excl_step nd False (CleanFree lv new) s =
     (if free_gen s \<noteq> lv then (Panicked, False, s) else (CleanFree lv new, True, s))"
| "excl_step nd checked x s = (case pc_step nd x s of (x', s') \<Rightarrow> (x', False, s'))"

text \<open>A call; \<open>publish_slots\<close> compares first.\<close>

definition excl_call :: "'a call \<Rightarrow> bool \<Rightarrow> 'a pc \<Rightarrow> 'a area \<Rightarrow> ('a pc \<times> bool \<times> 'a area) option" where
  "excl_call c checked x s =
     (if checked then None
      else
        (case (c, x) of
           (Publish, Writing st en ms) \<Rightarrow>
             (if length ms = unat (gen_dist_msb_masked en st)
              then (if gen_gte_msb_masked st en then Some (Idle, False, s)
                    else if read_gen s \<noteq> st then Some (Writing st en ms, False, s)
                    else Some (Writing st en ms, True, s))
              else None)
         | _ \<Rightarrow> map_option (\<lambda>(x', s'). (x', False, s')) (call_step c x s)))"

text \<open>
  Two steps without interruption are the operations of \<open>Area_Inner\<close> and \<open>Area_Cleanup\<close>.
\<close>

lemma excl_is_claim_turn:
  "claim_turn Exclusive new (lv, s) =
     (case excl_step nd False (CleanClaim lv new) s of
        (CleanClaim _ _, True, s') \<Rightarrow>
          (case excl_step nd True (CleanClaim lv new) s' of (_, _, s'') \<Rightarrow> (Return (Claimed lv), (lv, s'')))
      | (Panicked, _, s') \<Rightarrow> (Return AssertFailed, (lv, s'))
      | (_, _, s') \<Rightarrow> (Return NothingLeft, (lv, s')))"
  by (simp add: claim_turn_def)

lemma excl_is_free_turn:
  "free_turn Exclusive lv new s =
     (case excl_step nd False (CleanFree lv new) s of
        (CleanFree _ _, _, s') \<Rightarrow>
          (case excl_step nd True (CleanFree lv new) s' of (_, _, s'') \<Rightarrow> (Return (Returns ()), s''))
      | (_, _, s') \<Rightarrow> (Return Panics, s'))"
  by (simp add: free_turn_def)

section \<open>The system\<close>

text \<open>
  \<open>writer\<close> and \<open>cleaner\<close> are bookkeeping: the thread that is inside an operation of that kind.
\<close>

record 'a xsys = "'a sys" +
  checked :: "nat \<Rightarrow> bool"
  writer :: "nat option"
  cleaner :: "nat option"

fun writes :: "'a pc \<Rightarrow> bool \<Rightarrow> bool" where
  "writes (ReserveLoad be n cf) b = True"
| "writes (ReserveGrab be n cf cw) b = True"
| "writes (Writing st en ms) b = b"
| "writes x b = False"

fun cleans :: "'a pc \<Rightarrow> bool" where
  "cleans (CleanLoad lv) = True"
| "cleans (CleanSlot lv m i) = True"
| "cleans (CleanTurn lv m i rg) = True"
| "cleans (CleanClaim lv m) = True"
| "cleans (CleanDrop lv m k) = True"
| "cleans (CleanFree lv m) = True"
| "cleans x = False"

definition busy :: "nat \<Rightarrow> bool \<Rightarrow> nat option \<Rightarrow> nat option" where
  "busy t b holder = (if b then Some t else if holder = Some t then None else holder)"

definition published_now :: "'a pc \<Rightarrow> 'a pc \<Rightarrow> 'a list" where
  "published_now x x' = (case (x, x') of (Writing _ _ ms, Idle) \<Rightarrow> ms | _ \<Rightarrow> [])"

fun put_thread :: "nat \<Rightarrow> 'a xsys \<Rightarrow> 'a pc \<times> bool \<times> 'a area \<Rightarrow> 'a xsys" where
  "put_thread t X (x', b', s') =
     X\<lparr>shared := s', threads := (threads X)(t := x'), checked := (checked X)(t := b'),
       reserved := reserved X + unat (gen_dist_msb_masked (write_gen s') (write_gen (shared X))),
       log := log X @ published_now (threads X t) x',
       writer := busy t (writes x' b') (writer X), cleaner := busy t (cleans x') (cleaner X)\<rparr>"

definition excl_exec :: "bool \<Rightarrow> nat \<times> 'a call option \<Rightarrow> 'a xsys \<Rightarrow> 'a xsys option" where
  "excl_exec nd = (\<lambda>(t, c) X.
     map_option (put_thread t X)
       (case c of
          None \<Rightarrow> Some (excl_step nd (checked X t) (threads X t) (shared X))
        | Some c \<Rightarrow>
            if call_allowed c (sys.truncate X) then excl_call c (checked X t) (threads X t) (shared X) else None))"

fun excl_run :: "bool \<Rightarrow> (nat \<times> 'a call option) list \<Rightarrow> 'a xsys \<Rightarrow> 'a xsys option" where
  "excl_run nd [] X = Some X"
| "excl_run nd (e # es) X =
     (case excl_exec nd e X of None \<Rightarrow> None | Some X' \<Rightarrow> excl_run nd es X')"

text \<open>
  What the documentation asks of the callers: no two operations of writers overlap, and no two
  cleanups.  Different threads may take turns.
\<close>

fun in_turn :: "nat \<times> 'a call option \<Rightarrow> 'a xsys \<Rightarrow> bool" where
  "in_turn (t, Some (Reserve be n)) X \<longleftrightarrow> writer X = None"
| "in_turn (t, Some Publish) X \<longleftrightarrow> writer X = None"
| "in_turn (t, Some Cleanup) X \<longleftrightarrow> cleaner X = None"
| "in_turn e X \<longleftrightarrow> True"

fun orderly :: "bool \<Rightarrow> (nat \<times> 'a call option) list \<Rightarrow> 'a xsys \<Rightarrow> bool" where
  "orderly nd [] X \<longleftrightarrow> True"
| "orderly nd (e # es) X \<longleftrightarrow>
     in_turn e X \<and> (case excl_exec nd e X of None \<Rightarrow> True | Some X' \<Rightarrow> orderly nd es X')"

definition excl_start :: "gen \<Rightarrow> usize \<Rightarrow> usize \<Rightarrow> 'a xsys" where
  "excl_start g bc rc =
     sys.extend (start_at g bc rc) \<lparr>checked = (\<lambda>_. False), writer = None, cleaner = None\<rparr>"

section \<open>What a thread in its turn knows\<close>

fun excl_local :: "'a pc \<Rightarrow> bool \<Rightarrow> 'a area \<Rightarrow> bool" where
  "excl_local (ReserveGrab be n cf cw) b s \<longleftrightarrow> \<not> b \<and> cw = write_gen s"
| "excl_local (Writing st en ms) b s \<longleftrightarrow>
     (b \<longrightarrow> read_gen s = st \<and> \<not> gen_gte_msb_masked st en \<and> length ms = unat (gen_dist_msb_masked en st))"
| "excl_local (CleanLoad lv) b s \<longleftrightarrow> \<not> b \<and> last_valid_gen s = lv \<and> free_gen s = lv"
| "excl_local (CleanSlot lv m i) b s \<longleftrightarrow> \<not> b \<and> last_valid_gen s = lv \<and> free_gen s = lv"
| "excl_local (CleanTurn lv m i rg) b s \<longleftrightarrow> \<not> b \<and> last_valid_gen s = lv \<and> free_gen s = lv"
| "excl_local (CleanClaim lv m) b s \<longleftrightarrow>
     last_valid_gen s = lv \<and> free_gen s = lv \<and> (b \<longrightarrow> \<not> gen_lte_msb_masked m lv)"
| "excl_local (CleanDrop lv m k) b s \<longleftrightarrow> \<not> b \<and> free_gen s = lv \<and> last_valid_gen s = m"
| "excl_local (CleanFree lv m) b s \<longleftrightarrow> free_gen s = lv \<and> last_valid_gen s = m"
| "excl_local x b s \<longleftrightarrow> \<not> b"

definition excl_inv :: "'a xsys \<Rightarrow> bool" where
  "excl_inv X \<longleftrightarrow>
     (\<forall>t. writer X = Some t \<longleftrightarrow> writes (threads X t) (checked X t)) \<and>
     (\<forall>t. cleaner X = Some t \<longleftrightarrow> cleans (threads X t)) \<and>
     (\<forall>t. excl_local (threads X t) (checked X t) (shared X)) \<and>
     (cleaner X = None \<longrightarrow> free_gen (shared X) = last_valid_gen (shared X))"

lemma excl_inv_start: "excl_inv (excl_start g bc rc)"
  by (simp add: excl_inv_def excl_start_def sys.defs start_at_def area_at_def)

text \<open>In its turn, the exclusive step on \<open>write_gen\<close> does what the CAS does.\<close>

lemma grab_in_turn: "cw = write_gen s \<Longrightarrow> grab Exclusive cw n s = grab Cas cw n s"
  by (simp add: grab_def Let_def)

text \<open>What a step may change, and who may.\<close>

definition touches :: "'a pc \<Rightarrow> bool \<Rightarrow> 'a area \<Rightarrow> 'a area \<Rightarrow> bool" where
  "touches x b s s' \<longleftrightarrow>
     (writes x b \<or> write_gen s' = write_gen s \<and> read_gen s' = read_gen s) \<and>
     (cleans x \<or> last_valid_gen s' = last_valid_gen s \<and> free_gen s' = free_gen s)"

lemma excl_local_stable:
  assumes "excl_local x b s"
    and "writes x b \<Longrightarrow> write_gen s' = write_gen s \<and> read_gen s' = read_gen s"
    and "cleans x \<Longrightarrow> last_valid_gen s' = last_valid_gen s \<and> free_gen s' = free_gen s"
  shows "excl_local x b s'"
  using assms by (cases x) auto

text \<open>Points where a thread is in no operation of a writer and in no cleanup.\<close>

definition plain :: "'a pc \<Rightarrow> bool" where
  "plain x \<longleftrightarrow> \<not> writes x True \<and> \<not> cleans x"

lemma plain_local: "plain x \<Longrightarrow> excl_local x b s \<longleftrightarrow> \<not> b"
  by (cases x) (auto simp: plain_def)

lemma plain_points: "plain x \<Longrightarrow> off_ring x \<and> \<not> writes x b \<and> \<not> cleans x"
  by (cases x) (auto simp: plain_def)

lemma plain_step: "plain x \<Longrightarrow> plain (fst (pc_step nd x s))"
proof (cases x)
  case (OpAct r p c oper)
  then show ?thesis by (cases oper) (simp_all add: plain_def split: flow.split prod.split)
qed (simp_all add: plain_def split: option.split reader_op.split flow.split prod.split)

lemma excl_step_plain:
  assumes "plain x"
  shows "excl_step nd False x s = (fst (pc_step nd x s), False, snd (pc_step nd x s))"
  using assms by (cases x) (auto simp: plain_def split: prod.splits)

section \<open>One step\<close>

definition follows :: "bool \<Rightarrow> bool \<Rightarrow> 'a pc \<Rightarrow> 'a area \<Rightarrow> 'a pc \<Rightarrow> 'a area \<Rightarrow> bool" where
  "follows nd b x s x' s' \<longleftrightarrow>
     x' = x \<and> s' = s \<or> pc_step nd x s = (x', s') \<and> published_now x x' = [] \<or>
     b \<and> call_step Publish x s = Some (x', s')"

definition keeps_turn :: "'a pc \<Rightarrow> bool \<Rightarrow> 'a area \<Rightarrow> 'a pc \<Rightarrow> bool \<Rightarrow> 'a area \<Rightarrow> bool" where
  "keeps_turn x b s x' b' s' \<longleftrightarrow>
     touches x b s s' \<and> excl_local x' b' s' \<and> (writes x' b' \<longrightarrow> writes x b) \<and> (cleans x' \<longrightarrow> cleans x) \<and>
     (cleans x \<and> \<not> cleans x' \<longrightarrow> free_gen s' = last_valid_gen s')"

lemmas step_unfolds = follows_def keeps_turn_def touches_def published_now_def

lemma excl_step_follows:
  assumes loc: "excl_local x b s" and step: "excl_step nd b x s = (x', b', s')"
  shows "follows nd b x s x' s' \<and> keeps_turn x b s x' b' s'"
proof (cases "plain x")
  case True
  then have "\<not> b" using loc by (simp add: plain_local)
  then have eq: "x' = fst (pc_step nd x s)" "s' = snd (pc_step nd x s)" "\<not> b'"
    using step excl_step_plain [OF True] by auto
  have "ring_same s s'" using pc_step_off_ring [of x s nd] plain_points [OF True] eq(2) by blast
  moreover have "plain x'" using plain_step [OF True] eq(1) by simp
  moreover have "published_now x x' = []"
    using True by (cases x) (auto simp: published_now_def plain_def)
  ultimately show ?thesis
    using plain_local [of x' b' s'] plain_points [of x'] plain_points [OF True, of b] eq
    by (auto simp: follows_def keeps_turn_def touches_def ring_same_def)
next
  case False
  show ?thesis
  proof (cases x)
    case (ReserveLoad be n cf)
    then show ?thesis using step loc by (auto simp: step_unfolds)
  next
    case (ReserveGrab be n cf cw)
    then have x: "x = ReserveGrab be n cf (write_gen s)" "\<not> b" using loc by auto
    obtain y s2 where y: "pc_step nd x s = (y, s2)" by (metis surj_pair)
    have eq: "x' = y" "s' = s2" "\<not> b'"
      using step y x by (auto simp: reserve_from_def best_effort_from_def grab_in_turn Let_def split: sum.splits prod.splits if_splits)
    from y [unfolded x(1)] show ?thesis
      using eq y x by (cases rule: reserve_grab_cases) (auto simp: step_unfolds grab_Cas split: if_splits)
  next
    case (Writing st en ms)
    then show ?thesis using step loc
      by (cases b) (auto simp: step_unfolds call_step_def publish_slots_def)
  next
    case (CleanLoad lv)
    then show ?thesis using step loc by (auto simp: step_unfolds split: if_splits)
  next
    case (CleanSlot lv m i)
    then show ?thesis using step loc by (auto simp: step_unfolds split: if_splits)
  next
    case (CleanTurn lv m i rg)
    then have "\<not> b" using loc by simp
    then have eq: "pc_step nd x s = (x', s')" "\<not> b'" using step CleanTurn by (auto split: prod.splits)
    moreover have "ring_same s s'" using pc_step_off_ring [of x s nd] eq(1) CleanTurn by simp
    ultimately show ?thesis using loc
      by (auto simp: step_unfolds CleanTurn ring_same_def split: flow.splits prod.splits)
  next
    case (CleanClaim lv m)
    then show ?thesis using step loc
      by (cases b) (auto simp: step_unfolds claim_turn_def split: if_splits)
  next
    case (CleanDrop lv m k)
    then show ?thesis using step loc
      by (auto simp: step_unfolds drop_slot_def split: if_splits)
  next
    case (CleanFree lv m)
    then show ?thesis using step loc
      by (cases b) (auto simp: step_unfolds free_turn_def split: if_splits)
  qed (use False in \<open>simp_all add: plain_def\<close>)
qed

text \<open>A call, made in its turn.\<close>

lemma excl_call_follows:
  assumes loc: "excl_local x b s" and call: "excl_call c b x s = Some (x', b', s')"
    and idle: "c = Cleanup \<Longrightarrow> free_gen s = last_valid_gen s"
  shows "(x' = x \<and> s' = s \<or> call_step c x s = Some (x', s') \<and> published_now x x' = published_by x (Some c) x')
    \<and> write_gen s' = write_gen s \<and> read_gen s' = read_gen s \<and> last_valid_gen s' = last_valid_gen s
    \<and> free_gen s' = free_gen s \<and> excl_local x' b' s'
    \<and> (writes x' b' \<longrightarrow> c = Publish \<or> (\<exists>be n. c = Reserve be n)) \<and> (cleans x' \<longrightarrow> c = Cleanup)
    \<and> \<not> writes x b \<and> \<not> cleans x"
proof -
  have nb: "\<not> b" using call by (auto simp: excl_call_def)
  show ?thesis
  proof (cases "c = Publish")
    case True
    then obtain st en ms where x: "x = Writing st en ms"
      using call nb by (cases x) (auto simp: excl_call_def call_step_def)
    show ?thesis using call nb
      by (auto simp: True x excl_call_def call_step_def publish_slots_def published_now_def published_by_def split: if_splits)
  next
    case False
    then have cs: "call_step c x s = Some (x', s')" "\<not> b'"
      using call nb by (auto simp: excl_call_def split: call.splits prod.splits)
    from cs(1) show ?thesis
    proof (cases rule: call_step_cases)
      case (written v st en ms)
      then show ?thesis using cs nb
        by (auto simp: write_slot_def published_now_def published_by_def)
    qed (use cs nb idle False in \<open>auto simp: published_now_def published_by_def\<close>)
  qed
qed

section \<open>Every orderly run is a run of the machine with the CAS\<close>

lemma excl_inv_update:
  assumes inv: "excl_inv X"
    and st: "touches (threads X t) (checked X t) (shared X) s'" "excl_local x' b' s'"
    and w: "writes x' b' \<Longrightarrow> writes (threads X t) (checked X t) \<or> writer X = None"
    and cl: "cleans x' \<Longrightarrow> cleans (threads X t) \<or> cleaner X = None"
    and rest: "cleans (threads X t) \<Longrightarrow> \<not> cleans x' \<Longrightarrow> free_gen s' = last_valid_gen s'"
  shows "excl_inv (X\<lparr>shared := s', threads := (threads X)(t := x'), checked := (checked X)(t := b'),
           reserved := n, log := l,
           writer := busy t (writes x' b') (writer X), cleaner := busy t (cleans x') (cleaner X)\<rparr>)"
proof -
  have W: "writer X = Some u \<longleftrightarrow> writes (threads X u) (checked X u)"
    and C: "cleaner X = Some u \<longleftrightarrow> cleans (threads X u)"
    and L: "excl_local (threads X u) (checked X u) (shared X)" for u
    using inv by (auto simp: excl_inv_def)
  have F: "cleaner X = None \<Longrightarrow> free_gen (shared X) = last_valid_gen (shared X)"
    using inv by (simp add: excl_inv_def)
  have other: "excl_local (threads X u) (checked X u) s'" if "u \<noteq> t" for u
    using L [of u] st(1) W [of u] W [of t] C [of u] C [of t] that
    by (intro excl_local_stable [of _ _ "shared X" s']) (auto simp: touches_def)
  have "busy t (writes x' b') (writer X) = Some u \<longleftrightarrow>
      writes (((threads X)(t := x')) u) (((checked X)(t := b')) u)" for u
    using W [of u] W [of t] w by (auto simp: busy_def)
  moreover have "busy t (cleans x') (cleaner X) = Some u \<longleftrightarrow> cleans (((threads X)(t := x')) u)" for u
    using C [of u] C [of t] cl by (auto simp: busy_def)
  moreover have "excl_local (((threads X)(t := x')) u) (((checked X)(t := b')) u) s'" for u
    using other st(2) by simp
  moreover have "free_gen s' = last_valid_gen s'" if "busy t (cleans x') (cleaner X) = None"
  proof (cases "cleans (threads X t)")
    case True
    then show ?thesis using rest that by (auto simp: busy_def split: if_splits)
  next
    case False
    then have "cleaner X = None" using that C [of t] by (auto simp: busy_def split: if_splits)
    then show ?thesis using F st(1) False by (simp add: touches_def)
  qed
  ultimately show ?thesis by (simp add: excl_inv_def)
qed

lemma dist_self [simp]: "gen_dist_msb_masked w w = 0"
  by (simp add: gen_dist_msb_masked_def)

lemma published_now_self [simp]: "published_now x x = []"
  by (cases x) (simp_all add: published_now_def)

lemma excl_exec_simulates:
  assumes inv: "excl_inv X" and turn: "in_turn e X" and exec: "excl_exec nd e X = Some X'"
  shows "excl_inv X' \<and> (sys.truncate X' = sys.truncate X \<or>
           (\<exists>e'. sys_exec nd e' (sys.truncate X) = Some (sys.truncate X')))"
proof -
  obtain t c where e: "e = (t, c)" by (cases e)
  define x b s where "x = threads X t" and "b = checked X t" and "s = shared X"
  have loc: "excl_local x b s" using inv by (simp add: excl_inv_def x_def b_def s_def)
  obtain x' b' s' where X': "X' = X\<lparr>shared := s', threads := (threads X)(t := x'), checked := (checked X)(t := b'),
         reserved := reserved X + unat (gen_dist_msb_masked (write_gen s') (write_gen s)),
         log := log X @ published_now x x',
         writer := busy t (writes x' b') (writer X), cleaner := busy t (cleans x') (cleaner X)\<rparr>"
    and r: "(case c of None \<Rightarrow> Some (excl_step nd b x s)
      | Some d \<Rightarrow> if call_allowed d (sys.truncate X) then excl_call d b x s else None) = Some (x', b', s')"
    using exec unfolding x_def b_def s_def e excl_exec_def by auto
  have same: "sys.truncate X' = sys.truncate X" if "x' = x" "s' = s"
    using that by (simp add: X' x_def s_def sys.defs)
  have runs: "sys_exec nd (t, d) (sys.truncate X) = Some (sys.truncate X')"
    if "case d of None \<Rightarrow> pc_step nd x s = (x', s')
      | Some k \<Rightarrow> call_allowed k (sys.truncate X) \<and> call_step k x s = Some (x', s')"
      "published_now x x' = published_by x d x'" for d
    using that by (auto simp: X' sys_exec_eq Let_def x_def s_def sys.defs split: option.splits)
  show ?thesis
  proof (cases c)
    case None
    then have "excl_step nd b x s = (x', b', s')" using r by simp
    from excl_step_follows [OF loc this]
    have f: "follows nd b x s x' s'" and k: "keeps_turn x b s x' b' s'" by blast+
    have "excl_inv X'" unfolding X' using k
      by (intro excl_inv_update [OF inv]) (auto simp: keeps_turn_def x_def b_def s_def)
    moreover have "sys.truncate X' = sys.truncate X \<or> (\<exists>e'. sys_exec nd e' (sys.truncate X) = Some (sys.truncate X'))"
      using f unfolding follows_def
    proof (elim disjE conjE)
      assume p: "b" "call_step Publish x s = Some (x', s')"
      then have "published_now x x' = published_by x (Some Publish) x'"
        by (cases x) (auto simp: published_now_def published_by_def)
      then show ?thesis using runs [of "Some Publish"] p(2) by (auto simp: call_allowed_def)
    qed (use same runs [of None] in auto)
    ultimately show ?thesis by blast
  next
    case (Some d)
    then have d: "call_allowed d (sys.truncate X)" "excl_call d b x s = Some (x', b', s')"
      using r by (auto split: if_splits)
    have free: "cleaner X = None \<Longrightarrow> free_gen s = last_valid_gen s" using inv by (simp add: excl_inv_def s_def)
    have turn': "d = Cleanup \<Longrightarrow> cleaner X = None" "d = Publish \<or> (\<exists>be n. d = Reserve be n) \<Longrightarrow> writer X = None"
      using turn by (auto simp: e Some)
    note k = excl_call_follows [OF loc d(2) free [OF turn'(1)]]
    have "excl_inv X'" unfolding X' using k turn'
      by (intro excl_inv_update [OF inv]) (auto simp: touches_def x_def b_def s_def)
    moreover have "sys.truncate X' = sys.truncate X \<or> (\<exists>e'. sys_exec nd e' (sys.truncate X) = Some (sys.truncate X'))"
      using k same runs [of "Some d"] d(1) by auto
    ultimately show ?thesis by blast
  qed
qed

lemma no_assertion_fails:
  "excl_local x b s \<Longrightarrow> cleans x \<Longrightarrow> fst (excl_step nd b x s) \<noteq> Panicked"
  by (cases x; cases b) (auto split: flow.split prod.split claim_range.split)

lemma excl_run_simulates:
  "excl_inv X \<Longrightarrow> orderly nd es X \<Longrightarrow> excl_run nd es X = Some X' \<Longrightarrow>
   excl_inv X' \<and> (\<exists>es'. sys_run nd es' (sys.truncate X) = Some (sys.truncate X'))"
proof (induction es arbitrary: X)
  case Nil
  then show ?case by (auto intro: exI [of _ "[]"])
next
  case (Cons e es)
  then obtain Y where Y: "excl_exec nd e X = Some Y" "excl_run nd es Y = Some X'" "in_turn e X" "orderly nd es Y"
    by (auto split: option.splits)
  note sim = excl_exec_simulates [OF Cons.prems(1) Y(3,1)]
  obtain es' where es': "sys_run nd es' (sys.truncate Y) = Some (sys.truncate X')" and inv: "excl_inv X'"
    using Cons.IH [OF _ Y(4,2)] sim by blast
  from sim show ?case
  proof (elim conjE disjE exE)
    fix e' assume "sys_exec nd e' (sys.truncate X) = Some (sys.truncate Y)"
    then have "sys_run nd (e' # es') (sys.truncate X) = Some (sys.truncate X')" using es' by simp
    then show ?thesis using inv by blast
  qed (use es' inv in auto)
qed

text \<open>
  C15: as long as operations of writers take turns and cleanups take turns, every run in the
  exclusive mode ends in a state that the machine with the CAS reaches too, from the same start
  and with the same messages, so everything proved about runs of that machine holds of it; and no
  assertion of the exclusive mode fails.
\<close>
theorem exclusive_refines_cas:
  fixes X :: "'a xsys"
  assumes "start_ok g bc rc" and "ring_ok g (unat bc)"
    and "excl_run nd es (excl_start g bc rc) = Some X" and "orderly nd es (excl_start g bc rc)"
    and "reserved X < 2 ^ 62"
  shows "run_of nd g bc rc (sys.truncate X) \<and>
    (\<forall>t. cleans (threads X t) \<longrightarrow> fst (excl_step nd (checked X t) (threads X t) (shared X)) \<noteq> Panicked)"
proof -
  have "sys.truncate (excl_start g bc rc :: 'a xsys) = start_at g bc rc"
    by (simp add: excl_start_def sys.defs)
  with excl_run_simulates [OF excl_inv_start assms(4,3)]
  obtain es' where "sys_run nd es' (start_at g bc rc) = Some (sys.truncate X)" and inv: "excl_inv X" by auto
  from reachable_sys_run [OF reachable.start this(1)] assms(1,2,5) have "run_of nd g bc rc (sys.truncate X)"
    by (simp add: run_of_def sys.defs)
  moreover have "excl_local (threads X t) (checked X t) (shared X)" for t
    using inv by (simp add: excl_inv_def)
  ultimately show ?thesis using no_assertion_fails by blast
qed

text \<open>
  A reader, a writer that publishes two messages around the wrap-around of the counters, and a
  cleanup.
\<close>

definition demo_excl :: "(nat \<times> nat call option) list" where
  "demo_excl = [(1, Some (Register 1))] @ steps 1 5 @
     [(0, Some (Reserve False 1))] @ steps 0 2 @ [(0, Some (Write 7)), (0, Some Publish), (0, None),
      (1, Some (Operate GetGen))] @ steps 1 4 @
     [(0, Some (Reserve True 1))] @ steps 0 2 @ [(0, Some (Write 8)), (0, Some Publish), (0, None),
      (1, Some (EndSlice True))] @ steps 1 6 @ [(2, Some Cleanup)] @ steps 2 12"

lemma exclusive_refines_cas_witness:
  "\<exists>X :: nat xsys. excl_run True demo_excl (excl_start (2 ^ 63 - 1) 2 2) = Some X \<and>
     log X = [7, 8] \<and> dropped (shared X) = [Init 7] \<and> run_of True (2 ^ 63 - 1) 2 2 (sys.truncate X)"
proof -
  have "case excl_run True demo_excl (excl_start (2 ^ 63 - 1) 2 2) of
      Some X \<Rightarrow> log X = [7, 8] \<and> dropped (shared X) = [Init 7] \<and> reserved X = 2 | None \<Rightarrow> False"
    by code_simp
  then obtain X where X: "excl_run True demo_excl (excl_start (2 ^ 63 - 1) 2 2) = Some X"
      "log X = [7, 8]" "dropped (shared X) = [Init 7]" "reserved X = 2" by (auto split: option.splits)
  have "orderly True demo_excl (excl_start (2 ^ 63 - 1) 2 2)" by code_simp
  from exclusive_refines_cas [OF demo_start X(1) this] X show ?thesis by simp
qed

section \<open>Out of turn\<close>

definition out_of_turn :: "(nat \<times> nat call option) list" where
  "out_of_turn = [(0, Some (Reserve False 1)), (1, Some (Reserve False 1)), (0, None), (1, None), (0, None), (1, None)]"

text \<open>
  Nothing stops two writers from being in the exclusive mode at once - every type can be the
  type argument of the safe functions \<open>reserve\<close> and \<open>try_reserve_slots\<close> - and then both are
  given the same slot of the ring to write.
\<close>
theorem exclusive_out_of_turn_overlaps:
  "case excl_run True out_of_turn (excl_start 0 2 2) of
     Some X \<Rightarrow> threads X 0 = Writing 0 1 [] \<and> threads X 1 = Writing 0 1 [] | None \<Rightarrow> False"
  by code_simp

end
