(* ===== verification/Cache_Padded.thy ===== *)
theory Cache_Padded
  imports MS_Prelude
begin

text \<open>
  \<open>src/cache_padded.rs\<close>: which alignment \<open>CachePadded\<close> has on a target, the layout that
  follows, that padded values never share a cache line, and the wrapper itself.
\<close>

section \<open>The attributes\<close>

text \<open>What the conditions of the attributes look at.\<close>

record target =
  target_arch :: string
  no_cache_pad :: bool

definition arch_128 :: "string list" where
  "arch_128 = [''x86_64'', ''aarch64'', ''arm64ec'', ''powerpc64'']"

definition arch_32 :: "string list" where
  "arch_32 = [''arm'', ''mips'', ''mips32r6'', ''mips64'', ''mips64r6'', ''sparc'', ''hexagon'']"

text \<open>The numbers of the attributes \<open>repr(align(N))\<close> whose \<open>cfg_attr\<close> condition holds.\<close>

definition repr_aligns :: "target \<Rightarrow> nat list" where
  "repr_aligns t =
     (let arch = target_arch t; pad = \<not> no_cache_pad t in
      (if pad \<and> arch \<in> set arch_128 then [128] else []) @
      (if pad \<and> arch \<in> set arch_32 then [32] else []) @
      (if pad \<and> arch = ''m68k'' then [16] else []) @
      (if pad \<and> arch = ''s390x'' then [256] else []) @
      (if pad \<and> arch \<notin> set (arch_128 @ arch_32 @ [''m68k'', ''s390x'']) then [64] else []) @
      (if no_cache_pad t then [4] else []))"

section \<open>The layout\<close>

record layout =
  size_of :: nat
  align_of :: nat

definition layout_ok :: "layout \<Rightarrow> bool" where
  "layout_ok l \<longleftrightarrow> (\<exists>k. align_of l = 2 ^ k) \<and> align_of l dvd size_of l"

text \<open>
  The layout of a struct with one field: \<open>repr(align(N))\<close> raises the alignment of the field to
  at least \<open>N\<close>, and the size is rounded up to a multiple of the alignment.
\<close>

definition padded_layout :: "target \<Rightarrow> layout \<Rightarrow> layout" where
  "padded_layout t l =
     (let a = fold max (repr_aligns t) (align_of l)
      in \<lparr>size_of = (size_of l + a - 1) div a * a, align_of = a\<rparr>)"

section \<open>The wrapper\<close>

record 'v cache_padded =
  padded_value :: 'v

definition cache_padded_new :: "'v \<Rightarrow> 'v cache_padded" where
  "cache_padded_new v = \<lparr>padded_value = v\<rparr>"

definition into_inner :: "'v cache_padded \<Rightarrow> 'v" where
  "into_inner c = padded_value c"

definition deref :: "'v cache_padded \<Rightarrow> 'v" where
  "deref c = padded_value c"

text \<open>What is written through the reference is written to the value.\<close>

definition deref_mut :: "('v \<Rightarrow> 'v) \<Rightarrow> 'v cache_padded \<Rightarrow> 'v cache_padded" where
  "deref_mut f c = c\<lparr>padded_value := f (padded_value c)\<rparr>"

definition cache_padded_from :: "'v \<Rightarrow> 'v cache_padded" where
  "cache_padded_from v = cache_padded_new v"

lemma wrapper_transparent:
  "into_inner (cache_padded_from v) = v"
  "deref (cache_padded_new v) = v"
  "deref (deref_mut f c) = f (deref c)"
  by (simp_all add: into_inner_def cache_padded_from_def cache_padded_new_def deref_def deref_mut_def)

section \<open>Alignment and size\<close>

lemma one_attribute:
  obtains N k where "repr_aligns t = [N]" "N = 2 ^ k"
    and "no_cache_pad t \<or> 16 \<le> N"
proof -
  let ?Ns = "{4, 16, 32, 64, 128, 256 :: nat}"
  have "\<exists>N \<in> ?Ns. repr_aligns t = [N] \<and> (no_cache_pad t \<or> 16 \<le> N)"
    by (auto simp: repr_aligns_def arch_128_def arch_32_def Let_def)
  then obtain N where N: "N \<in> ?Ns" "repr_aligns t = [N]" "no_cache_pad t \<or> 16 \<le> N" by blast
  have "?Ns \<subseteq> {2 ^ 2, 2 ^ 4, 2 ^ 5, 2 ^ 6, 2 ^ 7, 2 ^ 8}" by simp
  with N show thesis using that by blast
qed

lemma padded_align:
  assumes "layout_ok l" "repr_aligns t = [N]"
  shows "align_of (padded_layout t l) = max N (align_of l)" "N dvd align_of (padded_layout t l)"
    and "size_of l \<le> size_of (padded_layout t l)"
    and "align_of (padded_layout t l) dvd size_of (padded_layout t l)"
proof -
  obtain k where k: "N = 2 ^ k" using one_attribute [of t] assms(2) by auto
  obtain j where j: "align_of l = 2 ^ j" using assms(1) by (auto simp: layout_ok_def)
  let ?a = "align_of (padded_layout t l)"
  show a: "?a = max N (align_of l)"
    using assms(2) by (simp add: padded_layout_def Let_def max.commute)
  show "N dvd ?a" using k j a by (auto simp: max_def le_imp_power_dvd)
  have pos: "0 < ?a" using a k by (simp add: less_max_iff_disj)
  have size: "size_of (padded_layout t l) = (size_of l + ?a - 1) div ?a * ?a"
    by (simp add: padded_layout_def Let_def)
  show "?a dvd size_of (padded_layout t l)" using size by simp
  have "(size_of l + ?a - 1) div ?a * ?a + (size_of l + ?a - 1) mod ?a = size_of l + ?a - 1" by simp
  moreover have "(size_of l + ?a - 1) mod ?a < ?a" using pos by simp
  ultimately show "size_of l \<le> size_of (padded_layout t l)" using pos size by linarith
qed

text \<open>The size is what the documentation says: the least multiple of \<open>N\<close> with room for the value.\<close>

lemma padded_size_least:
  assumes "layout_ok l" "repr_aligns t = [N]" "N dvd m" "size_of l \<le> m"
  shows "size_of (padded_layout t l) \<le> m"
proof -
  obtain k where k: "N = 2 ^ k" using one_attribute [of t] assms(2) by auto
  have pos: "0 < N" using k by simp
  let ?a = "align_of (padded_layout t l)"
  have size: "size_of (padded_layout t l) = (size_of l + ?a - 1) div ?a * ?a"
    by (simp add: padded_layout_def Let_def)
  note a = padded_align(1) [OF assms(1,2)]
  show ?thesis
  proof (cases "align_of l \<le> N")
    case True
    then have a: "?a = N" using a by simp
    obtain c where "m = N * c" using assms(3) ..
    then have "size_of l + N - 1 < (c + 1) * N" using assms(4) pos by (simp add: algebra_simps)
    then have "(size_of l + N - 1) div N < c + 1" by (simp add: less_mult_imp_div_less)
    then show ?thesis using size \<open>m = N * c\<close> a by (simp add: mult.commute)
  next
    case False
    then have a: "?a = align_of l" using a by simp
    obtain c where c: "size_of l = align_of l * c" using assms(1) by (auto simp: layout_ok_def)
    have "0 < align_of l" using False by simp
    then have "(size_of l + align_of l - 1) div align_of l = c"
      using c by (simp add: div_nat_eqI algebra_simps)
    then show ?thesis using size a c assms(4) by (simp add: mult.commute)
  qed
qed

section \<open>No shared cache lines\<close>

definition bytes :: "nat \<Rightarrow> layout \<Rightarrow> nat set" where
  "bytes p l = {p..<p + size_of l}"

text \<open>
  C35: two padded values anywhere in memory - fields of a struct, elements of an array, slots of
  the reader table - as long as each is placed as its alignment demands and they do not overlap,
  never have bytes in the same line of \<open>N\<close> bytes, where \<open>N\<close> is what the attributes choose for
  the target; without the feature \<open>no-cache-pad\<close> that is at least 16 bytes.
\<close>
theorem padded_values_share_no_line:
  assumes ok: "layout_ok l" "layout_ok l'" and N: "repr_aligns t = [N]"
    and placed: "align_of (padded_layout t l) dvd p" "align_of (padded_layout t l') dvd q"
    and apart: "bytes p (padded_layout t l) \<inter> bytes q (padded_layout t l') = {}"
    and x: "x \<in> bytes p (padded_layout t l)" and y: "y \<in> bytes q (padded_layout t l')"
  shows "x div N \<noteq> y div N \<and> (no_cache_pad t \<or> 16 \<le> N)"
proof
  obtain k where k: "N = 2 ^ k" "no_cache_pad t \<or> 16 \<le> N" using one_attribute [of t] N by auto
  then show "no_cache_pad t \<or> 16 \<le> N" by blast
  have pos: "0 < N" using k by simp
  have below: "u div N < v div N"
    if "N dvd b" "u < b" "b \<le> v" for u v b :: nat
  proof -
    have "u div N < b div N" using that(1,2) pos by (auto simp: less_mult_imp_div_less mult.commute elim!: dvdE)
    also have "b div N \<le> v div N" using that(3) by (rule div_le_mono)
    finally show ?thesis .
  qed
  let ?P = "padded_layout t l" and ?Q = "padded_layout t l'"
  note al = padded_align [OF ok(1) N] and al' = padded_align [OF ok(2) N]
  have "N dvd p + size_of ?P" "N dvd q + size_of ?Q"
    using al(2,4) al'(2,4) placed by (meson dvd_add dvd_trans)+
  moreover have "p + size_of ?P \<le> q \<or> q + size_of ?Q \<le> p"
    using apart x y by (auto simp: bytes_def disjoint_iff)
  ultimately show "x div N \<noteq> y div N"
    using x y below [of "p + size_of ?P" x y] below [of "q + size_of ?Q" y x] by (fastforce simp: bytes_def)
qed

text \<open>Two neighbouring \<open>CachePadded<AtomicU64>\<close> of an array on x86-64.\<close>

definition demo_target :: target where
  "demo_target = \<lparr>target_arch = ''x86_64'', no_cache_pad = False\<rparr>"

definition atomic_u64 :: layout where
  "atomic_u64 = \<lparr>size_of = 8, align_of = 8\<rparr>"

lemma demo_layout:
  "padded_layout demo_target atomic_u64 = \<lparr>size_of = 128, align_of = 128\<rparr>"
  "repr_aligns demo_target = [128]"
  by code_simp+

lemma atomic_u64_ok: "layout_ok atomic_u64"
proof -
  have "(8::nat) = 2 ^ 3" by simp
  then show ?thesis unfolding layout_ok_def atomic_u64_def by (auto intro: exI [of _ 3])
qed

lemma padded_values_share_no_line_witness:
  "(1024 + 7 :: nat) div 128 \<noteq> 1152 div 128 \<and> (no_cache_pad demo_target \<or> 16 \<le> (128::nat))"
  by (rule padded_values_share_no_line [OF atomic_u64_ok atomic_u64_ok, of demo_target 128 1024 1152])
    (simp_all add: demo_layout bytes_def)

text \<open>
  The assertions of the tests.  The example in the documentation asserts that two padded bytes
  in an array are at least 32 bytes apart, which does not hold on every target.
\<close>

definition byte :: layout where
  "byte = \<lparr>size_of = 1, align_of = 1\<rparr>"

text \<open>The unit tests, as what they assert of a target.\<close>

definition check_cache_padding :: "target \<Rightarrow> bool" where
  "check_cache_padding t \<longleftrightarrow>
     align_of (padded_layout t byte) = 128 \<and> size_of (padded_layout t byte) = 128"

definition check_no_cache_pad_feature_flag :: "target \<Rightarrow> bool" where
  "check_no_cache_pad_feature_flag t \<longleftrightarrow>
     align_of (padded_layout t byte) = 4 \<and> size_of (padded_layout t byte) = 4"

lemma cache_padding_tests:
  "check_cache_padding \<lparr>target_arch = ''x86_64'', no_cache_pad = False\<rparr>"
  "check_cache_padding \<lparr>target_arch = ''aarch64'', no_cache_pad = False\<rparr>"
  "check_cache_padding \<lparr>target_arch = ''powerpc64'', no_cache_pad = False\<rparr>"
  "check_no_cache_pad_feature_flag \<lparr>target_arch = arch, no_cache_pad = True\<rparr>"
proof -
  show "check_cache_padding \<lparr>target_arch = ''x86_64'', no_cache_pad = False\<rparr>" by code_simp
  show "check_cache_padding \<lparr>target_arch = ''aarch64'', no_cache_pad = False\<rparr>" by code_simp
  show "check_cache_padding \<lparr>target_arch = ''powerpc64'', no_cache_pad = False\<rparr>" by code_simp
  show "check_no_cache_pad_feature_flag \<lparr>target_arch = arch, no_cache_pad = True\<rparr>"
    by (simp add: check_no_cache_pad_feature_flag_def padded_layout_def repr_aligns_def byte_def)
qed

lemma documented_example_fails:
  "size_of (padded_layout \<lparr>target_arch = ''m68k'', no_cache_pad = False\<rparr> byte) < 32"
  "size_of (padded_layout \<lparr>target_arch = arch, no_cache_pad = True\<rparr> byte) < 32"
  using cache_padding_tests(4) [of arch]
  by (code_simp, simp add: check_no_cache_pad_feature_flag_def)

end
