(* ===== verification/Unit_Tests.thy ===== *)
theory Unit_Tests
  imports Handles_Reader
begin

text \<open>
  The unit tests of \<open>src/area.rs\<close> and \<open>src/iter.rs\<close> on the model.  A test is a list of steps in
  the order of the source, on the state of the test: the area and the local variables that hold
  readers, reservations, an iterator and a slice.  A step fails (\<open>None\<close>) where the test would
  panic: an \<open>expect\<close> without a value, an assertion that does not hold, a panic of an operation.
  Tests end with the drops of their handles, the last of which frees the area; those marked
  \<open>should_panic\<close> end with the step that panics.
\<close>

type_synonym u64 = "64 word"

section \<open>The state of a test\<close>

record 'a test =
  mem :: "'a area"
  readers :: "reader list"
  reservations :: "reservation list"
  filling :: reservation_iter
  msgs :: read_slice

fun passes :: "('a test \<Rightarrow> 'a test option) list \<Rightarrow> 'a test option \<Rightarrow> bool" where
  "passes fs None \<longleftrightarrow> False"
| "passes [] (Some e) \<longleftrightarrow> True"
| "passes (f # fs) (Some e) \<longleftrightarrow> passes fs (f e)"

text \<open>\<open>area::<T>(buffer, readers)\<close>; the variables not yet bound hold anything.\<close>

fun with_area :: "(reader \<times> 'a area) outcome option \<Rightarrow> 'a test option" where
  "with_area (Some (Returns (r, s))) =
     Some \<lparr>mem = s, readers = [r], reservations = [], filling = into_iter \<lparr>start_gen = 0, end_gen = 0, published = True, armed = False\<rparr>,
           msgs = new_disarmed r 0 0\<rparr>"
| "with_area x = None"

definition new :: "usize \<Rightarrow> usize \<Rightarrow> 'a test option" where
  "new buffer_cap reader_cap = with_area (Handles_Reader.area buffer_cap reader_cap)"

definition check :: "('a test \<Rightarrow> bool) \<Rightarrow> 'a test \<Rightarrow> 'a test option" where
  "check P e = (if P e then Some e else None)"

text \<open>The result of an operation, and the area it leaves.\<close>

fun expect :: "'r \<Rightarrow> 'a test \<Rightarrow> 'r \<times> 'a area \<Rightarrow> 'a test option" where
  "expect r e (r', s) = (if r' = r then Some (e\<lparr>mem := s\<rparr>) else None)"

fun expect_some :: "'r \<Rightarrow> 'a test \<Rightarrow> ('r \<times> 'a area) option \<Rightarrow> 'a test option" where
  "expect_some r e None = None"
| "expect_some r e (Some x) = expect r e x"

section \<open>Steps of a writer\<close>

definition reserves :: "usize \<Rightarrow> reserve_error + gen \<times> gen \<Rightarrow> 'a test \<Rightarrow> 'a test option" where
  "reserves n r e = expect r e (try_reserve_slots Cas n (mem e))"

definition reserves_best_effort :: "usize \<Rightarrow> reserve_error + gen \<times> gen \<times> usize \<Rightarrow> 'a test \<Rightarrow> 'a test option" where
  "reserves_best_effort n r e = expect r e (try_reserve_slots_best_effort Cas n (mem e))"

text \<open>\<open>for generation in start..end { get_slot_ptr(generation).write(..) }\<close>, with the values.\<close>

fun put_list :: "'a list \<Rightarrow> gen \<Rightarrow> 'a area \<Rightarrow> 'a area" where
  "put_list [] g s = s"
| "put_list (v # vs) g s = put_list vs (g + 1) (write_slot g v s)"

definition puts :: "gen \<Rightarrow> 'a list \<Rightarrow> 'a test \<Rightarrow> 'a test option" where
  "puts st vs e = Some (e\<lparr>mem := put_list vs st (mem e)\<rparr>)"

definition publishes :: "gen \<Rightarrow> gen \<Rightarrow> publish_error + unit \<Rightarrow> 'a test \<Rightarrow> 'a test option" where
  "publishes st en r e = expect r e (publish_slots Cas st en (mem e))"

fun cleaned :: "(cleanup_result \<Rightarrow> bool) \<Rightarrow> 'a test \<Rightarrow> ((cleanup_error + cleanup_result) outcome \<times> 'a area) option \<Rightarrow> 'a test option" where
  "cleaned P e (Some (Returns (Inr r), s)) = (if P r then Some (e\<lparr>mem := s\<rparr>) else None)"
| "cleaned P e x = None"

definition cleans_up :: "(cleanup_result \<Rightarrow> bool) \<Rightarrow> 'a test \<Rightarrow> 'a test option" where
  "cleans_up P e = cleaned P e (try_cleanup_old_slots Cas False (mem e))"

definition clones_writer :: "'a test \<Rightarrow> 'a test option" where
  "clones_writer e = Some (e\<lparr>mem := create_writer (mem e)\<rparr>)"

section \<open>Steps of a reservation\<close>

text \<open>A new reservation is put in front of the others.\<close>

fun reserved_new :: "'a test \<Rightarrow> (reserve_error + reservation) \<times> 'a area \<Rightarrow> 'a test option" where
  "reserved_new e (Inr r, s) = Some (e\<lparr>mem := s, reservations := r # reservations e\<rparr>)"
| "reserved_new e (Inl err, s) = None"

definition reserve_new :: "usize \<Rightarrow> 'a test \<Rightarrow> 'a test option" where
  "reserve_new n e = reserved_new e (reserve Cas n (mem e))"

definition reserve_new_best_effort :: "usize \<Rightarrow> 'a test \<Rightarrow> 'a test option" where
  "reserve_new_best_effort n e = reserved_new e (reserve_best_effort Cas n (mem e))"

text \<open>The reservation number \<open>k\<close>.\<close>

definition nth_res :: "nat \<Rightarrow> 'a test \<Rightarrow> reservation" where
  "nth_res k e = reservations e ! k"

text \<open>\<open>get_mut(i).unwrap().write(v)\<close>.\<close>

fun stored_at :: "'a \<Rightarrow> 'a test \<Rightarrow> usize option \<Rightarrow> 'a test option" where
  "stored_at v e None = None"
| "stored_at v e (Some p) = Some (e\<lparr>mem := (mem e)\<lparr>buffer := (buffer (mem e))[unat p := Init v]\<rparr>\<rparr>)"

definition sets :: "nat \<Rightarrow> usize \<Rightarrow> 'a \<Rightarrow> 'a test \<Rightarrow> 'a test option" where
  "sets k i v e = stored_at v e (get_mut (nth_res k e) i (mem e))"

text \<open>The two parts take the place of the reservation.\<close>

fun splitted :: "nat \<Rightarrow> 'a test \<Rightarrow> (reservation \<times> reservation) outcome \<Rightarrow> 'a test option" where
  "splitted k e (Returns (l, r)) = Some (e\<lparr>reservations := take k (reservations e) @ [l, r] @ drop (Suc k) (reservations e)\<rparr>)"
| "splitted k e Panics = None"

definition splits :: "nat \<Rightarrow> usize \<Rightarrow> 'a test \<Rightarrow> 'a test option" where
  "splits k n e = splitted k e (split_at_mut (nth_res k e) n)"

definition disarms :: "nat \<Rightarrow> 'a test \<Rightarrow> 'a test option" where
  "disarms k e = Some (e\<lparr>reservations := (reservations e)[k := disarm (nth_res k e)]\<rparr>)"

definition arms :: "nat \<Rightarrow> 'a test \<Rightarrow> 'a test option" where
  "arms k e = Some (e\<lparr>reservations := (reservations e)[k := arm (nth_res k e)]\<rparr>)"

text \<open>Publishing: it succeeds, or gives the reservation back.\<close>

fun publish_result :: "nat \<Rightarrow> bool \<Rightarrow> 'a test \<Rightarrow> (reservation \<times> publish_error + unit) \<times> 'a area \<Rightarrow> 'a test option" where
  "publish_result k succeeds e (Inr u, s) = (if succeeds then Some (e\<lparr>mem := s\<rparr>) else None)"
| "publish_result k succeeds e (Inl (r, err), s) =
     (if succeeds then None else Some (e\<lparr>mem := s, reservations := (reservations e)[k := r]\<rparr>))"

definition publish_res :: "nat \<Rightarrow> bool \<Rightarrow> 'a test \<Rightarrow> 'a test option" where
  "publish_res k succeeds e = publish_result k succeeds e (publish Cas (nth_res k e) (mem e))"

definition spin_res :: "nat \<Rightarrow> 'a test \<Rightarrow> 'a test option" where
  "spin_res k e = expect_some (Returns ()) e (publish_spin (nth_res k e) (mem e))"

definition drop_res :: "nat \<Rightarrow> unit outcome \<Rightarrow> 'a test \<Rightarrow> 'a test option" where
  "drop_res k r e = (if drop_reservation (nth_res k e) = r then Some e else None)"

section \<open>Steps of an iterator\<close>

definition iterates :: "'a test \<Rightarrow> 'a test option" where
  "iterates e = Some (e\<lparr>filling := into_iter (nth_res 0 e)\<rparr>)"

text \<open>The loop \<open>for slot in &mut iter\<close>, or calls of \<open>next().unwrap().write(..)\<close>.\<close>

fun filled :: "'a test \<Rightarrow> (reservation_iter \<times> 'a area) outcome \<Rightarrow> 'a test option" where
  "filled e (Returns (it, s)) = Some (e\<lparr>mem := s, filling := it\<rparr>)"
| "filled e Panics = None"

definition fills_with :: "'a list \<Rightarrow> 'a test \<Rightarrow> 'a test option" where
  "fills_with vs e = filled e (write_each vs (filling e) (mem e))"

definition spin_iter :: "'a test \<Rightarrow> 'a test option" where
  "spin_iter e = expect_some (Returns ()) e (iter_publish_spin (filling e) (mem e))"

section \<open>Steps of a reader\<close>

definition nth_reader :: "nat \<Rightarrow> 'a test \<Rightarrow> reader" where
  "nth_reader k e = readers e ! k"

fun registered_as :: "'a test \<Rightarrow> ((register_error + reader) \<times> 'a area) option \<Rightarrow> 'a test option" where
  "registered_as e (Some (Inr r, s)) = Some (e\<lparr>mem := s, readers := readers e @ [r]\<rparr>)"
| "registered_as e x = None"

definition registers :: "gen \<Rightarrow> 'a test \<Rightarrow> 'a test option" where
  "registers seed e = registered_as e (create_reader_with_seed seed (mem e))"

definition creates_reader :: "gen \<Rightarrow> 'a test \<Rightarrow> 'a test option" where
  "creates_reader random e = registered_as e (create_reader random (mem e))"

definition advances :: "gen \<Rightarrow> set_gen_error + unit \<Rightarrow> 'a test \<Rightarrow> 'a test option" where
  "advances n r e = expect (Returns r) e (advance (nth_reader 0 e) n (mem e))"

definition suspends :: "suspend_error + unit \<Rightarrow> 'a test \<Rightarrow> 'a test option" where
  "suspends r e = expect r e (suspend (nth_reader 0 e) (mem e))"

definition resumes :: "'a test \<Rightarrow> 'a test option" where
  "resumes e = expect_some (Inr True) e (resume (nth_reader 0 e) (mem e))"

definition resumes_at :: "gen \<Rightarrow> 'a test \<Rightarrow> 'a test option" where
  "resumes_at g e = expect_some (Inr True) e (resume_at (nth_reader 0 e) g (mem e))"

definition gen_is :: "nat \<Rightarrow> gen \<Rightarrow> 'a test \<Rightarrow> 'a test option" where
  "gen_is k g e = (if get_gen (nth_reader k e) (mem e) = Returns g then Some e else None)"

fun slice_taken :: "'a test \<Rightarrow> read_slice outcome \<Rightarrow> 'a test option" where
  "slice_taken e (Returns sl) = Some (e\<lparr>msgs := sl\<rparr>)"
| "slice_taken e Panics = None"

fun slice_taken_checked :: "'a test \<Rightarrow> (read_error + read_slice) outcome \<Rightarrow> 'a test option" where
  "slice_taken_checked e (Returns (Inr sl)) = Some (e\<lparr>msgs := sl\<rparr>)"
| "slice_taken_checked e x = None"

definition reads_all :: "'a test \<Rightarrow> 'a test option" where
  "reads_all e = slice_taken e (read (nth_reader 0 e) (mem e))"

definition reads_at_most :: "usize \<Rightarrow> 'a test \<Rightarrow> 'a test option" where
  "reads_at_most n e = slice_taken e (read_at_most (nth_reader 0 e) n (mem e))"

definition reads_with_check :: "'a test \<Rightarrow> 'a test option" where
  "reads_with_check e = slice_taken_checked e (read_with_check (nth_reader 0 e) (mem e) (mem e) (mem e))"

definition len_is :: "usize \<Rightarrow> 'a test \<Rightarrow> 'a test option" where
  "len_is n e = (if slice_len (msgs e) = n then Some e else None)"

definition get_is :: "usize \<Rightarrow> 'a option \<Rightarrow> 'a test \<Rightarrow> 'a test option" where
  "get_is i v e = (if slice_get (msgs e) i (mem e) = map_option Init v then Some e else None)"

text \<open>\<open>iter().copied().collect()\<close>.\<close>

definition collects :: "'a list \<Rightarrow> 'a test \<Rightarrow> 'a test option" where
  "collects vs e =
     (if collect (Suc (length vs)) (slice_iter (msgs e)) (mem e) = map Init vs then Some e else None)"

definition slices_are :: "'a list \<Rightarrow> 'a list \<Rightarrow> 'a test \<Rightarrow> 'a test option" where
  "slices_are vs ws e = (if as_slices (msgs e) (mem e) = (map Init vs, map Init ws) then Some e else None)"

definition slice_ends :: "'a test \<Rightarrow> 'a test option" where
  "slice_ends e = expect (Returns ()) e (drop_slice (msgs e) (mem e))"

section \<open>The drops of the handles\<close>

fun freed :: "region list \<Rightarrow> 'a test \<Rightarrow> ('a area \<times> region list) option \<Rightarrow> 'a test option" where
  "freed rs e None = None"
| "freed rs e (Some (s, rs')) = (if rs' = rs then Some (e\<lparr>mem := s\<rparr>) else None)"

definition writer_ends :: "bool \<Rightarrow> region list \<Rightarrow> 'a test \<Rightarrow> 'a test option" where
  "writer_ends nd rs e = freed rs e (drop_writer nd (mem e))"

definition reader_ends :: "bool \<Rightarrow> nat \<Rightarrow> region list \<Rightarrow> 'a test \<Rightarrow> 'a test option" where
  "reader_ends nd k rs e = freed rs e (drop_reader nd (nth_reader k e) (mem e))"

text \<open>A test with one writer and one reader ends with the drop of the reader, then of the writer.\<close>

definition both_end :: "bool \<Rightarrow> ('a test \<Rightarrow> 'a test option) list" where
  "both_end nd = [reader_ends nd 0 [], writer_ends nd free_all]"

text \<open>The asserts on the suspended bit.\<close>

fun bit_is :: "bool \<Rightarrow> gen outcome \<Rightarrow> bool" where
  "bit_is b (Returns g) \<longleftrightarrow> is_suspended g = b"
| "bit_is b Panics \<longleftrightarrow> False"

definition suspended_now :: "'a test \<Rightarrow> bool" where
  "suspended_now e \<longleftrightarrow> bit_is True (get_gen (nth_reader 0 e) (mem e))"

definition active_now :: "'a test \<Rightarrow> bool" where
  "active_now e \<longleftrightarrow> bit_is False (get_gen (nth_reader 0 e) (mem e))"

section \<open>Tests of \<open>src/area.rs\<close>\<close>

definition test_basic_writer_reserve_and_publish :: bool where
  "test_basic_writer_reserve_and_publish \<longleftrightarrow> passes (
     [gen_is 0 0, reserves 4 (Inr (0, 4)), puts 0 [0, 10, 20, 30], publishes 0 4 (Inr ()),
      check (\<lambda>e. read_gen (mem e) = 4)] @ both_end False)
     (new 16 8 :: u64 test option)"

definition test_reservation_write_and_publish :: bool where
  "test_reservation_write_and_publish \<longleftrightarrow> passes (
     [reserve_new 4, sets 0 0 100, sets 0 1 101, sets 0 2 102, sets 0 3 103,
      publish_res 0 True] @ both_end False)
     (new 16 8 :: u64 test option)"

definition test_reservation_split :: bool where
  "test_reservation_split \<longleftrightarrow> passes (
     [reserve_new 4, check (\<lambda>e. len (nth_res 0 e) = 4), splits 0 2,
      check (\<lambda>e. len (nth_res 0 e) = 2 \<and> len (nth_res 1 e) = 2), sets 0 0 100, sets 0 1 101,
      sets 1 0 102, sets 1 1 103, publish_res 1 False, publish_res 0 True,
      publish_res 1 True] @ both_end False)
     (new 16 8 :: u64 test option)"

definition test_reservation_raii :: bool where
  "test_reservation_raii \<longleftrightarrow> passes (
     [reserve_new 4, check (\<lambda>e. len (nth_res 0 e) = 4), sets 0 0 0, sets 0 1 100, sets 0 2 200,
      sets 0 3 300, spin_res 0, check (\<lambda>e. read_gen (mem e) = 4)] @ both_end False)
     (new 16 8 :: u64 test option)"

text \<open>The fields of the message are written through raw pointers; here it is written as a whole.  Its type has a destructor.\<close>

definition test_reservation_inplace_init :: bool where
  "test_reservation_inplace_init \<longleftrightarrow> passes (
     [reserve_new 1, sets 0 0 (42 :: u64, [1, 2, 3 :: 8 word]), publish_res 0 True,
      reads_with_check,
      check (\<lambda>e. fst (as_slices (msgs e) (mem e)) = [Init (42, [1, 2, 3])]),
      slice_ends] @ both_end True)
     (new 16 8)"

text \<open>Should panic.\<close>

definition test_reservation_panic_on_drop :: bool where
  "test_reservation_panic_on_drop \<longleftrightarrow> passes (
     [reserve_new 4, drop_res 0 Panics])
     (new 16 8 :: u64 test option)"

definition test_reader_registration_and_reading :: bool where
  "test_reader_registration_and_reading \<longleftrightarrow> passes (
     [reserves 3 (Inr (0, 3)), puts 0 [100, 101, 102], publishes 0 3 (Inr ()), gen_is 0 0,
      check (\<lambda>e. read_gen (mem e) = 3),
      check (\<lambda>e. get_slot 0 (mem e) = Init 100 \<and> get_slot 1 (mem e) = Init 101 \<and> get_slot 2 (mem e) = Init 102)] @ both_end False)
     (new 16 8 :: u64 test option)"

definition test_register_capacity_reached :: bool where
  "test_register_capacity_reached \<longleftrightarrow> passes (
     [registers 100,
      check (\<lambda>e. map_option fst (create_reader_with_seed 101 (mem e)) = Some (Inl ReaderCapacityReached)),
      reader_ends False 1 []] @ both_end False)
     (new 16 2 :: u64 test option)"

definition test_create_writer :: bool where
  "test_create_writer \<longleftrightarrow> passes (
     [clones_writer, reserves 2 (Inr (0, 2)), reserves 2 (Inr (2, 4)),
      writer_ends False []] @ both_end False)
     (new 16 8 :: u64 test option)"

text \<open>The argument is what the random generator of the thread gives.\<close>

definition test_create_reader :: "gen \<Rightarrow> bool" where
  "test_create_reader random \<longleftrightarrow> passes (
     [creates_reader random, check (\<lambda>e. nth_reader 0 e \<noteq> nth_reader 1 e),
      reserves 3 (Inr (0, 3)), puts 0 [0, 2, 4], publishes 0 3 (Inr ()),
      check (\<lambda>e. read_gen (mem e) = 3), reader_ends False 1 []] @ both_end False)
     (new 16 8 :: u64 test option)"

definition test_reserve_overflow :: bool where
  "test_reserve_overflow \<longleftrightarrow> passes (
     [reserves 4 (Inr (0, 4)), reserves 1 (Inl NoSpace)] @ both_end False)
     (new 4 8 :: u64 test option)"

definition test_best_effort_reserve :: bool where
  "test_best_effort_reserve \<longleftrightarrow> passes (
     [reserves 2 (Inr (0, 2)), reserves_best_effort 10 (Inr (2, 4, 2)),
      reserves_best_effort 10 (Inr (0, 0, 0)), reserves 2 (Inl NoSpace)] @ both_end False)
     (new 4 8 :: u64 test option)"

definition test_suspend_and_resume :: bool where
  "test_suspend_and_resume \<longleftrightarrow> passes (
     [suspends (Inr ()), check suspended_now, resumes, check active_now] @ both_end False)
     (new 16 8 :: u64 test option)"

definition test_resume_at :: bool where
  "test_resume_at \<longleftrightarrow> passes (
     [suspends (Inr ()), resumes_at 0, gen_is 0 0, suspends (Inr ()),
      resumes_at 0] @ both_end False)
     (new 16 8 :: u64 test option)"

definition test_cleanup_simple :: bool where
  "test_cleanup_simple \<longleftrightarrow> passes (
     [reserves 5 (Inr (0, 5)), puts 0 [0, 1, 2, 3, 4], publishes 0 5 (Inr ()), advances 5 (Inr ()),
      cleans_up (\<lambda>r. old_last_valid r = 0 \<and> new_last_valid r = 5 \<and> slots_cleaned r = 5)] @ both_end False)
     (new 16 8 :: u64 test option)"

text \<open>The range is published without having been written.\<close>

definition test_unregister_unblocks_writer :: bool where
  "test_unregister_unblocks_writer \<longleftrightarrow> passes (
     [reserves 4 (Inr (0, 4)), publishes 0 4 (Inr ()), reserves 1 (Inl NoSpace),
      reader_ends False 0 [], cleans_up (\<lambda>r. new_last_valid r = 4), reserves 4 (Inr (4, 8)),
      writer_ends False free_all])
     (new 4 8 :: u64 test option)"

definition test_writer_drop_decrements_count :: bool where
  "test_writer_drop_decrements_count \<longleftrightarrow> passes (
     [check (\<lambda>e. writers_count (mem e) = 1), clones_writer,
      check (\<lambda>e. writers_count (mem e) = 2), writer_ends False [],
      check (\<lambda>e. writers_count (mem e) = 1)] @ both_end False)
     (new 16 8 :: u64 test option)"

definition test_suspend_idempotent :: bool where
  "test_suspend_idempotent \<longleftrightarrow> passes (
     [suspends (Inr ()), check suspended_now, suspends (Inl AlreadySuspended),
      check suspended_now] @ both_end False)
     (new 16 8 :: u64 test option)"

definition test_advance_while_suspended_fails :: bool where
  "test_advance_while_suspended_fails \<longleftrightarrow> passes (
     [suspends (Inr ()), advances 1 (Inl ReaderSuspended)] @ both_end False)
     (new 16 8 :: u64 test option)"

definition test_publish_cas_failure :: bool where
  "test_publish_cas_failure \<longleftrightarrow> passes (
     [clones_writer, reserves 2 (Inr (0, 2)), puts 0 [0, 1], reserves 2 (Inr (2, 4)), puts 2 [2, 3],
      publishes 2 4 (Inl CasFailed), publishes 0 2 (Inr ()), publishes 2 4 (Inr ()),
      publishes 0 2 (Inl CasFailed), writer_ends False []] @ both_end False)
     (new 16 8 :: u64 test option)"

definition test_drop_cleanup :: bool where
  "test_drop_cleanup \<longleftrightarrow> passes (
     [clones_writer, registers 100, reserves 2 (Inr (0, 2)), puts 0 [0, 1], publishes 0 2 (Inr ()),
      reader_ends False 1 [], writer_ends False []] @ both_end False)
     (new 16 8 :: u64 test option)"

definition test_read_slice :: bool where
  "test_read_slice \<longleftrightarrow> passes (
     [reserves 5 (Inr (0, 5)), puts 0 [0, 100, 200, 300, 400], publishes 0 5 (Inr ()),
      reads_with_check, len_is 5, check (\<lambda>e. \<not> slice_is_empty (msgs e)), get_is 0 (Some 0),
      get_is 1 (Some 100), get_is 4 (Some 400), get_is 5 None, collects [0, 100, 200, 300, 400],
      slices_are [0, 100, 200, 300, 400] [], slice_ends, gen_is 0 5, reserves 2 (Inr (5, 7)),
      puts 5 [50, 60], publishes 5 7 (Inr ()), reads_with_check, len_is 2, get_is 0 (Some 50),
      get_is 1 (Some 60), slice_ends, gen_is 0 7] @ both_end False)
     (new 16 8 :: u64 test option)"

definition test_register_reader_respects_cleanup :: bool where
  "test_register_reader_respects_cleanup \<longleftrightarrow> passes (
     [reserves 10 (Inr (0, 10)), puts 0 [0, 1, 2, 3, 4, 5, 6, 7, 8, 9], publishes 0 10 (Inr ()),
      advances 10 (Inr ()), cleans_up (\<lambda>r. new_last_valid r = 10), registers 100, gen_is 1 10,
      reader_ends False 1 []] @ both_end False)
     (new 16 8 :: u64 test option)"

text \<open>Should panic.\<close>

definition test_area_creation_panics_on_invalid_capacity :: bool where
  "test_area_creation_panics_on_invalid_capacity \<longleftrightarrow> (Handles_Reader.area 16 0 :: (reader \<times> u64 area) outcome option) = Some Panics"

definition test_read_at_most :: bool where
  "test_read_at_most \<longleftrightarrow> passes (
     [reserves 10 (Inr (0, 10)), puts 0 [0, 10, 20, 30, 40, 50, 60, 70, 80, 90],
      publishes 0 10 (Inr ()), reads_at_most 3, len_is 3, get_is 0 (Some 0), get_is 1 (Some 10),
      get_is 2 (Some 20), get_is 3 None, slice_ends, gen_is 0 3, reads_at_most 100, len_is 7,
      slice_ends, gen_is 0 10, reads_at_most 5, len_is 0,
      check (\<lambda>e. slice_is_empty (msgs e)), slice_ends] @ both_end False)
     (new 16 8 :: u64 test option)"

definition test_reservation_disarm_and_deferred_publish :: bool where
  "test_reservation_disarm_and_deferred_publish \<longleftrightarrow> passes (
     [reserve_new 10, splits 0 2, splits 1 2, splits 2 2, splits 3 2, disarms 0, disarms 1,
      disarms 2, disarms 3, disarms 4, sets 0 0 0, sets 0 1 100, sets 1 0 200, sets 1 1 300,
      sets 2 0 400, sets 2 1 500, sets 3 0 600, sets 3 1 700, sets 4 0 800, sets 4 1 900,
      drop_res 0 (Returns ()), drop_res 1 (Returns ()), drop_res 2 (Returns ()),
      drop_res 3 (Returns ()), drop_res 4 (Returns ()), publishes 0 10 (Inr ()), reads_with_check,
      len_is 10, collects [0, 100, 200, 300, 400, 500, 600, 700, 800, 900],
      slice_ends] @ both_end False)
     (new 16 8 :: u64 test option)"

definition test_reservation_disarm_drop_no_panic :: bool where
  "test_reservation_disarm_drop_no_panic \<longleftrightarrow> passes (
     [reserve_new 4, disarms 0, drop_res 0 (Returns ())] @ both_end False)
     (new 16 8 :: u64 test option)"

text \<open>Should panic.\<close>

definition test_reservation_rearm_then_drop_panics :: bool where
  "test_reservation_rearm_then_drop_panics \<longleftrightarrow> passes (
     [reserve_new 4, disarms 0, arms 0, drop_res 0 Panics])
     (new 16 8 :: u64 test option)"

section \<open>Tests of \<open>src/iter.rs\<close>\<close>

text \<open>The loop calls \<open>next\<close> once more than there are slots.\<close>

definition test_reservation_iter_basic :: bool where
  "test_reservation_iter_basic \<longleftrightarrow> passes (
     [reserve_new 4, iterates, fills_with [0, 100, 200, 300, 400],
      check (\<lambda>e. written_count (filling e) = 4 \<and> all_written (filling e)), spin_iter, reads_all,
      len_is 4, collects [0, 100, 200, 300], slice_ends] @ both_end False)
     (new 16 8 :: u64 test option)"

definition test_reservation_iter_for_loop :: bool where
  "test_reservation_iter_for_loop \<longleftrightarrow> passes (
     [reserve_new 3, iterates, fills_with [10, 20, 30, 40], spin_iter, reads_all, len_is 3,
      get_is 0 (Some 10), get_is 1 (Some 20), get_is 2 (Some 30), slice_ends] @ both_end False)
     (new 16 8 :: u64 test option)"

text \<open>Should panic when the slot is dropped, not when the iterator is.\<close>

definition test_reservation_iter_slot_not_written :: bool where
  "test_reservation_iter_slot_not_written \<longleftrightarrow> passes (
     [reserve_new 4, iterates,
      check (\<lambda>e. map_option drop_reservation_slot (fst (iter_next (filling e))) = Some Panics),
      check (\<lambda>e. drop_iter ((snd (iter_next (filling e)))\<lparr>iter_published := True\<rparr>) = Returns ())])
     (new 16 8 :: u64 test option)"

text \<open>Should panic.\<close>

definition test_reservation_iter_publish_before_all_written :: bool where
  "test_reservation_iter_publish_before_all_written \<longleftrightarrow> passes (
     [reserve_new 4, iterates, fills_with [1], fills_with [2],
      check (\<lambda>e. fst (iter_publish Cas ((filling e)\<lparr>iter_published := True\<rparr>) (mem e)) = Panics)])
     (new 16 8 :: u64 test option)"

text \<open>Should panic.\<close>

definition test_reservation_iter_drop_without_publish :: bool where
  "test_reservation_iter_drop_without_publish \<longleftrightarrow> passes (
     [reserve_new 2, iterates, fills_with [1], fills_with [2],
      check (\<lambda>e. drop_iter (filling e) = Panics)])
     (new 16 8 :: u64 test option)"

definition test_reservation_iter_empty :: bool where
  "test_reservation_iter_empty \<longleftrightarrow> passes (
     [reserve_new_best_effort 0, iterates,
      check (\<lambda>e. iter_is_empty (filling e) \<and> all_written (filling e)), spin_iter] @ both_end False)
     (new 16 8 :: u64 test option)"

definition test_reservation_iter_best_effort_empty :: bool where
  "test_reservation_iter_best_effort_empty \<longleftrightarrow> passes (
     [reserves 4 (Inr (0, 4)), puts 0 [0, 1, 2, 3], publishes 0 4 (Inr ()),
      reserve_new_best_effort 4, check (\<lambda>e. is_empty (nth_res 0 e)), iterates,
      check (\<lambda>e. all_written (filling e)), spin_iter] @ both_end False)
     (new 4 8 :: u64 test option)"

definition test_reservation_iter_exact_size :: bool where
  "test_reservation_iter_exact_size \<longleftrightarrow> passes (
     [reserve_new 5, iterates, check (\<lambda>e. iter_len (filling e) = 5), fills_with [0],
      check (\<lambda>e. remaining (filling e) = 4), fills_with [0], fills_with [0], fills_with [0],
      fills_with [0], check (\<lambda>e. remaining (filling e) = 0), spin_iter] @ both_end False)
     (new 16 8 :: u64 test option)"

section \<open>The example \<open>no-alloc-static.rs\<close>\<close>

text \<open>Its area is put together in static memory from a table of four free, suspended slots.\<close>

fun with_table :: "usize \<Rightarrow> gen lpmap outcome \<Rightarrow> 'a area outcome" where
  "with_table n (Returns m) = Returns (area_init m (replicate (unat n) Uninit) 2 0 0)"
| "with_table n Panics = Panics"

fun finished :: "'a area outcome \<Rightarrow> (reader outcome \<times> 'a area) option" where
  "finished (Returns s) = finish_init s"
| "finished Panics = None"

definition init_area :: "(reader outcome \<times> u64 area) option" where
  "init_area = finished (with_table 16 (from_storage (replicate 4 \<lparr>key = EMPTY, cell = SUSPENDED_BIT\<rparr>)))"

fun as_area :: "(reader outcome \<times> 'a area) option \<Rightarrow> (reader \<times> 'a area) outcome option" where
  "as_area (Some (Returns r, s)) = Some (Returns (r, s))"
| "as_area x = None"

text \<open>The result of the cleanup is ignored.\<close>

fun tried :: "'a test \<Rightarrow> ('r outcome \<times> 'a area) option \<Rightarrow> 'a test option" where
  "tried e (Some (Returns r, s)) = Some (e\<lparr>mem := s\<rparr>)"
| "tried e x = None"

definition tries_cleanup :: "'a test \<Rightarrow> 'a test option" where
  "tries_cleanup e = tried e (try_cleanup_old_slots Cas False (mem e))"

text \<open>It prints the length of the slice and the messages.\<close>

definition no_alloc_static_main :: bool where
  "no_alloc_static_main \<longleftrightarrow> passes (
     [reserve_new 3, sets 0 0 100, sets 0 1 200, sets 0 2 300, spin_res 0, reads_all, len_is 3,
      collects [100, 200, 300], tries_cleanup, slice_ends] @ both_end False)
     (with_area (as_area init_area))"

section \<open>Running them\<close>

lemma passes_no_alloc_static: no_alloc_static_main
  by code_simp

lemma passes_basic_writer_reserve_and_publish: test_basic_writer_reserve_and_publish
  by code_simp

lemma passes_reservation_write_and_publish: test_reservation_write_and_publish
  by code_simp

lemma passes_reservation_split: test_reservation_split
  by code_simp

lemma passes_reservation_raii: test_reservation_raii
  by code_simp

lemma passes_reservation_inplace_init: test_reservation_inplace_init
  by code_simp

lemma passes_reservation_panic_on_drop: test_reservation_panic_on_drop
  by code_simp

lemma passes_reader_registration_and_reading: test_reader_registration_and_reading
  by code_simp

lemma passes_register_capacity_reached: test_register_capacity_reached
  by code_simp

lemma passes_create_writer: test_create_writer
  by code_simp

lemma passes_create_reader: "list_all test_create_reader [0, 1, 100, 2 ^ 64 - 1]"
  by code_simp

lemma passes_reserve_overflow: test_reserve_overflow
  by code_simp

lemma passes_best_effort_reserve: test_best_effort_reserve
  by code_simp

lemma passes_suspend_and_resume: test_suspend_and_resume
  by code_simp

lemma passes_resume_at: test_resume_at
  by code_simp

lemma passes_cleanup_simple: test_cleanup_simple
  by code_simp

lemma passes_unregister_unblocks_writer: test_unregister_unblocks_writer
  by code_simp

lemma passes_writer_drop_decrements_count: test_writer_drop_decrements_count
  by code_simp

lemma passes_suspend_idempotent: test_suspend_idempotent
  by code_simp

lemma passes_advance_while_suspended_fails: test_advance_while_suspended_fails
  by code_simp

lemma passes_publish_cas_failure: test_publish_cas_failure
  by code_simp

lemma passes_drop_cleanup: test_drop_cleanup
  by code_simp

lemma passes_read_slice: test_read_slice
  by code_simp

lemma passes_register_reader_respects_cleanup: test_register_reader_respects_cleanup
  by code_simp

lemma passes_area_creation_panics_on_invalid_capacity: test_area_creation_panics_on_invalid_capacity
  by code_simp

lemma passes_read_at_most: test_read_at_most
  by code_simp

lemma passes_reservation_disarm_and_deferred_publish: test_reservation_disarm_and_deferred_publish
  by code_simp

lemma passes_reservation_disarm_drop_no_panic: test_reservation_disarm_drop_no_panic
  by code_simp

lemma passes_reservation_rearm_then_drop_panics: test_reservation_rearm_then_drop_panics
  by code_simp

lemma passes_reservation_iter_basic: test_reservation_iter_basic
  by code_simp

lemma passes_reservation_iter_for_loop: test_reservation_iter_for_loop
  by code_simp

lemma passes_reservation_iter_slot_not_written: test_reservation_iter_slot_not_written
  by code_simp

lemma passes_reservation_iter_publish_before_all_written: test_reservation_iter_publish_before_all_written
  by code_simp

lemma passes_reservation_iter_drop_without_publish: test_reservation_iter_drop_without_publish
  by code_simp

lemma passes_reservation_iter_empty: test_reservation_iter_empty
  by code_simp

lemma passes_reservation_iter_best_effort_empty: test_reservation_iter_best_effort_empty
  by code_simp

lemma passes_reservation_iter_exact_size: test_reservation_iter_exact_size
  by code_simp

text \<open>
  The model passes the unit tests of the repository and runs its example for static memory,
  each with its assertions, the drops of its handles and the regions the last of them frees
  (\<open>test_create_reader\<close> for some random numbers).
\<close>
theorem repository_unit_tests_pass:
  "test_basic_writer_reserve_and_publish \<and>
   test_reservation_write_and_publish \<and>
   test_reservation_split \<and>
   test_reservation_raii \<and>
   test_reservation_inplace_init \<and>
   test_reservation_panic_on_drop \<and>
   test_reader_registration_and_reading \<and>
   test_register_capacity_reached \<and>
   test_create_writer \<and>
   test_reserve_overflow \<and>
   test_best_effort_reserve \<and>
   test_suspend_and_resume \<and>
   test_resume_at \<and>
   test_cleanup_simple \<and>
   test_unregister_unblocks_writer \<and>
   test_writer_drop_decrements_count \<and>
   test_suspend_idempotent \<and>
   test_advance_while_suspended_fails \<and>
   test_publish_cas_failure \<and>
   test_drop_cleanup \<and>
   test_read_slice \<and>
   test_register_reader_respects_cleanup \<and>
   test_area_creation_panics_on_invalid_capacity \<and>
   test_read_at_most \<and>
   test_reservation_disarm_and_deferred_publish \<and>
   test_reservation_disarm_drop_no_panic \<and>
   test_reservation_rearm_then_drop_panics \<and>
   test_reservation_iter_basic \<and>
   test_reservation_iter_for_loop \<and>
   test_reservation_iter_slot_not_written \<and>
   test_reservation_iter_publish_before_all_written \<and>
   test_reservation_iter_drop_without_publish \<and>
   test_reservation_iter_empty \<and>
   test_reservation_iter_best_effort_empty \<and>
   test_reservation_iter_exact_size \<and>
   list_all test_create_reader [0, 1, 100, 2 ^ 64 - 1] \<and>
   no_alloc_static_main"
  by (intro conjI passes_basic_writer_reserve_and_publish
      passes_reservation_write_and_publish
      passes_reservation_split
      passes_reservation_raii
      passes_reservation_inplace_init
      passes_reservation_panic_on_drop
      passes_reader_registration_and_reading
      passes_register_capacity_reached
      passes_create_writer
      passes_create_reader
      passes_reserve_overflow
      passes_best_effort_reserve
      passes_suspend_and_resume
      passes_resume_at
      passes_cleanup_simple
      passes_unregister_unblocks_writer
      passes_writer_drop_decrements_count
      passes_suspend_idempotent
      passes_advance_while_suspended_fails
      passes_publish_cas_failure
      passes_drop_cleanup
      passes_read_slice
      passes_register_reader_respects_cleanup
      passes_area_creation_panics_on_invalid_capacity
      passes_read_at_most
      passes_reservation_disarm_and_deferred_publish
      passes_reservation_disarm_drop_no_panic
      passes_reservation_rearm_then_drop_panics
      passes_reservation_iter_basic
      passes_reservation_iter_for_loop
      passes_reservation_iter_slot_not_written
      passes_reservation_iter_publish_before_all_written
      passes_reservation_iter_drop_without_publish
      passes_reservation_iter_empty
      passes_reservation_iter_best_effort_empty
      passes_reservation_iter_exact_size
      passes_no_alloc_static)

end
