(* ===== verification/Example_Threads.thy ===== *)
theory Example_Threads
  imports Machine_Panics
begin

text \<open>
  The threaded programs of \<open>src/examples\<close> and of the documentation in \<open>src/lib.rs\<close>.  They have
  one shape: \<open>main\<close> makes an area, suspends the first reader, registers the readers and starts a
  thread for each, starts the writer threads, drops its own handles and joins.  A thread is at a
  point of its closure and moves over the threads of \<open>Machine\<close>: one step is one access
  of the operation it is in, one call, or one statement of the closure.

  An operation that a reader's thread begins while it holds a slice, or on a writer of its own,
  runs on a second thread of \<open>Machine\<close>, which waits while the first one moves and the other
  way round.  What the last drops of the handles do with the memory is in \<open>Drop_Machine\<close>.
\<close>

section \<open>The constants of a program\<close>

text \<open>
  \<open>message P j k i\<close> is what writer \<open>j\<close> writes into place \<open>i\<close> of its reservation number \<open>k\<close>;
  \<open>drops\<close> is \<open>needs_drop\<close> of its type.  \<open>seed P i\<close> is the seed of reader \<open>i\<close>.  Not all programs have the barrier, print what they
  receive, and count it (\<open>counts\<close>: the panic on a wrong count); a reader calls
  \<open>read_with_check\<close> or (\<open>checks = False\<close>) \<open>read\<close>.
\<close>

record 'a plan =
  n_writers :: nat
  m_readers :: nat
  messages_per_writer :: nat
  batch_size :: nat
  ring_len :: usize
  table_len :: usize
  barrier :: bool
  checks :: bool
  prints :: bool
  counts :: bool
  drops :: bool
  seed :: "nat \<Rightarrow> gen"
  message :: "nat \<Rightarrow> nat \<Rightarrow> nat \<Rightarrow> 'a"

definition rounds :: "'a plan \<Rightarrow> nat" where
  "rounds P = messages_per_writer P div batch_size P"

definition total_expected :: "'a plan \<Rightarrow> usize" where
  "total_expected P = of_nat (n_writers P * messages_per_writer P)"

section \<open>Writers\<close>

text \<open>The threads of \<open>Machine\<close>: \<open>main\<close> has 0; a reader has two, a writer one.\<close>

definition reads_on :: "nat \<Rightarrow> nat" where "reads_on i = 3 * i + 1"
definition cleans_on :: "nat \<Rightarrow> nat" where "cleans_on i = 3 * i + 2"
definition writes_on :: "nat \<Rightarrow> nat" where "writes_on j = 3 * j + 3"

datatype author =
    Unhired
  | AtBarrier | Released       \<comment> \<open>before and in \<open>barrier.wait()\<close>\<close>
  | Turn nat                   \<comment> \<open>\<open>msg_idx\<close>: the loop head, and again after \<open>yield_now\<close>\<close>
  | Grabbing nat               \<comment> \<open>in \<open>reserve\<close>\<close>
  | Filling nat nat            \<comment> \<open>and \<open>i\<close>\<close>
  | Publishing nat             \<comment> \<open>in \<open>publish_spin\<close>\<close>
  | Retired

text \<open>
  One attempt to reserve, the writing of the messages and the spinning until they are published.
\<close>

fun author_op :: "'a plan \<Rightarrow> nat \<Rightarrow> author \<Rightarrow> 'a sys \<Rightarrow> (author \<times> 'a sys) option" where
  "author_op P j (Turn k) S =
     map_option (Pair (Grabbing k))
       (sys_exec (drops P) (writes_on j, Some (Reserve False (of_nat (batch_size P)))) S)"
| "author_op P j (Grabbing k) S =
     map_option (\<lambda>S'. (case threads S' (writes_on j) of
         Idle \<Rightarrow> Turn k | Writing st en ms \<Rightarrow> Filling k 0 | _ \<Rightarrow> Grabbing k, S'))
       (sys_exec (drops P) (writes_on j, None) S)"
| "author_op P j (Filling k i) S =
     (if i < batch_size P
      then map_option (Pair (Filling k (Suc i)))
             (sys_exec (drops P) (writes_on j, Some (Write (message P j k i))) S)
      else Some (Publishing k, S))"
| "author_op P j (Publishing k) S =
     map_option (\<lambda>S'. (case threads S' (writes_on j) of Idle \<Rightarrow> Turn (Suc k) | _ \<Rightarrow> Publishing k, S'))
       (sys_exec (drops P) (writes_on j, Some Publish) S)"
| "author_op P j _ S = None"

section \<open>Readers\<close>

text \<open>A point with the \<open>count\<close> so far; the flag tells the second \<open>read\<close> of \<open>read_with_check\<close>.\<close>

datatype listener =
    Absent
  | Ready                      \<comment> \<open>before \<open>barrier.wait()\<close>, where readers wait\<close>
  | Speaking usize             \<comment> \<open>before reading, where readers are also writers\<close>
  | Looping usize              \<comment> \<open>the loop head\<close>
  | Reading usize bool
  | Took usize bool            \<comment> \<open>\<open>result\<close> of \<open>read\<close>\<close>
  | Checking usize             \<comment> \<open>\<open>get_writers_count() == 0\<close>\<close>
  | Holding usize              \<comment> \<open>\<open>slice\<close>\<close>
  | Cleaning usize             \<comment> \<open>in \<open>try_cleanup_old_slots\<close>\<close>
  | Showing usize nat          \<comment> \<open>the messages printed so far\<close>
  | Ending usize               \<comment> \<open>in the drop of the slice\<close>
  | LastDrop usize             \<comment> \<open>in the drop of the second \<open>result\<close>\<close>
  | Counted usize              \<comment> \<open>after the loop\<close>
  | Leaving usize              \<comment> \<open>in the drop of the reader\<close>
  | Gone usize
  | Failed                     \<comment> \<open>a panic\<close>

text \<open>The length of the slice the thread has; the disarmed one of \<open>read_with_check\<close> is empty.\<close>

fun slice_size :: "'a pc \<Rightarrow> usize" where
  "slice_size (Slice r st en) = gen_dist_msb_masked en st"
| "slice_size x = 0"

fun place_of :: "'a pc \<Rightarrow> nat \<Rightarrow> gen" where
  "place_of (Slice r st en) k = gen_add_msb_masked st (of_nat k)"
| "place_of x k = 0"

text \<open>
  The steps of a reader's thread; \<open>w\<close> is \<open>writers_count\<close> of the area, the list what is printed.
\<close>

fun listener_op :: "'a plan \<Rightarrow> nat \<Rightarrow> usize \<Rightarrow> listener \<Rightarrow> 'a sys \<Rightarrow>
    (listener \<times> 'a maybe_uninit list \<times> 'a sys) option" where
  "listener_op P i w (Looping n) S =
     map_option (\<lambda>S'. (Reading n False, [], S'))
       (sys_exec (drops P) (reads_on i, Some (Operate GetGen)) S)"
| "listener_op P i w (Reading n again) S =
     map_option (\<lambda>S'. (case threads S' (reads_on i) of
         Slice r st en \<Rightarrow> Took n again | Panicked \<Rightarrow> Failed | _ \<Rightarrow> Reading n again, [], S'))
       (sys_exec (drops P) (reads_on i, None) S)"
| "listener_op P i w (Took n again) S =
     (if \<not> checks P \<or> slice_size (threads S (reads_on i)) \<noteq> 0 then Some (Holding n, [], S)
      else map_option (\<lambda>S'. (if again then LastDrop n else Checking n, [], S'))
             (sys_exec (drops P) (reads_on i, Some (EndSlice again)) S))"
| "listener_op P i w (Checking n) S =
     (if w = 0
      then map_option (\<lambda>S'. (Reading n True, [], S'))
             (sys_exec (drops P) (reads_on i, Some (Operate GetGen)) S)
      else Some (Holding n, [], S))"
| "listener_op P i w (Holding n) S =
     map_option (\<lambda>S'. (Cleaning n, [], S')) (sys_exec (drops P) (cleans_on i, Some Cleanup) S)"
| "listener_op P i w (Cleaning n) S =
     map_option (\<lambda>S'. (case threads S' (cleans_on i) of
         Idle \<Rightarrow> Showing n 0 | Panicked \<Rightarrow> Failed | _ \<Rightarrow> Cleaning n, [], S'))
       (sys_exec (drops P) (cleans_on i, None) S)"
| "listener_op P i w (Showing n k) S =
     (let x = threads S (reads_on i) in
      if prints P \<and> k < unat (slice_size x)
      then Some (Showing n (Suc k), [get_slot (place_of x k) (shared S)], S)
      else
        (case x of
           Slice r st en \<Rightarrow>
             map_option (\<lambda>S'. (Ending (n + slice_size x), [], S'))
               (sys_exec (drops P) (reads_on i, Some (EndSlice True)) S)
         | _ \<Rightarrow> Some (Looping (n + slice_size x), [], S)))"
| "listener_op P i w (Ending n) S =
     map_option (\<lambda>S'. (case threads S' (reads_on i) of
         Reader r \<Rightarrow> Looping n | Panicked \<Rightarrow> Failed | _ \<Rightarrow> Ending n, [], S'))
       (sys_exec (drops P) (reads_on i, None) S)"
| "listener_op P i w (LastDrop n) S =
     map_option (\<lambda>S'. (case threads S' (reads_on i) of
         Reader r \<Rightarrow> Counted n | Panicked \<Rightarrow> Failed | _ \<Rightarrow> LastDrop n, [], S'))
       (sys_exec (drops P) (reads_on i, None) S)"
| "listener_op P i w (Counted n) S =
     (if counts P \<and> n \<noteq> total_expected P then Some (Failed, [], S)
      else map_option (\<lambda>S'. (Leaving n, [], S'))
             (sys_exec (drops P) (reads_on i, Some (Operate Unregister)) S))"
| "listener_op P i w (Leaving n) S =
     map_option (\<lambda>S'. (case threads S' (reads_on i) of Idle \<Rightarrow> Gone n | _ \<Rightarrow> Leaving n, [], S'))
       (sys_exec (drops P) (reads_on i, None) S)"
| "listener_op P i w _ S = None"

section \<open>The main thread\<close>

datatype boss =
    Begin
  | Opening                    \<comment> \<open>in \<open>area\<close>\<close>
  | Opened
  | Suspending                 \<comment> \<open>in \<open>reader.suspend()\<close>\<close>
  | Enrolling nat bool         \<comment> \<open>reader \<open>i\<close>; in \<open>create_reader_with_seed\<close>?\<close>
  | Hiring nat
  | Dropping                   \<comment> \<open>in \<open>drop(reader)\<close>\<close>
  | Closing                    \<comment> \<open>\<open>drop(writer)\<close>\<close>
  | JoinWriter nat | JoinReader nat
  | Done | Aborted

text \<open>
  \<open>handles\<close> is \<open>writers_count\<close> of the area, which the operations of \<open>Machine\<close> leave alone.
  \<open>by_author\<close> is bookkeeping: the log with the number of the writer of each message.
\<close>

record 'a world =
  machine :: "'a sys"
  handles :: usize
  boss :: boss
  authors :: "nat \<Rightarrow> author"
  listeners :: "nat \<Rightarrow> listener"
  arrived :: nat
  heard :: "nat \<Rightarrow> 'a maybe_uninit list"
  by_author :: "(nat \<times> 'a) list"

definition on_machine :: "'a plan \<Rightarrow> nat \<times> 'a call option \<Rightarrow> ('a pc \<Rightarrow> boss) \<Rightarrow> 'a world \<Rightarrow> 'a world option" where
  "on_machine P e f E =
     map_option (\<lambda>S'. E\<lparr>machine := S', boss := f (threads S' (fst e))\<rparr>) (sys_exec (drops P) e (machine E))"

text \<open>\<open>suspend().expect(..)\<close> panics when the reader is not found or suspended already.\<close>

fun suspend_fails :: "'a pc \<Rightarrow> bool" where
  "suspend_fails (OpLookup r oper) = True"
| "suspend_fails (OpAct r p c oper) = is_suspended c"
| "suspend_fails x = False"

text \<open>
  Up to the readers.  \<open>w\<close> is the number of writers dropped where \<open>area\<close> returns, \<open>spawn\<close> starts
  the thread of a reader.
\<close>

definition opening_step :: "'a plan \<Rightarrow> usize \<Rightarrow> (nat \<Rightarrow> 'a world \<Rightarrow> 'a world) \<Rightarrow> 'a world \<Rightarrow> 'a world option" where
  "opening_step P w spawn E =
     (case boss E of
        Begin \<Rightarrow> on_machine P (0, Some (Register 1)) (\<lambda>x. Opening) E
      | Opening \<Rightarrow>
          on_machine P (0, None)
            (\<lambda>x. case x of Reader r \<Rightarrow> Opened | Idle \<Rightarrow> Aborted | _ \<Rightarrow> Opening) E
      | Opened \<Rightarrow> on_machine P (0, Some (Operate Suspend)) (\<lambda>x. Suspending) (E\<lparr>handles := handles E - w\<rparr>)
      | Suspending \<Rightarrow>
          on_machine P (0, None)
            (\<lambda>x. case x of
                Reader r \<Rightarrow> if suspend_fails (threads (machine E) 0) then Aborted else Enrolling 0 False
              | _ \<Rightarrow> Suspending) E
      | Enrolling i False \<Rightarrow>
          on_machine P (reads_on i, Some (Register (seed P i))) (\<lambda>x. Enrolling i True) E
      | Enrolling i True \<Rightarrow>
          map_option (\<lambda>E'. if boss E' = Enrolling (Suc i) False then spawn i E' else E')
            (on_machine P (reads_on i, None)
               (\<lambda>x. case x of Reader r \<Rightarrow> Enrolling (Suc i) False | Idle \<Rightarrow> Aborted | _ \<Rightarrow> Enrolling i True) E)
      | _ \<Rightarrow> None)"

text \<open>
  The rest of \<open>main\<close> where writers have threads of their own.  The assertion is on the constants;
  \<open>join\<close> waits, and \<open>unwrap\<close> panics when the thread did.
\<close>

definition boss_step :: "'a plan \<Rightarrow> 'a world \<Rightarrow> 'a world option" where
  "boss_step P E =
     (case boss E of
        Enrolling i False \<Rightarrow>
          (if i < m_readers P then opening_step P 0 (\<lambda>i E. E) E
           else if batch_size P = 0 \<or> messages_per_writer P mod batch_size P \<noteq> 0
           then Some (E\<lparr>boss := Aborted\<rparr>)
           else Some (E\<lparr>boss := Hiring 0\<rparr>))
      | Hiring j \<Rightarrow>
          (if j < n_writers P
           then Some (E\<lparr>handles := handles E + 1, boss := Hiring (Suc j),
                        authors := (authors E)(j := if barrier P then AtBarrier else Turn 0)\<rparr>)
           else on_machine P (0, Some (Operate Unregister)) (\<lambda>x. Dropping) E)
      | Dropping \<Rightarrow>
          on_machine P (0, None) (\<lambda>x. case x of Idle \<Rightarrow> Closing | _ \<Rightarrow> Dropping) E
      | Closing \<Rightarrow> Some (E\<lparr>handles := handles E - 1, boss := JoinWriter 0\<rparr>)
      | JoinWriter j \<Rightarrow>
          (if j < n_writers P
           then if authors E j = Retired then Some (E\<lparr>boss := JoinWriter (Suc j)\<rparr>) else None
           else Some (E\<lparr>boss := JoinReader 0\<rparr>))
      | JoinReader i \<Rightarrow>
          (if i < m_readers P
           then (case listeners E i of
                   Gone n \<Rightarrow> Some (E\<lparr>boss := JoinReader (Suc i)\<rparr>)
                 | Failed \<Rightarrow> Some (E\<lparr>boss := Aborted\<rparr>)
                 | _ \<Rightarrow> None)
           else Some (E\<lparr>boss := Done\<rparr>))
      | _ \<Rightarrow> opening_step P 0 (\<lambda>i E. E\<lparr>listeners := (listeners E)(i := Looping 0)\<rparr>) E)"

section \<open>Separate readers and writers\<close>

datatype actor = Boss | Author nat | Listener nat

definition author_moves :: "'a plan \<Rightarrow> nat \<Rightarrow> 'a world \<Rightarrow> 'a world option" where
  "author_moves P j E =
     map_option (\<lambda>(a, S). E\<lparr>machine := S, authors := (authors E)(j := a),
        by_author := by_author E @ map (Pair j) (drop (length (log (machine E))) (log S))\<rparr>)
       (author_op P j (authors E j) (machine E))"

definition listener_moves :: "'a plan \<Rightarrow> nat \<Rightarrow> (listener \<Rightarrow> listener) \<Rightarrow> 'a world \<Rightarrow> 'a world option" where
  "listener_moves P i f E =
     map_option (\<lambda>(l, ms, S). E\<lparr>machine := S, listeners := (listeners E)(i := f l),
        heard := (heard E)(i := heard E i @ ms)\<rparr>)
       (listener_op P i (handles E) (listeners E i) (machine E))"

text \<open>\<open>barrier.wait()\<close> of the standard library; a released thread goes on at \<open>Turn 0\<close>.\<close>

fun barrier_step :: "'a plan \<Rightarrow> nat \<Rightarrow> 'a world \<Rightarrow> 'a world option" where
  "barrier_step P j E =
     (case authors E j of
        AtBarrier \<Rightarrow> Some (E\<lparr>arrived := Suc (arrived E), authors := (authors E)(j := Released)\<rparr>)
      | Released \<Rightarrow>
          (if arrived E < n_writers P then None else Some (E\<lparr>authors := (authors E)(j := Turn 0)\<rparr>))
      | _ \<Rightarrow> None)"

text \<open>The thread of writer \<open>j\<close>; it ends with the drop of its writer.\<close>

definition author_step :: "'a plan \<Rightarrow> nat \<Rightarrow> 'a world \<Rightarrow> 'a world option" where
  "author_step P j E =
     (case authors E j of
        AtBarrier \<Rightarrow> barrier_step P j E
      | Released \<Rightarrow> barrier_step P j E
      | Turn k \<Rightarrow>
          (if k < rounds P then author_moves P j E
           else Some (E\<lparr>handles := handles E - 1, authors := (authors E)(j := Retired)\<rparr>))
      | _ \<Rightarrow> author_moves P j E)"

fun world_step :: "'a plan \<Rightarrow> actor \<Rightarrow> 'a world \<Rightarrow> 'a world option" where
  "world_step P Boss E = boss_step P E"
| "world_step P (Author j) E = author_step P j E"
| "world_step P (Listener i) E = listener_moves P i id E"

section \<open>Readers that are also writers\<close>

text \<open>
  Thread \<open>i\<close> is writer \<open>i\<close> and reader \<open>i\<close>: one attempt to reserve, then one \<open>read\<close>, until it
  has received all messages.
\<close>

fun turn_over :: "'a plan \<Rightarrow> author \<Rightarrow> bool" where
  "turn_over P (Turn k) \<longleftrightarrow> rounds P \<le> k"
| "turn_over P a \<longleftrightarrow> False"

definition crier_step :: "'a plan \<Rightarrow> nat \<Rightarrow> 'a world \<Rightarrow> 'a world option" where
  "crier_step P i E =
     (case listeners E i of
        Ready \<Rightarrow>
          map_option (\<lambda>E'. if authors E' i = Turn 0 then E'\<lparr>listeners := (listeners E')(i := Speaking 0)\<rparr> else E')
            (barrier_step P i E)
      | Speaking n \<Rightarrow>
          if turn_over P (authors E i) then Some (E\<lparr>listeners := (listeners E)(i := Looping n)\<rparr>)
          else
            map_option (\<lambda>E'. case authors E' i of
                Turn k \<Rightarrow> E'\<lparr>listeners := (listeners E')(i := Looping n)\<rparr> | _ \<Rightarrow> E')
              (author_moves P i E)
      | Ending n \<Rightarrow>
          listener_moves P i (\<lambda>l. case l of
            Looping n \<Rightarrow> if n = total_expected P then Counted n else Speaking n | _ \<Rightarrow> l) E
      | _ \<Rightarrow> listener_moves P i id E)"

definition market_boss_step :: "'a plan \<Rightarrow> 'a world \<Rightarrow> 'a world option" where
  "market_boss_step P E =
     (case boss E of
        Enrolling i False \<Rightarrow>
          (if i < m_readers P then opening_step P 1 (\<lambda>i E. E) E
           else on_machine P (0, Some (Operate Unregister)) (\<lambda>x. Dropping) E)
      | Dropping \<Rightarrow>
          on_machine P (0, None) (\<lambda>x. case x of Idle \<Rightarrow> JoinReader 0 | _ \<Rightarrow> Dropping) E
      | JoinReader i \<Rightarrow>
          (if i < m_readers P
           then (case listeners E i of
                   Gone n \<Rightarrow> Some (E\<lparr>boss := JoinReader (Suc i)\<rparr>)
                 | Failed \<Rightarrow> Some (E\<lparr>boss := Aborted\<rparr>)
                 | _ \<Rightarrow> None)
           else Some (E\<lparr>boss := Done\<rparr>))
      | _ \<Rightarrow> opening_step P 1 (\<lambda>i E. E\<lparr>listeners := (listeners E)(i := Ready),
                                       authors := (authors E)(i := AtBarrier)\<rparr>) E)"

fun market_step :: "'a plan \<Rightarrow> actor \<Rightarrow> 'a world \<Rightarrow> 'a world option" where
  "market_step P Boss E = market_boss_step P E"
| "market_step P (Author j) E = None"
| "market_step P (Listener i) E = crier_step P i E"

section \<open>Runs\<close>

definition world_start :: "'a plan \<Rightarrow> 'a world" where
  "world_start P =
     \<lparr>machine = start_at 0 (ring_len P) (table_len P), handles = 1, boss = Begin,
      authors = (\<lambda>_. Unhired), listeners = (\<lambda>_. Absent), arrived = 0, heard = (\<lambda>_. []), by_author = []\<rparr>"

text \<open>\<open>step\<close> is \<open>world_step\<close> or \<open>market_step\<close>.\<close>

fun world_run :: "('a plan \<Rightarrow> actor \<Rightarrow> 'a world \<Rightarrow> 'a world option) \<Rightarrow> 'a plan \<Rightarrow> actor list \<Rightarrow>
    'a world \<Rightarrow> 'a world option" where
  "world_run step P [] E = Some E"
| "world_run step P (a # as) E =
     (case step P a E of None \<Rightarrow> None | Some E' \<Rightarrow> world_run step P as E')"

end
