(* ===== verification/Example_Writers.thy ===== *)
theory Example_Writers
  imports Example_Threads
begin

text \<open>
  The writers' threads of the example programs: where the thread of \<open>Machine\<close> is at each point of a
  writer, how much it has reserved and published, and that the log holds the messages of each
  writer as it sent them.
\<close>

section \<open>Where the threads of the machine are\<close>

definition round_of :: "'a plan \<Rightarrow> nat \<Rightarrow> nat \<Rightarrow> 'a list" where
  "round_of P j k = map (message P j k) [0..<batch_size P]"

definition all_rounds :: "'a plan \<Rightarrow> nat \<Rightarrow> nat \<Rightarrow> 'a list" where
  "all_rounds P j k = concat (map (round_of P j) [0..<k])"

fun author_at :: "'a plan \<Rightarrow> nat \<Rightarrow> author \<Rightarrow> 'a pc \<Rightarrow> bool" where
  "author_at P j (Grabbing k) x \<longleftrightarrow> k < rounds P \<and>
     (\<exists>cf cw. x = ReserveLoad False (of_nat (batch_size P)) cf \<or> x = ReserveGrab False (of_nat (batch_size P)) cf cw)"
| "author_at P j (Filling k i) x \<longleftrightarrow> k < rounds P \<and> i \<le> batch_size P \<and>
     (\<exists>st en. x = Writing st en (map (message P j k) [0..<i]) \<and> unat (gen_dist_msb_masked en st) = batch_size P)"
| "author_at P j (Publishing k) x \<longleftrightarrow> k < rounds P \<and>
     (\<exists>st en. x = Writing st en (round_of P j k) \<and> unat (gen_dist_msb_masked en st) = batch_size P)"
| "author_at P j (Turn k) x \<longleftrightarrow> k \<le> rounds P \<and> x = Idle"
| "author_at P j a x \<longleftrightarrow> x = Idle"

fun published_of :: "'a plan \<Rightarrow> author \<Rightarrow> nat" where
  "published_of P (Turn k) = k"
| "published_of P (Grabbing k) = k"
| "published_of P (Filling k i) = k"
| "published_of P (Publishing k) = k"
| "published_of P Retired = rounds P"
| "published_of P a = 0"

fun granted_of :: "'a plan \<Rightarrow> author \<Rightarrow> nat" where
  "granted_of P (Filling k i) = Suc k"
| "granted_of P (Publishing k) = Suc k"
| "granted_of P a = published_of P a"

lemma all_rounds_Suc: "all_rounds P j (Suc k) = all_rounds P j k @ round_of P j k"
  by (simp add: all_rounds_def)

lemma length_all_rounds: "length (all_rounds P j k) = k * batch_size P"
  by (induction k) (simp_all add: all_rounds_Suc round_of_def all_rounds_def [of P j 0])

lemma granted_le: "author_at P j a x \<Longrightarrow> granted_of P a \<le> rounds P"
  by (cases a) auto

lemma published_le: "author_at P j a x \<Longrightarrow> published_of P a \<le> rounds P"
  by (cases a) auto

section \<open>One step of the machine\<close>

lemma exec_other: "sys_exec nd (t, c) S = Some S' \<Longrightarrow> u \<noteq> t \<Longrightarrow> threads S' u = threads S u"
  by (auto elim!: sys_execE)

lemma exec_none:
  assumes "sys_exec nd (t, None) S = Some S'"
  shows "threads S' t = fst (pc_step nd (threads S t) (shared S))"
    and "shared S' = snd (pc_step nd (threads S t) (shared S))" and "log S' = log S"
    and "reserved S' = reserved S + unat (gen_dist_msb_masked (write_gen (shared S')) (write_gen (shared S)))"
  using assms by (auto elim!: sys_execE)

lemma exec_callE:
  assumes "sys_exec nd (t, Some d) S = Some S'"
  obtains x' s' where "call_step d (threads S t) (shared S) = Some (x', s')" "shared S' = s'" "threads S' t = x'"
    "log S' = log S @ published_by (threads S t) (Some d) x'"
    "reserved S' = reserved S + unat (gen_dist_msb_masked (write_gen s') (write_gen (shared S)))"
  using assms by (cases rule: sys_execE) (auto simp: that)

lemma dist_same [simp]: "gen_dist_msb_masked g g = 0"
  by (simp add: gen_dist_msb_masked_def)

text \<open>A reservation that is granted: its length, and the generations counted as reserved.\<close>

lemma grab_dist:
  assumes run: "run_of nd 0 bc rc S" and x: "threads S t = ReserveGrab False n cf cw"
    and step: "pc_step nd (ReserveGrab False n cf cw) (shared S) = (Writing st en ms, s')"
  shows "ms = []" and "unat (gen_dist_msb_masked en st) = unat n"
    and "unat (gen_dist_msb_masked (write_gen s') (write_gen (shared S))) = unat n"
proof -
  note R = run_ofD [OF run]
  have pre: "ord_pre 0 (ReserveGrab False n cf cw) (shared S)"
    using order_inv_pre [OF R(1,7), of t] R(3) x by simp
  from step have "ms = [] \<and> unat (gen_dist_msb_masked en st) = unat n \<and>
      unat (gen_dist_msb_masked (write_gen s') (write_gen (shared S))) = unat n"
  proof (cases rule: reserve_grab_cases)
    case (grabs k en')
    note g = ord_grab [OF pre grabs(1,4)]
    have "pos 0 en = pos 0 cw + unat n" using grab_bound(2) [OF pre grabs(1) g(3)] grabs(3,5) g(4) by simp
    then show ?thesis using grabs(5) g(3,5) unat_dist_ge [of 0 cw en] by simp
  qed simp_all
  then show "ms = []" "unat (gen_dist_msb_masked en st) = unat n"
      "unat (gen_dist_msb_masked (write_gen s') (write_gen (shared S))) = unat n" by simp_all
qed

section \<open>The steps of a writer\<close>

definition plan_ok :: "'a plan \<Rightarrow> bool" where
  "plan_ok P \<longleftrightarrow> start_ok 0 (ring_len P) (table_len P) \<and> ring_ok 0 (unat (ring_len P)) \<and>
     0 < batch_size P \<and> batch_size P dvd messages_per_writer P \<and>
     0 < n_writers P * messages_per_writer P \<and> n_writers P * messages_per_writer P < 2 ^ 62 \<and> n_writers P < 2 ^ 62 \<and> batch_size P < 2 ^ 62 \<and>
     m_readers P < unat (table_len P)"

lemma author_op_step:
  assumes run: "run_of (drops P) 0 bc rc S" and B: "0 < batch_size P" "batch_size P < 2 ^ 62"
    and at: "author_at P j a (threads S (writes_on j))" and more: "\<And>k. a = Turn k \<Longrightarrow> k < rounds P"
    and op: "author_op P j a S = Some (a', S')"
  shows "author_at P j a' (threads S' (writes_on j)) \<and>
    reserved S' + granted_of P a * batch_size P = reserved S + granted_of P a' * batch_size P \<and>
    log S' = log S @ concat (map (round_of P j) [published_of P a..<published_of P a']) \<and>
    (S' = S \<or> (\<exists>c. sys_exec (drops P) (writes_on j, c) S = Some S'))"
proof -
  let ?t = "writes_on j"
  have b: "unat (of_nat (batch_size P) :: usize) = batch_size P" using B by (simp add: unat_of_nat)
  then have b0: "(of_nat (batch_size P) :: usize) \<noteq> 0" using B by (metis unat_0 less_numeral_extra(3))
  show ?thesis
  proof (cases a)
    case (Turn k)
    then obtain S1 where e: "sys_exec (drops P) (?t, Some (Reserve False (of_nat (batch_size P)))) S = Some S1"
      and r: "a' = Grabbing k" "S' = S1" using op by auto
    from e show ?thesis
    proof (cases rule: exec_callE)
      case (1 x' s')
      then have "threads S1 ?t = ReserveLoad False (of_nat (batch_size P)) (free_gen (shared S))"
        using Turn at b0 by (auto simp: call_step_def)
      then show ?thesis using 1 Turn r at more e b0 by (auto simp: call_step_def published_by_def)
    qed
  next
    case (Grabbing k)
    then obtain S1 where e: "sys_exec (drops P) (?t, None) S = Some S1" and r: "S' = S1"
      "a' = (case threads S1 ?t of Idle \<Rightarrow> Turn k | Writing st en ms \<Rightarrow> Filling k 0 | _ \<Rightarrow> Grabbing k)"
      using op by auto
    from at Grabbing obtain cf cw where x: "k < rounds P"
      "threads S ?t = ReserveLoad False (of_nat (batch_size P)) cf \<or>
       threads S ?t = ReserveGrab False (of_nat (batch_size P)) cf cw" by auto
    note s = exec_none [OF e]
    from x(2) show ?thesis
    proof
      assume y: "threads S ?t = ReserveLoad False (of_nat (batch_size P)) cf"
      then have "threads S1 ?t = ReserveGrab False (of_nat (batch_size P)) cf (write_gen (shared S))" using s(1) by simp
      then show ?thesis using s(2-) y r x(1) e Grabbing by auto
    next
      assume y: "threads S ?t = ReserveGrab False (of_nat (batch_size P)) cf cw"
      then have p: "pc_step (drops P) (ReserveGrab False (of_nat (batch_size P)) cf cw) (shared S) = (threads S1 ?t, shared S1)"
        using s(1,2) by simp
      then show ?thesis
      proof (cases rule: reserve_grab_cases)
        case (grabs m en)
        from grab_dist [OF run y p [unfolded grabs(5)]] show ?thesis
          using grabs(5) s(3,4) r x(1) e Grabbing b by auto
      qed (use s(3,4) r x(1) e Grabbing in auto)
    qed
  next
    case (Filling k i)
    then obtain st en where x: "k < rounds P" "i \<le> batch_size P" "unat (gen_dist_msb_masked en st) = batch_size P"
      "threads S ?t = Writing st en (map (message P j k) [0..<i])" using at by auto
    show ?thesis
    proof (cases "i < batch_size P")
      case True
      then obtain S1 where e: "sys_exec (drops P) (?t, Some (Write (message P j k i))) S = Some S1"
        and r: "a' = Filling k (Suc i)" "S' = S1" using op Filling by auto
      from e show ?thesis
      proof (cases rule: exec_callE)
        case (1 x' s')
        then have "threads S1 ?t = Writing st en (map (message P j k) [0..<Suc i])" using x True
          by (auto simp: call_step_def)
        then show ?thesis using 1 Filling r x True e
          by (auto simp: call_step_def published_by_def write_slot_def)
      qed
    next
      case False
      then show ?thesis using op Filling x by (auto simp: round_of_def)
    qed
  next
    case (Publishing k)
    then obtain S1 where e: "sys_exec (drops P) (?t, Some Publish) S = Some S1" and r: "S' = S1"
      "a' = (case threads S1 ?t of Idle \<Rightarrow> Turn (Suc k) | _ \<Rightarrow> Publishing k)" using op by auto
    from at Publishing obtain st en where x: "k < rounds P" "unat (gen_dist_msb_masked en st) = batch_size P"
      "threads S ?t = Writing st en (round_of P j k)" by auto
    from e show ?thesis
    proof (cases rule: exec_callE)
      case (1 x' s')
      from 1(1) show ?thesis
      proof (cases rule: call_step_cases)
        case (published st' en' ms)
        then have y: "threads S1 ?t = Idle" using 1 by simp
        then show ?thesis using 1 r x e Publishing published(2,5) publish_frame [OF published(4)]
          by (auto simp: published_by_def)
      next
        case (publish_fails st' en' ms err)
        then have y: "threads S1 ?t = threads S ?t" using 1 by simp
        then show ?thesis using 1 r x e Publishing publish_fails(2,5) publish_frame [OF publish_fails(4)]
          by (auto simp: published_by_def)
      qed (use x(3) in simp_all)
    qed
  qed (use op in simp_all)
qed


section \<open>All writers together\<close>

definition authors_ok :: "'a plan \<Rightarrow> 'a world \<Rightarrow> bool" where
  "authors_ok P E \<longleftrightarrow>
     (\<forall>j. author_at P j (authors E j) (threads (machine E) (writes_on j)) \<and>
        (n_writers P \<le> j \<longrightarrow> authors E j = Unhired) \<and>
        map snd (filter (\<lambda>m. fst m = j) (by_author E)) = all_rounds P j (published_of P (authors E j))) \<and>
     map snd (by_author E) = log (machine E) \<and> (\<forall>m\<in>set (by_author E). fst m < n_writers P) \<and>
     reserved (machine E) = (\<Sum>j<n_writers P. granted_of P (authors E j) * batch_size P)"

definition safe_world :: "'a plan \<Rightarrow> 'a world \<Rightarrow> bool" where
  "safe_world P E \<longleftrightarrow> run_of (drops P) 0 (ring_len P) (table_len P) (machine E) \<and> authors_ok P E"

lemma length_by_key:
  "\<forall>m\<in>set xs. fst m < (n :: nat) \<Longrightarrow> length xs = (\<Sum>j<n. length (filter (\<lambda>m. fst m = j) xs))"
proof (induction xs)
  case (Cons x xs)
  have "(\<Sum>j<n. length (filter (\<lambda>m. fst m = j) (x # xs))) =
      (\<Sum>j<n. (if j = fst x then 1 else 0) + length (filter (\<lambda>m. fst m = j) xs))"
    by (intro sum.cong) auto
  also have "\<dots> = 1 + length xs" using Cons by (simp add: sum.distrib)
  finally show ?case by simp
qed simp

lemma rounds_batch: "plan_ok P \<Longrightarrow> rounds P * batch_size P = messages_per_writer P"
  by (simp add: plan_ok_def rounds_def)

lemma authors_length:
  assumes E: "authors_ok P E"
  shows "length (log (machine E)) = (\<Sum>j<n_writers P. published_of P (authors E j) * batch_size P)"
proof -
  have "length (log (machine E)) = (\<Sum>j<n_writers P. length (filter (\<lambda>m. fst m = j) (by_author E)))"
    using E length_by_key [of "by_author E" "n_writers P"] by (simp add: authors_ok_def flip: length_map [of snd])
  also have "\<dots> = (\<Sum>j<n_writers P. length (map snd (filter (\<lambda>m. fst m = j) (by_author E))))" by simp
  also have "\<dots> = (\<Sum>j<n_writers P. published_of P (authors E j) * batch_size P)"
    using E by (simp add: authors_ok_def length_all_rounds)
  finally show ?thesis .
qed

lemma authors_sum:
  assumes ok: "plan_ok P" and E: "authors_ok P E"
  shows "reserved (machine E) \<le> n_writers P * messages_per_writer P"
    and "length (log (machine E)) \<le> n_writers P * messages_per_writer P"
    and "(\<And>j. j < n_writers P \<Longrightarrow> authors E j = Retired \<or> authors E j = Turn (rounds P)) \<Longrightarrow>
      length (log (machine E)) = n_writers P * messages_per_writer P"
proof -
  note b = rounds_batch [OF ok]
  note len = authors_length [OF E]
  have le: "g * batch_size P \<le> messages_per_writer P" if "g \<le> rounds P" for g
    using mult_le_mono1 [OF that] b by metis
  have at: "author_at P j (authors E j) (threads (machine E) (writes_on j))" for j
    using E by (simp add: authors_ok_def)
  have "(\<Sum>j<n_writers P. granted_of P (authors E j) * batch_size P) \<le> n_writers P * messages_per_writer P"
    using sum_bounded_above [of "{..<n_writers P}" _ "messages_per_writer P"] le granted_le [OF at] by force
  then show "reserved (machine E) \<le> n_writers P * messages_per_writer P" using E by (simp add: authors_ok_def)
  show "length (log (machine E)) \<le> n_writers P * messages_per_writer P"
    unfolding len using sum_bounded_above [of "{..<n_writers P}" _ "messages_per_writer P"] le published_le [OF at] by force
  assume "\<And>j. j < n_writers P \<Longrightarrow> authors E j = Retired \<or> authors E j = Turn (rounds P)"
  then have "published_of P (authors E j) * batch_size P = messages_per_writer P" if "j < n_writers P" for j
    using that b by fastforce
  then show "length (log (machine E)) = n_writers P * messages_per_writer P" by (simp add: len)
qed

lemma writes_on_inj [simp]: "writes_on j = writes_on k \<longleftrightarrow> j = k"
  by (simp add: writes_on_def)

lemma all_rounds_upto: "k \<le> l \<Longrightarrow> all_rounds P j l = all_rounds P j k @ concat (map (round_of P j) [k..<l])"
  using upt_add_eq_append [of 0 k "l - k"] by (simp add: all_rounds_def)

lemma published_grows: "author_op P j a S = Some (a', S') \<Longrightarrow> published_of P a \<le> published_of P a'"
  by (cases a) (auto split: pc.splits if_splits)

lemma author_moves_safe:
  assumes ok: "plan_ok P" and E: "safe_world P E" and j: "j < n_writers P"
    and more: "\<And>k. authors E j = Turn k \<Longrightarrow> k < rounds P" and mv: "author_moves P j E = Some E'"
  shows "safe_world P E' \<and> (\<exists>a. authors E' = (authors E)(j := a)) \<and> heard E' = heard E \<and> handles E' = handles E \<and> boss E' = boss E \<and>
    listeners E' = listeners E \<and> arrived E' = arrived E \<and>
    (machine E' = machine E \<or> (\<exists>c. sys_exec (drops P) (writes_on j, c) (machine E) = Some (machine E')))"
proof -
  let ?a = "authors E j" and ?S = "machine E" and ?n = "n_writers P" and ?b = "batch_size P"
  obtain a' S' where op: "author_op P j ?a ?S = Some (a', S')"
    and E': "E' = E\<lparr>machine := S', authors := (authors E)(j := a'),
        by_author := by_author E @ map (Pair j) (drop (length (log ?S)) (log S'))\<rparr>"
    using mv by (auto simp: author_moves_def)
  have run: "run_of (drops P) 0 (ring_len P) (table_len P) ?S" and A: "authors_ok P E"
    using E by (auto simp: safe_world_def)
  have at: "author_at P j ?a (threads ?S (writes_on j))" using A by (simp add: authors_ok_def)
  have B: "0 < ?b" "?b < 2 ^ 62" using ok by (simp_all add: plan_ok_def)
  note st = author_op_step [OF run B at more op]
  have exec: "S' = ?S \<or> (\<exists>c. sys_exec (drops P) (writes_on j, c) ?S = Some S')" using st by blast
  have lg: "log S' = log ?S @ concat (map (round_of P j) [published_of P ?a..<published_of P a'])" using st by blast
  have other: "threads S' (writes_on i) = threads ?S (writes_on i)" if "i \<noteq> j" for i
    using exec exec_other [of "drops P" "writes_on j" _ ?S S' "writes_on i"] that by auto
  have sum: "(\<Sum>i<?n. granted_of P (((authors E)(j := a')) i) * ?b) + granted_of P ?a * ?b =
      (\<Sum>i<?n. granted_of P (authors E i) * ?b) + granted_of P a' * ?b"
    using j by (simp add: sum.remove [of _ j] cong: sum.cong_simp)
  have A': "authors_ok P E'"
    unfolding authors_ok_def
  proof (intro conjI allI)
    fix i
    show "author_at P i (authors E' i) (threads (machine E') (writes_on i))"
      using A st other [of i] by (auto simp: E' authors_ok_def)
    show "?n \<le> i \<longrightarrow> authors E' i = Unhired" using A j by (auto simp: E' authors_ok_def)
    have rounds: "map snd (filter (\<lambda>m. fst m = i) (by_author E)) = all_rounds P i (published_of P (authors E i))"
      using A by (simp add: authors_ok_def)
    show "map snd (filter (\<lambda>m. fst m = i) (by_author E')) = all_rounds P i (published_of P (authors E' i))"
      using rounds lg all_rounds_upto [OF published_grows [OF op], of P j]
      by (cases "i = j") (simp_all add: E' comp_def)
  next
    show "map snd (by_author E') = log (machine E')" using A lg by (simp add: E' authors_ok_def comp_def)
    show "\<forall>m\<in>set (by_author E'). fst m < ?n" using A j by (auto simp: E' authors_ok_def)
    show "reserved (machine E') = (\<Sum>j<?n. granted_of P (authors E' j) * ?b)"
      using A st sum by (simp add: E' authors_ok_def)
  qed
  have "reserved S' < 2 ^ 62"
    using authors_sum(1) [OF ok A'] ok by (simp add: E' plan_ok_def)
  then have "run_of (drops P) 0 (ring_len P) (table_len P) S'" using exec run run_of_exec by metis
  with A' exec show ?thesis by (auto simp: E' safe_world_def)
qed

section \<open>Steps of the others\<close>

lemma pc_step_write:
  "(\<And>be n cf cw. x \<noteq> ReserveGrab be n cf cw) \<Longrightarrow> write_gen (snd (pc_step nd x s)) = write_gen s"
proof (cases x)
  case (OpAct r p c oper)
  then show ?thesis
    by (cases oper; cases rule: cas_gen_cases [of p s c "c AND NOT SUSPENDED_BIT"])
      (auto simp: set_gen_from_def suspend_from_def resume_turn_def resume_at_turn_def cas_gen_def
        split: sum.splits prod.splits)
qed (auto simp: scan_turn_def cas_gen_def compare_exchange_def claim_turn_def free_turn_def drop_slot_def
    enter_turn_def goi_turn_def Let_def split: option.splits reader_op.splits sum.splits if_splits)

lemma quiet_none:
  assumes "sys_exec nd (t, None) S = Some S'" and "\<And>be n cf cw. threads S t \<noteq> ReserveGrab be n cf cw"
  shows "log S' = log S \<and> reserved S' = reserved S"
  using exec_none [OF assms(1)] pc_step_write [OF assms(2), of nd "shared S"] by simp

lemma quiet_call:
  assumes "sys_exec nd (t, Some d) S = Some S'" and "d \<noteq> Publish"
  shows "log S' = log S \<and> reserved S' = reserved S"
  using assms(1)
proof (cases rule: exec_callE)
  case (1 x' s')
  have "published_by (threads S t) (Some d) x' = []" using assms(2) by (auto simp: published_by_def split: pc.splits call.splits)
  moreover have "write_gen s' = write_gen (shared S)"
    using 1(1) by (cases rule: call_step_cases) (use assms(2) in \<open>simp_all add: write_slot_def\<close>)
  ultimately show ?thesis using 1 by simp
qed

lemma quiet_safe:
  assumes E: "safe_world P E" and e: "sys_exec (drops P) (t, c) (machine E) = Some S'"
    and t: "\<And>j. t \<noteq> writes_on j" and q: "log S' = log (machine E) \<and> reserved S' = reserved (machine E)"
    and E': "machine E' = S'" "authors E' = authors E" "by_author E' = by_author E"
  shows "safe_world P E'"
proof -
  have run: "run_of (drops P) 0 (ring_len P) (table_len P) (machine E)" using E by (simp add: safe_world_def)
  then have "reserved S' < 2 ^ 62" using q run_ofD(7) by metis
  with run_of_exec [OF run e] have "run_of (drops P) 0 (ring_len P) (table_len P) S'" .
  moreover have "threads S' (writes_on j) = threads (machine E) (writes_on j)" for j
    using exec_other [OF e] t [of j] by metis
  ultimately show ?thesis using E q E' by (simp add: safe_world_def authors_ok_def)
qed

end
