(* ===== verification/Example_Readers.thy ===== *)
theory Example_Readers
  imports Example_Writers
begin

text \<open>
  The readers' threads of the example programs: what holds at each point of a reader, \<open>listener_ok\<close> -
  its count is its position in the log, what it printed are the messages before it - and that each
  of its steps keeps it.
\<close>

section \<open>Where the threads of the machine are\<close>

fun getting :: "'a pc \<Rightarrow> bool" where
  "getting (OpLookup r GetGen) = True"
| "getting (OpLoad r p GetGen) = True"
| "getting (OpAct r p c GetGen) = True"
| "getting (ReadEnd r st) = True"
| "getting x = False"

fun ends_slice :: "reader_op \<Rightarrow> bool" where
  "ends_slice (DropSlice st en) = True"
| "ends_slice (SetGen en) = True"
| "ends_slice oper = False"

fun ending :: "'a pc \<Rightarrow> bool" where
  "ending (OpLookup r oper) = ends_slice oper"
| "ending (OpLoad r p oper) = ends_slice oper"
| "ending (OpAct r p c oper) = ends_slice oper"
| "ending x = False"

fun leaving :: "'a pc \<Rightarrow> bool" where
  "leaving (OpLookup r oper) \<longleftrightarrow> oper = Unregister"
| "leaving (OpLoad r p oper) \<longleftrightarrow> oper = Unregister"
| "leaving (OpAct r p c oper) \<longleftrightarrow> oper = Unregister"
| "leaving (RemoveLoad r) \<longleftrightarrow> True"
| "leaving (RemoveCas r k) \<longleftrightarrow> True"
| "leaving x \<longleftrightarrow> False"

fun in_cleanup :: "'a pc \<Rightarrow> bool" where
  "in_cleanup (CleanLoad lv) = True"
| "in_cleanup (CleanSlot lv m i) = True"
| "in_cleanup (CleanTurn lv m i rg) = True"
| "in_cleanup (CleanClaim lv m) = True"
| "in_cleanup (CleanDrop lv m k) = True"
| "in_cleanup (CleanFree lv m) = True"
| "in_cleanup x = False"

fun rests :: "'a pc \<Rightarrow> bool" where
  "rests (Reader r) = True"
| "rests x = False"

fun has_slice :: "'a pc \<Rightarrow> bool" where
  "has_slice (Reader r) = True"
| "has_slice (Slice r st en) = True"
| "has_slice x = False"

lemma getting_step:
  "pc_step nd x s = (x', s') \<Longrightarrow> getting x \<Longrightarrow>
   s' = s \<and> (getting x' \<or> (\<exists>r st. x' = Slice r st (read_gen s)) \<or> x' = Panicked)"
  by (cases x rule: getting.cases) (auto split: option.splits)

lemma ending_step:
  assumes "pc_step nd x s = (x', s')" and "ending x"
  shows "ending x' \<or> rests x' \<or> x' = Panicked"
proof (cases x)
  case (OpLookup r oper)
  then show ?thesis using assms by (cases oper) (auto split: option.splits)
next
  case (OpLoad r p oper)
  then show ?thesis using assms by auto
next
  case (OpAct r p c oper)
  then show ?thesis using assms by (cases oper) (auto split: if_splits)
qed (use assms in auto)

lemma leaving_step:
  "pc_step nd x s = (x', s') \<Longrightarrow> leaving x \<Longrightarrow> owned x = Some r \<Longrightarrow> get_reader_ptr r s \<noteq> None \<Longrightarrow>
   leaving x' \<or> x' = Idle"
  by (cases x) auto

lemma cleanup_step:
  "pc_step nd x s = (x', s') \<Longrightarrow> in_cleanup x \<Longrightarrow> in_cleanup x' \<or> x' = Idle"
  by (cases x) (auto split: flow.splits prod.splits if_splits claim_range.splits)

section \<open>The position of a reader as a number\<close>

lemma pos_zero: "masked q \<Longrightarrow> pos 0 q = unat q"
proof -
  assume "masked q"
  then show ?thesis by (simp add: pos_def gen_dist_msb_masked_def masked_def strip_id)
qed


lemma reading_masked: "reading g t r q S \<Longrightarrow> masked q"
  by (simp add: reading_def)

lemma reading_le:
  assumes "run_of nd 0 bc rc S" and "reading 0 t r n S"
  shows "unat n \<le> length (log S)"
  using run_ofD(1,3) [OF assms(1)] assms(2) pos_zero [OF reading_masked [OF assms(2)]]
  by (simp add: reading_def order_inv_def)

lemma reading_slice:
  assumes run: "run_of nd 0 bc rc S" and rd: "reading 0 t r n S" and x: "threads S t = Slice r' st en"
  shows "r' = r" and "st = n" and "masked en" and "unat en \<le> length (log S)"
    and "unat (gen_dist_msb_masked en st) = unat en - unat n" and "unat n \<le> unat en"
    and "n + gen_dist_msb_masked en st = en"
    and "slice_contents st en (shared S) = map Init (drop (unat n) (take (unat en) (log S)))"
proof -
  note R = run_ofD [OF run]
  show r: "r' = r" using rd x by (simp add: reading_def)
  have act: "\<not> is_suspended (gen_of r' (shared S))" using rd r by (simp add: reading_def)
  note live = contents_live [OF run x act]
  show st: "st = n" using live(2) rd r x by (simp add: reading_def)
  show en: "masked en" by (rule live(5))
  have n: "masked n" using rd by (rule reading_masked)
  show le: "unat n \<le> unat en" using live(3) st n en by (simp add: pos_zero)
  show "unat en \<le> length (log S)" using live(4) R(1,3) en by (simp add: order_inv_def pos_zero)
  show d: "unat (gen_dist_msb_masked en st) = unat en - unat n"
    using unat_dist_ge [OF live(3)] st n en by (simp add: pos_zero)
  have "unat en < 2 ^ LENGTH(64)" by (rule unsigned_less)
  then have "unat (n + gen_dist_msb_masked en st) = unat en"
    using d le by (subst unat_add_lem [THEN iffD1]) simp_all
  then show "n + gen_dist_msb_masked en st = en" by (simp only: word_unat_eq_iff)
  show "slice_contents st en (shared S) = map Init (drop (unat n) (take (unat en) (log S)))"
    using live(1) st n en by (simp add: pos_zero)
qed

lemma reads_on_with:
  assumes run: "run_of nd 0 bc rc S" and rd: "reading 0 t r n S" and e: "sys_exec nd (t, c) S = Some S'"
    and just: "just_reads t (t, c)"
  obtains q where "reading 0 t r q S'" "unat n \<le> unat q" "unat q \<le> length (log S')"
    "taken t (t, c) S = map Init (drop (unat n) (take (unat q) (log S')))"
proof -
  from reading_exec [OF run rd e just] obtain q where q: "reading 0 t r q S'" "pos 0 n \<le> pos 0 q"
    "pos 0 q \<le> length (log S')" "taken t (t, c) S = map Init (drop (pos 0 n) (take (pos 0 q) (log S')))" by blast
  then show thesis using that [of q] reading_masked [OF rd] reading_masked [OF q(1)] by (simp add: pos_zero)
qed

lemma read_goes_on:
  assumes "run_of nd 0 bc rc S" and "reading 0 t r n S" and "sys_exec nd (t, c) S = Some S'"
    and "just_reads t (t, c)" and c: "c \<noteq> Some (EndSlice True)"
  shows "reading 0 t r n S'"
proof -
  obtain q where q: "reading 0 t r q S'" "unat n \<le> unat q" "unat q \<le> length (log S')"
    "taken t (t, c) S = map Init (drop (unat n) (take (unat q) (log S')))"
    using reads_on_with [OF assms(1-4)] .
  have "taken t (t, c) S = []" using c by (auto simp: taken_def split: option.split call.split bool.split)
  then have "unat q = unat n" using q by simp
  then have "q = n" by (simp only: word_unat_eq_iff)
  then show ?thesis using q(1) by simp
qed

lemma read_is_taken:
  assumes run: "run_of nd 0 bc rc S" and rd: "reading 0 t r n S" and x: "threads S t = Slice r' st en"
    and e: "sys_exec nd (t, Some (EndSlice True)) S = Some S'"
  shows "reading 0 t r en S'"
proof -
  obtain q where q: "reading 0 t r q S'" "unat n \<le> unat q" "unat q \<le> length (log S')"
    "taken t (t, Some (EndSlice True)) S = map Init (drop (unat n) (take (unat q) (log S')))"
    using reads_on_with [OF run rd e] by auto
  note s = reading_slice [OF run rd x]
  have "taken t (t, Some (EndSlice True)) S = slice_contents st en (shared S)" using x by (simp add: taken_def)
  then have "length (slice_contents st en (shared S)) = length (map Init (drop (unat n) (take (unat q) (log S'))))"
    using q(4) by simp
  also have "\<dots> = unat q - unat n" using q(3) by simp
  finally have "length (slice_contents st en (shared S)) = unat q - unat n" .
  then have "unat q = unat en" using s(5,6) q(2) by (simp add: slice_contents_def)
  then have "q = en" by (simp only: word_unat_eq_iff)
  then show ?thesis using q(1) by simp
qed

section \<open>What holds at each point of a reader\<close>

definition complete :: "'a plan \<Rightarrow> 'a sys \<Rightarrow> bool" where
  "complete P S \<longleftrightarrow> length (log S) = n_writers P * messages_per_writer P"

fun listener_at :: "'a plan \<Rightarrow> listener \<Rightarrow> 'a pc \<Rightarrow> 'a pc \<Rightarrow> bool" where
  "listener_at P (Reading n again) x y \<longleftrightarrow> getting x \<and> y = Idle"
| "listener_at P (Took n again) x y \<longleftrightarrow>
     (\<exists>r st en. x = Slice r st en \<and> (again \<longrightarrow> en = total_expected P)) \<and> y = Idle"
| "listener_at P (Holding n) x y \<longleftrightarrow> has_slice x \<and> y = Idle"
| "listener_at P (Cleaning n) x y \<longleftrightarrow> has_slice x \<and> in_cleanup y"
| "listener_at P (Showing n k) x y \<longleftrightarrow> has_slice x \<and> k \<le> unat (slice_size x) \<and> y = Idle"
| "listener_at P (Ending n) x y \<longleftrightarrow> ending x \<and> y = Idle"
| "listener_at P (LastDrop n) x y \<longleftrightarrow> ending x \<and> y = Idle"
| "listener_at P (Leaving n) x y \<longleftrightarrow> leaving x \<and> y = Idle"
| "listener_at P (Gone n) x y \<longleftrightarrow> x = Idle \<and> y = Idle"
| "listener_at P Absent x y \<longleftrightarrow> y = Idle"
| "listener_at P Failed x y \<longleftrightarrow> False"
| "listener_at P l x y \<longleftrightarrow> rests x \<and> y = Idle"

fun count_of :: "listener \<Rightarrow> usize" where
  "count_of (Speaking n) = n"
| "count_of (Looping n) = n"
| "count_of (Reading n again) = n"
| "count_of (Took n again) = n"
| "count_of (Checking n) = n"
| "count_of (Holding n) = n"
| "count_of (Cleaning n) = n"
| "count_of (Showing n k) = n"
| "count_of (Ending n) = n"
| "count_of (LastDrop n) = n"
| "count_of (Counted n) = n"
| "count_of (Leaving n) = n"
| "count_of (Gone n) = n"
| "count_of l = 0"

fun shown_of :: "listener \<Rightarrow> nat" where
  "shown_of (Showing n k) = k"
| "shown_of l = 0"

fun in_loop :: "listener \<Rightarrow> bool" where
  "in_loop Absent = False"
| "in_loop (Counted n) = False"
| "in_loop (Leaving n) = False"
| "in_loop (Gone n) = False"
| "in_loop l = True"

fun is_last :: "listener \<Rightarrow> bool" where
  "is_last (LastDrop n) = True"
| "is_last (Counted n) = True"
| "is_last (Leaving n) = True"
| "is_last (Gone n) = True"
| "is_last l = False"

fun saw_all :: "listener \<Rightarrow> bool" where
  "saw_all (Reading n again) = again"
| "saw_all (Took n again) = again"
| "saw_all l = is_last l"

definition listener_ok :: "'a plan \<Rightarrow> nat \<Rightarrow> listener \<Rightarrow> 'a maybe_uninit list \<Rightarrow> 'a sys \<Rightarrow> bool" where
  "listener_ok P i l hs S \<longleftrightarrow>
     listener_at P l (threads S (reads_on i)) (threads S (cleans_on i)) \<and>
     (in_loop l \<longrightarrow> (\<exists>r. reading 0 (reads_on i) r (count_of l) S)) \<and>
     (saw_all l \<longrightarrow> complete P S) \<and> (is_last l \<longrightarrow> count_of l = total_expected P) \<and>
     (prints P \<longrightarrow> hs = map Init (take (unat (count_of l) + shown_of l) (log S)))"

lemma listener_okD:
  assumes "listener_ok P i l hs S"
  shows "listener_at P l (threads S (reads_on i)) (threads S (cleans_on i))"
    and "in_loop l \<Longrightarrow> \<exists>r. reading 0 (reads_on i) r (count_of l) S"
    and "saw_all l \<Longrightarrow> complete P S" and "is_last l \<Longrightarrow> count_of l = total_expected P"
    and "prints P \<Longrightarrow> hs = map Init (take (unat (count_of l) + shown_of l) (log S))"
  using assms by (auto simp: listener_ok_def)

lemma distinct_threads [simp]:
  "reads_on i = reads_on j \<longleftrightarrow> i = j" "cleans_on i = cleans_on j \<longleftrightarrow> i = j"
  "reads_on i \<noteq> cleans_on j" "cleans_on j \<noteq> reads_on i" "reads_on i \<noteq> writes_on k" "writes_on k \<noteq> reads_on i"
  "cleans_on i \<noteq> writes_on k" "writes_on k \<noteq> cleans_on i"
  "reads_on i \<noteq> 0" "cleans_on i \<noteq> 0" "writes_on k \<noteq> 0"
proof -
  have "reads_on i mod 3 = 1" "cleans_on j mod 3 = 2" "cleans_on i mod 3 = 2" "writes_on k mod 3 = 0"
    by (simp_all add: reads_on_def cleans_on_def writes_on_def mod_simps) presburger+
  then show "reads_on i \<noteq> cleans_on j" "cleans_on j \<noteq> reads_on i" "reads_on i \<noteq> writes_on k" "writes_on k \<noteq> reads_on i"
    "cleans_on i \<noteq> writes_on k" "writes_on k \<noteq> cleans_on i" by (metis zero_neq_one numeral_eq_one_iff zero_neq_numeral semiring_norm(85))+
qed (simp_all add: reads_on_def cleans_on_def writes_on_def)


lemma shown_le:
  assumes run: "run_of nd 0 bc rc S" and ok: "listener_ok P i l hs S"
  shows "unat (count_of l) + shown_of l \<le> length (log S)"
proof (cases "in_loop l")
  case True
  then obtain r where rd: "reading 0 (reads_on i) r (count_of l) S" using listener_okD(2) [OF ok] by blast
  note le = reading_le [OF run rd]
  show ?thesis
  proof (cases "\<exists>n k. l = Showing n k")
    case True
    then obtain n k where l: "l = Showing n k" by blast
    let ?x = "threads S (reads_on i)"
    have x: "has_slice ?x" "k \<le> unat (slice_size ?x)" using listener_okD(1) [OF ok] l by simp_all
    show ?thesis
    proof (cases ?x)
      case (Slice r' st en)
      from reading_slice [OF run rd this] x(2) l Slice show ?thesis by simp
    qed (use x le l in auto)
  next
    case False
    then have "shown_of l = 0" by (cases l) auto
    then show ?thesis using le by simp
  qed
next
  case False
  show ?thesis
  proof (cases "is_last l")
    case True
    have "count_of l = total_expected P" "complete P S"
      using listener_okD(3,4) [OF ok] True by (auto elim: is_last.elims)
    moreover have "unat (total_expected P) \<le> n_writers P * messages_per_writer P"
      by (simp add: total_expected_def unat_of_nat del: of_nat_mult)
    moreover have "shown_of l = 0" using True by (cases l) auto
    ultimately show ?thesis by (simp add: complete_def)
  qed (use False in \<open>cases l; simp\<close>)
qed

lemma listener_ok_later:
  assumes run: "run_of nd 0 bc rc S" and ok: "listener_ok P i l hs S" and e: "sys_exec nd (t, c) S = Some S'"
    and t: "t \<noteq> reads_on i" "t \<noteq> cleans_on i" and len: "length (log S') \<le> n_writers P * messages_per_writer P"
  shows "listener_ok P i l hs S'"
proof -
  obtain ms where ms: "log S' = log S @ ms" using log_grows [OF e] by blast
  have "take (unat (count_of l) + shown_of l) (log S') = take (unat (count_of l) + shown_of l) (log S)"
    using shown_le [OF run ok] ms by simp
  moreover have "complete P S \<Longrightarrow> complete P S'" using ms len by (simp add: complete_def)
  moreover have "\<exists>r. reading 0 (reads_on i) r (count_of l) S'" if "in_loop l"
    using listener_okD(2) [OF ok that] other_keeps_reading [OF run _ e] t(1) by metis
  moreover have "threads S' (reads_on i) = threads S (reads_on i)" "threads S' (cleans_on i) = threads S (cleans_on i)"
    using exec_other [OF e] t by metis+
  ultimately show ?thesis using ok unfolding listener_ok_def by presburger
qed

section \<open>The steps of a reader\<close>

text \<open>A move of one of the two machine threads of a reader that neither reserves nor publishes.\<close>

definition quiet_move :: "'a plan \<Rightarrow> nat \<Rightarrow> 'a sys \<Rightarrow> 'a sys \<Rightarrow> bool" where
  "quiet_move P i S S' \<longleftrightarrow> S' = S \<or>
     (\<exists>t c. (t = reads_on i \<or> t = cleans_on i) \<and> sys_exec (drops P) (t, c) S = Some S' \<and>
        log S' = log S \<and> reserved S' = reserved S)"

lemma cleanup_keeps:
  assumes run: "run_of nd 0 bc rc S" and rd: "reading 0 (reads_on i) r n S" and e: "sys_exec nd (cleans_on i, c) S = Some S'"
  shows "reading 0 (reads_on i) r n S'" and "threads S' (reads_on i) = threads S (reads_on i)"
  using other_keeps_reading [OF run rd e] exec_other [OF e, of "reads_on i"] by auto

lemma reading_not_panicked: "reading g t r q S \<Longrightarrow> threads S t \<noteq> Panicked"
  by (auto simp: reading_def)

lemma complete_read_gen:
  assumes run: "run_of nd 0 bc rc S" and "complete P S"
  shows "read_gen (shared S) = total_expected P"
proof -
  note R = run_ofD [OF run]
  have "masked (read_gen (shared S))" "pos 0 (read_gen (shared S)) = length (log S)"
    using R(1,3) by (auto simp: order_inv_def ord_inv_def)
  then have "unat (read_gen (shared S)) = n_writers P * messages_per_writer P"
    using assms(2) by (simp add: pos_zero complete_def)
  moreover have "of_nat (unat (read_gen (shared S))) = read_gen (shared S)" by simp
  ultimately show ?thesis by (simp add: total_expected_def)
qed


definition stands :: "'a plan \<Rightarrow> nat \<Rightarrow> usize \<Rightarrow> 'a maybe_uninit list \<Rightarrow> 'a sys \<Rightarrow> bool" where
  "stands P i n hs S \<longleftrightarrow> (\<exists>r. reading 0 (reads_on i) r n S) \<and>
     (prints P \<longrightarrow> hs = map Init (take (unat n) (log S)))"

lemma listener_ok_stands:
  "in_loop l \<Longrightarrow> shown_of l = 0 \<Longrightarrow>
   listener_ok P i l hs S \<longleftrightarrow> listener_at P l (threads S (reads_on i)) (threads S (cleans_on i)) \<and>
     stands P i (count_of l) hs S \<and> (saw_all l \<longrightarrow> complete P S) \<and> (is_last l \<longrightarrow> count_of l = total_expected P)"
  by (auto simp: listener_ok_def stands_def)

lemma quiet_readI:
  assumes run: "run_of (drops P) 0 bc rc S" and st: "stands P i n hs S"
    and e: "sys_exec (drops P) (reads_on i, c) S = Some S'" and just: "just_reads (reads_on i) (reads_on i, c)"
  shows "quiet_move P i S S'" and "threads S' (cleans_on i) = threads S (cleans_on i)"
    and "c \<noteq> Some (EndSlice True) \<Longrightarrow> stands P i n hs S'" and "threads S' (reads_on i) \<noteq> Panicked"
    and "log S' = log S"
proof -
  obtain r where rd: "reading 0 (reads_on i) r n S" using st by (auto simp: stands_def)
  have q: "log S' = log S \<and> reserved S' = reserved S"
  proof (cases c)
    case None
    have "\<And>be n cf cw. threads S (reads_on i) \<noteq> ReserveGrab be n cf cw" using rd by (auto simp: reading_def)
    with quiet_none [OF e [unfolded None]] show ?thesis by blast
  next
    case (Some d)
    have "d \<noteq> Publish"
    proof
      assume "d = Publish"
      with e Some obtain x' s' where "call_step Publish (threads S (reads_on i)) (shared S) = Some (x', s')"
        by (auto elim!: exec_callE)
      then show False by (cases rule: call_step_cases) (use rd in \<open>auto simp: reading_def\<close>)
    qed
    then show ?thesis using quiet_call [OF e [unfolded Some]] by blast
  qed
  then show "quiet_move P i S S'" "log S' = log S" using e by (auto simp: quiet_move_def)
  show "threads S' (cleans_on i) = threads S (cleans_on i)" using exec_other [OF e, of "cleans_on i"] by simp
  show "stands P i n hs S'" if "c \<noteq> Some (EndSlice True)"
    using read_goes_on [OF run rd e just that] st q by (auto simp: stands_def)
  obtain q where "reading 0 (reads_on i) r q S'" using reads_on_with [OF run rd e just] .
  then show "threads S' (reads_on i) \<noteq> Panicked" by (rule reading_not_panicked)
qed

lemma call_get:
  assumes "sys_exec nd (t, Some (Operate GetGen)) S = Some S'"
  shows "getting (threads S' t)"
  using assms by (auto elim!: exec_callE call_step_cases)

lemma call_end:
  assumes "sys_exec nd (t, Some (EndSlice b)) S = Some S'"
  shows "if b then ending (threads S' t) else rests (threads S' t)"
  using assms by (auto elim!: exec_callE call_step_cases)

lemma end_stands:
  assumes run: "run_of (drops P) 0 bc rc S" and rd: "reading 0 (reads_on i) r n S"
    and x: "threads S (reads_on i) = Slice r' st en"
    and e: "sys_exec (drops P) (reads_on i, Some (EndSlice True)) S = Some S'"
    and hs: "prints P \<longrightarrow> hs = map Init (take (unat en) (log S))"
  shows "stands P i en hs S'" and "n + slice_size (threads S (reads_on i)) = en"
proof -
  have st: "stands P i n (map Init (take (unat n) (log S))) S" using rd by (auto simp: stands_def)
  show "stands P i en hs S'"
    using read_is_taken [OF run rd x e] hs quiet_readI(5) [OF run st e] by (auto simp: stands_def)
  show "n + slice_size (threads S (reads_on i)) = en" using reading_slice [OF run rd x] x by simp
qed

text \<open>A reader's thread moves on: it stays where its point says, and it does not panic.\<close>

definition moves_on :: "'a plan \<Rightarrow> nat \<Rightarrow> 'a maybe_uninit list \<Rightarrow> 'a sys \<Rightarrow> listener \<times> 'a maybe_uninit list \<times> 'a sys \<Rightarrow> bool" where
  "moves_on P i hs S = (\<lambda>(l', ms, S'). quiet_move P i S S' \<and> listener_ok P i l' (hs @ ms) S')"

lemma looping_moves:
  assumes run: "run_of (drops P) 0 bc rc S" and ok: "listener_ok P i (Looping n) hs S"
    and op: "listener_op P i w (Looping n) S = Some res"
  shows "moves_on P i hs S res"
proof -
  obtain S' where e: "sys_exec (drops P) (reads_on i, Some (Operate GetGen)) S = Some S'"
    and res: "res = (Reading n False, [], S')" using op by auto
  have st: "stands P i n hs S" using ok by (simp add: listener_ok_stands)
  note q = quiet_readI [OF run st e]
  show ?thesis using q call_get [OF e] ok by (simp add: res moves_on_def listener_ok_stands)
qed

lemma checking_moves:
  assumes run: "run_of (drops P) 0 bc rc S" and ok: "listener_ok P i (Checking n) hs S" and w: "w = 0 \<Longrightarrow> complete P S"
    and op: "listener_op P i w (Checking n) S = Some res"
  shows "moves_on P i hs S res"
proof (cases "w = 0")
  case True
  then obtain S' where e: "sys_exec (drops P) (reads_on i, Some (Operate GetGen)) S = Some S'"
    and res: "res = (Reading n True, [], S')" using op by auto
  have st: "stands P i n hs S" using ok by (simp add: listener_ok_stands)
  note q = quiet_readI [OF run st e]
  show ?thesis using q call_get [OF e] ok w True by (simp add: res moves_on_def listener_ok_stands complete_def)
next
  case False
  have "rests x \<Longrightarrow> has_slice x" for x :: "'a pc" by (cases x) auto
  then show ?thesis using False op ok by (auto simp: moves_on_def listener_ok_stands quiet_move_def)
qed

lemma reading_moves:
  assumes run: "run_of (drops P) 0 bc rc S" and ok: "listener_ok P i (Reading n again) hs S"
    and op: "listener_op P i w (Reading n again) S = Some res"
  shows "moves_on P i hs S res"
proof -
  let ?x = "threads S (reads_on i)"
  obtain S' where e: "sys_exec (drops P) (reads_on i, None) S = Some S'"
    and res: "res = (case threads S' (reads_on i) of
         Slice r st en \<Rightarrow> Took n again | Panicked \<Rightarrow> Failed | _ \<Rightarrow> Reading n again, [], S')" using op by auto
  have st: "stands P i n hs S" using ok by (simp add: listener_ok_stands)
  note q = quiet_readI [OF run st e]
  have x: "getting ?x" using ok by (simp add: listener_ok_stands)
  have "pc_step (drops P) ?x (shared S) = (threads S' (reads_on i), shared S')" using exec_none [OF e] by simp
  from getting_step [OF this x] q(4)
  consider "getting (threads S' (reads_on i))" | r st where "threads S' (reads_on i) = Slice r st (read_gen (shared S))" by auto
  then show ?thesis
  proof cases
    case 1
    then have "res = (Reading n again, [], S')" unfolding res by (auto elim!: getting.elims)
    then show ?thesis using q 1 ok by (simp add: moves_on_def listener_ok_stands complete_def)
  next
    case 2
    then have r: "res = (Took n again, [], S')" unfolding res by simp
    have "again \<Longrightarrow> read_gen (shared S) = total_expected P"
      using ok by (intro complete_read_gen [OF run]) (simp add: listener_ok_stands)
    then show ?thesis using q 2 ok by (simp add: r moves_on_def listener_ok_stands complete_def)
  qed
qed


lemma took_moves:
  assumes run: "run_of (drops P) 0 bc rc S" and ok: "listener_ok P i (Took n again) hs S"
    and op: "listener_op P i w (Took n again) S = Some res"
  shows "moves_on P i hs S res"
proof (cases "\<not> checks P \<or> slice_size (threads S (reads_on i)) \<noteq> 0")
  case True
  then show ?thesis using op ok by (auto simp: moves_on_def listener_ok_stands quiet_move_def)
next
  case False
  then obtain S' where e: "sys_exec (drops P) (reads_on i, Some (EndSlice again)) S = Some S'"
    and res: "res = (if again then LastDrop n else Checking n, [], S')" using op by auto
  obtain r' st en where x: "threads S (reads_on i) = Slice r' st en" "again \<longrightarrow> en = total_expected P"
    using ok by (auto simp: listener_ok_stands)
  have stn: "stands P i n hs S" using ok by (simp add: listener_ok_stands)
  then obtain r where rd: "reading 0 (reads_on i) r n S" by (auto simp: stands_def)
  have en: "en = n" using reading_slice(7) [OF run rd x(1)] False x by simp
  note q = quiet_readI [OF run stn e]
  show ?thesis
  proof (cases again)
    case True
    then have "sys_exec (drops P) (reads_on i, Some (EndSlice True)) S = Some S'" using e by simp
    from end_stands(1) [OF run rd x(1) this] have "stands P i n hs S'" using stn en by (auto simp: stands_def)
    then show ?thesis using q call_end [OF e] ok True en x by (simp add: res moves_on_def listener_ok_stands complete_def)
  next
    case False
    then show ?thesis using q call_end [OF e] ok by (simp add: res moves_on_def listener_ok_stands)
  qed
qed

lemma cleaner_move:
  assumes run: "run_of (drops P) 0 bc rc S" and st: "stands P i n hs S"
    and e: "sys_exec (drops P) (cleans_on i, c) S = Some S'"
    and c: "c = Some Cleanup \<or> c = None \<and> in_cleanup (threads S (cleans_on i))"
  shows "quiet_move P i S S'" and "stands P i n hs S'" and "threads S' (reads_on i) = threads S (reads_on i)"
    and "c = Some Cleanup \<Longrightarrow> in_cleanup (threads S' (cleans_on i))"
    and "c = None \<Longrightarrow> in_cleanup (threads S' (cleans_on i)) \<or> threads S' (cleans_on i) = Idle"
proof -
  obtain r where rd: "reading 0 (reads_on i) r n S" using st by (auto simp: stands_def)
  have q: "log S' = log S \<and> reserved S' = reserved S"
    using c
  proof
    assume "c = Some Cleanup"
    with quiet_call [of "drops P" "cleans_on i" Cleanup S S'] e show ?thesis by simp
  next
    assume d: "c = None \<and> in_cleanup (threads S (cleans_on i))"
    then have "\<And>be n cf cw. threads S (cleans_on i) \<noteq> ReserveGrab be n cf cw" by auto
    with quiet_none [of "drops P" "cleans_on i" S S'] e d show ?thesis by blast
  qed
  then show "quiet_move P i S S'" using e by (auto simp: quiet_move_def)
  show "stands P i n hs S'" using st q cleanup_keeps(1) [OF run _ e] by (auto simp: stands_def)
  show "threads S' (reads_on i) = threads S (reads_on i)" by (rule cleanup_keeps(2) [OF run rd e])
  show "in_cleanup (threads S' (cleans_on i))" if "c = Some Cleanup"
    using e that by (auto elim!: exec_callE call_step_cases)
  show "in_cleanup (threads S' (cleans_on i)) \<or> threads S' (cleans_on i) = Idle" if "c = None"
    using cleanup_step [of "drops P" "threads S (cleans_on i)" "shared S"] exec_none(1,2) [OF e [unfolded that]] c that
    by (metis prod.collapse option.distinct(1))
qed

lemma holding_moves:
  assumes run: "run_of (drops P) 0 bc rc S" and ok: "listener_ok P i (Holding n) hs S"
    and op: "listener_op P i w (Holding n) S = Some res"
  shows "moves_on P i hs S res"
proof -
  obtain S' where e: "sys_exec (drops P) (cleans_on i, Some Cleanup) S = Some S'" and res: "res = (Cleaning n, [], S')"
    using op by auto
  have st: "stands P i n hs S" using ok by (simp add: listener_ok_stands)
  from cleaner_move [OF run st e] ok show ?thesis by (simp add: res moves_on_def listener_ok_stands)
qed

lemma cleaning_moves:
  assumes run: "run_of (drops P) 0 bc rc S" and ok: "listener_ok P i (Cleaning n) hs S"
    and op: "listener_op P i w (Cleaning n) S = Some res"
  shows "moves_on P i hs S res"
proof -
  let ?y = "\<lambda>S. threads S (cleans_on i)"
  obtain S' where e: "sys_exec (drops P) (cleans_on i, None) S = Some S'"
    and res: "res = (case ?y S' of Idle \<Rightarrow> Showing n 0 | Panicked \<Rightarrow> Failed | _ \<Rightarrow> Cleaning n, [], S')" using op by auto
  have st: "stands P i n hs S" and y: "in_cleanup (?y S)" and x: "has_slice (threads S (reads_on i))"
    using ok by (simp_all add: listener_ok_stands)
  have "None = Some Cleanup \<or> None = (None :: 'a call option) \<and> in_cleanup (?y S)" using y by simp
  note q = cleaner_move [OF run st e this]
  from q(5) [OF refl] show ?thesis
  proof
    assume y': "in_cleanup (?y S')"
    then have "res = (Cleaning n, [], S')" unfolding res by (auto elim!: in_cleanup.elims)
    then show ?thesis using q x y' by (simp add: moves_on_def listener_ok_stands)
  next
    assume "?y S' = Idle"
    then show ?thesis using q x unfolding res by (simp add: moves_on_def listener_ok_def stands_def)
  qed
qed


lemma showing_moves:
  assumes run: "run_of (drops P) 0 bc rc S" and ok: "listener_ok P i (Showing n k) hs S"
    and op: "listener_op P i w (Showing n k) S = Some res"
  shows "moves_on P i hs S res"
proof -
  let ?x = "threads S (reads_on i)"
  obtain r where rd: "reading 0 (reads_on i) r n S" using listener_okD(2) [OF ok] by auto
  have x: "has_slice ?x" "k \<le> unat (slice_size ?x)" "threads S (cleans_on i) = Idle"
    using listener_okD(1) [OF ok] by simp_all
  have hs: "prints P \<Longrightarrow> hs = map Init (take (unat n + k) (log S))" using listener_okD(5) [OF ok] by simp
  show ?thesis
  proof (cases ?x)
    case (Slice r' st en)
    note s = reading_slice [OF run rd Slice]
    show ?thesis
    proof (cases "prints P \<and> k < unat (slice_size ?x)")
      case True
      then have res: "res = (Showing n (Suc k), [get_slot (place_of ?x k) (shared S)], S)" using op by (auto simp: Let_def)
      have k: "k < unat en - unat n" using True Slice s(5) by simp
      have "get_slot (place_of ?x k) (shared S) = slice_contents st en (shared S) ! k"
        using k s(5) by (simp add: Slice slice_contents_def)
      also have "\<dots> = Init (log S ! (unat n + k))" using k s(4) by (simp add: s(8) nth_append)
      finally have g: "get_slot (place_of ?x k) (shared S) = Init (log S ! (unat n + k))" .
      have "unat n + k < length (log S)" using k s(4) by simp
      then have "hs @ [Init (log S ! (unat n + k))] = map Init (take (unat n + Suc k) (log S))"
        using hs True by (simp add: take_Suc_conv_app_nth)
      then show ?thesis using rd x True by (auto simp: res g moves_on_def quiet_move_def listener_ok_def)
    next
      case False
      then obtain S' where e: "sys_exec (drops P) (reads_on i, Some (EndSlice True)) S = Some S'"
        and res: "res = (Ending (n + slice_size ?x), [], S')" using op Slice by (auto simp: Let_def)
      have "unat n + k = unat en" if "prints P" using False that x(2) s(5,6) Slice by simp
      then have "prints P \<longrightarrow> hs = map Init (take (unat en) (log S))" using hs by simp
      note st = end_stands [OF run rd Slice e this]
      have stn: "stands P i n (map Init (take (unat n) (log S))) S" using rd by (auto simp: stands_def)
      from quiet_readI [OF run stn e] show ?thesis
        using st call_end [OF e] x(3) by (simp add: res moves_on_def listener_ok_stands)
    qed
  next
    case (Reader r')
    then have "res = (Looping n, [], S)" "k = 0" using op x(2) by (auto simp: Let_def)
    then show ?thesis using rd Reader x(3) hs by (auto simp: moves_on_def quiet_move_def listener_ok_stands stands_def)
  qed (use x in auto)
qed

lemma dropping_moves:
  assumes run: "run_of (drops P) 0 bc rc S" and st: "stands P i n hs S" and x: "ending (threads S (reads_on i))"
    and y: "threads S (cleans_on i) = Idle" and e: "sys_exec (drops P) (reads_on i, None) S = Some S'"
  shows "quiet_move P i S S'" and "stands P i n hs S'" and "threads S' (cleans_on i) = Idle" and "log S' = log S"
    and "ending (threads S' (reads_on i)) \<or> rests (threads S' (reads_on i))"
proof -
  note q = quiet_readI [OF run st e]
  show "quiet_move P i S S'" "stands P i n hs S'" "threads S' (cleans_on i) = Idle" "log S' = log S"
    using q y by simp_all
  have "pc_step (drops P) (threads S (reads_on i)) (shared S) = (threads S' (reads_on i), shared S')"
    using exec_none [OF e] by simp
  from ending_step [OF this x] q(4)
  show "ending (threads S' (reads_on i)) \<or> rests (threads S' (reads_on i))" by simp
qed

lemma ending_moves:
  assumes run: "run_of (drops P) 0 bc rc S" and ok: "listener_ok P i (Ending n) hs S"
    and op: "listener_op P i w (Ending n) S = Some res"
  shows "moves_on P i hs S res"
proof -
  let ?x = "\<lambda>S. threads S (reads_on i)"
  obtain S' where e: "sys_exec (drops P) (reads_on i, None) S = Some S'"
    and res: "res = (case ?x S' of Reader r \<Rightarrow> Looping n | Panicked \<Rightarrow> Failed | _ \<Rightarrow> Ending n, [], S')" using op by auto
  have "stands P i n hs S" "ending (?x S)" "threads S (cleans_on i) = Idle" using ok by (simp_all add: listener_ok_stands)
  note q = dropping_moves [OF run this e]
  from q(5) show ?thesis
  proof
    assume x: "ending (?x S')"
    then have "res = (Ending n, [], S')" unfolding res by (auto elim!: ending.elims)
    then show ?thesis using q x by (simp add: moves_on_def listener_ok_stands)
  next
    assume x: "rests (?x S')"
    then have "res = (Looping n, [], S')" unfolding res by (auto elim!: rests.elims)
    then show ?thesis using q x by (simp add: moves_on_def listener_ok_stands)
  qed
qed

lemma last_drop_moves:
  assumes run: "run_of (drops P) 0 bc rc S" and ok: "listener_ok P i (LastDrop n) hs S"
    and op: "listener_op P i w (LastDrop n) S = Some res"
  shows "moves_on P i hs S res"
proof -
  let ?x = "\<lambda>S. threads S (reads_on i)"
  obtain S' where e: "sys_exec (drops P) (reads_on i, None) S = Some S'"
    and res: "res = (case ?x S' of Reader r \<Rightarrow> Counted n | Panicked \<Rightarrow> Failed | _ \<Rightarrow> LastDrop n, [], S')" using op by auto
  have "stands P i n hs S" "ending (?x S)" "threads S (cleans_on i) = Idle" and last: "complete P S" "n = total_expected P"
    using ok by (auto simp: listener_ok_stands)
  note q = dropping_moves [OF run this(1-3) e]
  from q(5) show ?thesis
  proof
    assume x: "ending (?x S')"
    then have "res = (LastDrop n, [], S')" unfolding res by (auto elim!: ending.elims)
    then show ?thesis using q x last by (simp add: moves_on_def listener_ok_stands complete_def)
  next
    assume x: "rests (?x S')"
    then have "res = (Counted n, [], S')" unfolding res by (auto elim!: rests.elims)
    then show ?thesis using q x last by (simp add: moves_on_def listener_ok_def stands_def complete_def)
  qed
qed

lemma counted_moves:
  assumes ok: "listener_ok P i (Counted n) hs S" and op: "listener_op P i w (Counted n) S = Some res"
  shows "moves_on P i hs S res"
proof -
  have n: "n = total_expected P" "complete P S" using listener_okD(3,4) [OF ok] by simp_all
  then obtain S' where e: "sys_exec (drops P) (reads_on i, Some (Operate Unregister)) S = Some S'"
    and res: "res = (Leaving n, [], S')" using op by auto
  have "leaving (threads S' (reads_on i))" using e by (auto elim!: exec_callE call_step_cases)
  moreover have "threads S' (cleans_on i) = threads S (cleans_on i)" using exec_other [OF e, of "cleans_on i"] by simp
  moreover have "log S' = log S \<and> reserved S' = reserved S" using quiet_call [OF e] by simp
  ultimately show ?thesis using ok e by (auto simp: res moves_on_def listener_ok_def quiet_move_def complete_def)
qed

lemma leaving_exec:
  assumes run: "run_of nd g bc rc S" and x: "leaving (threads S t)" and e: "sys_exec nd (t, None) S = Some S'"
  shows "leaving (threads S' t) \<or> threads S' t = Idle" and "log S' = log S \<and> reserved S' = reserved S"
proof -
  obtain r where own: "owned (threads S t) = Some r" using x by (cases "threads S t") auto
  then have "holds r (shared S)" using run_ofD(4) [OF run] by (auto simp: own_inv_def)
  then have "get_reader_ptr r (shared S) \<noteq> None" by (simp add: get_reader_ptr_find find_id_Some holds_def slot_of_def)
  from leaving_step [OF _ x own this] exec_none(1) [OF e]
  show "leaving (threads S' t) \<or> threads S' t = Idle" by (metis prod.collapse)
  have "\<And>be n cf cw. threads S t \<noteq> ReserveGrab be n cf cw" using x by auto
  then show "log S' = log S \<and> reserved S' = reserved S" using quiet_none [OF e] by blast
qed

lemma leaving_moves:
  assumes run: "run_of (drops P) 0 bc rc S" and ok: "listener_ok P i (Leaving n) hs S"
    and op: "listener_op P i w (Leaving n) S = Some res"
  shows "moves_on P i hs S res"
proof -
  let ?x = "\<lambda>S. threads S (reads_on i)"
  obtain S' where e: "sys_exec (drops P) (reads_on i, None) S = Some S'"
    and res: "res = (case ?x S' of Idle \<Rightarrow> Gone n | _ \<Rightarrow> Leaving n, [], S')" using op by auto
  have x: "leaving (?x S)" using listener_okD(1) [OF ok] by simp
  note l = leaving_exec [OF run x e]
  have "threads S' (cleans_on i) = threads S (cleans_on i)" using exec_other [OF e, of "cleans_on i"] by simp
  moreover have "res = (if ?x S' = Idle then Gone n else Leaving n, [], S')" unfolding res by (simp split: pc.split)
  ultimately show ?thesis using l ok e by (auto simp: moves_on_def listener_ok_def quiet_move_def complete_def)
qed

lemma listener_moves_on:
  assumes "run_of (drops P) 0 bc rc S" and "listener_ok P i l hs S" and "\<And>n. l = Checking n \<Longrightarrow> w = 0 \<Longrightarrow> complete P S"
    and "listener_op P i w l S = Some res"
  shows "moves_on P i hs S res"
proof (cases l)
  case (Looping n)
  with assms looping_moves show ?thesis by blast
next
  case (Reading n again)
  with assms reading_moves show ?thesis by blast
next
  case (Took n again)
  with assms took_moves show ?thesis by blast
next
  case (Checking n)
  with assms checking_moves show ?thesis by blast
next
  case (Holding n)
  with assms holding_moves show ?thesis by blast
next
  case (Cleaning n)
  with assms cleaning_moves show ?thesis by blast
next
  case (Showing n k)
  with assms showing_moves show ?thesis by blast
next
  case (Ending n)
  with assms ending_moves show ?thesis by blast
next
  case (LastDrop n)
  with assms last_drop_moves show ?thesis by blast
next
  case (Counted n)
  with assms counted_moves show ?thesis by blast
next
  case (Leaving n)
  with assms leaving_moves show ?thesis by blast
qed (use assms(4) in simp_all)

end
