(* ===== verification/Example_Opening.thy ===== *)
theory Example_Opening
  imports Example_Readers
begin

text \<open>
  The start of the example programs: as many slots of the table are taken as readers were
  registered, so that no registration fails, and the first reader is active when it is suspended.
  \<open>world_ok\<close> joins what holds of \<open>main\<close>, of the writers and of the readers.
\<close>

section \<open>The keys of the table\<close>

definition full :: "'a area \<Rightarrow> nat set" where
  "full s = {i. i < length (slots (reader_gens s)) \<and> key (slots (reader_gens s) ! i) \<noteq> EMPTY}"

text \<open>The steps that write no key.\<close>

fun writes_key :: "'a pc \<Rightarrow> bool" where
  "writes_key (ProbeCas ky i idx k) = True"
| "writes_key (Finish r p) = True"
| "writes_key (RemoveCas r k) = True"
| "writes_key x = False"

definition same_keys :: "'a area \<Rightarrow> 'a area \<Rightarrow> bool" where
  "same_keys s s' \<longleftrightarrow> mask_of (reader_gens s') = mask_of (reader_gens s) \<and>
     map key (slots (reader_gens s')) = map key (slots (reader_gens s))"

lemma same_keys_refl [simp]: "same_keys s s"
  by (simp add: same_keys_def)

lemma same_keys_table: "reader_gens s' = reader_gens s \<Longrightarrow> same_keys s s'"
  by (simp add: same_keys_def)

lemma same_keys_store [simp]: "same_keys s (store_gen p v s)"
  by (cases "unat p < length (slots (reader_gens s))")
    (simp_all add: same_keys_def store_gen_def store_cell_def slot_at_def map_update list_update_beyond,
     simp add: list_update_same_conv)

lemma pc_step_keys:
  assumes "\<not> writes_key x"
  shows "same_keys s (snd (pc_step nd x s))"
proof (cases x)
  case (ReserveGrab be n cf cw)
  obtain x' s' where r: "pc_step nd (ReserveGrab be n cf cw) s = (x', s')" by (metis surj_pair)
  then have "reader_gens s' = reader_gens s"
    by (cases rule: reserve_grab_cases) (auto simp: grab_Cas split: if_splits)
  with r ReserveGrab show ?thesis by (simp add: same_keys_table)
next
  case (OpAct r p c oper)
  then show ?thesis
    by (cases oper; cases rule: cas_gen_cases [of p s c "c AND NOT SUSPENDED_BIT"])
      (auto simp: set_gen_from_def suspend_from_def resume_turn_def resume_at_turn_def cas_gen_def
        split: sum.splits prod.splits)
qed (use assms in \<open>auto simp: scan_turn_def cas_gen_def compare_exchange_def claim_turn_def free_turn_def
    drop_slot_def enter_turn_def Let_def same_keys_table
    split: option.splits reader_op.splits sum.splits if_splits\<close>)

lemma call_step_table: "call_step c x s = Some (x', s') \<Longrightarrow> reader_gens s' = reader_gens s"
  by (erule call_step_cases) (simp_all add: write_slot_def publish_frame)

lemma exec_keys:
  assumes "sys_exec nd (t, c) S = Some S'" and "\<not> writes_key (threads S t)"
  shows "same_keys (shared S) (shared S')"
  using assms(1)
proof (cases rule: sys_execE)
  case (1 x' s')
  then show ?thesis using pc_step_keys [OF assms(2), of "shared S" nd] call_step_table same_keys_table by fastforce
qed

lemma same_keysD:
  assumes "same_keys s s'"
  shows "full s' = full s" and "length (slots (reader_gens s')) = length (slots (reader_gens s))"
    and "mask_of (reader_gens s') = mask_of (reader_gens s)" and "capacity (reader_gens s') = capacity (reader_gens s)"
proof -
  have m: "map key (slots (reader_gens s')) = map key (slots (reader_gens s))" using assms by (simp add: same_keys_def)
  show l: "length (slots (reader_gens s')) = length (slots (reader_gens s))"
    using m by (rule map_eq_imp_length_eq)
  have "key (slots (reader_gens s') ! i) = key (slots (reader_gens s) ! i)" if "i < length (slots (reader_gens s))" for i
    using arg_cong [OF m, of "\<lambda>ks. ks ! i"] that l by simp
  with l show "full s' = full s" by (auto simp: full_def)
  show "mask_of (reader_gens s') = mask_of (reader_gens s)" "capacity (reader_gens s') = capacity (reader_gens s)"
    using assms by (simp_all add: same_keys_def capacity_def)
qed

section \<open>A registration\<close>

text \<open>\<open>K\<close> slots were taken before.\<close>

definition probed :: "gen \<Rightarrow> usize \<Rightarrow> 'a area \<Rightarrow> bool" where
  "probed ky i s \<longleftrightarrow> (\<forall>j < unat i. unat ((ky + of_nat j) AND mask_of (reader_gens s)) \<in> full s)"

fun enrol_at :: "nat \<Rightarrow> 'a pc \<Rightarrow> 'a area \<Rightarrow> bool" where
  "enrol_at K (Probe ky i idx) s \<longleftrightarrow> card (full s) = K \<and> unat i \<le> length (slots (reader_gens s)) \<and> probed ky i s"
| "enrol_at K (ProbeCas ky i idx k) s \<longleftrightarrow> card (full s) = K \<and> probed ky i s \<and> (k \<noteq> EMPTY \<longrightarrow> unat idx \<in> full s)"
| "enrol_at K (Finish r p) s \<longleftrightarrow> card (full s) = Suc K"
| "enrol_at K (EnterLoad r p) s \<longleftrightarrow> card (full s) = Suc K"
| "enrol_at K (EnterCas r p c) s \<longleftrightarrow> card (full s) = Suc K"
| "enrol_at K x s \<longleftrightarrow> False"

lemma enrol_at_same: "enrol_at K x s \<Longrightarrow> same_keys s s' \<Longrightarrow> enrol_at K x s'"
  by (cases x) (simp_all add: same_keysD probed_def)

lemma full_store:
  "unat p < length (slots (reader_gens s)) \<Longrightarrow> k \<noteq> EMPTY \<Longrightarrow>
   full (s\<lparr>reader_gens := store_key p k (reader_gens s)\<rparr>) = insert (unat p) (full s)"
  by (auto simp: full_def slot_store_key)

lemma full_load: "unat p < length (slots (reader_gens s)) \<Longrightarrow> unat p \<in> full s \<longleftrightarrow> load_key p (reader_gens s) \<noteq> EMPTY"
  by (simp add: full_def load_key_def slot_at_def)

lemma finite_full [simp]: "finite (full s)"
  by (simp add: full_def)

lemma enrol_probe_cas:
  assumes pre: "own_pre (ProbeCas ky i idx k) s" and at: "enrol_at K (ProbeCas ky i idx k) s"
    and step: "pc_step nd (ProbeCas ky i idx k) s = (x', s')"
  shows "enrol_at K x' s'"
proof -
  let ?m = "reader_gens s"
  have loc: "id_ok ky" "idx = (ky + i) AND mask_of ?m" "unat i < length (slots ?m)" and inv: "map_inv ?m"
    using pre by (auto simp: own_pre_def reg_inv_def)
  have wf: "map_wf ?m" using inv by (simp add: map_inv_def)
  have less: "unat idx < length (slots ?m)" unfolding loc by (rule index_less [OF wf])
  show ?thesis
  proof (cases "k = EMPTY \<and> load_key idx ?m = EMPTY")
    case True
    let ?k = "fold_key ky 0 i (mask_of ?m)"
    have "pc_step nd (ProbeCas ky i idx k) s = (Finish (key_bits ?k) idx, s\<lparr>reader_gens := store_key idx ?k ?m\<rparr>)"
      using True by (simp add: goi_turn_def value_ptr_def Let_def)
    moreover have "unat idx \<notin> full s" using True full_load [OF less] by simp
    ultimately show ?thesis using step at full_store [OF less] by auto
  next
    case False
    then have p: "pc_step nd (ProbeCas ky i idx k) s = (Probe ky (i + 1) (next_index idx ?m), s)"
      by (auto simp: goi_turn_def Let_def compare_exchange_def)
    have idx: "unat idx \<in> full s" using False at full_load [OF less] by auto
    have "unat (i + 1) = Suc (unat i)" using loc(3) length_bound [OF inv] by (simp add: unat_word_ariths)
    then have "probed ky (i + 1) s" using at idx loc(2) by (auto simp: probed_def less_Suc_eq)
    then show ?thesis using step p at loc(3) \<open>unat (i + 1) = Suc (unat i)\<close> by auto
  qed
qed

lemma all_probed:
  assumes "map_inv (reader_gens s)" and "probed ky i s" and "unat i = length (slots (reader_gens s))"
  shows "card (full s) = length (slots (reader_gens s))"
proof -
  have wf: "map_wf (reader_gens s)" using assms(1) by (simp add: map_inv_def)
  have "q \<in> full s" if q: "q < length (slots (reader_gens s))" for q
  proof -
    obtain j where "j < length (slots (reader_gens s))" "unat ((ky + of_nat j) AND mask_of (reader_gens s)) = q"
      using probe_covers [OF wf q] by blast
    then show ?thesis using assms(2,3) unfolding probed_def by metis
  qed
  then have "full s = {..<length (slots (reader_gens s))}" unfolding full_def by blast
  then show ?thesis by simp
qed

lemma enrol_probe:
  assumes pre: "own_pre (Probe ky i idx) s" and at: "enrol_at K (Probe ky i idx) s"
    and K: "K < length (slots (reader_gens s))" and step: "pc_step nd (Probe ky i idx) s = (x', s')"
  shows "enrol_at K x' s'"
proof -
  have loc: "idx = (ky + i) AND mask_of (reader_gens s)" and inv: "map_inv (reader_gens s)"
    using pre by (auto simp: own_pre_def reg_inv_def)
  have wf: "map_wf (reader_gens s)" using inv by (simp add: map_inv_def)
  have cap: "unat (capacity (reader_gens s)) = length (slots (reader_gens s))" using length_slots [OF wf] by simp
  have "i < capacity (reader_gens s)"
  proof (rule ccontr)
    assume "\<not> i < capacity (reader_gens s)"
    then have "unat i = length (slots (reader_gens s))" using at cap by (simp add: word_le_nat_alt not_less)
    from all_probed [OF inv _ this, of ky] show False using at K by auto
  qed
  moreover have "unat idx < length (slots (reader_gens s))" unfolding loc by (rule index_less [OF wf])
  note full_load [OF this]
  ultimately show ?thesis using step at by (simp del: key_simps) (auto simp del: key_simps)
qed

lemma enrol_finish:
  assumes pre: "own_pre (Finish r p) s" and at: "enrol_at K (Finish r p) s"
    and step: "pc_step nd (Finish r p) s = (x', s')"
  shows "enrol_at K x' s'"
proof -
  let ?m = "reader_gens s"
  have h: "holds r s" and p: "p = slot_of r s" and inv: "map_inv ?m" using pre by (auto simp: own_pre_def reg_inv_def)
  have less: "unat p < length (slots ?m)" unfolding p using inv by (rule slot_less)
  have r: "r \<noteq> 0" "key_bits (load_key p ?m) = r" using h by (simp_all add: holds_def p)
  then have "load_key p ?m \<noteq> 0" by (metis key_bits_EMPTY)
  then have "insert (unat p) (full s) = full s" using full_load [OF less] by (simp add: insert_absorb)
  moreover have "finish_init_at p ?m = store_key p r ?m \<or> finish_init_at p ?m = ?m" using r(2) by (simp add: finish_init_at_eq)
  moreover have s': "x' = EnterLoad r p" "s' = s\<lparr>reader_gens := finish_init_at p ?m\<rparr>" using step by simp_all
  ultimately have "full s' = full s"
    using full_store [OF less, of r] r(1) by (elim disjE) (simp_all add: full_def)
  then show ?thesis using s'(1) at by simp
qed

lemma enrol_step:
  assumes pre: "own_pre x s" and at: "enrol_at K x s" and K: "K < length (slots (reader_gens s))"
    and step: "pc_step nd x s = (x', s')"
  shows "enrol_at K x' s' \<or> (rests x' \<and> card (full s') = Suc K)"
proof (cases x)
  case (Probe ky i idx)
  then show ?thesis using enrol_probe pre at step K by blast
next
  case (ProbeCas ky i idx k)
  then show ?thesis using enrol_probe_cas pre at step by blast
next
  case (Finish r p)
  then show ?thesis using enrol_finish pre at step by blast
next
  case (EnterLoad r p)
  then show ?thesis using step at by auto
next
  case (EnterCas r p c)
  have "same_keys s s'" using pc_step_keys [of x s nd] step EnterCas by simp
  from same_keysD(1) [OF this] show ?thesis using step at EnterCas
    by (auto split: flow.splits prod.splits)
qed (use at in auto)

text \<open>The reader that has entered is active; the others keep out of its slot.\<close>

definition is_active :: "'a pc \<Rightarrow> 'a area \<Rightarrow> bool" where
  "is_active x s \<longleftrightarrow> (\<exists>r. owned x = Some r \<and> \<not> is_suspended (gen_of r s))"

lemma enter_active:
  assumes pre: "own_pre x s" and step: "pc_step nd x s = (x', s')" and at: "enrol_at K x s" and rest: "rests x'"
  shows "is_active x' s'"
proof -
  obtain r p c where x: "x = EnterCas r p c"
  proof (cases x)
    case (ProbeCas ky i idx k)
    then show ?thesis using enrol_probe_cas [of ky i idx k s K nd x' s'] pre at step rest by (cases x') auto
  next
    case (Probe ky i idx)
    then show ?thesis using step rest by (auto split: if_splits)
  qed (use assms in \<open>auto\<close>)
  have p: "p = slot_of r s" and inv: "map_inv (reader_gens s)" using pre x by (auto simp: own_pre_def reg_inv_def)
  have less: "unat p < length (slots (reader_gens s))" unfolding p using inv by (rule slot_less)
  let ?g = "gen_without_suspended_bit c"
  have "x' = Reader r \<and> s' = store_gen p ?g s"
    using step rest unfolding x
    by (cases rule: cas_gen_cases [of p s c ?g]) (auto simp: enter_turn_def split: sum.splits)
  moreover have "gen_of r (store_gen p ?g s) = ?g" using less by (simp add: gen_of_def load_store_gen p)
  moreover have "\<not> is_suspended ?g" by (simp add: masked_active gen_without_suspended_bit_def SUSPENDED_BIT_eq)
  ultimately show ?thesis by (simp add: is_active_def)
qed

lemma active_other:
  assumes run: "run_of nd g bc rc S" and a: "is_active (threads S t) (shared S)" and e: "sys_exec nd (u, c) S = Some S'" and u: "u \<noteq> t"
  shows "is_active (threads S' t) (shared S')"
proof -
  obtain r where r: "owned (threads S t) = Some r" "\<not> is_suspended (gen_of r (shared S))" using a by (auto simp: is_active_def)
  from e show ?thesis
  proof (cases rule: sys_execE)
    case (1 x' s')
    note R = run_ofD [OF run]
    have pre: "own_pre (threads S u) (shared S)" using R(4) by (auto simp: own_inv_def own_pre_def)
    have "own_step (threads S u) (shared S) (x', s')"
      using 1(1) pc_step_own [OF pre, of nd] own_step_call [OF pre] by auto
    moreover have "holds r (shared S)" "owned (threads S u) \<noteq> Some r" using R(4) r(1) u by (auto simp: own_inv_def)
    ultimately have "undisturbed r (shared S) s'" by (auto simp: own_step_def)
    then show ?thesis using r 1(2,3) u by (auto simp: is_active_def undisturbed_def)
  qed
qed

text \<open>Nothing published: an active reader at rest has received nothing.\<close>

lemma active_reading:
  assumes run: "run_of nd 0 bc rc S" and a: "is_active (threads S t) (shared S)" and x: "rests (threads S t)"
    and l: "log S = []"
  shows "\<exists>r. reading 0 t r 0 S"
proof -
  obtain r where r: "threads S t = Reader r" using x by (auto elim: rests.elims)
  then have act: "\<not> is_suspended (gen_of r (shared S))" using a by (simp add: is_active_def)
  note R = run_ofD [OF run]
  have own: "owned (threads S t) = Some r" using r by simp
  have z: "pos 0 (read_gen (shared S)) = 0" using R(1,3) l by (simp add: order_inv_def)
  with owned_gen(3) [OF run own] have p: "pos 0 (gen_of r (shared S)) = 0" by simp
  moreover have m: "masked (gen_of r (shared S))" using act by (simp add: masked_active)
  ultimately have "unat (gen_of r (shared S)) = 0" by (simp add: pos_zero)
  then have "gen_of r (shared S) = 0" by (simp add: unat_eq_zero)
  then show ?thesis using r act m p z by (auto simp: reading_def)
qed


section \<open>Suspending the first reader\<close>

fun suspending :: "'a pc \<Rightarrow> bool" where
  "suspending (OpLookup r oper) \<longleftrightarrow> oper = Suspend"
| "suspending (OpLoad r p oper) \<longleftrightarrow> oper = Suspend"
| "suspending (OpAct r p c oper) \<longleftrightarrow> oper = Suspend"
| "suspending x \<longleftrightarrow> False"

lemma suspend_moves:
  assumes run: "run_of nd g bc rc S" and x: "suspending (threads S t)" and a: "is_active (threads S t) (shared S)"
    and e: "sys_exec nd (t, None) S = Some S'"
  shows "suspending (threads S' t) \<and> is_active (threads S' t) (shared S') \<or>
    rests (threads S' t) \<and> \<not> suspend_fails (threads S t)"
    and "log S' = log S \<and> reserved S' = reserved S" and "same_keys (shared S) (shared S')"
proof -
  note R = run_ofD [OF run]
  obtain r where r: "owned (threads S t) = Some r" "\<not> is_suspended (gen_of r (shared S))" using a by (auto simp: is_active_def)
  have "holds r (shared S)" using r R(4) by (auto simp: own_inv_def)
  then have found: "get_reader_ptr r (shared S) = Some (slot_of r (shared S))"
    by (simp add: get_reader_ptr_find find_id_Some holds_def slot_of_def)
  have own: "local_own (threads S t) (shared S)" using R(4) by (simp add: own_inv_def)
  note s = exec_none [OF e]
  show "suspending (threads S' t) \<and> is_active (threads S' t) (shared S') \<or>
    rests (threads S' t) \<and> \<not> suspend_fails (threads S t)"
  proof (cases "threads S t")
    case (OpLookup q oper)
    then show ?thesis using s(1,2) found r x by (simp add: is_active_def)
  next
    case (OpLoad q p oper)
    then show ?thesis using s(1,2) r x by (simp add: is_active_def)
  next
    case (OpAct q p c oper)
    then show ?thesis using s(1) own r x by simp
  qed (use x in simp_all)
  have "\<And>be n cf cw. threads S t \<noteq> ReserveGrab be n cf cw" using x by auto
  then show "log S' = log S \<and> reserved S' = reserved S" using quiet_none [OF e] by blast
  show "same_keys (shared S) (shared S')" using x by (intro exec_keys [OF e]) (auto elim: suspending.elims)
qed

section \<open>The main thread\<close>

fun boss_at :: "'a plan \<Rightarrow> boss \<Rightarrow> 'a sys \<Rightarrow> bool" where
  "boss_at P Begin S \<longleftrightarrow> threads S 0 = Idle \<and> card (full (shared S)) = 0"
| "boss_at P Opening S \<longleftrightarrow> enrol_at 0 (threads S 0) (shared S)"
| "boss_at P Opened S \<longleftrightarrow> rests (threads S 0) \<and> is_active (threads S 0) (shared S) \<and> card (full (shared S)) = 1"
| "boss_at P Suspending S \<longleftrightarrow> suspending (threads S 0) \<and> is_active (threads S 0) (shared S) \<and> card (full (shared S)) = 1"
| "boss_at P (Enrolling i True) S \<longleftrightarrow> i < m_readers P \<and> rests (threads S 0) \<and>
     enrol_at (Suc i) (threads S (reads_on i)) (shared S)"
| "boss_at P (Enrolling i False) S \<longleftrightarrow> i \<le> m_readers P \<and> rests (threads S 0) \<and> card (full (shared S)) = Suc i"
| "boss_at P (Hiring j) S \<longleftrightarrow> j \<le> n_writers P \<and> rests (threads S 0)"
| "boss_at P Dropping S \<longleftrightarrow> leaving (threads S 0)"
| "boss_at P Aborted S \<longleftrightarrow> False"
| "boss_at P b S \<longleftrightarrow> True"

fun opens :: "boss \<Rightarrow> bool" where
  "opens Begin = True"
| "opens Opening = True"
| "opens Opened = True"
| "opens Suspending = True"
| "opens (Enrolling i b) = True"
| "opens b = False"

fun spawned :: "'a plan \<Rightarrow> boss \<Rightarrow> nat" where
  "spawned P (Enrolling i b) = i"
| "spawned P b = (if opens b then 0 else m_readers P)"

definition placed :: "'a plan \<Rightarrow> boss \<Rightarrow> nat \<Rightarrow> listener \<Rightarrow> 'a maybe_uninit list \<Rightarrow> 'a sys \<Rightarrow> bool" where
  "placed P b i l hs S \<longleftrightarrow>
     (if i < spawned P b then l \<noteq> Absent \<and> listener_ok P i l hs S
      else l = Absent \<and> hs = [] \<and> threads S (cleans_on i) = Idle \<and>
        (b \<noteq> Enrolling i True \<longrightarrow> threads S (reads_on i) = Idle))"

definition listeners_ok :: "'a plan \<Rightarrow> 'a world \<Rightarrow> bool" where
  "listeners_ok P E \<longleftrightarrow> (\<forall>i. placed P (boss E) i (listeners E i) (heard E i) (machine E))"

lemma placed_in: "i < spawned P b \<Longrightarrow> placed P b i l hs S \<longleftrightarrow> l \<noteq> Absent \<and> listener_ok P i l hs S"
  by (simp add: placed_def)

lemma placed_out: "\<not> i < spawned P b \<Longrightarrow> placed P b i l hs S \<longleftrightarrow> l = Absent \<and> hs = [] \<and> threads S (cleans_on i) = Idle \<and>
    (b \<noteq> Enrolling i True \<longrightarrow> threads S (reads_on i) = Idle)"
  by (simp add: placed_def)

lemma listeners_okD: "listeners_ok P E \<Longrightarrow> placed P (boss E) i (listeners E i) (heard E i) (machine E)"
  by (simp add: listeners_ok_def)

lemma placed_boss:
  "placed P b i l hs S \<Longrightarrow> spawned P c = spawned P b \<Longrightarrow> (b = Enrolling i True \<Longrightarrow> c = Enrolling i True) \<Longrightarrow> placed P c i l hs S"
  by (auto simp: placed_def split: if_splits)

definition world_ok :: "'a plan \<Rightarrow> 'a world \<Rightarrow> bool" where
  "world_ok P E \<longleftrightarrow> safe_world P E \<and> boss_at P (boss E) (machine E) \<and> listeners_ok P E \<and>
     (opens (boss E) \<longrightarrow> log (machine E) = [])"

lemma world_okD:
  assumes "world_ok P E"
  shows "safe_world P E" and "boss_at P (boss E) (machine E)" and "listeners_ok P E"
    and "opens (boss E) \<Longrightarrow> log (machine E) = []"
    and "run_of (drops P) 0 (ring_len P) (table_len P) (machine E)" and "authors_ok P E"
  using assms by (auto simp: world_ok_def safe_world_def)

lemma listener_present: "listeners_ok P E \<Longrightarrow> listeners E i \<noteq> Absent \<Longrightarrow>
  i < spawned P (boss E) \<and> listener_ok P i (listeners E i) (heard E i) (machine E)"
  using listeners_okD [of P E i] by (simp add: placed_def split: if_splits)

lemma listener_absent: "listeners_ok P E \<Longrightarrow> spawned P (boss E) \<le> i \<Longrightarrow> listeners E i = Absent \<and> heard E i = [] \<and>
  threads (machine E) (cleans_on i) = Idle \<and> (boss E \<noteq> Enrolling i True \<longrightarrow> threads (machine E) (reads_on i) = Idle)"
  using listeners_okD [of P E i] by (simp add: placed_out not_less)

lemma listeners_ok_other:
  assumes E: "world_ok P E" and e: "sys_exec (drops P) (t, c) (machine E) = Some S'"
    and len: "length (log S') \<le> n_writers P * messages_per_writer P"
    and t: "t = 0 \<or> (\<exists>j. t = writes_on j) \<or> (\<exists>i. t = reads_on i \<and> b = Enrolling i True \<and> (\<exists>c. boss E = Enrolling i c))"
    and b: "spawned P b = spawned P (boss E)" and same: "\<And>i. boss E = Enrolling i True \<Longrightarrow> b = Enrolling i True"
    and E': "machine E' = S'" "listeners E' = listeners E" "heard E' = heard E" "boss E' = b"
  shows "listeners_ok P E'"
  unfolding listeners_ok_def E'
proof
  fix i
  note run = world_okD(5) [OF E]
  note L = listeners_okD [OF world_okD(3) [OF E], of i]
  have c: "threads S' (cleans_on i) = threads (machine E) (cleans_on i)"
    using exec_other [OF e, of "cleans_on i"] t by auto
  show "placed P b i (listeners E i) (heard E i) S'"
  proof (cases "i < spawned P (boss E)")
    case True
    have "t \<noteq> reads_on i" "t \<noteq> cleans_on i" using t True by auto
    then show ?thesis using listener_ok_later [OF run _ e _ _ len] L True by (simp add: placed_in b)
  next
    case False
    have "threads S' (reads_on i) = Idle" if n: "b \<noteq> Enrolling i True"
    proof -
      have "t \<noteq> reads_on i" using t n by auto
      then have "threads S' (reads_on i) = threads (machine E) (reads_on i)" using exec_other [OF e, of "reads_on i"] by simp
      moreover have "boss E \<noteq> Enrolling i True" using n same by blast
      ultimately show ?thesis using L False by (simp add: placed_out)
    qed
    then show ?thesis using L c False by (simp add: placed_out b)
  qed
qed

lemma quiet_len:
  assumes "plan_ok P" and "world_ok P E" and "log S' = log (machine E)"
  shows "length (log S') \<le> n_writers P * messages_per_writer P"
  using authors_sum(2) [OF assms(1) world_okD(6) [OF assms(2)]] assms(3) by simp

lemma boss_move:
  assumes ok: "plan_ok P" and E: "world_ok P E" and e: "sys_exec (drops P) (t, c) (machine E) = Some S'"
    and q: "log S' = log (machine E) \<and> reserved S' = reserved (machine E)"
    and t: "t = 0 \<or> (\<exists>i. t = reads_on i \<and> b = Enrolling i True \<and> (\<exists>c. boss E = Enrolling i c))"
    and at: "boss_at P b S'" and b: "spawned P b = spawned P (boss E)" "opens b \<Longrightarrow> opens (boss E)"
    and same: "\<And>i. boss E = Enrolling i True \<Longrightarrow> b = Enrolling i True"
  shows "world_ok P (E\<lparr>machine := S', boss := b, handles := h\<rparr>)"
proof -
  let ?E = "E\<lparr>machine := S', boss := b, handles := h\<rparr>"
  have "listeners_ok P ?E"
    by (rule listeners_ok_other [OF E e quiet_len [OF ok E], of b]) (use q t b same in auto)
  moreover have "safe_world P ?E"
    by (rule quiet_safe [OF world_okD(1) [OF E] e _ q]) (use t in auto)
  ultimately show ?thesis using at b q world_okD(4) [OF E] by (simp add: world_ok_def)
qed

lemma boss_skip:
  assumes "world_ok P E" and "boss_at P b (machine E)" and "spawned P b = spawned P (boss E)" and "opens b \<Longrightarrow> opens (boss E)"
    and "\<And>i. boss E = Enrolling i True \<Longrightarrow> b = Enrolling i True"
  shows "world_ok P (E\<lparr>boss := b, handles := h\<rparr>)"
proof -
  have "listeners_ok P (E\<lparr>boss := b, handles := h\<rparr>)"
    using placed_boss [OF listeners_okD [OF world_okD(3) [OF assms(1)]] assms(3,5)] by (simp add: listeners_ok_def)
  then show ?thesis using assms by (auto simp: world_ok_def safe_world_def authors_ok_def)
qed

text \<open>A reader that has been registered, and whose thread is not yet started.\<close>

definition enrolled :: "'a plan \<Rightarrow> nat \<Rightarrow> 'a world \<Rightarrow> bool" where
  "enrolled P i E \<longleftrightarrow> safe_world P E \<and> boss E = Enrolling (Suc i) False \<and> boss_at P (boss E) (machine E) \<and> log (machine E) = [] \<and>
     listeners_ok P (E\<lparr>boss := Enrolling i True\<rparr>) \<and> rests (threads (machine E) (reads_on i)) \<and>
     (\<exists>r. reading 0 (reads_on i) r 0 (machine E))"

lemma enrolled_spawn:
  assumes E: "enrolled P i E" and l: "l = Looping 0 \<or> l = Ready"
  shows "world_ok P (E\<lparr>listeners := (listeners E)(i := l)\<rparr>)"
proof -
  let ?E = "E\<lparr>boss := Enrolling i True\<rparr>"
  have L: "listeners_ok P ?E" and b: "boss E = Enrolling (Suc i) False" using E by (auto simp: enrolled_def)
  have i: "listener_ok P i l (heard E i) (machine E)"
    using E l listener_absent [OF L, of i] by (auto simp: enrolled_def listener_ok_def)
  have "placed P (Enrolling (Suc i) False) k (((listeners E)(i := l)) k) (heard E k) (machine E)" for k
  proof -
    consider "k < i" | "k = i" | "i < k" by linarith
    then show ?thesis
    proof cases
      case 1
      then show ?thesis using listeners_okD [OF L, of k] by (simp add: placed_in)
    next
      case 2
      then show ?thesis using i l by (auto simp: placed_in)
    next
      case 3
      then show ?thesis using listeners_okD [OF L, of k] by (simp add: placed_out)
    qed
  qed
  then have "listeners_ok P (E\<lparr>listeners := (listeners E)(i := l)\<rparr>)" by (simp add: listeners_ok_def b)
  then show ?thesis using E by (auto simp: world_ok_def enrolled_def safe_world_def authors_ok_def)
qed


lemma on_machineE:
  assumes "on_machine P (t, c) f E = Some E'"
  obtains S' where "sys_exec (drops P) (t, c) (machine E) = Some S'" "E' = E\<lparr>machine := S', boss := f (threads S' t)\<rparr>"
  using assms by (auto simp: on_machine_def)

text \<open>One step of a registration on thread \<open>t\<close>, with \<open>K\<close> readers registered before.\<close>

lemma enrol_exec:
  assumes run: "run_of nd 0 bc rc S" and at: "enrol_at K (threads S t) (shared S)"
    and K: "K < length (slots (reader_gens (shared S)))" and e: "sys_exec nd (t, None) S = Some S'"
  shows "enrol_at K (threads S' t) (shared S') \<or>
    rests (threads S' t) \<and> is_active (threads S' t) (shared S') \<and> card (full (shared S')) = Suc K"
    and "log S' = log S \<and> reserved S' = reserved S"
proof -
  have pre: "own_pre (threads S t) (shared S)" using run_ofD(4) [OF run] by (auto simp: own_inv_def own_pre_def)
  have st: "pc_step nd (threads S t) (shared S) = (threads S' t, shared S')" using exec_none [OF e] by simp
  from enrol_step [OF pre at K st] enter_active [OF pre st at]
  show "enrol_at K (threads S' t) (shared S') \<or>
    rests (threads S' t) \<and> is_active (threads S' t) (shared S') \<and> card (full (shared S')) = Suc K" by blast
  have "\<And>be n cf cw. threads S t \<noteq> ReserveGrab be n cf cw" using at by auto
  then show "log S' = log S \<and> reserved S' = reserved S" using quiet_none [OF e] by blast
qed

lemma table_length:
  assumes "run_of nd g bc rc S"
  shows "length (slots (reader_gens (shared S))) = unat rc"
proof -
  have "start_ok g bc rc" "reachable nd (start_at g bc rc) S" "reserved S < 2 ^ 62" using assms by (auto simp: run_of_def)
  from order_inv_reachable [OF this(2) order_inv_start [OF this(1)] this(3)] show ?thesis
    by (simp add: grows_def start_at_def area_at_def with_capacity_and_init_def)
qed

lemma register_at:
  assumes run: "run_of nd g bc rc S" and e: "sys_exec nd (t, Some (Register sd)) S = Some S'" and K: "card (full (shared S)) = K"
  shows "enrol_at K (threads S' t) (shared S')" and "log S' = log S \<and> reserved S' = reserved S"
proof -
  from e show "enrol_at K (threads S' t) (shared S')"
    by (elim exec_callE call_step_cases) (use K in \<open>simp_all add: probed_def\<close>)
  show "log S' = log S \<and> reserved S' = reserved S" using quiet_call [OF e] by simp
qed

lemma opening_step_ok:
  assumes ok: "plan_ok P" and E: "world_ok P E" and b: "opens (boss E)" and more: "\<And>i. boss E = Enrolling i False \<Longrightarrow> i < m_readers P"
    and step: "opening_step P w spawn E = Some E'" and spawn: "\<And>i E1. boss E = Enrolling i True \<Longrightarrow> enrolled P i E1 \<Longrightarrow> authors E1 = authors E \<Longrightarrow>
      listeners E1 = listeners E \<Longrightarrow> world_ok P (spawn i E1)"
  shows "world_ok P E'"
proof -
  let ?S = "machine E" and ?nd = "drops P"
  note run = world_okD(5) [OF E] and at = world_okD(2) [OF E] and lg = world_okD(4) [OF E b]
  have len: "length (slots (reader_gens (shared ?S))) = unat (table_len P)" by (rule table_length [OF run])
  have cap: "m_readers P < unat (table_len P)" using ok by (simp add: plan_ok_def)
  show ?thesis
  proof (cases "boss E")
    case Begin
    with step obtain S' where e: "sys_exec ?nd (0, Some (Register 1)) ?S = Some S'"
      and E': "E' = E\<lparr>machine := S', boss := Opening, handles := handles E\<rparr>"
      by (auto simp: opening_step_def elim!: on_machineE)
    note r = register_at [OF run e, of 0]
    show ?thesis unfolding E' by (rule boss_move [OF ok E e]) (use r at Begin in auto)
  next
    case Opening
    with step obtain S' where e: "sys_exec ?nd (0, None) ?S = Some S'" and E': "E' = E\<lparr>machine := S',
        boss := (case threads S' 0 of Reader r \<Rightarrow> Opened | Idle \<Rightarrow> Aborted | _ \<Rightarrow> Opening), handles := handles E\<rparr>"
      by (auto simp: opening_step_def elim!: on_machineE)
    have "enrol_at 0 (threads ?S 0) (shared ?S)" using at Opening by simp
    note r = enrol_exec [OF run this _ e]
    have K: "0 < length (slots (reader_gens (shared ?S)))" using len cap by simp
    from r(1) [OF K] show ?thesis
    proof
      assume a: "enrol_at 0 (threads S' 0) (shared S')"
      then have "(case threads S' 0 of Reader r \<Rightarrow> Opened | Idle \<Rightarrow> Aborted | _ \<Rightarrow> Opening) = Opening"
        by (cases "threads S' 0") auto
      then show ?thesis unfolding E' by (intro boss_move [OF ok E e]) (use r(2) [OF K] a Opening in auto)
    next
      assume a: "rests (threads S' 0) \<and> is_active (threads S' 0) (shared S') \<and> card (full (shared S')) = Suc 0"
      then have "(case threads S' 0 of Reader r \<Rightarrow> Opened | Idle \<Rightarrow> Aborted | _ \<Rightarrow> Opening) = Opened"
        by (cases "threads S' 0") auto
      then show ?thesis unfolding E' by (intro boss_move [OF ok E e]) (use r(2) [OF K] a Opening in auto)
    qed
  next
    case Opened
    with step obtain S' where e: "sys_exec ?nd (0, Some (Operate Suspend)) ?S = Some S'"
      and E': "E' = E\<lparr>machine := S', boss := Suspending, handles := handles E - w\<rparr>"
      by (auto simp: opening_step_def elim!: on_machineE)
    have "suspending (threads S' 0) \<and> is_active (threads S' 0) (shared S') \<and> card (full (shared S')) = 1"
      using e at Opened by (auto elim!: exec_callE call_step_cases simp: is_active_def)
    then show ?thesis unfolding E' using quiet_call [OF e] Opened by (intro boss_move [OF ok E e]) auto
  next
    case Suspending
    let ?b = "case threads S' 0 of Reader r \<Rightarrow> if suspend_fails (threads ?S 0) then Aborted else Enrolling 0 False | _ \<Rightarrow> Suspending"
    from Suspending step obtain S' where e: "sys_exec ?nd (0, None) ?S = Some S'" and E': "E' = E\<lparr>machine := S',
        boss := (case threads S' 0 of Reader r \<Rightarrow> if suspend_fails (threads ?S 0) then Aborted else Enrolling 0 False
           | _ \<Rightarrow> Suspending), handles := handles E\<rparr>"
      by (auto simp: opening_step_def elim!: on_machineE)
    have "suspending (threads ?S 0)" "is_active (threads ?S 0) (shared ?S)" and K: "card (full (shared ?S)) = 1" using at Suspending by auto
    note r = suspend_moves [OF run this(1,2) e]
    have K': "card (full (shared S')) = 1" using same_keysD(1) [OF r(3)] K by simp
    from r(1) show ?thesis
    proof
      assume a: "suspending (threads S' 0) \<and> is_active (threads S' 0) (shared S')"
      then have "(case threads S' 0 of Reader r \<Rightarrow> if suspend_fails (threads ?S 0) then Aborted else Enrolling 0 False
           | _ \<Rightarrow> Suspending) = Suspending" by (cases "threads S' 0") auto
      then show ?thesis unfolding E' by (intro boss_move [OF ok E e]) (use r(2) a K' Suspending in auto)
    next
      assume a: "rests (threads S' 0) \<and> \<not> suspend_fails (threads ?S 0)"
      then have "(case threads S' 0 of Reader r \<Rightarrow> if suspend_fails (threads ?S 0) then Aborted else Enrolling 0 False
           | _ \<Rightarrow> Suspending) = Enrolling 0 False" by (cases "threads S' 0") auto
      then show ?thesis unfolding E' by (intro boss_move [OF ok E e]) (use r(2) a K' Suspending in auto)
    qed
  next
    case (Enrolling i t)
    show ?thesis
    proof (cases t)
      case False
      with Enrolling step obtain S' where e: "sys_exec ?nd (reads_on i, Some (Register (seed P i))) ?S = Some S'"
        and E': "E' = E\<lparr>machine := S', boss := Enrolling i True, handles := handles E\<rparr>"
        by (auto simp: opening_step_def elim!: on_machineE)
      have "card (full (shared ?S)) = Suc i" "rests (threads ?S 0)" using at Enrolling False by auto
      note r = register_at [OF run e this(1)] and this(2)
      then show ?thesis unfolding E' using more [of i] Enrolling False exec_other [OF e, of 0]
        by (intro boss_move [OF ok E e]) auto
    next
      case True
      with Enrolling step obtain S' where e: "sys_exec ?nd (reads_on i, None) ?S = Some S'" and E': "E' =
          (let E1 = E\<lparr>machine := S', boss := (case threads S' (reads_on i) of
              Reader r \<Rightarrow> Enrolling (Suc i) False | Idle \<Rightarrow> Aborted | _ \<Rightarrow> Enrolling i True)\<rparr>
           in if boss E1 = Enrolling (Suc i) False then spawn i E1 else E1)"
        by (auto simp: opening_step_def Let_def elim!: on_machineE)
      have en: "enrol_at (Suc i) (threads ?S (reads_on i)) (shared ?S)" "i < m_readers P" "rests (threads ?S 0)"
        using at Enrolling True by auto
      have K: "Suc i < length (slots (reader_gens (shared ?S)))" using len cap en(2) by simp
      note r = enrol_exec [OF run en(1) K e]
      have rest: "rests (threads S' 0)" using en(3) exec_other [OF e, of 0] by simp
      have stay: "world_ok P (E\<lparr>machine := S', boss := Enrolling i True, handles := handles E\<rparr>)"
        if "enrol_at (Suc i) (threads S' (reads_on i)) (shared S')"
        by (rule boss_move [OF ok E e]) (use r(2) that rest en(2) Enrolling True in auto)
      from r(1) show ?thesis
      proof
        assume a: "enrol_at (Suc i) (threads S' (reads_on i)) (shared S')"
        then have "(case threads S' (reads_on i) of
              Reader r \<Rightarrow> Enrolling (Suc i) False | Idle \<Rightarrow> Aborted | _ \<Rightarrow> Enrolling i True) = Enrolling i True"
          by (cases "threads S' (reads_on i)") auto
        then show ?thesis using stay [OF a] by (simp add: E')
      next
        assume a: "rests (threads S' (reads_on i)) \<and> is_active (threads S' (reads_on i)) (shared S') \<and>
          card (full (shared S')) = Suc (Suc i)"
        then have c: "(case threads S' (reads_on i) of
              Reader r \<Rightarrow> Enrolling (Suc i) False | Idle \<Rightarrow> Aborted | _ \<Rightarrow> Enrolling i True) = Enrolling (Suc i) False"
          by (cases "threads S' (reads_on i)") auto
        let ?E = "E\<lparr>machine := S', boss := Enrolling (Suc i) False\<rparr>"
        have safe: "safe_world P ?E" by (rule quiet_safe [OF world_okD(1) [OF E] e _ r(2)]) auto
        then have run': "run_of ?nd 0 (ring_len P) (table_len P) S'" by (simp add: safe_world_def)
        have "listeners_ok P (E\<lparr>machine := S', boss := Enrolling i True\<rparr>)"
          by (rule listeners_ok_other [OF E e quiet_len [OF ok E], of "Enrolling i True"])
            (use r(2) Enrolling True in auto)
        then have "enrolled P i ?E"
          using a safe rest en(2) r(2) lg active_reading [OF run'] by (auto simp: enrolled_def)
        then have "world_ok P (spawn i ?E)" using Enrolling True by (intro spawn) simp_all
        then show ?thesis using c by (simp add: E')
      qed
    qed
  qed (use b in simp_all)
qed

end
