(* ===== verification/Example_Runs.thy ===== *)
theory Example_Runs
  imports Example_Opening
begin

text \<open>
  The programs with separate readers and writers: \<open>office_ok\<close> adds to \<open>world_ok\<close> the number of
  writers that are left and the threads that were joined.  It holds in every reachable state, and
  from it follow that nothing panics and what is delivered.
\<close>

section \<open>The moves of a writer and of a reader\<close>

lemma boss_at_later:
  assumes run: "run_of nd 0 bc rc S" and at: "boss_at P b S" and e: "sys_exec nd (t, c) S = Some S'"
    and t: "t \<noteq> 0" "\<And>i. b = Enrolling i True \<Longrightarrow> t \<noteq> reads_on i" and keys: "opens b \<Longrightarrow> same_keys (shared S) (shared S')"
  shows "boss_at P b S'"
proof -
  have x: "threads S' 0 = threads S 0" using exec_other [OF e, of 0] t(1) by simp
  have a: "is_active (threads S 0) (shared S) \<Longrightarrow> is_active (threads S 0) (shared S')"
    using active_other [OF run _ e, of 0] t(1) x by auto
  show ?thesis
  proof (cases b)
    case (Enrolling i c)
    show ?thesis
    proof (cases c)
      case True
      have "threads S' (reads_on i) = threads S (reads_on i)" using exec_other [OF e, of "reads_on i"] t(2) Enrolling True by simp
      then show ?thesis using at x enrol_at_same [OF _ keys] Enrolling True by simp
    next
      case False
      then show ?thesis using at x same_keysD(1) [OF keys] Enrolling by simp
    qed
  next
    case Opening
    then show ?thesis using at x enrol_at_same [OF _ keys] by simp
  next
    case Begin
    then show ?thesis using at x same_keysD(1) [OF keys] by simp
  next
    case Opened
    then show ?thesis using at x a same_keysD(1) [OF keys] by simp
  next
    case Suspending
    then show ?thesis using at x a same_keysD(1) [OF keys] by simp
  qed (use at x in simp_all)
qed

lemma author_moves_ok:
  assumes ok: "plan_ok P" and E: "world_ok P E" and j: "j < n_writers P" and b: "\<not> opens (boss E)"
    and more: "\<And>k. authors E j = Turn k \<Longrightarrow> k < rounds P" and mv: "author_moves P j E = Some E'"
  shows "world_ok P E'" and "\<exists>a. authors E' = (authors E)(j := a)" and "handles E' = handles E" and "boss E' = boss E"
    and "listeners E' = listeners E" and "arrived E' = arrived E"
proof -
  note A = author_moves_safe [OF ok world_okD(1) [OF E] j more mv]
  then show "\<exists>a. authors E' = (authors E)(j := a)" "handles E' = handles E" "boss E' = boss E"
    "listeners E' = listeners E" "arrived E' = arrived E" by auto
  have safe: "safe_world P E'" using A by simp
  have len: "length (log (machine E')) \<le> n_writers P * messages_per_writer P"
    using authors_sum(2) [OF ok] safe by (simp add: safe_world_def)
  have "listeners_ok P E' \<and> boss_at P (boss E) (machine E')"
  proof (cases "machine E' = machine E")
    case True
    then show ?thesis using A world_okD(2,3) [OF E] by (simp add: listeners_ok_def)
  next
    case False
    then obtain c where e: "sys_exec (drops P) (writes_on j, c) (machine E) = Some (machine E')" using A by auto
    have "listeners_ok P E'"
      by (rule listeners_ok_other [OF E e len, of "boss E"]) (use A in auto)
    then show ?thesis using boss_at_later [OF world_okD(5) [OF E] world_okD(2) [OF E] e] b by simp
  qed
  then show "world_ok P E'" using safe A b by (simp add: world_ok_def)
qed

lemma listener_no_keys:
  assumes ok: "listener_ok P i l hs S" and "\<not> is_last l" and "l \<noteq> Absent" and t: "t = reads_on i \<or> t = cleans_on i"
  shows "\<not> writes_key (threads S t)"
  using t
proof
  assume "t = reads_on i"
  then show ?thesis using listener_okD(1) [OF ok] assms(2,3) by (cases l) (auto elim: getting.elims rests.elims has_slice.elims ending.elims)
next
  assume "t = cleans_on i"
  then show ?thesis using listener_okD(1) [OF ok] assms(2,3) by (cases l) (auto elim: in_cleanup.elims)
qed

lemma listener_moves_ok:
  assumes ok: "plan_ok P" and E: "world_ok P E" and w: "\<And>n. listeners E i = Checking n \<Longrightarrow> handles E = 0 \<Longrightarrow> complete P (machine E)"
    and mv: "listener_moves P i id E = Some E'"
  shows "world_ok P E'" and "authors E' = authors E" and "handles E' = handles E" and "boss E' = boss E"
    and "arrived E' = arrived E" and "\<exists>l. listeners E' = (listeners E)(i := l)" and "listeners E i \<noteq> Absent"
proof -
  let ?S = "machine E" and ?l = "listeners E i"
  obtain l ms S' where op: "listener_op P i (handles E) ?l ?S = Some (l, ms, S')"
    and E': "E' = E\<lparr>machine := S', listeners := (listeners E)(i := l), heard := (heard E)(i := heard E i @ ms)\<rparr>"
    using mv by (auto simp: listener_moves_def)
  show "authors E' = authors E" "handles E' = handles E" "boss E' = boss E" "arrived E' = arrived E"
    "\<exists>l. listeners E' = (listeners E)(i := l)" by (auto simp: E')
  show l: "?l \<noteq> Absent" using op by auto
  note run = world_okD(5) [OF E] and L = world_okD(3) [OF E]
  have i: "i < spawned P (boss E)" and lis: "listener_ok P i ?l (heard E i) ?S" using listener_present [OF L l] by auto
  from listener_moves_on [OF run lis w op]
  have q: "quiet_move P i ?S S'" and lis': "listener_ok P i l (heard E i @ ms) S'" by (auto simp: moves_on_def)
  have l': "l \<noteq> Absent" using op by (cases ?l) (auto split: pc.splits if_splits simp: Let_def)
  show "world_ok P E'"
  proof (cases "S' = ?S")
    case True
    have "listeners_ok P E'"
      unfolding listeners_ok_def
    proof
      fix k
      show "placed P (boss E') k (listeners E' k) (heard E' k) (machine E')"
        using listeners_okD [OF L, of k] i lis' l' True by (cases "k = i") (simp_all add: E' placed_in)
    qed
    then show ?thesis using E True by (simp add: world_ok_def E' safe_world_def authors_ok_def)
  next
    case False
    then obtain t c where t: "t = reads_on i \<or> t = cleans_on i" and e: "sys_exec (drops P) (t, c) ?S = Some S'"
      and lg: "log S' = log ?S \<and> reserved S' = reserved ?S" using q by (auto simp: quiet_move_def)
    have "listeners_ok P E'"
      unfolding listeners_ok_def
    proof
      fix k
      show "placed P (boss E') k (listeners E' k) (heard E' k) (machine E')"
      proof (cases "k = i")
        case True
        then show ?thesis using i lis' l' by (simp add: E' placed_in)
      next
        case False
        then have "t \<noteq> reads_on k" "t \<noteq> cleans_on k" using t by auto
        then have "threads S' (reads_on k) = threads ?S (reads_on k)" "threads S' (cleans_on k) = threads ?S (cleans_on k)"
          and "listener_ok P k (listeners E k) (heard E k) ?S \<Longrightarrow> listener_ok P k (listeners E k) (heard E k) S'"
          using exec_other [OF e] listener_ok_later [OF run _ e _ _ quiet_len [OF ok E]] lg by auto
        then show ?thesis using listeners_okD [OF L, of k] False by (simp add: E' placed_def)
      qed
    qed
    moreover have "safe_world P E'" by (rule quiet_safe [OF world_okD(1) [OF E] e _ lg]) (use t E' in auto)
    moreover have "boss_at P (boss E) S'"
    proof (rule boss_at_later [OF run world_okD(2) [OF E] e])
      show "t \<noteq> 0" using t distinct_threads(9,10) by metis
      show "t \<noteq> reads_on k" if "boss E = Enrolling k True" for k using t i that by auto
      assume o: "opens (boss E)"
      have "\<not> is_last ?l"
      proof
        assume "is_last ?l"
        then have "complete P ?S" using listener_okD(3) [OF lis] by (auto elim: is_last.elims)
        then show False using world_okD(4) [OF E o] ok by (auto simp: complete_def plan_ok_def)
      qed
      then show "same_keys (shared ?S) (shared S')" using exec_keys [OF e] listener_no_keys [OF lis _ l t] by blast
    qed
    ultimately show ?thesis using world_okD(4) [OF E] lg by (simp add: world_ok_def E')
  qed
qed

lemma listener_moves_then:
  assumes "listener_moves P i f E = Some E'"
  obtains E1 where "listener_moves P i id E = Some E1" and "E' = E1\<lparr>listeners := (listeners E1)(i := f (listeners E1 i))\<rparr>"
  using assms by (auto simp: listener_moves_def)

text \<open>A reader's thread does not move where it ends or waits only.\<close>

lemma world_not_failed: "world_ok P E \<Longrightarrow> listeners E i \<noteq> Failed \<and> boss E \<noteq> Aborted"
  using listener_present [of P E i] listener_okD(1) [of P i "listeners E i" "heard E i" "machine E"] world_okD(2,3) [of P E]
  by auto

lemma complete_rounds:
  assumes ok: "plan_ok P" and E: "authors_ok P E" and "complete P (machine E)" and j: "j < n_writers P"
  shows "published_of P (authors E j) = rounds P"
proof -
  have le: "published_of P (authors E j) \<le> rounds P" for j
    using published_le [of P j "authors E j"] E by (auto simp: authors_ok_def)
  have B: "0 < batch_size P" using ok by (simp add: plan_ok_def)
  have "(\<Sum>j<n_writers P. published_of P (authors E j) * batch_size P) = (\<Sum>j<n_writers P. rounds P * batch_size P)"
    using assms(3) authors_length [OF E] rounds_batch [OF ok] by (simp add: complete_def)
  then have "published_of P (authors E j) * batch_size P = rounds P * batch_size P"
    by (rule sum_mono_inv) (use j le in auto)
  then show ?thesis using B by simp
qed


section \<open>Separate readers and writers\<close>

fun hired :: "'a plan \<Rightarrow> boss \<Rightarrow> nat" where
  "hired P (Hiring j) = j"
| "hired P b = (if opens b then 0 else n_writers P)"

fun keeps_writer :: "boss \<Rightarrow> bool" where
  "keeps_writer (JoinWriter j) = False"
| "keeps_writer (JoinReader i) = False"
| "keeps_writer Done = False"
| "keeps_writer b = True"

definition working :: "author \<Rightarrow> bool" where
  "working a \<longleftrightarrow> a \<noteq> Unhired \<and> a \<noteq> Retired"

definition live_writers :: "'a plan \<Rightarrow> 'a world \<Rightarrow> nat" where
  "live_writers P E = of_bool (keeps_writer (boss E)) + card {j. j < n_writers P \<and> working (authors E j)}"

fun joined :: "'a plan \<Rightarrow> boss \<Rightarrow> nat \<times> nat" where
  "joined P (JoinWriter j) = (j, 0)"
| "joined P (JoinReader i) = (n_writers P, i)"
| "joined P Done = (n_writers P, m_readers P)"
| "joined P b = (0, 0)"

fun speaks :: "listener \<Rightarrow> bool" where
  "speaks Ready = True"
| "speaks (Speaking n) = True"
| "speaks l = False"

definition office_ok :: "'a plan \<Rightarrow> 'a world \<Rightarrow> bool" where
  "office_ok P E \<longleftrightarrow> world_ok P E \<and> (\<forall>j. authors E j = Unhired \<longleftrightarrow> hired P (boss E) \<le> j) \<and>
     handles E = of_nat (live_writers P E) \<and> (\<forall>i. \<not> speaks (listeners E i)) \<and>
     (\<forall>j < fst (joined P (boss E)). authors E j = Retired) \<and>
     (\<forall>i < snd (joined P (boss E)). \<exists>n. listeners E i = Gone n)"

lemma office_okD:
  assumes "office_ok P E"
  shows "world_ok P E" and "authors E j = Unhired \<longleftrightarrow> hired P (boss E) \<le> j" and "handles E = of_nat (live_writers P E)"
    and "\<not> speaks (listeners E i)" and "j < fst (joined P (boss E)) \<Longrightarrow> authors E j = Retired"
    and "i < snd (joined P (boss E)) \<Longrightarrow> \<exists>n. listeners E i = Gone n"
  using assms by (auto simp: office_ok_def)

lemma live_writers_le: "live_writers P E \<le> Suc (n_writers P)"
proof -
  have "card {j. j < n_writers P \<and> working (authors E j)} \<le> card {..<n_writers P}" by (rule card_mono) auto
  then show ?thesis by (simp add: live_writers_def)
qed

text \<open>When the count of writers is 0, all messages have been published.\<close>

lemma no_handles_complete:
  assumes ok: "plan_ok P" and E: "office_ok P E" and h: "handles E = 0"
  shows "complete P (machine E)"
proof -
  have "unat (of_nat (live_writers P E) :: usize) = live_writers P E"
    using live_writers_le [of P E] ok by (intro unat_of_nat64) (simp add: plan_ok_def)
  then have "live_writers P E = 0" using office_okD(3) [OF E] h by simp
  then have b: "\<not> keeps_writer (boss E)" and none: "\<And>j. j < n_writers P \<Longrightarrow> \<not> working (authors E j)"
    by (auto simp: live_writers_def)
  have "hired P (boss E) = n_writers P" using b by (cases "boss E") auto
  then have "authors E j = Retired" if "j < n_writers P" for j
    using none [OF that] office_okD(2) [OF E, of j] that by (auto simp: working_def)
  then show ?thesis
    using authors_sum(3) [OF ok world_okD(6) [OF office_okD(1) [OF E]]] by (simp add: complete_def)
qed

lemma listener_op_silent: "listener_op P i w l S = Some (l', ms, S') \<Longrightarrow> \<not> speaks l'"
  by (cases l) (auto split: pc.splits if_splits simp: Let_def)

lemma listener_step_ok:
  assumes ok: "plan_ok P" and E: "office_ok P E" and st: "listener_moves P i id E = Some E'"
  shows "office_ok P E'"
proof -
  note W = listener_moves_ok [OF ok office_okD(1) [OF E] _ st, OF no_handles_complete [OF ok E]]
  obtain l ms S' where op: "listener_op P i (handles E) (listeners E i) (machine E) = Some (l, ms, S')"
    and l: "listeners E' = (listeners E)(i := l)"
    using st by (auto simp: listener_moves_def)
  have "\<not> speaks l" using listener_op_silent [OF op] .
  moreover have "\<not> i < snd (joined P (boss E))" using op office_okD(6) [OF E, of i] by auto
  moreover have "live_writers P E' = live_writers P E" by (simp add: live_writers_def W)
  ultimately show ?thesis using E W(1-5) l by (auto simp: office_ok_def)
qed


lemma author_skip:
  assumes E: "world_ok P E" and at: "author_at P j a' (threads (machine E) (writes_on j))" and j: "j < n_writers P"
    and same: "published_of P a' = published_of P (authors E j)" "granted_of P a' = granted_of P (authors E j)"
  shows "world_ok P (E\<lparr>authors := (authors E)(j := a'), handles := h, arrived := k\<rparr>)"
proof -
  let ?E = "E\<lparr>authors := (authors E)(j := a'), handles := h, arrived := k\<rparr>"
  note A = world_okD(6) [OF E]
  have g: "granted_of P (authors ?E i) = granted_of P (authors E i)"
    "published_of P (authors ?E i) = published_of P (authors E i)" for i using same by simp_all
  have "authors_ok P ?E"
    unfolding authors_ok_def g
  proof (intro conjI allI)
    fix i
    show "author_at P i (authors ?E i) (threads (machine ?E) (writes_on i))" using A at by (simp add: authors_ok_def)
    show "n_writers P \<le> i \<longrightarrow> authors ?E i = Unhired" using A j by (simp add: authors_ok_def)
    show "map snd (filter (\<lambda>m. fst m = i) (by_author ?E)) = all_rounds P i (published_of P (authors E i))"
      using A by (simp add: authors_ok_def)
  qed (use A in \<open>simp_all add: authors_ok_def\<close>)
  then show ?thesis using E by (simp add: world_ok_def safe_world_def listeners_ok_def)
qed

lemma live_writers_upd:
  assumes "j < n_writers P" and "boss E' = boss E" and "authors E' = (authors E)(j := a)"
  shows "live_writers P E' + of_bool (working (authors E j)) = live_writers P E + of_bool (working a)"
proof -
  let ?A = "{i. i < n_writers P \<and> working (authors E i)}" and ?B = "{i. i < n_writers P \<and> working (authors E' i)}"
  have A: "card (?A - {j}) + of_bool (working (authors E j)) = card ?A"
  proof (cases "working (authors E j)")
    case True
    then have "j \<in> ?A" using assms(1) by simp
    then show ?thesis using card.remove [of ?A j] True by simp
  next
    case False
    then have "?A - {j} = ?A" by auto
    then show ?thesis using False by simp
  qed
  have "card ?B = card (?A - {j}) + of_bool (working a)"
  proof (cases "working a")
    case True
    then have "?B = insert j (?A - {j})" using assms by auto
    moreover have "card (insert j (?A - {j})) = Suc (card (?A - {j}))" by (rule card_insert_disjoint) simp_all
    ultimately have "card ?B = Suc (card (?A - {j}))" by (simp only:)
    then show ?thesis using True by simp
  next
    case False
    then have "?B = ?A - {j}" using assms by auto
    then show ?thesis using False by simp
  qed
  then have "card ?B + of_bool (working (authors E j)) = card ?A + of_bool (working a)" using A by simp
  then show ?thesis using assms(2) by (simp add: live_writers_def)
qed

lemma author_op_working: "author_op P j a S = Some (a', S') \<Longrightarrow> working a'"
  by (cases a) (auto simp: working_def split: pc.splits if_splits)

lemma author_step_cases:
  assumes "author_step P j E = Some E'"
  obtains (wait) "authors E j = AtBarrier" "E' = E\<lparr>arrived := Suc (arrived E), authors := (authors E)(j := Released)\<rparr>"
  | (go) "authors E j = Released" "E' = E\<lparr>authors := (authors E)(j := Turn 0)\<rparr>" "n_writers P \<le> arrived E"
  | (retire) k where "authors E j = Turn k" "rounds P \<le> k"
      "E' = E\<lparr>handles := handles E - 1, authors := (authors E)(j := Retired)\<rparr>"
  | (move) "author_moves P j E = Some E'" "\<And>k. authors E j = Turn k \<Longrightarrow> k < rounds P"
proof (cases "authors E j")
  case AtBarrier
  show thesis by (rule wait [OF AtBarrier]) (use assms AtBarrier in \<open>simp add: author_step_def\<close>)
next
  case Released
  show thesis by (rule go [OF Released]) (use assms Released in \<open>simp_all add: author_step_def split: if_splits\<close>)
next
  case (Turn k)
  show thesis
  proof (cases "k < rounds P")
    case True
    show thesis by (rule move) (use assms Turn True in \<open>simp_all add: author_step_def\<close>)
  next
    case False
    show thesis by (rule retire [OF Turn]) (use assms Turn False in \<open>simp_all add: author_step_def\<close>)
  qed
next
  case Unhired
  then show thesis using assms by (simp add: author_step_def author_moves_def)
next
  case Retired
  then show thesis using assms by (simp add: author_step_def author_moves_def)
next
  case (Grabbing k)
  show thesis by (rule move) (use assms Grabbing in \<open>simp_all add: author_step_def\<close>)
next
  case (Filling k i)
  show thesis by (rule move) (use assms Filling in \<open>simp_all add: author_step_def\<close>)
next
  case (Publishing k)
  show thesis by (rule move) (use assms Publishing in \<open>simp_all add: author_step_def\<close>)
qed

lemma author_step_ok:
  assumes ok: "plan_ok P" and E: "office_ok P E" and st: "author_step P j E = Some E'"
  shows "office_ok P E'"
proof -
  let ?a = "authors E j"
  note W = office_okD(1) [OF E]
  have at: "author_at P j ?a (threads (machine E) (writes_on j))" using world_okD(6) [OF W] by (simp add: authors_ok_def)
  have n: "?a \<noteq> Unhired" "?a \<noteq> Retired" using st by (auto simp: author_step_def author_moves_def)
  then have hj: "j < hired P (boss E)" using office_okD(2) [OF E, of j] by simp
  have j: "j < n_writers P" using world_okD(6) [OF W] n by (auto simp: authors_ok_def not_less [symmetric])
  have bo: "\<not> opens (boss E)" using hj by (cases "boss E") auto
  have jj: "\<not> j < fst (joined P (boss E))" using office_okD(5) [OF E] n by blast
  have keep: "office_ok P E'" if "world_ok P E'" "authors E' = (authors E)(j := a)" "a \<noteq> Unhired"
      "handles E' = of_nat (live_writers P E')" "boss E' = boss E" "listeners E' = listeners E" for a
    using that E jj hj by (auto simp: office_ok_def)
  have same: "live_writers P E' = live_writers P E"
    if "boss E' = boss E" "authors E' = (authors E)(j := a)" "working a" for a
    using live_writers_upd [OF j that(1,2)] that(3) n by (simp add: working_def)
  from st show ?thesis
  proof (cases rule: author_step_cases)
    case move
    note M = author_moves_ok [OF ok W j bo move(2,1)]
    obtain a S' where op: "author_op P j ?a (machine E) = Some (a, S')" and ae: "authors E' = (authors E)(j := a)"
      using move(1) by (auto simp: author_moves_def)
    note a = author_op_working [OF op]
    show ?thesis
      by (rule keep [OF M(1) ae]) (use M(3-5) same [OF M(4) ae a] office_okD(3) [OF E] a in \<open>simp_all add: working_def\<close>)
  next
    case wait
    then have E': "E' = E\<lparr>authors := (authors E)(j := Released), handles := handles E, arrived := Suc (arrived E)\<rparr>" by simp
    have "world_ok P E'" unfolding E' by (rule author_skip [OF W _ j]) (use wait(1) at in auto)
    then show ?thesis using keep [of Released] same [of Released] office_okD(3) [OF E] wait(2) by (simp add: working_def)
  next
    case go
    then have E': "E' = E\<lparr>authors := (authors E)(j := Turn 0), handles := handles E, arrived := arrived E\<rparr>" by simp
    have "world_ok P E'" unfolding E' by (rule author_skip [OF W _ j]) (use go(1) at in auto)
    then show ?thesis using keep [of "Turn 0"] same [of "Turn 0"] office_okD(3) [OF E] go(2) by (simp add: working_def)
  next
    case (retire k)
    then have E': "E' = E\<lparr>authors := (authors E)(j := Retired), handles := handles E - 1, arrived := arrived E\<rparr>" by simp
    have w: "world_ok P E'" unfolding E' by (rule author_skip [OF W _ j]) (use retire(1,2) at in auto)
    have l: "Suc (live_writers P E') = live_writers P E"
      using live_writers_upd [OF j, of E' E Retired] retire(1,3) by (simp add: working_def)
    have "handles E' = handles E - 1" by (simp add: E')
    then have "handles E' = of_nat (live_writers P E')"
      unfolding office_okD(3) [OF E] l [symmetric] by simp
    then show ?thesis using keep [of Retired] w retire(3) by simp
  qed
qed


text \<open>What a step up to the last reader changes.\<close>

lemma opening_frame:
  assumes "opening_step P w spawn E = Some E'"
  obtains (opens) S' b where "E' = E\<lparr>machine := S', boss := b, handles := handles E - (if boss E = Opened then w else 0)\<rparr>"
      "opens b \<or> b = Aborted" "spawned P b = spawned P (boss E) \<or> b = Aborted" "boss E = Begin \<longrightarrow> b = Opening"
  | (spawns) i S' where "boss E = Enrolling i True"
      "E' = spawn i (E\<lparr>machine := S', boss := Enrolling (Suc i) False\<rparr>)"
proof (cases "boss E")
  case Begin
  then obtain S' where "E' = E\<lparr>machine := S', boss := Opening\<rparr>"
    using assms by (auto simp: opening_step_def elim!: on_machineE)
  then show thesis by (intro opens) (simp_all add: Begin)
next
  case Opening
  then obtain S' b where "E' = E\<lparr>machine := S', boss := b\<rparr>"
    and "b = (case threads S' 0 of Reader r \<Rightarrow> Opened | Idle \<Rightarrow> Aborted | _ \<Rightarrow> Opening)"
    using assms by (auto simp: opening_step_def elim!: on_machineE)
  moreover from this(2) have "b = Opened \<or> b = Aborted \<or> b = Opening" by (simp split: pc.splits)
  ultimately show thesis by (intro opens [of b S']) (auto simp: Opening)
next
  case Opened
  then obtain S' where e: "E' = E\<lparr>handles := handles E - w, machine := S', boss := Suspending\<rparr>"
    using assms by (auto simp: opening_step_def elim!: on_machineE)
  have "E' = E\<lparr>machine := S', boss := Suspending, handles := handles E - w\<rparr>" unfolding e by (cases E) simp
  then show thesis by (intro opens [of Suspending S']) (simp_all add: Opened)
next
  case Suspending
  then obtain S' b where e: "E' = E\<lparr>machine := S', boss := b\<rparr>"
    and b: "b = (case threads S' 0 of
      Reader r \<Rightarrow> if suspend_fails (threads (machine E) 0) then Aborted else Enrolling 0 False | _ \<Rightarrow> Suspending)"
    using assms by (auto simp: opening_step_def elim!: on_machineE)
  from b have d: "b = Aborted \<or> b = Enrolling 0 False \<or> b = Suspending" by (simp split: pc.splits if_splits)
  show thesis by (rule opens [of b S']) (use e d Suspending in auto)
next
  case (Enrolling i t)
  show thesis
  proof (cases t)
    case False
    then obtain S' where "E' = E\<lparr>machine := S', boss := Enrolling i True\<rparr>"
      using assms Enrolling by (auto simp: opening_step_def elim!: on_machineE)
    then have "E' = E\<lparr>machine := S', boss := Enrolling i True, handles := handles E\<rparr>" by simp
    then show thesis by (intro opens [of "Enrolling i True" S']) (simp_all add: Enrolling)
  next
    case True
    then obtain S' b where E': "E' = (let E1 = E\<lparr>machine := S', boss := b\<rparr> in if boss E1 = Enrolling (Suc i) False then spawn i E1 else E1)"
      and b: "b = (case threads S' (reads_on i) of Reader r \<Rightarrow> Enrolling (Suc i) False | Idle \<Rightarrow> Aborted | _ \<Rightarrow> Enrolling i True)"
      using assms Enrolling by (auto simp: opening_step_def Let_def elim!: on_machineE)
    show thesis
    proof (cases "b = Enrolling (Suc i) False")
      case True
      then show thesis using E' Enrolling \<open>t\<close> by (intro spawns [of i S']) simp_all
    next
      case False
      then have "b = Enrolling i True \<or> b = Aborted" using b by (simp split: pc.splits)
      then show thesis using E' False by (intro opens [of b S']) (auto simp: Enrolling \<open>t\<close>)
    qed
  qed
qed (use assms in \<open>simp_all add: opening_step_def\<close>)

lemma office_keep:
  assumes E: "office_ok P E" and W: "world_ok P E'"
    and same: "authors E' = authors E" "listeners E' = listeners E" "handles E' = handles E"
    and b: "hired P (boss E') = hired P (boss E)" "keeps_writer (boss E') = keeps_writer (boss E)"
    and j: "\<And>j. j < fst (joined P (boss E')) \<Longrightarrow> authors E j = Retired"
    and i: "\<And>i. i < snd (joined P (boss E')) \<Longrightarrow> \<exists>n. listeners E i = Gone n"
  shows "office_ok P E'"
proof -
  have "live_writers P E' = live_writers P E" by (simp add: live_writers_def same b)
  then show ?thesis using E W j i by (simp add: office_ok_def same b)
qed

lemma office_opening:
  assumes ok: "plan_ok P" and E: "office_ok P E" and op: "opens (boss E)" and more: "\<And>i. boss E = Enrolling i False \<Longrightarrow> i < m_readers P"
    and st: "opening_step P 0 (\<lambda>i E. E\<lparr>listeners := (listeners E)(i := Looping 0)\<rparr>) E = Some E'"
  shows "office_ok P E'"
proof -
  have W: "world_ok P E'"
    by (rule opening_step_ok [OF ok office_okD(1) [OF E] op more st]) (assumption, erule enrolled_spawn, simp)
  have h: "hired P (boss E) = 0" "keeps_writer (boss E)" using op by (cases "boss E"; simp)+
  from st show ?thesis
  proof (cases rule: opening_frame)
    case (opens S' b)
    then have b: "opens b" using W by (auto simp: world_ok_def)
    then have "hired P b = 0" "keeps_writer b" "joined P b = (0, 0)" by (cases b; simp)+
    then show ?thesis using opens(1) h by (intro office_keep [OF E W]) simp_all
  next
    case (spawns i S')
    then show ?thesis using E W h by (auto simp: office_ok_def live_writers_def)
  qed
qed

lemma boss_step_ok:
  assumes ok: "plan_ok P" and E: "office_ok P E" and st: "boss_step P E = Some E'"
  shows "office_ok P E'"
proof -
  note W = office_okD(1) [OF E]
  note at = world_okD(2) [OF W]
  show ?thesis
  proof (cases "boss E")
    case (Enrolling i t)
    show ?thesis
    proof (cases "t \<or> i < m_readers P")
      case True
      then have "opening_step P 0 (\<lambda>i E. E\<lparr>listeners := (listeners E)(i := Looping 0)\<rparr>) E = Some E'"
        using st Enrolling by (cases t) (auto simp: boss_step_def opening_step_def)
      then show ?thesis using office_opening [OF ok E] True Enrolling by auto
    next
      case False
      then have b: "boss E = Enrolling i False" "\<not> i < m_readers P" using Enrolling by auto
      then have i: "i = m_readers P" using at by simp
      have E': "E' = E\<lparr>boss := Hiring 0, handles := handles E\<rparr>"
        using st b ok by (auto simp: boss_step_def plan_ok_def)
      have "world_ok P E'" unfolding E' by (rule boss_skip [OF W]) (use at b i in auto)
      then show ?thesis by (rule office_keep [OF E]) (simp_all add: E' b(1))
    qed
  next
    case (Hiring j)
    show ?thesis
    proof (cases "j < n_writers P")
      case True
      let ?a = "if barrier P then AtBarrier else Turn 0"
      let ?E = "E\<lparr>authors := (authors E)(j := ?a), handles := handles E + 1, arrived := arrived E\<rparr>"
      have "boss_step P E = Some (?E\<lparr>boss := Hiring (Suc j), handles := handles ?E\<rparr>)"
        by (simp add: boss_step_def Hiring True)
      then have E': "E' = ?E\<lparr>boss := Hiring (Suc j), handles := handles ?E\<rparr>" using st by simp
      have un: "authors E j = Unhired" using office_okD(2) [OF E] Hiring by simp
      have "author_at P j (authors E j) (threads (machine E) (writes_on j))" using world_okD(6) [OF W] by (simp add: authors_ok_def)
      then have "world_ok P ?E" by (intro author_skip [OF W _ True]) (use un in auto)
      then have w: "world_ok P E'" unfolding E' by (rule boss_skip) (use at Hiring True in auto)
      have "live_writers P ?E = Suc (live_writers P E)"
        using live_writers_upd [OF True, of ?E E ?a] un by (simp add: working_def split: if_splits)
      then have "live_writers P E' = Suc (live_writers P E)" using Hiring by (simp add: E' live_writers_def)
      moreover have "handles E' = handles E + 1" by (simp add: E')
      ultimately have h: "handles E' = of_nat (live_writers P E')" using office_okD(3) [OF E] by simp
      have "authors E' k = Unhired \<longleftrightarrow> Suc j \<le> k" for k
      proof (cases "k = j")
        case True
        then show ?thesis by (simp add: E')
      next
        case False
        then have "authors E' k = authors E k" by (simp add: E')
        moreover have "hired P (boss E) = j" by (simp add: Hiring)
        ultimately have "authors E' k = Unhired \<longleftrightarrow> j \<le> k" using office_okD(2) [OF E, of k] by simp
        then show ?thesis using False by (auto simp: Suc_le_eq)
      qed
      then have a: "\<forall>k. authors E' k = Unhired \<longleftrightarrow> hired P (boss E') \<le> k" by (simp add: E')
      have "\<forall>i. \<not> speaks (listeners E' i)" "joined P (boss E') = (0, 0)" using office_okD(4) [OF E] by (simp_all add: E')
      then show ?thesis using w h a by (simp only: office_ok_def) simp
    next
      case False
      then have j: "j = n_writers P" using at Hiring by simp
      obtain S' where e: "sys_exec (drops P) (0, Some (Operate Unregister)) (machine E) = Some S'"
        and E': "E' = E\<lparr>machine := S', boss := Dropping, handles := handles E\<rparr>"
        using st Hiring False by (auto simp: boss_step_def elim!: on_machineE)
      have "leaving (threads S' 0)" using e by (auto elim!: exec_callE call_step_cases)
      then have "world_ok P E'" unfolding E' using quiet_call [OF e] Hiring by (intro boss_move [OF ok W e]) auto
      then show ?thesis by (rule office_keep [OF E]) (simp_all add: E' Hiring j)
    qed
  next
    case Dropping
    then obtain S' where e: "sys_exec (drops P) (0, None) (machine E) = Some S'"
      and E': "E' = E\<lparr>machine := S', boss := (case threads S' 0 of Idle \<Rightarrow> Closing | _ \<Rightarrow> Dropping), handles := handles E\<rparr>"
      using st by (auto simp: boss_step_def elim!: on_machineE)
    have "leaving (threads (machine E) 0)" using at Dropping by simp
    note l = leaving_exec [OF world_okD(5) [OF W] this e]
    let ?b = "case threads S' 0 of Idle \<Rightarrow> Closing | _ \<Rightarrow> Dropping"
    have b: "?b = Closing \<or> ?b = Dropping \<and> leaving (threads S' 0)" using l(1) by (cases "threads S' 0") auto
    then have "world_ok P E'" unfolding E' using l(2) Dropping by (intro boss_move [OF ok W e]) auto
    then show ?thesis by (rule office_keep [OF E]) (use Dropping b in \<open>auto simp: E'\<close>)
  next
    case Closing
    then have "E' = E\<lparr>handles := handles E - 1, boss := JoinWriter 0\<rparr>" using st by (simp add: boss_step_def)
    then have E': "E' = E\<lparr>boss := JoinWriter 0, handles := handles E - 1\<rparr>" by (cases E) simp
    have w: "world_ok P E'" unfolding E' by (rule boss_skip [OF W]) (use Closing in auto)
    have l: "Suc (live_writers P E') = live_writers P E" using Closing by (simp add: E' live_writers_def)
    have "handles E' = handles E - 1" by (simp add: E')
    then have "handles E' = of_nat (live_writers P E')" unfolding office_okD(3) [OF E] l [symmetric] by simp
    moreover have "\<forall>k. authors E' k = Unhired \<longleftrightarrow> hired P (boss E') \<le> k" using office_okD(2) [OF E] Closing by (simp add: E')
    moreover have "\<forall>i. \<not> speaks (listeners E' i)" "joined P (boss E') = (0, 0)" using office_okD(4) [OF E] by (simp_all add: E')
    ultimately show ?thesis using w by (simp only: office_ok_def) simp
  next
    case (JoinWriter j)
    show ?thesis
    proof (cases "j < n_writers P")
      case True
      then have r: "authors E j = Retired" and E': "E' = E\<lparr>boss := JoinWriter (Suc j), handles := handles E\<rparr>"
        using st JoinWriter by (auto simp: boss_step_def split: if_splits)
      have "world_ok P E'" unfolding E' by (rule boss_skip [OF W]) (use JoinWriter in auto)
      then show ?thesis
        by (rule office_keep [OF E]) (use office_okD(5) [OF E] JoinWriter r in \<open>auto simp: E' less_Suc_eq\<close>)
    next
      case False
      then have E': "E' = E\<lparr>boss := JoinReader 0, handles := handles E\<rparr>" using st JoinWriter by (auto simp: boss_step_def)
      have "world_ok P E'" unfolding E' by (rule boss_skip [OF W]) (use JoinWriter in auto)
      then show ?thesis
        by (rule office_keep [OF E]) (use office_okD(5) [OF E] JoinWriter False in \<open>auto simp: E'\<close>)
    qed
  next
    case (JoinReader i)
    show ?thesis
    proof (cases "i < m_readers P")
      case True
      then obtain n where r: "listeners E i = Gone n" and E': "E' = E\<lparr>boss := JoinReader (Suc i), handles := handles E\<rparr>"
        using st JoinReader world_not_failed [OF W] by (auto simp: boss_step_def split: listener.splits)
      have "world_ok P E'" unfolding E' by (rule boss_skip [OF W]) (use JoinReader in auto)
      then show ?thesis
        by (rule office_keep [OF E]) (use office_okD(5,6) [OF E] JoinReader r in \<open>auto simp: E' less_Suc_eq\<close>)
    next
      case False
      then have E': "E' = E\<lparr>boss := Done, handles := handles E\<rparr>" using st JoinReader by (auto simp: boss_step_def)
      have "world_ok P E'" unfolding E' by (rule boss_skip [OF W]) (use JoinReader in auto)
      then show ?thesis
        by (rule office_keep [OF E]) (use office_okD(5,6) [OF E] JoinReader False in \<open>auto simp: E'\<close>)
    qed
  next
    case Begin
    then show ?thesis using st by (intro office_opening [OF ok E]) (simp_all add: boss_step_def)
  next
    case Opening
    then show ?thesis using st by (intro office_opening [OF ok E]) (simp_all add: boss_step_def)
  next
    case Opened
    then show ?thesis using st by (intro office_opening [OF ok E]) (simp_all add: boss_step_def)
  next
    case Suspending
    then show ?thesis using st by (intro office_opening [OF ok E]) (simp_all add: boss_step_def)
  next
    case Done
    then show ?thesis using st by (simp add: boss_step_def opening_step_def)
  next
    case Aborted
    then show ?thesis using at by simp
  qed
qed

lemma world_step_ok: "plan_ok P \<Longrightarrow> office_ok P E \<Longrightarrow> world_step P a E = Some E' \<Longrightarrow> office_ok P E'"
  by (cases a) (auto intro: boss_step_ok author_step_ok listener_step_ok)


lemma start_keys: "full (area_at g bc rc) = {}"
proof -
  have "key (slots (reader_gens (area_at g bc rc)) ! i) = EMPTY"
    if "i < length (slots (reader_gens (area_at g bc rc)))" for i
    using that by (simp add: area_at_def with_capacity_and_init_def slot_new_def)
  then show ?thesis by (auto simp: full_def)
qed

lemma world_start_ok:
  assumes "plan_ok P"
  shows "world_ok P (world_start P)"
proof -
  let ?S = "start_at 0 (ring_len P) (table_len P) :: 'a sys"
  have "run_of (drops P) 0 (ring_len P) (table_len P) ?S"
    using assms by (simp add: run_of_def plan_ok_def reachable.start start_at_def)
  moreover have "authors_ok P (world_start P)"
    by (simp add: authors_ok_def world_start_def start_at_def all_rounds_def)
  moreover have "listeners_ok P (world_start P)"
    by (simp add: listeners_ok_def placed_def world_start_def start_at_def)
  moreover have "boss_at P Begin ?S" by (simp add: start_at_def start_keys)
  ultimately show ?thesis by (simp add: world_ok_def safe_world_def world_start_def start_at_def)
qed

lemma office_start: "plan_ok P \<Longrightarrow> office_ok P (world_start P)"
  using world_start_ok [of P]
  by (simp add: office_ok_def live_writers_def) (simp add: world_start_def working_def)

lemma office_run: "plan_ok P \<Longrightarrow> office_ok P E \<Longrightarrow> world_run world_step P as E = Some E' \<Longrightarrow> office_ok P E'"
  by (induction as arbitrary: E) (auto split: option.splits dest: world_step_ok)

text \<open>What a reader has printed so far.\<close>

lemma heard_prefix:
  assumes W: "world_ok P E" and p: "prints P"
  shows "\<exists>k. heard E i = map Init (take k (log (machine E)))"
proof (cases "listeners E i = Absent")
  case True
  have "heard E i = []"
    using listeners_okD [OF world_okD(3) [OF W], of i] True by (auto simp: placed_def split: if_splits)
  then show ?thesis by (intro exI [of _ 0]) simp
next
  case False
  then have "listener_ok P i (listeners E i) (heard E i) (machine E)"
    using listener_present [OF world_okD(3) [OF W]] by blast
  from listener_okD(5) [OF this p] show ?thesis by blast
qed

lemma gone_has_all:
  assumes ok: "plan_ok P" and W: "world_ok P E" and i: "listeners E i = Gone n"
  shows "unat n = n_writers P * messages_per_writer P" and "length (by_author E) = n_writers P * messages_per_writer P"
    and "prints P \<Longrightarrow> heard E i = map Init (log (machine E))"
    and "j < n_writers P \<Longrightarrow> map snd (filter (\<lambda>m. fst m = j) (by_author E)) = all_rounds P j (rounds P)"
proof -
  have lis: "listener_ok P i (Gone n) (heard E i) (machine E)"
    using listener_present [OF world_okD(3) [OF W], of i] i by simp
  have A: "authors_ok P E" by (rule world_okD(6) [OF W])
  have n: "n = total_expected P" and c: "complete P (machine E)" using listener_okD(3,4) [OF lis] by simp_all
  have l: "map snd (by_author E) = log (machine E)" using A by (simp add: authors_ok_def)
  show u: "unat n = n_writers P * messages_per_writer P"
    using ok unfolding n total_expected_def by (intro unat_of_nat64) (simp add: plan_ok_def)
  show len: "length (by_author E) = n_writers P * messages_per_writer P"
    using c arg_cong [OF l, of length] by (simp add: complete_def)
  show "heard E i = map Init (log (machine E))" if "prints P"
    using listener_okD(5) [OF lis that] c u by (simp add: complete_def)
  show "map snd (filter (\<lambda>m. fst m = j) (by_author E)) = all_rounds P j (rounds P)" if "j < n_writers P"
    using A complete_rounds [OF ok A c that] by (simp add: authors_ok_def)
qed

text \<open>
  C0: in every interleaving of the threads of such a program nothing panics: no \<open>unwrap\<close> or
  \<open>expect\<close> of \<open>main\<close> and no \<open>read_with_check\<close> or drop of a slice in a reader, and the count that a
  reader compares with the number of all messages at its end is always right, because the last
  look of \<open>read_with_check\<close> comes after the last writer is gone.
\<close>
theorem separate_threads_never_panic:
  assumes "plan_ok P" and "world_run world_step P as (world_start P) = Some E"
  shows "boss E \<noteq> Aborted \<and> listeners E i \<noteq> Failed"
  using world_not_failed [OF office_okD(1) [OF office_run [OF assms(1) office_start [OF assms(1)] assms(2)]]]
  by blast

text \<open>
  C0: what such a program delivers.  At every moment a reader that prints has printed the first
  messages of the one order in which they are published.  A reader's thread that has ended
  has received as many messages as all writers sent together and has printed them all; in this
  order the messages of each writer are all its messages as it sent them.  When \<open>main\<close> is done,
  every reader's thread has ended.
\<close>
theorem separate_threads_deliver:
  assumes "plan_ok P" and "world_run world_step P as (world_start P) = Some E"
  shows "(prints P \<longrightarrow> (\<exists>k. heard E i = map Init (take k (log (machine E)))))
    \<and> (boss E = Done \<and> i < m_readers P \<longrightarrow> (\<exists>n. listeners E i = Gone n))
    \<and> (\<forall>n. listeners E i = Gone n \<longrightarrow> unat n = n_writers P * messages_per_writer P
         \<and> length (log (machine E)) = n_writers P * messages_per_writer P
         \<and> map snd (by_author E) = log (machine E)
         \<and> (prints P \<longrightarrow> heard E i = map Init (log (machine E)))
         \<and> (\<forall>j < n_writers P. map snd (filter (\<lambda>m. fst m = j) (by_author E)) = all_rounds P j (rounds P)))"
proof -
  note O = office_run [OF assms(1) office_start [OF assms(1)] assms(2)]
  note W = office_okD(1) [OF O]
  have A: "map snd (by_author E) = log (machine E)" using world_okD(6) [OF W] by (simp add: authors_ok_def)
  then have len: "length (log (machine E)) = length (by_author E)" by (metis length_map)
  have "\<exists>n. listeners E i = Gone n" if "boss E = Done" "i < m_readers P"
    using office_okD(6) [OF O, of i] that by simp
  then show ?thesis using A len heard_prefix [OF W] gone_has_all [OF assms(1) W] by auto
qed

end
