(* ===== verification/Example_Market.thy ===== *)
theory Example_Market
  imports Example_Runs
begin

text \<open>
  The programs whose readers are also writers: \<open>market_ok\<close> adds to \<open>world_ok\<close> the two halves of each
  thread and the barrier, which nobody passes before all threads are started.
\<close>

section \<open>The invariant\<close>

definition market_plan_ok :: "'a plan \<Rightarrow> bool" where
  "market_plan_ok P \<longleftrightarrow> plan_ok P \<and> n_writers P = m_readers P \<and> \<not> checks P"

text \<open>Once the last thread is started, messages may be published before \<open>main\<close> goes on.\<close>

definition seen :: "'a plan \<Rightarrow> boss \<Rightarrow> boss" where
  "seen P b = (if b = Enrolling (m_readers P) False then Hiring 0 else b)"

definition seen_world :: "'a plan \<Rightarrow> 'a world \<Rightarrow> 'a world" where
  "seen_world P E = E\<lparr>boss := seen P (boss E)\<rparr>"

definition passed :: "author \<Rightarrow> bool" where
  "passed a \<longleftrightarrow> a \<noteq> Unhired \<and> a \<noteq> AtBarrier"

definition beyond :: "author \<Rightarrow> bool" where
  "beyond a \<longleftrightarrow> passed a \<and> a \<noteq> Released"

text \<open>\<open>barrier.wait()\<close>: the count, and that nobody is through before all have come.\<close>

definition barrier_ok :: "'a plan \<Rightarrow> 'a world \<Rightarrow> bool" where
  "barrier_ok P E \<longleftrightarrow> arrived E = card {j. j < n_writers P \<and> passed (authors E j)} \<and>
     (\<forall>j. beyond (authors E j) \<longrightarrow> n_writers P \<le> arrived E)"

fun paired :: "author \<Rightarrow> listener \<Rightarrow> bool" where
  "paired a Absent \<longleftrightarrow> a = Unhired"
| "paired a Ready \<longleftrightarrow> a = AtBarrier \<or> a = Released"
| "paired a (Speaking n) \<longleftrightarrow> beyond a \<and> a \<noteq> Retired"
| "paired a (Checking n) \<longleftrightarrow> False"
| "paired a l \<longleftrightarrow> (\<exists>k. a = Turn k)"

definition market_ok :: "'a plan \<Rightarrow> 'a world \<Rightarrow> bool" where
  "market_ok P E \<longleftrightarrow> world_ok P (seen_world P E) \<and> barrier_ok P E \<and> (\<forall>i. paired (authors E i) (listeners E i)) \<and>
     (\<forall>i < snd (joined P (boss E)). \<exists>n. listeners E i = Gone n)"

lemma market_okD:
  assumes "market_ok P E"
  shows "world_ok P (seen_world P E)" and "barrier_ok P E" and "paired (authors E i) (listeners E i)"
    and "i < snd (joined P (boss E)) \<Longrightarrow> \<exists>n. listeners E i = Gone n"
  using assms by (auto simp: market_ok_def)

lemma seen_world_fields [simp]:
  "machine (seen_world P E) = machine E" "authors (seen_world P E) = authors E" "listeners (seen_world P E) = listeners E"
  "heard (seen_world P E) = heard E" "by_author (seen_world P E) = by_author E" "arrived (seen_world P E) = arrived E"
  "handles (seen_world P E) = handles E" "boss (seen_world P E) = seen P (boss E)"
  by (simp_all add: seen_world_def)

lemma seen_idem: "boss E = b \<Longrightarrow> seen P b = b \<Longrightarrow> seen_world P E = E"
  by (cases E) (simp add: seen_world_def)

text \<open>Who is through the barrier knows that all threads have been started.\<close>

lemma passed_all:
  assumes B: "barrier_ok P E" and b: "beyond (authors E j)" and i: "i < n_writers P"
  shows "passed (authors E i)"
proof (rule ccontr)
  let ?A = "{j. j < n_writers P \<and> passed (authors E j)}"
  assume "\<not> passed (authors E i)"
  then have "?A \<subset> {..<n_writers P}" using i by auto
  then have "card ?A < n_writers P" using psubset_card_mono [of "{..<n_writers P}" ?A] by simp
  then show False using B b by (auto simp: barrier_ok_def)
qed

lemma beyond_started:
  assumes ok: "market_plan_ok P" and E: "market_ok P E" and b: "beyond (authors E j)"
  shows "\<not> opens (seen P (boss E))" and "j < n_writers P"
proof -
  note W = market_okD(1) [OF E]
  have A: "authors_ok P (seen_world P E)" by (rule world_okD(6) [OF W])
  then show "j < n_writers P" using b by (auto simp: authors_ok_def beyond_def passed_def not_less [symmetric])
  let ?i = "m_readers P - 1"
  have n: "0 < n_writers P" "n_writers P = m_readers P" using ok by (auto simp: market_plan_ok_def plan_ok_def)
  then have "passed (authors E ?i)" using passed_all [OF market_okD(2) [OF E] b] by simp
  then have "listeners E ?i \<noteq> Absent" using market_okD(3) [OF E, of ?i] by (auto simp: passed_def)
  then have s: "?i < spawned P (seen P (boss E))"
    using listener_present [OF world_okD(3) [OF W], of ?i] by simp
  show "\<not> opens (seen P (boss E))"
  proof
    assume o: "opens (seen P (boss E))"
    have "spawned P (seen P (boss E)) < m_readers P"
    proof (cases "seen P (boss E)")
      case (Enrolling i t)
      moreover have "Enrolling i t \<noteq> Enrolling (m_readers P) False" using Enrolling by (auto simp: seen_def split: if_splits)
      moreover have "boss_at P (Enrolling i t) (machine E)" using world_okD(2) [OF W] Enrolling by simp
      ultimately show ?thesis by (cases t) auto
    qed (use o n in auto)
    then show False using s by simp
  qed
qed

section \<open>The threads\<close>

lemma author_moves_boss:
  "author_moves P j (E\<lparr>boss := b\<rparr>) = map_option (\<lambda>E. E\<lparr>boss := b\<rparr>) (author_moves P j E)"
  by (cases E) (simp add: author_moves_def option.map_comp comp_def case_prod_unfold)

lemma listener_moves_boss:
  "listener_moves P i f (E\<lparr>boss := b\<rparr>) = map_option (\<lambda>E. E\<lparr>boss := b\<rparr>) (listener_moves P i f E)"
  by (cases E) (simp add: listener_moves_def option.map_comp comp_def case_prod_unfold)

lemma author_moves_keep: "author_moves P j E = Some E' \<Longrightarrow> boss E' = boss E"
  by (auto simp: author_moves_def)

lemma listener_moves_keep: "listener_moves P i f E = Some E' \<Longrightarrow> boss E' = boss E"
  by (auto simp: listener_moves_def)

lemma seen_author_moves: "author_moves P j E = Some E' \<Longrightarrow> author_moves P j (seen_world P E) = Some (seen_world P E')"
  by (simp add: seen_world_def author_moves_boss author_moves_keep)

lemma seen_listener_moves: "listener_moves P i f E = Some E' \<Longrightarrow> listener_moves P i f (seen_world P E) = Some (seen_world P E')"
  by (simp add: seen_world_def listener_moves_boss listener_moves_keep)

text \<open>Another point of a reader's thread that needs the same of the machine.\<close>

lemma relabel:
  assumes W: "world_ok P E" and l: "l \<noteq> Absent" "listeners E i \<noteq> Absent"
    and ok: "listener_ok P i (listeners E i) (heard E i) (machine E) \<Longrightarrow> listener_ok P i l (heard E i) (machine E)"
  shows "world_ok P (E\<lparr>listeners := (listeners E)(i := l)\<rparr>)"
proof -
  note L = world_okD(3) [OF W]
  have "placed P (boss E) k (((listeners E)(i := l)) k) (heard E k) (machine E)" for k
    using listeners_okD [OF L, of k] listener_present [OF L l(2)] ok l(1) by (cases "k = i") (simp_all add: placed_in)
  then have "listeners_ok P (E\<lparr>listeners := (listeners E)(i := l)\<rparr>)" by (simp add: listeners_ok_def)
  then show ?thesis using W by (simp add: world_ok_def safe_world_def authors_ok_def)
qed

lemma barrier_keep:
  assumes "barrier_ok P E" and "arrived E' = arrived E" and "authors E' = (authors E)(i := a)"
    and "beyond (authors E i)" and "beyond a"
  shows "barrier_ok P E'"
proof -
  have "passed (authors E' j) = passed (authors E j)" for j
    using assms(3-5) by (auto simp: beyond_def)
  then show ?thesis using assms by (auto simp: barrier_ok_def)
qed

lemma barrier_same: "barrier_ok P E \<Longrightarrow> authors E' = authors E \<Longrightarrow> arrived E' = arrived E \<Longrightarrow> barrier_ok P E'"
  unfolding barrier_ok_def by metis

lemma market_keep:
  assumes E: "market_ok P E" and W: "world_ok P (seen_world P E')" and B: "barrier_ok P E'"
    and b: "boss E' = boss E" and other: "\<And>j. j \<noteq> i \<Longrightarrow> authors E' j = authors E j \<and> listeners E' j = listeners E j"
    and p: "paired (authors E' i) (listeners E' i)" and g: "\<And>n. listeners E i \<noteq> Gone n"
  shows "market_ok P E'"
proof -
  have "paired (authors E' j) (listeners E' j)" for j
    using market_okD(3) [OF E, of j] other [of j] p by (cases "j = i") auto
  moreover have "\<exists>n. listeners E' j = Gone n" if "j < snd (joined P (boss E'))" for j
  proof -
    have "\<exists>n. listeners E j = Gone n" using market_okD(4) [OF E] that b by simp
    then show ?thesis using other [of j] g by (cases "j = i") auto
  qed
  ultimately show ?thesis using W B by (simp add: market_ok_def)
qed

lemma author_op_beyond: "author_op P j a S = Some (a', S') \<Longrightarrow> beyond a' \<and> a' \<noteq> Retired"
  by (cases a) (auto simp: beyond_def passed_def split: pc.splits if_splits)


lemma listener_op_paired:
  "listener_op P i w l S = Some (l', ms, S') \<Longrightarrow> \<not> checks P \<Longrightarrow> paired (Turn k) l'"
  by (cases l) (auto split: pc.splits if_splits simp: Let_def)

lemma turn_over_iff: "turn_over P a \<longleftrightarrow> (\<exists>k. a = Turn k \<and> rounds P \<le> k)"
  by (cases a) auto

lemma crier_cases:
  assumes "crier_step P i E = Some E'"
  obtains (arrive) "listeners E i = Ready" "authors E i = AtBarrier"
      "E' = E\<lparr>arrived := Suc (arrived E), authors := (authors E)(i := Released)\<rparr>"
  | (go) "listeners E i = Ready" "authors E i = Released" "n_writers P \<le> arrived E"
      "E' = E\<lparr>authors := (authors E)(i := Turn 0), listeners := (listeners E)(i := Speaking 0)\<rparr>"
  | (skip) n where "listeners E i = Speaking n" "turn_over P (authors E i)" "E' = E\<lparr>listeners := (listeners E)(i := Looping n)\<rparr>"
  | (speak) n E1 where "listeners E i = Speaking n" "\<not> turn_over P (authors E i)" "author_moves P i E = Some E1"
      "E' = (case authors E1 i of Turn k \<Rightarrow> E1\<lparr>listeners := (listeners E1)(i := Looping n)\<rparr> | _ \<Rightarrow> E1)"
  | (over) n where "listeners E i = Ending n"
      "listener_moves P i (\<lambda>l. case l of Looping n \<Rightarrow> if n = total_expected P then Counted n else Speaking n | _ \<Rightarrow> l) E = Some E'"
  | (move) "listener_moves P i id E = Some E'" "listeners E i \<noteq> Ready" "\<And>n. listeners E i \<noteq> Speaking n"
proof (cases "listeners E i")
  case Ready
  show thesis
  proof (cases "authors E i")
    case AtBarrier
    show thesis by (rule arrive [OF Ready AtBarrier]) (use assms Ready AtBarrier in \<open>simp add: crier_step_def\<close>)
  next
    case Released
    show thesis by (rule go [OF Ready Released])
      (use assms Ready Released in \<open>auto simp: crier_step_def split: if_splits\<close>)
  qed (use assms Ready in \<open>simp_all add: crier_step_def\<close>)
next
  case (Speaking n)
  show thesis
  proof (cases "turn_over P (authors E i)")
    case True
    show thesis by (rule skip [OF Speaking True]) (use assms Speaking True in \<open>simp add: crier_step_def\<close>)
  next
    case False
    then obtain E1 where "author_moves P i E = Some E1"
      "E' = (case authors E1 i of Turn k \<Rightarrow> E1\<lparr>listeners := (listeners E1)(i := Looping n)\<rparr> | _ \<Rightarrow> E1)"
      using assms Speaking by (auto simp: crier_step_def)
    then show thesis by (rule speak [OF Speaking False])
  qed
next
  case (Ending n)
  show thesis by (rule over [OF Ending]) (use assms Ending in \<open>simp add: crier_step_def\<close>)
qed (use assms move in \<open>simp_all add: crier_step_def\<close>)

text \<open>The steps that are not steps of the machine.\<close>

lemma crier_arrive:
  assumes E: "market_ok P E" and l: "listeners E i = Ready" and a: "authors E i = AtBarrier"
    and E': "E' = E\<lparr>arrived := Suc (arrived E), authors := (authors E)(i := Released)\<rparr>"
  shows "market_ok P E'"
proof -
  note W = market_okD(1) [OF E]
  have A: "authors_ok P (seen_world P E)" by (rule world_okD(6) [OF W])
  have i: "i < n_writers P" using A a by (auto simp: authors_ok_def not_less [symmetric])
  have at: "author_at P i (authors E i) (threads (machine E) (writes_on i))" using A by (simp add: authors_ok_def)
  let ?W = "(seen_world P E)\<lparr>authors := (authors (seen_world P E))(i := Released), handles := handles E, arrived := Suc (arrived E)\<rparr>"
  have "seen_world P E' = ?W" by (cases E) (simp add: E' seen_world_def)
  moreover have "world_ok P ?W" by (rule author_skip [OF W _ i]) (use at a in auto)
  ultimately have w: "world_ok P (seen_world P E')" by (simp only:)
  have B: "barrier_ok P E'"
  proof -
    let ?A = "{j. j < n_writers P \<and> passed (authors E j)}"
    have "{j. j < n_writers P \<and> passed (authors E' j)} = insert i ?A"
      using i by (auto simp: E' passed_def)
    moreover have "i \<notin> ?A" using a by (simp add: passed_def)
    ultimately have c: "card {j. j < n_writers P \<and> passed (authors E' j)} = Suc (card ?A)" by simp
    have "n_writers P \<le> Suc (arrived E)" if "beyond (authors E' j)" for j
    proof -
      have "j \<noteq> i" using that by (auto simp: E' beyond_def)
      then show ?thesis using that market_okD(2) [OF E] by (auto simp: E' barrier_ok_def)
    qed
    moreover have "arrived E' = Suc (arrived E)" "arrived E = card ?A"
      using market_okD(2) [OF E] by (simp_all add: E' barrier_ok_def)
    ultimately show ?thesis unfolding barrier_ok_def using c by (simp only:) auto
  qed
  show ?thesis by (rule market_keep [where i = i, OF E w B]) (simp_all add: E' l)
qed

lemma crier_go:
  assumes E: "market_ok P E" and l: "listeners E i = Ready" and a: "authors E i = Released" and n: "n_writers P \<le> arrived E"
    and E': "E' = E\<lparr>authors := (authors E)(i := Turn 0), listeners := (listeners E)(i := Speaking 0)\<rparr>"
  shows "market_ok P E'"
proof -
  note W = market_okD(1) [OF E]
  have A: "authors_ok P (seen_world P E)" by (rule world_okD(6) [OF W])
  have i: "i < n_writers P" using A a by (auto simp: authors_ok_def not_less [symmetric])
  have at: "author_at P i (authors E i) (threads (machine E) (writes_on i))" using A by (simp add: authors_ok_def)
  let ?W = "(seen_world P E)\<lparr>authors := (authors (seen_world P E))(i := Turn 0), handles := handles E, arrived := arrived E\<rparr>"
  have "world_ok P ?W" by (rule author_skip [OF W _ i]) (use at a in auto)
  then have "world_ok P (?W\<lparr>listeners := (listeners ?W)(i := Speaking 0)\<rparr>)"
    by (rule relabel) (simp_all add: l listener_ok_def)
  moreover have "seen_world P E' = ?W\<lparr>listeners := (listeners ?W)(i := Speaking 0)\<rparr>" by (cases E) (simp add: E' seen_world_def)
  ultimately have w: "world_ok P (seen_world P E')" by (simp only:)
  have B: "barrier_ok P E'"
  proof -
    have "passed (authors E' j) = passed (authors E j)" for j by (simp add: E' a passed_def)
    then show ?thesis using market_okD(2) [OF E] n by (simp add: barrier_ok_def E')
  qed
  show ?thesis by (rule market_keep [where i = i, OF E w B]) (simp_all add: E' l beyond_def passed_def)
qed

lemma crier_skip:
  assumes E: "market_ok P E" and l: "listeners E i = Speaking n" and a: "authors E i = Turn k"
    and E': "E' = E\<lparr>listeners := (listeners E)(i := Looping n)\<rparr>"
  shows "market_ok P E'"
proof -
  have "world_ok P ((seen_world P E)\<lparr>listeners := (listeners (seen_world P E))(i := Looping n)\<rparr>)"
    by (rule relabel [OF market_okD(1) [OF E]]) (simp_all add: l listener_ok_def)
  moreover have "seen_world P E' = (seen_world P E)\<lparr>listeners := (listeners (seen_world P E))(i := Looping n)\<rparr>"
    by (cases E) (simp add: E' seen_world_def)
  ultimately have w: "world_ok P (seen_world P E')" by (simp only:)
  have B: "barrier_ok P E'" by (rule barrier_same [OF market_okD(2) [OF E]]) (simp_all add: E')
  show ?thesis by (rule market_keep [where i = i, OF E w B]) (simp_all add: E' l a)
qed

text \<open>A step of the writer's half.\<close>

lemma crier_author:
  assumes ok: "market_plan_ok P" and E: "market_ok P E" and l: "listeners E i = Speaking n"
    and t: "\<not> turn_over P (authors E i)" and mv: "author_moves P i E = Some E1"
  shows "market_ok P E1" and "listeners E1 i = Speaking n"
proof -
  have p: "beyond (authors E i)" using market_okD(3) [OF E, of i] l by simp
  note B = beyond_started [OF ok E p]
  have pok: "plan_ok P" using ok by (simp add: market_plan_ok_def)
  have more: "k < rounds P" if "authors (seen_world P E) i = Turn k" for k using t that by (auto simp: turn_over_iff)
  note M = author_moves_ok [OF pok market_okD(1) [OF E] B(2) _ more seen_author_moves [OF mv]]
  have M': "world_ok P (seen_world P E1)" "listeners E1 = listeners E" "arrived E1 = arrived E" using M B(1) by simp_all
  obtain a S' where op: "author_op P i (authors E i) (machine E) = Some (a, S')" and ae: "authors E1 = (authors E)(i := a)"
    using mv by (auto simp: author_moves_def)
  note b = author_op_beyond [OF op]
  have "barrier_ok P E1" using barrier_keep [OF market_okD(2) [OF E] M'(3) ae p] b by simp
  then show "market_ok P E1"
    using M' b l ae by (intro market_keep [OF E, of E1 i]) (simp_all add: author_moves_keep [OF mv])
  show "listeners E1 i = Speaking n" using M'(2) l by simp
qed

text \<open>A step of the reader's half.\<close>

lemma crier_listener:
  assumes ok: "market_plan_ok P" and E: "market_ok P E" and mv: "listener_moves P i id E = Some E1"
  shows "market_ok P E1" and "\<exists>k. authors E1 i = Turn k"
proof -
  have pok: "plan_ok P" and c: "\<not> checks P" using ok by (simp_all add: market_plan_ok_def)
  have no: "listeners E i \<noteq> Checking n" for n using market_okD(3) [OF E, of i] by auto
  note M = listener_moves_ok [OF pok market_okD(1) [OF E] _ seen_listener_moves [OF mv]]
  have M': "world_ok P (seen_world P E1)" "authors E1 = authors E" "arrived E1 = arrived E" using M no by simp_all
  obtain l ms S' where op: "listener_op P i (handles E) (listeners E i) (machine E) = Some (l, ms, S')"
    and le: "listeners E1 = (listeners E)(i := l)"
    using mv by (auto simp: listener_moves_def)
  have a: "\<exists>k. authors E i = Turn k" using market_okD(3) [OF E, of i] op no by (cases "listeners E i") auto
  then have "paired (authors E1 i) (listeners E1 i)" using listener_op_paired [OF op c] M'(2) le by auto
  moreover have "barrier_ok P E1" by (rule barrier_same [OF market_okD(2) [OF E] M'(2,3)])
  moreover have "listeners E i \<noteq> Gone n" for n using op by auto
  ultimately show "market_ok P E1" using M' le
    by (intro market_keep [OF E, of E1 i]) (simp_all add: listener_moves_keep [OF mv])
  show "\<exists>k. authors E1 i = Turn k" using a M'(2) by simp
qed

lemma crier_relabel:
  assumes E: "market_ok P E" and a: "authors E i = Turn k" and l: "listeners E i = Looping n"
    and l': "l = Speaking n \<or> l = Counted n \<and> complete P (machine E) \<and> n = total_expected P"
  shows "market_ok P (E\<lparr>listeners := (listeners E)(i := l)\<rparr>)"
proof -
  let ?E = "E\<lparr>listeners := (listeners E)(i := l)\<rparr>"
  have "world_ok P ((seen_world P E)\<lparr>listeners := (listeners (seen_world P E))(i := l)\<rparr>)"
    by (rule relabel [OF market_okD(1) [OF E]]) (use l l' in \<open>auto simp: listener_ok_def\<close>)
  moreover have "seen_world P ?E = (seen_world P E)\<lparr>listeners := (listeners (seen_world P E))(i := l)\<rparr>"
    by (cases E) (simp add: seen_world_def)
  ultimately have w: "world_ok P (seen_world P ?E)" by (simp only:)
  have B: "barrier_ok P ?E" by (rule barrier_same [OF market_okD(2) [OF E]]) simp_all
  show ?thesis using l' by (intro market_keep [where i = i, OF E w B]) (auto simp: l a beyond_def passed_def)
qed

lemma total_complete:
  assumes ok: "plan_ok P" and W: "world_ok P E" and l: "listeners E i = Looping (total_expected P)"
  shows "complete P (machine E)"
proof -
  have lis: "listener_ok P i (Looping (total_expected P)) (heard E i) (machine E)"
    using listener_present [OF world_okD(3) [OF W], of i] l by simp
  then obtain r where "reading 0 (reads_on i) r (total_expected P) (machine E)" using listener_okD(2) [OF lis] by auto
  then have "unat (total_expected P) \<le> length (log (machine E))" by (rule reading_le [OF world_okD(5) [OF W]])
  moreover have "unat (total_expected P) = n_writers P * messages_per_writer P"
    using ok unfolding total_expected_def by (intro unat_of_nat64) (simp add: plan_ok_def)
  ultimately show ?thesis using authors_sum(2) [OF ok world_okD(6) [OF W]] by (simp add: complete_def)
qed

lemma crier_step_ok:
  assumes ok: "market_plan_ok P" and E: "market_ok P E" and st: "crier_step P i E = Some E'"
  shows "market_ok P E'"
  using st
proof (cases rule: crier_cases)
  case arrive
  then show ?thesis by (rule crier_arrive [OF E])
next
  case go
  then show ?thesis by (rule crier_go [OF E])
next
  case (skip n)
  then show ?thesis using crier_skip [OF E skip(1) _ skip(3)] by (auto simp: turn_over_iff)
next
  case (speak n E1)
  note A = crier_author [OF ok E speak(1-3)]
  show ?thesis
  proof (cases "\<exists>k. authors E1 i = Turn k")
    case True
    then show ?thesis using crier_skip [OF A] speak(4) by auto
  next
    case False
    then have "E' = E1" using speak(4) by (simp split: author.splits)
    then show ?thesis using A(1) by simp
  qed
next
  case (over n)
  from over(2) obtain E1 where mv: "listener_moves P i id E = Some E1" and E': "E' = E1\<lparr>listeners := (listeners E1)(i :=
      (case listeners E1 i of Looping n \<Rightarrow> if n = total_expected P then Counted n else Speaking n | _ \<Rightarrow> listeners E1 i))\<rparr>"
    by (rule listener_moves_then)
  note L = crier_listener [OF ok E mv]
  have pok: "plan_ok P" using ok by (simp add: market_plan_ok_def)
  show ?thesis
  proof (cases "\<exists>n. listeners E1 i = Looping n")
    case True
    then obtain n where n: "listeners E1 i = Looping n" by blast
    have "complete P (machine E1)" if "n = total_expected P"
      using total_complete [OF pok market_okD(1) [OF L(1)], of i] n that by simp
    then show ?thesis using crier_relabel [OF L(1) _ n] L(2) n E' by auto
  next
    case False
    then have "(case listeners E1 i of Looping n \<Rightarrow> if n = total_expected P then Counted n else Speaking n
        | _ \<Rightarrow> listeners E1 i) = listeners E1 i" by (cases "listeners E1 i") auto
    then have "E' = E1" using E' by simp
    then show ?thesis using L(1) by simp
  qed
next
  case move
  from crier_listener(1) [OF ok E move(1)] show ?thesis .
qed


section \<open>The main thread\<close>

lemma market_boss:
  assumes E: "market_ok P E" and W: "world_ok P (seen_world P E')"
    and same: "authors E' = authors E" "listeners E' = listeners E" "arrived E' = arrived E"
    and g: "\<And>i. i < snd (joined P (boss E')) \<Longrightarrow> \<exists>n. listeners E i = Gone n"
  shows "market_ok P E'"
  using W market_okD(3) [OF E] barrier_same [OF market_okD(2) [OF E] same(1,3)] g
  by (simp add: market_ok_def same)

text \<open>Where \<open>main\<close> has started the last thread it is taken to be already past the loop.\<close>

lemma seen_after:
  assumes W: "world_ok P E"
  shows "world_ok P (seen_world P E)"
proof (cases "boss E = Enrolling (m_readers P) False")
  case True
  have "world_ok P (E\<lparr>boss := Hiring 0, handles := handles E\<rparr>)"
    by (rule boss_skip [OF W]) (use True world_okD(2) [OF W] in auto)
  then show ?thesis using True by (simp add: seen_world_def seen_def)
next
  case False
  then show ?thesis using W by (simp add: seen_world_def seen_def)
qed

definition start_crier :: "nat \<Rightarrow> 'a world \<Rightarrow> 'a world" where
  "start_crier i E = E\<lparr>listeners := (listeners E)(i := Ready), authors := (authors E)(i := AtBarrier)\<rparr>"

lemma start_crier_ok:
  assumes E: "enrolled P i E" and i: "i < n_writers P" and un: "authors E i = Unhired"
  shows "world_ok P (start_crier i E)"
proof -
  let ?E = "E\<lparr>listeners := (listeners E)(i := Ready)\<rparr>"
  have W: "world_ok P ?E" using E by (rule enrolled_spawn) simp
  have at: "author_at P i (authors E i) (threads (machine E) (writes_on i))" using world_okD(6) [OF W] by (simp add: authors_ok_def)
  have "world_ok P (?E\<lparr>authors := (authors ?E)(i := AtBarrier), handles := handles E, arrived := arrived E\<rparr>)"
    by (rule author_skip [OF W _ i]) (use at un in auto)
  moreover have "start_crier i E = ?E\<lparr>authors := (authors ?E)(i := AtBarrier), handles := handles E, arrived := arrived E\<rparr>"
    by (cases E) (simp add: start_crier_def)
  ultimately show ?thesis by (simp only:)
qed

lemma market_opening:
  assumes ok: "market_plan_ok P" and E: "market_ok P E" and o: "opens (boss E)" and more: "boss E \<noteq> Enrolling (m_readers P) False"
    and st: "opening_step P w start_crier E = Some E'"
  shows "market_ok P E'"
proof -
  have pok: "plan_ok P" and nm: "n_writers P = m_readers P" using ok by (simp_all add: market_plan_ok_def)
  have s: "seen_world P E = E" by (cases E) (use more in \<open>simp add: seen_world_def seen_def\<close>)
  then have W: "world_ok P E" using market_okD(1) [OF E] by simp
  note at = world_okD(2) [OF W]
  have less: "i < m_readers P" if "boss E = Enrolling i t" for i t
    using at more that by (cases t) auto
  have un: "authors E i = Unhired" if b: "boss E = Enrolling i True" for i
  proof -
    have "listeners E i = Absent" using listener_absent [OF world_okD(3) [OF W], of i] b by simp
    then show ?thesis using market_okD(3) [OF E, of i] by simp
  qed
  have W': "world_ok P E'"
  proof (rule opening_step_ok [OF pok W o _ st])
    show "i < m_readers P" if "boss E = Enrolling i False" for i using less that .
    show "world_ok P (start_crier i E1)"
      if "boss E = Enrolling i True" "enrolled P i E1" "authors E1 = authors E" for i E1
      using start_crier_ok [OF that(2)] less [OF that(1)] nm un [OF that(1)] that(3) by simp
  qed
  note S = seen_after [OF W']
  from st show ?thesis
  proof (cases rule: opening_frame)
    case (opens S' b)
    then have "opens b" using W' by (auto simp: world_ok_def)
    then have "joined P b = (0, 0)" by (cases b; simp)
    then show ?thesis using opens(1) by (intro market_boss [OF E S]) simp_all
  next
    case (spawns i S')
    have i: "passed (authors E' j) = passed (authors E j) \<and> beyond (authors E' j) = beyond (authors E j)" for j
      using un [OF spawns(1)] by (cases "j = i") (simp_all add: spawns(2) start_crier_def passed_def beyond_def)
    have "arrived E' = arrived E" by (simp add: spawns(2) start_crier_def)
    then have "barrier_ok P E'" using market_okD(2) [OF E] unfolding barrier_ok_def i [THEN conjunct1] i [THEN conjunct2] by metis
    moreover have "paired (authors E' j) (listeners E' j)" for j
      using market_okD(3) [OF E, of j] by (cases "j = i") (simp_all add: spawns(2) start_crier_def)
    moreover have "snd (joined P (boss E')) = 0" by (simp add: spawns(2) start_crier_def)
    ultimately show ?thesis using S by (simp add: market_ok_def)
  qed
qed

lemma market_boss_step_ok:
  assumes ok: "market_plan_ok P" and E: "market_ok P E" and st: "market_boss_step P E = Some E'"
  shows "market_ok P E'"
proof -
  note W = market_okD(1) [OF E]
  have pok: "plan_ok P" using ok by (simp add: market_plan_ok_def)
  have spawn: "(\<lambda>i E. E\<lparr>listeners := (listeners E)(i := Ready), authors := (authors E)(i := AtBarrier)\<rparr>) = start_crier"
    by (simp add: fun_eq_iff start_crier_def)
  have opens: "opening_step P 1 start_crier E = Some E' \<Longrightarrow> opens (boss E) \<Longrightarrow>
      boss E \<noteq> Enrolling (m_readers P) False \<Longrightarrow> market_ok P E'"
    by (rule market_opening [OF ok E])
  show ?thesis
  proof (cases "boss E")
    case (Enrolling i t)
    show ?thesis
    proof (cases "boss E = Enrolling (m_readers P) False")
      case False
      have "t \<or> i < m_readers P"
        using world_okD(2) [OF W] False Enrolling by (cases t) (auto simp: seen_def)
      then have "opening_step P 1 start_crier E = Some E'"
        using st Enrolling by (cases t) (auto simp: market_boss_step_def opening_step_def spawn)
      then show ?thesis using False Enrolling by (intro opens) simp_all
    next
      case True
      then obtain S' where e: "sys_exec (drops P) (0, Some (Operate Unregister)) (machine E) = Some S'"
        and E': "E' = E\<lparr>machine := S', boss := Dropping\<rparr>"
        using st by (auto simp: market_boss_step_def elim!: on_machineE)
      have l: "leaving (threads S' 0)" using e by (auto elim!: exec_callE call_step_cases)
      have e': "sys_exec (drops P) (0, Some (Operate Unregister)) (machine (seen_world P E)) = Some S'" using e by simp
      have "world_ok P ((seen_world P E)\<lparr>machine := S', boss := Dropping, handles := handles E\<rparr>)"
        by (rule boss_move [OF pok W e']) (use quiet_call [OF e] l True in \<open>auto simp: seen_def\<close>)
      moreover have "seen_world P E' = (seen_world P E)\<lparr>machine := S', boss := Dropping, handles := handles E\<rparr>"
        by (cases E) (simp add: E' seen_world_def seen_def)
      ultimately have "world_ok P (seen_world P E')" by (simp only:)
      then show ?thesis by (rule market_boss [OF E]) (simp_all add: E')
    qed
  next
    case Dropping
    let ?b = "\<lambda>S'. case threads S' 0 of Idle \<Rightarrow> JoinReader 0 | _ \<Rightarrow> Dropping"
    from Dropping obtain S' where e: "sys_exec (drops P) (0, None) (machine E) = Some S'"
      and E': "E' = E\<lparr>machine := S', boss := (case threads S' 0 of Idle \<Rightarrow> JoinReader 0 | _ \<Rightarrow> Dropping)\<rparr>"
      using st by (auto simp: market_boss_step_def elim!: on_machineE)
    have s: "seen_world P E = E" by (rule seen_idem [OF Dropping]) (simp add: seen_def)
    then have W': "world_ok P E" using W by simp
    have "leaving (threads (machine E) 0)" using world_okD(2) [OF W'] Dropping by simp
    note l = leaving_exec [OF world_okD(5) [OF W'] this e]
    have b: "?b S' = JoinReader 0 \<or> ?b S' = Dropping \<and> leaving (threads S' 0)" using l(1) by (cases "threads S' 0") auto
    then have "world_ok P (E\<lparr>machine := S', boss := ?b S', handles := handles E\<rparr>)"
      using l(2) Dropping by (intro boss_move [OF pok W' e]) auto
    then have "world_ok P E'" by (simp add: E')
    note w = seen_after [OF this]
    have "snd (joined P (boss E')) = 0" using b by (auto simp: E')
    then show ?thesis by (intro market_boss [OF E w]) (simp_all add: E')
  next
    case (JoinReader i)
    have s: "seen_world P E = E" by (rule seen_idem [OF JoinReader]) (simp add: seen_def)
    then have W': "world_ok P E" using W by simp
    show ?thesis
    proof (cases "i < m_readers P")
      case True
      then obtain n where r: "listeners E i = Gone n" and E': "E' = E\<lparr>boss := JoinReader (Suc i), handles := handles E\<rparr>"
        using st JoinReader world_not_failed [OF W'] by (auto simp: market_boss_step_def split: listener.splits)
      have "world_ok P E'" unfolding E' by (rule boss_skip [OF W']) (use JoinReader in auto)
      note w = seen_after [OF this]
      show ?thesis
        by (rule market_boss [OF E w]) (use market_okD(4) [OF E] JoinReader r in \<open>auto simp: E' less_Suc_eq\<close>)
    next
      case False
      then have E': "E' = E\<lparr>boss := Done, handles := handles E\<rparr>" using st JoinReader by (auto simp: market_boss_step_def)
      have "world_ok P E'" unfolding E' by (rule boss_skip [OF W']) (use JoinReader in auto)
      note w = seen_after [OF this]
      show ?thesis
        by (rule market_boss [OF E w]) (use market_okD(4) [OF E] JoinReader False in \<open>auto simp: E'\<close>)
    qed
  next
    case Begin
    then show ?thesis using st by (intro opens) (simp_all add: market_boss_step_def spawn)
  next
    case Opening
    then show ?thesis using st by (intro opens) (simp_all add: market_boss_step_def spawn)
  next
    case Opened
    then show ?thesis using st by (intro opens) (simp_all add: market_boss_step_def spawn)
  next
    case Suspending
    then show ?thesis using st by (intro opens) (simp_all add: market_boss_step_def spawn)
  qed (use st in \<open>simp_all add: market_boss_step_def opening_step_def\<close>)
qed

lemma market_step_ok: "market_plan_ok P \<Longrightarrow> market_ok P E \<Longrightarrow> market_step P a E = Some E' \<Longrightarrow> market_ok P E'"
  by (cases a) (auto intro: market_boss_step_ok crier_step_ok)

lemma market_start: "market_plan_ok P \<Longrightarrow> market_ok P (world_start P)"
  using seen_after [OF world_start_ok, of P]
  by (simp add: market_plan_ok_def market_ok_def) (simp add: barrier_ok_def world_start_def passed_def beyond_def)

lemma market_run: "market_plan_ok P \<Longrightarrow> market_ok P E \<Longrightarrow> world_run market_step P as E = Some E' \<Longrightarrow> market_ok P E'"
  by (induction as arbitrary: E) (auto split: option.splits dest: market_step_ok)

text \<open>
  C0: where every thread writes and reads, nothing panics in any interleaving, what a thread has printed
  are the first messages of the one order in which they are published, and the count with
  which a thread decides to stop is exact: a thread that has stopped has received as many
  messages as all threads sent together and has printed them all, each thread's own in the order in
  which it sent them.  When \<open>main\<close> is done every thread has stopped.
\<close>
theorem market_threads_deliver:
  assumes "market_plan_ok P" and "world_run market_step P as (world_start P) = Some E"
  shows "boss E \<noteq> Aborted \<and> listeners E i \<noteq> Failed
    \<and> (prints P \<longrightarrow> (\<exists>k. heard E i = map Init (take k (log (machine E)))))
    \<and> (boss E = Done \<and> i < m_readers P \<longrightarrow> (\<exists>n. listeners E i = Gone n))
    \<and> (\<forall>n. listeners E i = Gone n \<longrightarrow> unat n = n_writers P * messages_per_writer P
         \<and> length (log (machine E)) = n_writers P * messages_per_writer P
         \<and> map snd (by_author E) = log (machine E)
         \<and> (prints P \<longrightarrow> heard E i = map Init (log (machine E)))
         \<and> (\<forall>j < n_writers P. map snd (filter (\<lambda>m. fst m = j) (by_author E)) = all_rounds P j (rounds P)))"
proof -
  have ok: "plan_ok P" using assms(1) by (simp add: market_plan_ok_def)
  note M = market_run [OF assms(1) market_start [OF assms(1)] assms(2)]
  note W = market_okD(1) [OF M]
  have A: "map snd (by_author E) = log (machine E)" using world_okD(6) [OF W] by (simp add: authors_ok_def)
  then have len: "length (log (machine E)) = length (by_author E)" by (metis length_map)
  have "listeners E i \<noteq> Failed" "seen P (boss E) \<noteq> Aborted" using world_not_failed [OF W, of i] by simp_all
  then have ok': "boss E \<noteq> Aborted \<and> listeners E i \<noteq> Failed" by (auto simp: seen_def)
  have "\<exists>n. listeners E i = Gone n" if "boss E = Done" "i < m_readers P"
    using market_okD(4) [OF M, of i] that by simp
  then show ?thesis using ok' A len heard_prefix [OF W, of i] gone_has_all [OF ok W, of i] by auto
qed

end
