(* ===== verification/Example_Progress.thy ===== *)
theory Example_Progress
  imports Example_Market
begin

text \<open>
  Which threads of the example programs can take a step: all that are not waiting for a thread they
  join or for the barrier.
\<close>

section \<open>Steps that the machine offers\<close>

lemma exec_moves: "sys_exec nd (t, None) S \<noteq> None"
  by (simp add: sys_exec_eq Let_def)

lemma exec_calls:
  "\<lbrakk>call_step c (threads S t) (shared S) \<noteq> None; \<And>g. c \<noteq> Operate (ResumeAt g)\<rbrakk> \<Longrightarrow> sys_exec nd (t, Some c) S \<noteq> None"
  by (auto simp: sys_exec_eq Let_def call_allowed_def split: call.splits reader_op.splits)

lemma on_machine_moves: "sys_exec (drops P) e (machine E) \<noteq> None \<Longrightarrow> on_machine P e f E \<noteq> None"
  by (simp add: on_machine_def)

lemma rests_calls: "rests x \<Longrightarrow> oper \<in> {GetGen, Suspend, Unregister} \<Longrightarrow> call_step (Operate oper) x s \<noteq> None"
  by (auto simp: call_step_def elim!: rests.elims)

lemma publish_offered: "length ms = unat (gen_dist_msb_masked en st) \<Longrightarrow> call_step Publish (Writing st en ms) s \<noteq> None"
  by (auto simp: call_step_def split: prod.splits sum.splits)

lemma author_op_moves:
  assumes at: "author_at P j a (threads S (writes_on j))" and a: "beyond a" "a \<noteq> Retired"
  shows "author_op P j a S \<noteq> None"
proof (cases a)
  case (Turn k)
  have "sys_exec (drops P) (writes_on j, Some (Reserve False (of_nat (batch_size P)))) S \<noteq> None"
    by (rule exec_calls) (use at Turn in \<open>simp_all add: call_step_def\<close>)
  then show ?thesis by (simp add: Turn)
next
  case (Grabbing k)
  then show ?thesis using exec_moves by simp
next
  case (Filling k i)
  have "sys_exec (drops P) (writes_on j, Some (Write (message P j k i))) S \<noteq> None" if "i < batch_size P"
    by (rule exec_calls) (use at Filling that in \<open>auto simp: call_step_def\<close>)
  then show ?thesis by (simp add: Filling)
next
  case (Publishing k)
  have "sys_exec (drops P) (writes_on j, Some Publish) S \<noteq> None"
  proof (rule exec_calls)
    obtain st en where "threads S (writes_on j) = Writing st en (round_of P j k)" "unat (gen_dist_msb_masked en st) = batch_size P"
      using at Publishing by auto
    then show "call_step Publish (threads S (writes_on j)) (shared S) \<noteq> None" using publish_offered [of "round_of P j k" en st "shared S"] by (simp add: round_of_def)
  qed simp
  then show ?thesis by (simp add: Publishing)
qed (use a in \<open>simp_all add: beyond_def passed_def\<close>)

fun waits :: "listener \<Rightarrow> bool" where
  "waits Absent = True"
| "waits Ready = True"
| "waits (Speaking n) = True"
| "waits (Gone n) = True"
| "waits l = False"

lemma listener_op_moves:
  assumes ok: "listener_ok P i l hs S" and l: "\<not> waits l"
  shows "listener_op P i w l S \<noteq> None"
proof -
  let ?x = "threads S (reads_on i)"
  note at = listener_okD(1) [OF ok]
  have rest: "sys_exec nd (reads_on i, Some (Operate oper)) S \<noteq> None"
    if "rests ?x" "oper \<in> {GetGen, Suspend, Unregister}" for nd oper
    by (rule exec_calls) (use rests_calls [OF that] that in auto)
  have ends: "sys_exec nd (reads_on i, Some (EndSlice armed)) S \<noteq> None" if "?x = Slice r st en" for nd armed r st en
    by (rule exec_calls) (use that in \<open>simp_all add: call_step_def\<close>)
  show ?thesis
  proof (cases l)
    case (Took n again)
    then show ?thesis using at ends by auto
  next
    case (Holding n)
    then have "threads S (cleans_on i) = Idle" using at by simp
    then have "sys_exec (drops P) (cleans_on i, Some Cleanup) S \<noteq> None" by (intro exec_calls) (simp_all add: call_step_def)
    then show ?thesis by (simp add: Holding)
  next
    case (Showing n k)
    then have "has_slice ?x" using at by simp
    then show ?thesis using ends by (cases ?x) (auto simp: Showing Let_def)
  next
    case (Counted n)
    then show ?thesis using at rest [of Unregister] by simp
  next
    case (Looping n)
    then show ?thesis using at rest [of GetGen] by simp
  next
    case (Checking n)
    then show ?thesis using at rest [of GetGen] by simp
  qed (use at l exec_moves in simp_all)
qed

lemma opening_moves:
  assumes W: "world_ok P E" and o: "opens (boss E)" and more: "\<And>i. boss E = Enrolling i False \<Longrightarrow> i < m_readers P"
  shows "opening_step P w spawn E \<noteq> None"
proof -
  let ?S = "machine E"
  note at = world_okD(2) [OF W]
  have reg: "sys_exec (drops P) (t, Some (Register sd)) ?S \<noteq> None" if "threads ?S t = Idle" for t sd
    by (rule exec_calls) (use that in \<open>simp_all add: call_step_def\<close>)
  show ?thesis
  proof (cases "boss E")
    case Begin
    then show ?thesis using at reg by (simp add: opening_step_def on_machine_def)
  next
    case Opened
    have "sys_exec (drops P) (0, Some (Operate Suspend)) ?S \<noteq> None"
      by (rule exec_calls) (use at Opened rests_calls [of _ Suspend] in auto)
    then show ?thesis using Opened by (simp add: opening_step_def on_machine_def)
  next
    case (Enrolling i t)
    show ?thesis
    proof (cases t)
      case False
      have "threads ?S (reads_on i) = Idle"
        using listener_absent [OF world_okD(3) [OF W], of i] Enrolling False by simp
      from reg [OF this] show ?thesis using Enrolling False by (simp add: opening_step_def on_machine_def)
    next
      case True
      then show ?thesis using Enrolling exec_moves by (simp add: opening_step_def on_machine_def)
    qed
  qed (use o exec_moves in \<open>simp_all add: opening_step_def on_machine_def\<close>)
qed

section \<open>Separate readers and writers\<close>

text \<open>The barrier, where there is one.\<close>

definition gate_ok :: "'a plan \<Rightarrow> 'a world \<Rightarrow> bool" where
  "gate_ok P E \<longleftrightarrow> (if barrier P then arrived E = card {j. j < n_writers P \<and> passed (authors E j)}
     else \<forall>j. authors E j \<noteq> AtBarrier \<and> authors E j \<noteq> Released)"

lemma author_op_passed: "author_op P j a S = Some (a', S') \<Longrightarrow> passed a \<and> passed a' \<and> a' \<noteq> Released"
  by (cases a) (auto simp: passed_def split: pc.splits if_splits)

lemma gate_same:
  assumes "gate_ok P E" and "arrived E' = arrived E" and "authors E' = (authors E)(j := a)"
    and "passed a = passed (authors E j)" and "a \<noteq> AtBarrier" and "a \<noteq> Released"
  shows "gate_ok P E'"
proof -
  have "passed (authors E' i) = passed (authors E i)" for i using assms(3,4) by simp
  then show ?thesis using assms by (simp add: gate_ok_def split: if_splits)
qed

lemma opening_authors:
  "opening_step P w spawn E = Some E' \<Longrightarrow> (\<And>i E. arrived (spawn i E) = arrived E \<and> authors (spawn i E) = authors E) \<Longrightarrow>
   arrived E' = arrived E \<and> authors E' = authors E"
  by (erule opening_frame) auto

lemma boss_authors:
  assumes "boss_step P E = Some E'"
  shows "arrived E' = arrived E \<and> (authors E' = authors E \<or>
    (\<exists>j. boss E = Hiring j \<and> j < n_writers P \<and> authors E' = (authors E)(j := if barrier P then AtBarrier else Turn 0)))"
proof -
  note op = opening_authors [where P = P and w = 0]
  show ?thesis
  proof (cases "boss E")
    case (Enrolling i t)
    then show ?thesis using assms op [where spawn = "\<lambda>i E. E" and E = E and E' = E']
        op [where spawn = "\<lambda>i E. E\<lparr>listeners := (listeners E)(i := Looping 0)\<rparr>" and E = E and E' = E']
      by (cases t) (auto simp: boss_step_def split: if_splits)
  next
    case (JoinReader i)
    then show ?thesis using assms by (auto simp: boss_step_def split: if_splits listener.splits)
  qed (use assms op [where spawn = "\<lambda>i E. E\<lparr>listeners := (listeners E)(i := Looping 0)\<rparr>" and E = E and E' = E'] in
      \<open>auto simp: boss_step_def on_machine_def split: if_splits\<close>)
qed

lemma gate_step:
  assumes E: "office_ok P E" and G: "gate_ok P E" and st: "world_step P a E = Some E'"
  shows "gate_ok P E'"
proof (cases a)
  case Boss
  then have "boss_step P E = Some E'" using st by simp
  from boss_authors [OF this] have f: "arrived E' = arrived E" and f2: "authors E' = authors E \<or>
    (\<exists>j. boss E = Hiring j \<and> authors E' = (authors E)(j := if barrier P then AtBarrier else Turn 0))" by auto
  from f2 show ?thesis
  proof
    assume "authors E' = authors E"
    then show ?thesis using f G by (simp add: gate_ok_def)
  next
    assume "\<exists>j. boss E = Hiring j \<and> authors E' = (authors E)(j := if barrier P then AtBarrier else Turn 0)"
    then obtain j where j: "boss E = Hiring j" "authors E' = (authors E)(j := if barrier P then AtBarrier else Turn 0)" by blast
    have un: "authors E j = Unhired" using office_okD(2) [OF E, of j] j(1) by simp
    show ?thesis
    proof (cases "barrier P")
      case True
      then have "passed (authors E' i) = passed (authors E i)" for i using j(2) un by (simp add: passed_def)
      then show ?thesis using True f G by (simp add: gate_ok_def)
    next
      case False
      then show ?thesis using j(2) G by (simp add: gate_ok_def)
    qed
  qed
next
  case (Author j)
  then have "author_step P j E = Some E'" using st by simp
  then show ?thesis
  proof (cases rule: author_step_cases)
    case wait
    then have b: "barrier P" using G by (auto simp: gate_ok_def split: if_splits)
    have A: "authors_ok P E" by (rule world_okD(6) [OF office_okD(1) [OF E]])
    have j: "j < n_writers P" using A wait(1) by (auto simp: authors_ok_def not_less [symmetric])
    let ?A = "{j. j < n_writers P \<and> passed (authors E j)}"
    have "{j. j < n_writers P \<and> passed (authors E' j)} = insert j ?A" using j by (auto simp: wait(2) passed_def)
    moreover have "j \<notin> ?A" using wait(1) by (simp add: passed_def)
    ultimately have "card {j. j < n_writers P \<and> passed (authors E' j)} = Suc (card ?A)" by simp
    moreover have "arrived E' = Suc (arrived E)" by (simp add: wait(2))
    ultimately show ?thesis using G b by (simp add: gate_ok_def)
  next
    case go
    show ?thesis by (rule gate_same [OF G, of _ j "Turn 0"]) (simp_all add: go passed_def)
  next
    case (retire k)
    show ?thesis by (rule gate_same [OF G, of _ j Retired]) (simp_all add: retire passed_def)
  next
    case move
    then obtain a S' where op: "author_op P j (authors E j) (machine E) = Some (a, S')"
      and "authors E' = (authors E)(j := a)" "arrived E' = arrived E" by (auto simp: author_moves_def)
    from author_op_passed [OF op] this(2,3) show ?thesis
      by (intro gate_same [OF G, of _ j a]) (auto simp: passed_def)
  qed
next
  case (Listener i)
  then show ?thesis using st G by (auto simp: listener_moves_def gate_ok_def)
qed

lemma gate_run:
  assumes ok: "plan_ok P"
  shows "office_ok P E \<Longrightarrow> gate_ok P E \<Longrightarrow> world_run world_step P as E = Some E' \<Longrightarrow> gate_ok P E'"
proof (induction as arbitrary: E)
  case (Cons a as)
  then obtain E1 where "world_step P a E = Some E1" "world_run world_step P as E1 = Some E'" by (auto split: option.splits)
  then show ?case using Cons world_step_ok [OF ok] gate_step by metis
qed simp

lemma gate_start: "gate_ok P (world_start P)"
  by (simp add: gate_ok_def world_start_def passed_def)

lemma boss_moves:
  assumes E: "office_ok P E" and ok: "plan_ok P"
  shows "boss_step P E = None \<longleftrightarrow> boss E = Done \<or> (\<exists>j < n_writers P. boss E = JoinWriter j \<and> authors E j \<noteq> Retired)
    \<or> (\<exists>i < m_readers P. boss E = JoinReader i \<and> (\<forall>n. listeners E i \<noteq> Gone n))"
proof -
  note W = office_okD(1) [OF E]
  note at = world_okD(2) [OF W]
  show ?thesis
  proof (cases "opens (boss E) \<and> (\<forall>i. boss E = Enrolling i False \<longrightarrow> i < m_readers P)")
    case True
    then have "opening_step P 0 spawn E \<noteq> None" for spawn using opening_moves [OF W] by blast
    moreover have "boss E \<noteq> Done" "\<And>j. boss E \<noteq> JoinWriter j" "\<And>j. boss E \<noteq> JoinReader j" using True by auto
    ultimately show ?thesis using True by (cases "boss E") (auto simp: boss_step_def split: bool.split)
  next
    case False
    have unreg: "sys_exec (drops P) (0, Some (Operate Unregister)) (machine E) \<noteq> None" if "rests (threads (machine E) 0)"
      by (rule exec_calls) (use rests_calls [OF that] in auto)
    show ?thesis
    proof (cases "boss E")
      case (Hiring j)
      then show ?thesis using at unreg by (simp add: boss_step_def on_machine_def)
    next
      case (JoinReader i)
      then show ?thesis using world_not_failed [OF W, of i]
        by (auto simp: boss_step_def split: listener.splits if_splits)
    qed (use False at ok exec_moves in \<open>auto simp: boss_step_def opening_step_def on_machine_def plan_ok_def\<close>)
  qed
qed

lemma author_moves_always:
  assumes A: "authors_ok P E" and b: "beyond (authors E j)" "authors E j \<noteq> Retired"
  shows "author_moves P j E \<noteq> None"
  using author_op_moves [OF _ b, of P j] A by (simp add: author_moves_def authors_ok_def)

lemma author_step_None:
  assumes A: "authors_ok P E"
  shows "author_step P j E = None \<longleftrightarrow>
    authors E j = Unhired \<or> authors E j = Retired \<or> authors E j = Released \<and> arrived E < n_writers P"
  using author_moves_always [OF A, of j]
  by (cases "authors E j") (auto simp: author_step_def beyond_def passed_def author_moves_def)

lemma listener_moves_always:
  assumes W: "world_ok P E"  and l: "\<not> waits (listeners E i)"
  shows "listener_moves P i f E \<noteq> None"
proof -
  have "listeners E i \<noteq> Absent" using l by (metis waits.simps(1))
  then have "listener_ok P i (listeners E i) (heard E i) (machine E)"
    using listener_present [OF world_okD(3) [OF W], of i] by simp
  from listener_op_moves [OF this l] show ?thesis by (simp add: listener_moves_def)
qed

text \<open>
  C0: no thread of such a program gets stuck in an operation.  In every reachable state each thread can take its next
  step, except for a reader's thread that is not started or has ended, a writer's thread that is not
  started, has ended, or waits at the barrier for threads that have not arrived, and \<open>main\<close> when it
  is done or joins a thread that has not ended; and until \<open>main\<close> is done some thread can always step.
\<close>
theorem separate_threads_never_stuck:
  assumes ok: "plan_ok P" and run: "world_run world_step P as (world_start P) = Some E"
  shows "(world_step P (Listener i) E = None \<longleftrightarrow> listeners E i = Absent \<or> (\<exists>n. listeners E i = Gone n))
    \<and> (world_step P (Author j) E = None \<longleftrightarrow>
         authors E j = Unhired \<or> authors E j = Retired \<or> authors E j = Released \<and> arrived E < n_writers P)
    \<and> (world_step P Boss E = None \<longleftrightarrow> boss E = Done \<or> (\<exists>j < n_writers P. boss E = JoinWriter j \<and> authors E j \<noteq> Retired)
         \<or> (\<exists>i < m_readers P. boss E = JoinReader i \<and> (\<forall>n. listeners E i \<noteq> Gone n)))
    \<and> (boss E = Done \<or> (\<exists>a. world_step P a E \<noteq> None))"
proof -
  note O = office_run [OF ok office_start [OF ok] run]
  note W = office_okD(1) [OF O] and G = gate_run [OF ok office_start [OF ok] gate_start run]
  note A = world_okD(6) [OF W]
  have L: "world_step P (Listener i) E = None \<longleftrightarrow> listeners E i = Absent \<or> (\<exists>n. listeners E i = Gone n)" for i
    using listener_moves_always [OF W, of i id] office_okD(4) [OF O, of i]
    by (cases "listeners E i") (auto simp: listener_moves_def)
  have J: "world_step P (Author j) E = None \<longleftrightarrow>
      authors E j = Unhired \<or> authors E j = Retired \<or> authors E j = Released \<and> arrived E < n_writers P" for j
    using author_step_None [OF A] by simp
  have B: "world_step P Boss E = None \<longleftrightarrow> boss E = Done \<or> (\<exists>j < n_writers P. boss E = JoinWriter j \<and> authors E j \<noteq> Retired)
         \<or> (\<exists>i < m_readers P. boss E = JoinReader i \<and> (\<forall>n. listeners E i \<noteq> Gone n))"
    using boss_moves [OF O ok] by simp
  have "\<exists>a. world_step P a E \<noteq> None" if nd: "boss E \<noteq> Done"
  proof (rule ccontr)
    assume "\<not> (\<exists>a. world_step P a E \<noteq> None)"
    then have none: "world_step P a E = None" for a by simp
    from none [of Boss] B nd consider (w) j where "j < n_writers P" "boss E = JoinWriter j" "authors E j \<noteq> Retired"
      | (r) i where "i < m_readers P" "boss E = JoinReader i" "\<forall>n. listeners E i \<noteq> Gone n" by blast
    then show False
    proof cases
      case w
      have h: "authors E k \<noteq> Unhired" if "k < n_writers P" for k
        using office_okD(2) [OF O, of k] w(2) that by simp
      then have rel: "authors E j = Released" "arrived E < n_writers P" using none [of "Author j"] J [of j] w by auto
      then have "barrier P" using G by (auto simp: gate_ok_def split: if_splits)
      moreover have "passed (authors E k)" if "k < n_writers P" for k
        using none [of "Author k"] J [of k] h [OF that] by (auto simp: passed_def)
      then have "{k. k < n_writers P \<and> passed (authors E k)} = {..<n_writers P}" by auto
      ultimately show False using G rel(2) by (simp add: gate_ok_def)
    next
      case r
      have "listeners E i = Absent" using none [of "Listener i"] L [of i] r(3) by auto
      then show False using listeners_okD [OF world_okD(3) [OF W], of i] r by (simp add: placed_in)
    qed
  qed
  then show ?thesis using L [of i] J [of j] B by blast
qed


section \<open>Readers that are also writers\<close>

text \<open>The points of \<open>main\<close> that only the other programs have.\<close>

fun foreign :: "boss \<Rightarrow> bool" where
  "foreign (Hiring j) = True"
| "foreign Closing = True"
| "foreign (JoinWriter j) = True"
| "foreign b = False"

lemma opening_own:
  "opening_step P w spawn E = Some E' \<Longrightarrow> (\<And>i E. boss (spawn i E) = boss E) \<Longrightarrow> \<not> foreign (boss E')"
  by (erule opening_frame; (elim disjE)?; cases "boss E'") auto

lemma crier_boss: "crier_step P i E = Some E' \<Longrightarrow> boss E' = boss E"
  by (erule crier_cases) (auto dest: author_moves_keep listener_moves_keep split: author.splits)

lemma market_opens:
  assumes "\<And>i. boss E \<noteq> Enrolling i False" and "boss E \<noteq> Dropping" and "\<And>i. boss E \<noteq> JoinReader i"
  shows "market_boss_step P E = opening_step P 1 start_crier E"
proof -
  have spawn: "(\<lambda>i E. E\<lparr>listeners := (listeners E)(i := Ready), authors := (authors E)(i := AtBarrier)\<rparr>) = start_crier"
    by (simp add: fun_eq_iff start_crier_def)
  show ?thesis
  proof (cases "boss E")
    case (Enrolling i t)
    then show ?thesis using assms(1) by (cases t) (simp_all add: market_boss_step_def spawn)
  qed (use assms in \<open>simp_all add: market_boss_step_def spawn\<close>)
qed

lemma market_own:
  assumes "market_step P a E = Some E'" and "\<not> foreign (boss E)"
  shows "\<not> foreign (boss E')"
proof (cases a)
  case Boss
  have st: "market_boss_step P E = Some E'" using assms(1) Boss by simp
  show ?thesis
  proof (cases "(\<exists>i. boss E = Enrolling i False) \<or> boss E = Dropping \<or> (\<exists>i. boss E = JoinReader i)")
    case True
    then consider (e) i where "boss E = Enrolling i False" | (d) "boss E = Dropping" | (j) i where "boss E = JoinReader i" by blast
    then show ?thesis
    proof cases
      case e
      show ?thesis
      proof (cases "i < m_readers P")
        case True
        then obtain S' where "E' = E\<lparr>machine := S', boss := Enrolling i True\<rparr>"
          using st e by (auto simp: market_boss_step_def opening_step_def elim!: on_machineE)
        then show ?thesis by simp
      next
        case False
        then obtain S' where "E' = E\<lparr>machine := S', boss := Dropping\<rparr>"
          using st e by (auto simp: market_boss_step_def elim!: on_machineE)
        then show ?thesis by simp
      qed
    next
      case d
      then obtain S' where E': "E' = E\<lparr>machine := S', boss := (case threads S' 0 of Idle \<Rightarrow> JoinReader 0 | _ \<Rightarrow> Dropping)\<rparr>"
        using st by (auto simp: market_boss_step_def elim!: on_machineE)
      show ?thesis by (cases "threads S' 0") (simp_all add: E')
    next
      case j
      then show ?thesis using st by (auto simp: market_boss_step_def split: if_splits listener.splits)
    qed
  next
    case False
    then have "opening_step P 1 start_crier E = Some E'" using st market_opens [of E P] by simp
    then show ?thesis by (rule opening_own) (simp add: start_crier_def)
  qed
next
  case (Listener i)
  then show ?thesis using assms crier_boss by fastforce
qed (use assms(1) in simp)

lemma market_own_run: "world_run market_step P as E = Some E' \<Longrightarrow> \<not> foreign (boss E) \<Longrightarrow> \<not> foreign (boss E')"
  by (induction as arbitrary: E) (auto split: option.splits dest: market_own)

lemma market_boss_moves:
  assumes ok: "market_plan_ok P" and E: "market_ok P E" and own: "\<not> foreign (boss E)"
  shows "market_boss_step P E = None \<longleftrightarrow> boss E = Done \<or> (\<exists>i < m_readers P. boss E = JoinReader i \<and> (\<forall>n. listeners E i \<noteq> Gone n))"
proof -
  note W = market_okD(1) [OF E]
  have unreg: "sys_exec (drops P) (0, Some (Operate Unregister)) (machine E) \<noteq> None" if "rests (threads (machine E) 0)"
    by (rule exec_calls) (use rests_calls [OF that] in auto)
  show ?thesis
  proof (cases "boss E = Enrolling (m_readers P) False")
    case True
    then have "rests (threads (machine E) 0)" using world_okD(2) [OF W] by (simp add: seen_def)
    from unreg [OF this] show ?thesis using True by (simp add: market_boss_step_def on_machine_def)
  next
    case False
    have s: "seen_world P E = E" by (cases E) (use False in \<open>simp add: seen_world_def seen_def\<close>)
    then have W': "world_ok P E" using W by simp
    note at = world_okD(2) [OF W']
    show ?thesis
    proof (cases "opens (boss E)")
      case True
      have less: "i < m_readers P" if "boss E = Enrolling i False" for i using at that False by auto
      have "opening_step P 1 spawn E \<noteq> None" for spawn using opening_moves [OF W' True less] .
      then show ?thesis using True less by (cases "boss E") (auto simp: market_boss_step_def split: bool.split)
    next
      case closed: False
      show ?thesis
      proof (cases "boss E")
        case (JoinReader i)
        then show ?thesis using world_not_failed [OF W', of i]
          by (auto simp: market_boss_step_def split: listener.splits if_splits)
      qed (use closed own at exec_moves in \<open>simp_all add: market_boss_step_def opening_step_def on_machine_def\<close>)
    qed
  qed
qed

lemma crier_moves:
  assumes ok: "market_plan_ok P" and E: "market_ok P E"
  shows "crier_step P i E = None \<longleftrightarrow> listeners E i = Absent \<or> (\<exists>n. listeners E i = Gone n)
    \<or> listeners E i = Ready \<and> authors E i = Released \<and> arrived E < n_writers P"
proof -
  note W = market_okD(1) [OF E] and pair = market_okD(3) [OF E, of i]
  have A: "authors_ok P E" using world_okD(6) [OF W] by (simp add: authors_ok_def)
  have L: "listener_moves P i f E \<noteq> None" if "\<not> waits (listeners E i)" for f
    using listener_moves_always [OF W, of i f] that
    by (simp add: seen_world_def listener_moves_boss)
  show ?thesis
  proof (cases "listeners E i")
    case Ready
    then show ?thesis using pair by (auto simp: crier_step_def)
  next
    case (Speaking n)
    then have "author_moves P i E \<noteq> None" using pair by (intro author_moves_always [OF A]) auto
    then show ?thesis using Speaking by (auto simp: crier_step_def)
  next
    case (Ending n)
    then show ?thesis using L by (simp add: crier_step_def)
  next
    case Failed
    then show ?thesis using world_not_failed [OF W, of i] by simp
  qed (use L in \<open>simp_all add: crier_step_def listener_moves_def\<close>)
qed

text \<open>
  C0: the same where every thread writes and reads: a thread cannot take its next step only when it is
  not started, has ended, or waits at the barrier for threads that have not arrived, and \<open>main\<close>
  only when it is done or joins a thread that has not ended; until \<open>main\<close> is done some thread can
  always step.
\<close>
theorem market_threads_never_stuck:
  assumes ok: "market_plan_ok P" and run: "world_run market_step P as (world_start P) = Some E"
  shows "(market_step P (Listener i) E = None \<longleftrightarrow> listeners E i = Absent \<or> (\<exists>n. listeners E i = Gone n)
         \<or> listeners E i = Ready \<and> authors E i = Released \<and> arrived E < n_writers P)
    \<and> (market_step P Boss E = None \<longleftrightarrow>
         boss E = Done \<or> (\<exists>i < m_readers P. boss E = JoinReader i \<and> (\<forall>n. listeners E i \<noteq> Gone n)))
    \<and> (boss E = Done \<or> (\<exists>a. market_step P a E \<noteq> None))"
proof -
  note M = market_run [OF ok market_start [OF ok] run]
  note W = market_okD(1) [OF M] and Q = market_okD(2) [OF M]
  have own: "\<not> foreign (boss E)" by (rule market_own_run [OF run]) (simp add: world_start_def)
  have L: "market_step P (Listener i) E = None \<longleftrightarrow> listeners E i = Absent \<or> (\<exists>n. listeners E i = Gone n)
      \<or> listeners E i = Ready \<and> authors E i = Released \<and> arrived E < n_writers P" for i
    using crier_moves [OF ok M] by simp
  have B: "market_step P Boss E = None \<longleftrightarrow>
      boss E = Done \<or> (\<exists>i < m_readers P. boss E = JoinReader i \<and> (\<forall>n. listeners E i \<noteq> Gone n))"
    using market_boss_moves [OF ok M own] by simp
  have "\<exists>a. market_step P a E \<noteq> None" if nd: "boss E \<noteq> Done"
  proof (rule ccontr)
    assume "\<not> (\<exists>a. market_step P a E \<noteq> None)"
    then have none: "market_step P a E = None" for a by simp
    from none [of Boss] B nd obtain i where r: "i < m_readers P" "boss E = JoinReader i" "\<forall>n. listeners E i \<noteq> Gone n" by blast
    have here: "listeners E k \<noteq> Absent" if "k < m_readers P" for k
      using listeners_okD [OF world_okD(3) [OF W], of k] r(2) that by (simp add: placed_in seen_def)
    have rel: "arrived E < n_writers P" using none [of "Listener i"] L [of i] r here [OF r(1)] by auto
    have "passed (authors E k)" if "k < n_writers P" for k
    proof -
      have k: "k < m_readers P" using that ok by (simp add: market_plan_ok_def)
      from none [of "Listener k"] L [of k] here [OF k] market_okD(3) [OF M, of k] show ?thesis
        by (auto simp: passed_def)
    qed
    then have "{k. k < n_writers P \<and> passed (authors E k)} = {..<n_writers P}" by auto
    then show False using Q rel by (simp add: barrier_ok_def)
  qed
  then show ?thesis using L [of i] B by blast
qed

end
