(* ===== verification/Example_Programs.thy ===== *)
theory Example_Programs
  imports Example_Progress
begin

text \<open>
  The programs themselves: their constants, that they meet the conditions of the theorems, and
  small runs of the same programs.
\<close>

section \<open>The programs\<close>

text \<open>\<open>format!("{}", n)\<close>.\<close>

fun decimal :: "nat \<Rightarrow> string" where
  "decimal n = (if n < 10 then [char_of (48 + n)] else decimal (n div 10) @ [char_of (48 + n mod 10)])"

declare decimal.simps [simp del]

text \<open>\<open>usize::next_power_of_two\<close>, for arguments it does not overflow on.\<close>

function power_from :: "nat \<Rightarrow> nat \<Rightarrow> nat" where
  "power_from n p = (if n \<le> p \<or> p = 0 then p else power_from n (2 * p))"
  by auto
termination by (relation "measure (\<lambda>(n, p). n - p)") auto

declare power_from.simps [simp del]

definition next_power_of_two :: "nat \<Rightarrow> nat" where
  "next_power_of_two n = power_from n 1"

text \<open>\<open>s\<close> are the seeds; \<open>create_reader\<close> of the documentation draws them.\<close>

definition documented_square :: "(nat \<Rightarrow> gen) \<Rightarrow> string plan" where
  "documented_square s =
     \<lparr>n_writers = 10, m_readers = 10, messages_per_writer = 8, batch_size = 1, ring_len = 20, table_len = 16,
      barrier = False, checks = True, prints = True, counts = False, drops = True, seed = s,
      message = (\<lambda>j k i. ''hello from writer '' @ decimal j @ '' ('' @ decimal k @ '')'')\<rparr>"

definition documented_market :: "(nat \<Rightarrow> gen) \<Rightarrow> string plan" where
  "documented_market s =
     \<lparr>n_writers = 20, m_readers = 20, messages_per_writer = 8, batch_size = 1, ring_len = 20, table_len = 32,
      barrier = True, checks = False, prints = True, counts = False, drops = True, seed = s,
      message = (\<lambda>j k i. ''hello from thread '' @ decimal j @ '' ('' @ decimal k @ '')'')\<rparr>"

definition hello_world_main :: "actor list \<Rightarrow> string world option" where
  "hello_world_main as =
     (let P = documented_square (\<lambda>i. 100 + of_nat i) in world_run world_step P as (world_start P))"

definition readers_are_also_writers_main :: "actor list \<Rightarrow> string world option" where
  "readers_are_also_writers_main as =
     (let P = documented_market (\<lambda>i. 100 + of_nat i) in world_run market_step P as (world_start P))"

text \<open>
  The three programs that count: the constants are \<open>N_WRITERS\<close>, \<open>M_READERS\<close>, \<open>MESSAGES_PER_WRITER\<close>,
  \<open>BUFFER_CAPACITY\<close> and \<open>BATCH_SIZE\<close>.  \<open>miri-test-2.rs\<close> fills its reservations through
  the iterator, which writes the same slots.
\<close>

definition counting_square :: "nat \<Rightarrow> nat \<Rightarrow> nat \<Rightarrow> usize \<Rightarrow> nat \<Rightarrow> usize plan" where
  "counting_square N M messages ring batch =
     \<lparr>n_writers = N, m_readers = M, messages_per_writer = messages, batch_size = batch, ring_len = ring,
      table_len = of_nat (max 8 (next_power_of_two (M + 1))),
      barrier = True, checks = True, prints = False, counts = True, drops = False, seed = (\<lambda>i. 100 + of_nat i),
      message = (\<lambda>j k i. of_nat (k * batch + i))\<rparr>"

definition benchmark_market_square :: "actor list \<Rightarrow> usize world option" where
  "benchmark_market_square as =
     (let P = counting_square 5 5 1000000 16384 4 in world_run world_step P as (world_start P))"

definition miri_test_main :: "actor list \<Rightarrow> usize world option" where
  "miri_test_main as = (let P = counting_square 5 5 10000 128 1 in world_run world_step P as (world_start P))"

definition miri_test_2_main :: "actor list \<Rightarrow> usize world option" where
  "miri_test_2_main as = (let P = counting_square 5 5 10000 128 1 in world_run world_step P as (world_start P))"

lemma documented_ok: "plan_ok (documented_square s)" "market_plan_ok (documented_market s)"
proof -
  have "is_power_of_two 16" "is_power_of_two 32" by code_simp+
  then show "plan_ok (documented_square s)" "market_plan_ok (documented_market s)"
    by (simp_all add: documented_square_def documented_market_def plan_ok_def market_plan_ok_def start_ok_def ring_ok_def)
qed

lemma table_of_six: "max 8 (next_power_of_two 6) = 8"
  by (simp add: next_power_of_two_def power_from.simps)

lemma counting_ok: "plan_ok (counting_square 5 5 1000000 16384 4)" "plan_ok (counting_square 5 5 10000 128 1)"
proof -
  have "is_power_of_two 8" by code_simp
  then show "plan_ok (counting_square 5 5 1000000 16384 4)" "plan_ok (counting_square 5 5 10000 128 1)"
    by (simp_all add: counting_square_def table_of_six plan_ok_def start_ok_def ring_ok_def)
qed

section \<open>Small runs\<close>

definition small_square :: "usize plan" where
  "small_square = (counting_square 1 1 1 1 1)\<lparr>prints := True, table_len := 2\<rparr>"

definition small_square_run :: "actor list" where
  "small_square_run = replicate 25 Boss @ replicate 9 (Author 0) @ replicate 46 (Listener 0) @ replicate 4 Boss"

definition small_market :: "string plan" where
  "small_market = (documented_market (\<lambda>i. 100))\<lparr>n_writers := 1, m_readers := 1, messages_per_writer := 1, ring_len := 1, table_len := 2\<rparr>"

definition small_market_run :: "actor list" where
  "small_market_run = replicate 22 Boss @ replicate 36 (Listener 0) @ replicate 2 Boss"

lemma small_ok: "plan_ok small_square" "market_plan_ok small_market"
proof -
  have "is_power_of_two 2" by code_simp
  then show "plan_ok small_square" "market_plan_ok small_market"
    by (simp_all add: small_square_def counting_square_def small_market_def documented_market_def plan_ok_def
      market_plan_ok_def start_ok_def ring_ok_def)
qed

lemma small_square_runs:
  "\<exists>E. world_run world_step small_square small_square_run (world_start small_square) = Some E
    \<and> boss E = Done \<and> log (machine E) = [0] \<and> listeners E 0 = Gone 1"
proof -
  have "case world_run world_step small_square small_square_run (world_start small_square) of
      Some E \<Rightarrow> boss E = Done \<and> log (machine E) = [0] \<and> listeners E 0 = Gone 1 | None \<Rightarrow> False" by code_simp
  then show ?thesis by (auto split: option.splits)
qed

lemma small_market_runs:
  "\<exists>E. world_run market_step small_market small_market_run (world_start small_market) = Some E
    \<and> boss E = Done \<and> log (machine E) = [''hello from thread 0 (0)''] \<and> listeners E 0 = Gone 1"
proof -
  have "case world_run market_step small_market small_market_run (world_start small_market) of
      Some E \<Rightarrow> boss E = Done \<and> log (machine E) = [''hello from thread 0 (0)''] \<and> listeners E 0 = Gone 1 | None \<Rightarrow> False"
    by code_simp
  then show ?thesis by (auto split: option.splits)
qed

lemma separate_threads_never_panic_witness:
  "\<exists>E. world_run world_step small_square small_square_run (world_start small_square) = Some E
    \<and> log (machine E) = [0] \<and> boss E \<noteq> Aborted \<and> listeners E 0 \<noteq> Failed"
  using small_square_runs separate_threads_never_panic [OF small_ok(1), of small_square_run] by blast

lemma separate_threads_deliver_witness:
  "\<exists>E. world_run world_step small_square small_square_run (world_start small_square) = Some E
    \<and> log (machine E) = [0] \<and> listeners E 0 = Gone 1 \<and> heard E 0 = [Init 0] \<and> map snd (by_author E) = [0]"
proof -
  obtain E where E: "world_run world_step small_square small_square_run (world_start small_square) = Some E"
    "log (machine E) = [0]" "listeners E 0 = Gone 1" using small_square_runs by blast
  have "prints small_square" by (simp add: small_square_def)
  with separate_threads_deliver [OF small_ok(1) E(1), of 0] E show ?thesis by simp
qed

lemma separate_threads_never_stuck_witness:
  "\<exists>E. world_run world_step small_square small_square_run (world_start small_square) = Some E
    \<and> world_step small_square (Listener 0) E = None \<and> world_step small_square Boss E = None"
proof -
  obtain E where E: "world_run world_step small_square small_square_run (world_start small_square) = Some E"
    "boss E = Done" "listeners E 0 = Gone 1" using small_square_runs by blast
  with separate_threads_never_stuck [OF small_ok(1) E(1), of 0 0] show ?thesis by blast
qed

lemma market_threads_deliver_witness:
  "\<exists>E. world_run market_step small_market small_market_run (world_start small_market) = Some E
    \<and> log (machine E) = [''hello from thread 0 (0)''] \<and> listeners E 0 = Gone 1
    \<and> heard E 0 = [Init ''hello from thread 0 (0)'']"
proof -
  obtain E where E: "world_run market_step small_market small_market_run (world_start small_market) = Some E"
    "log (machine E) = [''hello from thread 0 (0)'']" "listeners E 0 = Gone 1" using small_market_runs by blast
  have "prints small_market" by (simp add: small_market_def documented_market_def)
  with market_threads_deliver [OF small_ok(2) E(1), of 0] E show ?thesis by simp
qed

lemma market_threads_never_stuck_witness:
  "\<exists>E. world_run market_step small_market small_market_run (world_start small_market) = Some E
    \<and> market_step small_market (Listener 0) E = None \<and> market_step small_market Boss E = None"
proof -
  obtain E where E: "world_run market_step small_market small_market_run (world_start small_market) = Some E"
    "boss E = Done" "listeners E 0 = Gone 1" using small_market_runs by blast
  with market_threads_never_stuck [OF small_ok(2) E(1), of 0] show ?thesis by blast
qed

end
